(* ===== verification/JS_Prelude.thy ===== *)
theory JS_Prelude
  imports Main "HOL-Library.Sublist"
begin

text \<open>
  Shared vocabulary of the development: JavaScript strings as lists of UTF-16 code units, the
  string operations of the standard library that the sources call (\<open>indexOf\<close>, \<open>split\<close>,
  \<open>join\<close>, \<open>startsWith\<close>, \<open>slice\<close>), and the generic lemmas on them that every component
  theory uses. The collection \<open>js_eval\<close> holds the equations that evaluate a concrete string.
\<close>

named_theorems js_eval \<open>equations that evaluate the string operations on literals\<close>

section \<open>Strings\<close>

type_synonym code_unit = nat
type_synonym jstring = "code_unit list"

text \<open>A string literal of the source that holds ASCII characters only.\<close>

definition lit :: "string \<Rightarrow> jstring" where
  "lit s = map of_char s"

declare lit_def [js_eval]

abbreviation slash :: code_unit where "slash \<equiv> 0x2F"

text \<open>
  \<open>str.indexOf(pat)\<close>; the JavaScript result \<open>-1\<close> is \<^term>\<open>None\<close>.
\<close>

fun index_of :: "'a list \<Rightarrow> 'a list \<Rightarrow> nat option" where
  "index_of p [] = (if p = [] then Some 0 else None)"
| "index_of p (x # xs) =
     (if prefix p (x # xs) then Some 0 else map_option Suc (index_of p xs))"

text \<open>\<open>str.split(sep)\<close> for a separator of one code unit.\<close>

fun split1 :: "'a \<Rightarrow> 'a list \<Rightarrow> 'a list list" where
  "split1 c [] = [[]]"
| "split1 c (x # xs) =
     (if x = c then [] # split1 c xs
      else case split1 c xs of [] \<Rightarrow> [[x]] | p # ps \<Rightarrow> (x # p) # ps)"

text \<open>\<open>arr.join(d)\<close>.\<close>

fun join :: "'a list \<Rightarrow> 'a list list \<Rightarrow> 'a list" where
  "join d [] = []"
| "join d [p] = p"
| "join d (p # q # ps) = p @ d @ join d (q # ps)"

lemma index_of_bound: "index_of p s = Some i \<Longrightarrow> i + length p \<le> length s"
  by (induction p s arbitrary: i rule: index_of.induct)
    (auto split: if_splits dest: prefix_length_le)

text \<open>\<open>str.split(sep)\<close> for a separator of any length; the empty one splits into code units.\<close>

function split_str :: "'a list \<Rightarrow> 'a list \<Rightarrow> 'a list list" where
  "split_str sep s =
     (if sep = [] then map (\<lambda>c. [c]) s
      else case index_of sep s of
             None \<Rightarrow> [s]
           | Some i \<Rightarrow> take i s # split_str sep (drop (i + length sep) s))"
  by pat_completeness auto

termination
proof (relation "measure (\<lambda>(sep, s). length s)")
  fix sep s :: "'a list" and i
  assume "sep \<noteq> []" "index_of sep s = Some i"
  then have "0 < length sep" "i + length sep \<le> length s"
    using index_of_bound by blast+
  then have "length s - (i + length sep) < length s"
    by linarith
  then show "((sep, drop (i + length sep) s), sep, s) \<in> measure (\<lambda>(sep, s). length s)"
    by simp
qed simp

declare split_str.simps [simp del]

section \<open>Exceptions\<close>

text \<open>A thrown exception is the left summand of a result.\<close>

datatype js_error = TypeError | RangeError | URIError | Thrown jstring

fun bindE :: "'e + 'a \<Rightarrow> ('a \<Rightarrow> 'e + 'b) \<Rightarrow> 'e + 'b" where
  "bindE (Inl e) f = Inl e"
| "bindE (Inr x) f = f x"

text \<open>A loop over a list that stops at the first exception and collects the results.\<close>

fun mapE :: "('a \<Rightarrow> 'e + 'b) \<Rightarrow> 'a list \<Rightarrow> 'e + 'b list" where
  "mapE f [] = Inr []"
| "mapE f (x # xs) = bindE (f x) (\<lambda>y. bindE (mapE f xs) (\<lambda>ys. Inr (y # ys)))"

text \<open>\<open>arr[i].field\<close>: reading a property of the \<open>undefined\<close> past the end throws.\<close>

definition array_get :: "'a list \<Rightarrow> int \<Rightarrow> js_error + 'a" where
  "array_get xs i = (if 0 \<le> i \<and> i < int (length xs) then Inr (xs ! nat i) else Inl TypeError)"

lemma bindE_eq_Inr_iff: "bindE r f = Inr y \<longleftrightarrow> (\<exists>x. r = Inr x \<and> f x = Inr y)"
  by (cases r) auto

lemma mapE_Inr:
  assumes "\<And>x. x \<in> set xs \<Longrightarrow> \<exists>y. f x = Inr y \<and> P x y"
  shows "\<exists>ys. mapE f xs = Inr ys \<and> list_all2 P xs ys"
  using assms
proof (induction xs)
  case (Cons x xs)
  then obtain ys where "mapE f xs = Inr ys" "list_all2 P xs ys" by auto
  moreover obtain y where "f x = Inr y" "P x y" using Cons.prems [of x] by auto
  ultimately show ?case by auto
qed simp

lemma array_get_in: "0 \<le> i \<Longrightarrow> i < int (length xs) \<Longrightarrow> array_get xs i = Inr (xs ! nat i)"
  by (simp add: array_get_def)

section \<open>Lemmas on literals\<close>

lemma lit_simps [simp]:
  "lit [] = []" "lit (s @ t) = lit s @ lit t" "length (lit s) = length s"
  "lit s = [] \<longleftrightarrow> s = []" "[] = lit s \<longleftrightarrow> s = []"
  by (simp_all add: lit_def)

lemma lit_inject [simp]: "lit s = lit t \<longleftrightarrow> s = t"
proof -
  have "inj (of_char :: char \<Rightarrow> nat)"
    by (rule injI) (metis char_of_char)
  then show ?thesis
    by (simp add: lit_def inj_map_eq_map)
qed

section \<open>Splitting and joining\<close>

lemma split1_not_Nil [simp]: "split1 c s \<noteq> []"
  by (cases s) (auto split: list.split)

lemma split1_parts: "p \<in> set (split1 c s) \<Longrightarrow> c \<notin> set p"
proof (induction c s arbitrary: p rule: split1.induct)
  case (2 c x xs)
  then show ?case
    by (cases "split1 c xs") (auto split: if_splits list.splits)
qed simp

lemma join_Cons: "ps \<noteq> [] \<Longrightarrow> join d (p # ps) = p @ d @ join d ps"
  by (cases ps) auto

lemma join_Cons_Cons_hd: "join d ((x # p) # ps) = x # join d (p # ps)"
  by (cases ps) auto

lemma join_split1 [simp]: "join [c] (split1 c s) = s"
proof (induction c s rule: split1.induct)
  case (2 c x xs)
  show ?case
  proof (cases "x = c")
    case True
    with 2 show ?thesis by (simp add: join_Cons)
  next
    case False
    with 2 show ?thesis by (auto simp: join_Cons_Cons_hd split: list.split)
  qed
qed simp

lemma split1_free: "c \<notin> set p \<Longrightarrow> split1 c p = [p]"
  by (induction p) auto

lemma split1_append:
  "c \<notin> set p \<Longrightarrow> split1 c (p @ c # s) = p # split1 c s"
  by (induction p) auto

lemma split1_append_sep: "split1 c (p @ c # s) = split1 c p @ split1 c s"
  by (induction p) (auto split: list.split)

lemma split1_join:
  "ps \<noteq> [] \<Longrightarrow> (\<forall>p \<in> set ps. c \<notin> set p) \<Longrightarrow> split1 c (join [c] ps) = ps"
  by (induction "[c]" ps rule: join.induct) (auto simp: split1_free split1_append)

lemma filter_nonempty_split1_join:
  assumes "\<forall>p \<in> set ps. c \<notin> set p \<and> p \<noteq> []"
  shows "filter (\<lambda>p. p \<noteq> []) (split1 c (join [c] ps)) = ps"
proof (cases "ps = []")
  case False
  with assms have "split1 c (join [c] ps) = ps"
    by (intro split1_join) auto
  with assms show ?thesis by (simp add: filter_id_conv)
qed simp

lemma join_append:
  "ps \<noteq> [] \<Longrightarrow> qs \<noteq> [] \<Longrightarrow> join d (ps @ qs) = join d ps @ d @ join d qs"
  by (induction d ps rule: join.induct) (auto simp: join_Cons)

lemma join_eq_Nil_iff: "join [c] ps = [] \<longleftrightarrow> ps = [] \<or> ps = [[]]"
  by (induction "[c]" ps rule: join.induct) auto

lemma set_join_subset: "set (join d ps) \<subseteq> set d \<union> \<Union> (set ` set ps)"
  by (induction d ps rule: join.induct) auto

lemma split_str_join [simp]: "sep \<noteq> [] \<Longrightarrow> join sep (split_str sep s) = s"
proof (induction sep s rule: split_str.induct)
  case (1 sep s)
  show ?case
  proof (cases "index_of sep s")
    case None
    with "1.prems" show ?thesis by (simp add: split_str.simps [of sep s])
  next
    case (Some i)
    have pre: "take (length sep) (drop i s) = sep"
      using Some by (induction sep s arbitrary: i rule: index_of.induct)
        (auto split: if_splits simp: prefix_def)
    have ne: "split_str sep (drop (i + length sep) s) \<noteq> []"
      using "1.prems" by (subst split_str.simps) (simp split: option.split)
    have "join sep (split_str sep s) = take i s @ sep @ drop (i + length sep) s"
      using "1.prems" "1.IH" [OF "1.prems" Some] ne Some
      by (simp add: split_str.simps [of sep s] join_Cons)
    also have "sep @ drop (i + length sep) s = drop i s"
      using append_take_drop_id [of "length sep" "drop i s"] pre
      by (simp add: add.commute)
    finally show ?thesis by simp
  qed
qed

lemma index_of_append:
  "sep \<noteq> [] \<Longrightarrow> hd sep \<notin> set p \<Longrightarrow> index_of sep (p @ sep @ r) = Some (length p)"
proof (induction p)
  case Nil
  then show ?case by (cases sep) auto
next
  case (Cons x p)
  then have "\<not> prefix sep (x # p @ sep @ r)" by (cases sep) auto
  with Cons show ?case by simp
qed

lemma index_of_free: "sep \<noteq> [] \<Longrightarrow> hd sep \<notin> set p \<Longrightarrow> index_of sep p = None"
  by (induction p) (auto simp: prefix_Cons)

lemma index_of_sublist: "index_of p s \<noteq> None \<longleftrightarrow> sublist p s"
  by (induction p s rule: index_of.induct) (auto simp: sublist_Cons_right)

lemma split_str_parts:
  assumes "sep \<noteq> []" "ps \<noteq> []" "\<forall>p \<in> set ps. hd sep \<notin> set p"
  shows "split_str sep (join sep ps) = ps"
  using assms(2,3)
proof (induction ps)
  case (Cons p ps)
  then have free: "hd sep \<notin> set p" by simp
  show ?case
  proof (cases "ps = []")
    case True
    then show ?thesis
      using index_of_free [OF assms(1) free] assms(1) by (simp add: split_str.simps [of sep p])
  next
    case False
    with Cons have "split_str sep (join sep ps) = ps" by simp
    with False show ?thesis
      using index_of_append [OF assms(1) free, of "join sep ps"] assms(1)
      by (simp add: join_Cons split_str.simps [of sep "p @ sep @ join sep ps"])
  qed
qed simp


section \<open>Interfaces\<close>

text \<open>
  The contract of a stateful component: an invariant that holds at the start and that every step
  keeps. Each component with a step relation interprets it.
\<close>

locale invariant_system =
  fixes init :: "'s \<Rightarrow> bool"
    and step :: "'s \<Rightarrow> 's \<Rightarrow> bool"
    and inv :: "'s \<Rightarrow> bool"
  assumes inv_init: "init s \<Longrightarrow> inv s"
    and inv_step: "step s t \<Longrightarrow> inv s \<Longrightarrow> inv t"
begin

lemma steps_inv: "step\<^sup>*\<^sup>* s t \<Longrightarrow> inv s \<Longrightarrow> inv t"
  by (induction rule: rtranclp_induct) (auto intro: inv_step)

lemma reachable_inv: "init s \<Longrightarrow> step\<^sup>*\<^sup>* s t \<Longrightarrow> inv t"
  using inv_init steps_inv by blast

end

text \<open>The contract of a printer and its reader, on the values that are good.\<close>

locale codec =
  fixes good :: "'a \<Rightarrow> bool"
    and enc :: "'a \<Rightarrow> 'b"
    and dec :: "'b \<Rightarrow> 'a"
  assumes dec_enc: "good x \<Longrightarrow> dec (enc x) = x"
begin

lemma enc_inj: "inj_on enc {x. good x}"
  by (rule inj_onI) (metis dec_enc mem_Collect_eq)

lemma dec_map: "list_all good xs \<Longrightarrow> map dec (map enc xs) = xs"
  by (induction xs) (auto simp: dec_enc)

end

end
