(* ===== verification/Markup.thy ===== *)
theory Markup
  imports JS_Prelude
begin

text \<open>
  The escaping function of the shell (\<open>esc\<close> in \<open>src/awo/web.old/src/main.js\<close>) and the reader it is
  written for: the part of HTML tokenisation that the markup of the shell exercises, with start tags
  whose attributes are double-quoted, end tags, and text with character references. The theorem of
  this theory is that markup printed with \<open>esc\<close> is read back token by token, whatever the values are.
  The carriage returns and null characters that a browser rewrites before it tokenises are left as
  they are.
\<close>

section \<open>Escaping\<close>

text \<open>\<open>s.replace(/c/g, r)\<close> for a single character.\<close>

definition replace_all :: "code_unit \<Rightarrow> jstring \<Rightarrow> jstring \<Rightarrow> jstring" where
  "replace_all c r s = concat (map (\<lambda>x. if x = c then r else [x]) s)"

text \<open>The argument is a string here; \<open>String(s || '')\<close> is then the argument itself.\<close>

definition esc :: "jstring \<Rightarrow> jstring" where
  "esc s =
     replace_all 0x3E (lit ''&gt;'')
       (replace_all 0x3C (lit ''&lt;'')
         (replace_all 0x22 (lit ''&quot;'')
           (replace_all 0x26 (lit ''&amp;'') s)))"

definition esc_char :: "code_unit \<Rightarrow> jstring" where
  "esc_char c =
     (if c = 0x26 then lit ''&amp;'' else if c = 0x22 then lit ''&quot;''
      else if c = 0x3C then lit ''&lt;'' else if c = 0x3E then lit ''&gt;'' else [c])"

lemma replace_all_simps [simp]:
  "replace_all c r [] = []" "replace_all c r (s @ t) = replace_all c r s @ replace_all c r t"
  by (simp_all add: replace_all_def)

lemma esc_simps [simp]: "esc [] = []" "esc (s @ t) = esc s @ esc t"
  by (simp_all add: esc_def)

lemma esc_single: "esc [c] = esc_char c"
  by (simp add: esc_def esc_char_def replace_all_def lit_def)

lemma esc_Cons: "esc (c # s) = esc_char c @ esc s"
  using esc_simps(2) [of "[c]" s] by (simp add: esc_single)

text \<open>Escaping leaves no character that could end an attribute or open a tag.\<close>

lemma esc_no_markup: "0x22 \<notin> set (esc s)" "0x3C \<notin> set (esc s)" "0x3E \<notin> set (esc s)"
  by (induction s) (auto simp: esc_Cons esc_char_def lit_def)

lemma esc_eq_Nil [simp]: "esc s = [] \<longleftrightarrow> s = []"
  by (cases s) (auto simp: esc_Cons esc_char_def)

definition plain :: "jstring \<Rightarrow> bool" where
  "plain s \<longleftrightarrow> set s \<inter> {0x26, 0x22, 0x3C, 0x3E} = {}"

lemma esc_plain: "plain s \<Longrightarrow> esc s = s"
  by (induction s) (auto simp: esc_Cons esc_char_def plain_def)

section \<open>Reading\<close>

datatype token = Text jstring | StartTag jstring "(jstring \<times> jstring) list" | EndTag jstring

text \<open>The four character references that the escaping produces.\<close>

function decode_refs :: "jstring \<Rightarrow> jstring" where
  "decode_refs [] = []"
| "decode_refs (c # cs) =
     (if c = 0x26 \<and> prefix (lit ''amp;'') cs then 0x26 # decode_refs (drop 4 cs)
      else if c = 0x26 \<and> prefix (lit ''quot;'') cs then 0x22 # decode_refs (drop 5 cs)
      else if c = 0x26 \<and> prefix (lit ''lt;'') cs then 0x3C # decode_refs (drop 3 cs)
      else if c = 0x26 \<and> prefix (lit ''gt;'') cs then 0x3E # decode_refs (drop 3 cs)
      else c # decode_refs cs)"
  by pat_completeness auto
termination by (relation "measure length") auto

lemma decode_esc [simp]: "decode_refs (esc s) = s"
proof (induction s)
  case (Cons c s)
  then show ?case by (simp add: esc_Cons esc_char_def lit_def)
qed simp

text \<open>\<open> key="value"\<close> repeated, up to the closing bracket.\<close>

definition after :: "code_unit \<Rightarrow> jstring \<Rightarrow> jstring" where
  "after c s = drop 1 (dropWhile (\<lambda>x. x \<noteq> c) s)"

definition before :: "code_unit \<Rightarrow> jstring \<Rightarrow> jstring" where
  "before c s = takeWhile (\<lambda>x. x \<noteq> c) s"

lemma after_length: "length (after c s) \<le> length s"
  using length_dropWhile_le [of "\<lambda>x. x \<noteq> c" s] by (simp add: after_def)

lemma before_after [simp]:
  "c \<notin> set s \<Longrightarrow> before c (s @ c # r) = s"
  "c \<notin> set s \<Longrightarrow> after c (s @ c # r) = r"
  by (induction s) (auto simp: before_def after_def)

lemma after_skip [simp]: "c \<notin> set s \<Longrightarrow> d \<noteq> c \<Longrightarrow> after c (s @ d # c # r) = r"
  using before_after(2) [of c "s @ [d]" r] by simp

function read_attrs :: "jstring \<Rightarrow> (jstring \<times> jstring) list \<times> jstring" where
  "read_attrs [] = ([], [])"
| "read_attrs (c # cs) =
     (if c = 0x20 then
        (let k = before 0x3D cs;
             v = before 0x22 (after 0x22 cs);
             (as, rest) = read_attrs (after 0x22 (after 0x22 cs))
         in ((k, decode_refs v) # as, rest))
      else ([], after 0x3E (c # cs)))"
  by pat_completeness auto
termination
proof (relation "measure length")
  fix c :: code_unit and cs
  have "length (after 0x22 (after 0x22 cs)) \<le> length cs"
    using order_trans [OF after_length after_length] .
  then show "(after 0x22 (after 0x22 cs), c # cs) \<in> measure length" by simp
qed simp

lemma read_attrs_length: "length (snd (read_attrs s)) \<le> length s"
proof (induction s rule: read_attrs.induct)
  case (2 c cs)
  show ?case
  proof (cases "c = 0x20")
    case True
    have "length (after 0x22 (after 0x22 cs)) \<le> length cs"
      using order_trans [OF after_length after_length] .
    with 2 True show ?thesis by (fastforce simp: Let_def split: prod.split)
  next
    case False
    with after_length [of "0x3E" "c # cs"] show ?thesis by simp
  qed
qed simp

abbreviation name_char :: "code_unit \<Rightarrow> bool" where
  "name_char c \<equiv> c \<noteq> 0x20 \<and> c \<noteq> 0x3E"

function tokenise :: "jstring \<Rightarrow> token list" where
  "tokenise [] = []"
| "tokenise (c # cs) =
     (if c = 0x3C then
        if cs \<noteq> [] \<and> hd cs = slash
        then EndTag (before 0x3E (tl cs)) # tokenise (after 0x3E (tl cs))
        else StartTag (takeWhile name_char cs) (fst (read_attrs (dropWhile name_char cs))) #
               tokenise (snd (read_attrs (dropWhile name_char cs)))
      else Text (decode_refs (before 0x3C (c # cs))) # tokenise (dropWhile (\<lambda>x. x \<noteq> 0x3C) (c # cs)))"
  by pat_completeness auto
termination
proof (relation "measure length")
  fix c :: code_unit and cs
  show "(snd (read_attrs (dropWhile name_char cs)), c # cs) \<in> measure length"
    using read_attrs_length [of "dropWhile name_char cs"] length_dropWhile_le [of name_char cs]
    by (simp add: le_imp_less_Suc)
  show "(after 0x3E (tl cs), c # cs) \<in> measure length"
    using after_length [of "0x3E" "tl cs"] by (cases cs) auto
  show "c \<noteq> 0x3C \<Longrightarrow> (dropWhile (\<lambda>x. x \<noteq> 0x3C) (c # cs), c # cs) \<in> measure length"
    using length_dropWhile_le [of "\<lambda>x. x \<noteq> 0x3C" cs] by (simp add: le_imp_less_Suc)
qed simp

section \<open>Printing and reading back\<close>

definition print_attr :: "jstring \<times> jstring \<Rightarrow> jstring" where
  "print_attr a = 0x20 # fst a @ lit ''=\"'' @ esc (snd a) @ [0x22]"

fun print_token :: "token \<Rightarrow> jstring" where
  "print_token (Text s) = esc s"
| "print_token (StartTag n as) = 0x3C # n @ concat (map print_attr as) @ [0x3E]"
| "print_token (EndTag n) = [0x3C, slash] @ n @ [0x3E]"

definition print_tokens :: "token list \<Rightarrow> jstring" where
  "print_tokens ts = concat (map print_token ts)"

fun good_token :: "token \<Rightarrow> bool" where
  "good_token (Text s) \<longleftrightarrow> s \<noteq> []"
| "good_token (StartTag n as) \<longleftrightarrow>
     n \<noteq> [] \<and> hd n \<noteq> slash \<and> list_all name_char n \<and> (\<forall>a \<in> set as. set (fst a) \<inter> {0x3D, 0x22} = {})"
| "good_token (EndTag n) \<longleftrightarrow> 0x3E \<notin> set n"

fun is_text :: "token \<Rightarrow> bool" where
  "is_text (Text s) = True"
| "is_text _ = False"

fun good_tokens :: "token list \<Rightarrow> bool" where
  "good_tokens [] = True"
| "good_tokens (t # ts) \<longleftrightarrow>
     good_token t \<and> (is_text t \<longrightarrow> ts = [] \<or> \<not> is_text (hd ts)) \<and> good_tokens ts"

lemma read_attrs_print:
  assumes "\<forall>a \<in> set as. set (fst a) \<inter> {0x3D, 0x22} = {}"
  shows "read_attrs (concat (map print_attr as) @ 0x3E # r) = (as, r)"
  using assms
proof (induction as)
  case Nil
  show ?case by (simp add: after_def)
next
  case (Cons a as)
  let ?r = "concat (map print_attr as) @ 0x3E # r"
  have "read_attrs ?r = (as, r)" using Cons by simp
  then have "read_attrs (0x20 # fst a @ 0x3D # 0x22 # esc (snd a) @ 0x22 # ?r) = (a # as, r)"
    using Cons.prems esc_no_markup(1) [of "snd a"] by (simp add: Let_def)
  moreover have "concat (map print_attr (a # as)) @ 0x3E # r =
      0x20 # fst a @ 0x3D # 0x22 # esc (snd a) @ 0x22 # ?r"
    by (simp add: print_attr_def [of a] lit_def)
  ultimately show ?case by simp
qed

lemma name_span:
  assumes "list_all name_char n" "r \<noteq> []" "\<not> name_char (hd r)"
  shows "takeWhile name_char (n @ r) = n" "dropWhile name_char (n @ r) = r"
proof -
  from assms obtain c cs where r: "r = c # cs" "\<not> name_char c" by (cases r) auto
  from assms(1) show "takeWhile name_char (n @ r) = n" "dropWhile name_char (n @ r) = r"
    unfolding r(1) using r(2) by (induction n) auto
qed

lemma tokenise_StartTag:
  assumes "good_token (StartTag n as)"
  shows "tokenise (print_token (StartTag n as) @ r) = StartTag n as # tokenise r"
proof -
  let ?t = "concat (map print_attr as) @ 0x3E # r"
  have "hd ?t = 0x20 \<or> hd ?t = 0x3E" by (cases as) (auto simp: print_attr_def)
  then have span: "takeWhile name_char (n @ ?t) = n" "dropWhile name_char (n @ ?t) = ?t"
    using assms by (auto intro!: name_span)
  have "\<not> (n @ ?t \<noteq> [] \<and> hd (n @ ?t) = slash)" using assms by (cases n) auto
  then have "tokenise (0x3C # n @ ?t) = StartTag n (fst (read_attrs ?t)) # tokenise (snd (read_attrs ?t))"
    by (subst tokenise.simps(2)) (simp only: span if_True if_False refl)
  then show ?thesis
    using assms read_attrs_print [of as r] by simp
qed

lemma tokenise_EndTag:
  "0x3E \<notin> set n \<Longrightarrow> tokenise (print_token (EndTag n) @ r) = EndTag n # tokenise r"
  by simp

lemma tokenise_Text:
  assumes "s \<noteq> []" "r = [] \<or> hd r = 0x3C"
  shows "tokenise (esc s @ r) = Text s # tokenise r"
proof -
  have split: "before 0x3C (e @ r) = e" "dropWhile (\<lambda>x. x \<noteq> 0x3C) (e @ r) = r" if "0x3C \<notin> set e" for e
    using that assms(2) by (cases r; induction e; auto simp: before_def)+
  obtain c cs where e: "esc s = c # cs" using assms(1) by (cases "esc s") auto
  with esc_no_markup(2) [of s] have "c \<noteq> 0x3C" by auto
  then have "tokenise (c # cs @ r) =
      Text (decode_refs (before 0x3C (c # cs @ r))) # tokenise (dropWhile (\<lambda>x. x \<noteq> 0x3C) (c # cs @ r))"
    by (simp only: tokenise.simps if_False)
  then have "tokenise (esc s @ r) =
      Text (decode_refs (before 0x3C (esc s @ r))) # tokenise (dropWhile (\<lambda>x. x \<noteq> 0x3C) (esc s @ r))"
    by (simp only: e append_Cons)
  then show ?thesis
    using split [OF esc_no_markup(2) [of s]] by (simp only: decode_esc)
qed

lemma print_tokens_head: "ts \<noteq> [] \<Longrightarrow> \<not> is_text (hd ts) \<Longrightarrow> hd (print_tokens ts) = 0x3C"
  by (cases ts; cases "hd ts") (auto simp: print_tokens_def)

lemma tokenise_print_tokens: "good_tokens ts \<Longrightarrow> tokenise (print_tokens ts) = ts"
proof (induction ts)
  case (Cons t ts)
  have p: "print_tokens (t' # ts) = print_token t' @ print_tokens ts" for t' by (simp add: print_tokens_def)
  show ?case
  proof (cases t)
    case (Text s)
    with Cons.prems have "print_tokens ts = [] \<or> hd (print_tokens ts) = 0x3C" "s \<noteq> []"
      using print_tokens_head [of ts] by (cases "ts = []"; simp add: print_tokens_def)+
    then have "tokenise (esc s @ print_tokens ts) = Text s # tokenise (print_tokens ts)"
      by (intro tokenise_Text)
    with Text Cons show ?thesis by (simp add: p)
  next
    case (StartTag n as)
    with Cons show ?thesis using tokenise_StartTag [of n as "print_tokens ts"]
      by (simp only: p good_tokens.simps)
  next
    case (EndTag n)
    with Cons show ?thesis using tokenise_EndTag [of n "print_tokens ts"]
      by (simp only: p good_tokens.simps good_token.simps not_False_eq_True simp_thms)
  qed
qed (simp add: print_tokens_def)


interpretation markup: codec good_tokens print_tokens tokenise
  by unfold_locales (rule tokenise_print_tokens)

interpretation escapes: codec "\<lambda>_. True" esc decode_refs
  by unfold_locales simp

end
