(* ===== verification/Routing.thy ===== *)
theory Routing
  imports JS_Prelude
begin

text \<open>
  The client-side router of the AWO shell (\<open>src/awo/web.old/src/main.js\<close>, section
  ``Routing''): \<open>parseRoute\<close> turns a browser path into one of six routes, four of which carry
  the SDUI endpoint the page is fetched from. The lemmas show that the endpoint mirrors the
  browser path and that a route can be read back from its endpoint.
\<close>

section \<open>Definitions\<close>

text \<open>The object \<open>parseRoute\<close> returns: its \<open>type\<close> is the constructor.\<close>

datatype route =
    Home
  | Module (route_module: jstring)
  | ListView (route_module: jstring) (route_resource: jstring) (route_url: jstring)
  | CreateView (route_module: jstring) (route_resource: jstring) (route_url: jstring)
  | EditView (route_module: jstring) (route_resource: jstring) (route_id: jstring)
      (route_url: jstring)
  | DetailView (route_module: jstring) (route_resource: jstring) (route_id: jstring)
      (route_url: jstring)

text \<open>The property read \<open>route.apiUrl\<close>; \<^term>\<open>None\<close> is \<open>undefined\<close>.\<close>

fun apiUrl :: "route \<Rightarrow> jstring option" where
  "apiUrl Home = None"
| "apiUrl (Module m) = None"
| "apiUrl (ListView m r u) = Some u"
| "apiUrl (CreateView m r u) = Some u"
| "apiUrl (EditView m r i u) = Some u"
| "apiUrl (DetailView m r i u) = Some u"

text \<open>\<open>pathname.replace(/^\/ui\/?/, '')\<close>\<close>

definition strip_ui :: "jstring \<Rightarrow> jstring" where
  "strip_ui p =
     (if prefix (lit ''/ui'') p
      then (let r = drop 3 p in if prefix [slash] r then drop 1 r else r)
      else p)"

text \<open>\<open>path.split('/').filter(Boolean)\<close>\<close>

definition segments :: "jstring \<Rightarrow> jstring list" where
  "segments p = filter (\<lambda>s. s \<noteq> []) (split1 slash p)"

definition api_base :: "jstring \<Rightarrow> jstring \<Rightarrow> jstring" where
  "api_base m r = lit ''/api/v1/ui/'' @ m @ [slash] @ r"

definition parseRoute :: "jstring \<Rightarrow> route" where
  "parseRoute pathname =
     (let parts = segments (strip_ui pathname) in
      if length parts = 0 then Home
      else if length parts = 1 then Module (parts ! 0)
      else let m = parts ! 0; r = parts ! 1; base = api_base m r in
        if length parts = 2 then ListView m r base
        else if parts ! 2 = lit ''create'' then CreateView m r (base @ lit ''/create'')
        else if length parts \<ge> 4 \<and> parts ! 3 = lit ''edit''
          then EditView m r (parts ! 2) (base @ [slash] @ parts ! 2 @ lit ''/edit'')
        else DetailView m r (parts ! 2) (base @ [slash] @ parts ! 2))"

text \<open>
  The URL format the router documents, \<open>/ui/{module}/{resource}[/create | /{id} | /{id}/edit]\<close>,
  as a predicate on paths.
\<close>

definition ui_url :: "jstring \<Rightarrow> bool" where
  "ui_url p \<longleftrightarrow>
     (let ps = segments (strip_ui p) in
      p = lit ''/ui/'' @ join [slash] ps \<and>
      (length ps = 2 \<or> length ps = 3 \<or>
       length ps = 4 \<and> ps ! 2 \<noteq> lit ''create'' \<and> ps ! 3 = lit ''edit''))"

section \<open>Segments\<close>

lemma segments_clean: "s \<in> set (segments p) \<Longrightarrow> s \<noteq> [] \<and> slash \<notin> set s"
  by (auto simp: segments_def dest: split1_parts)

lemma segments_join:
  "\<forall>s \<in> set ps. s \<noteq> [] \<and> slash \<notin> set s \<Longrightarrow> segments (join [slash] ps) = ps"
  unfolding segments_def by (rule filter_nonempty_split1_join) auto

lemma lit_slash: "lit ''/'' = [slash]"
  by (simp add: lit_def)

lemma lit_ui_slash: "lit ''/ui/'' = lit ''/ui'' @ [slash]"
  by (simp add: lit_def)

lemma lit_segment_clean [simp]:
  "slash \<notin> set (lit ''create'')" "slash \<notin> set (lit ''edit'')"
  by (simp_all add: lit_def)

lemma lit_tail_segment:
  "lit ''/create'' = [slash] @ lit ''create''" "lit ''/edit'' = [slash] @ lit ''edit''"
  by (simp_all add: lit_def)

lemma strip_ui_canonical: "strip_ui (lit ''/ui/'' @ q) = q"
  by (simp add: strip_ui_def lit_ui_slash)

lemma segments_canonical:
  "\<forall>s \<in> set ps. s \<noteq> [] \<and> slash \<notin> set s \<Longrightarrow>
   segments (strip_ui (lit ''/ui/'' @ join [slash] ps)) = ps"
  by (simp add: strip_ui_canonical segments_join)

text \<open>\<open>parseRoute\<close> by the shape of the segment list, the form the proofs below split on.\<close>

definition route_of :: "jstring list \<Rightarrow> route" where
  "route_of ps =
     (case ps of
        [] \<Rightarrow> Home
      | [m] \<Rightarrow> Module m
      | [m, r] \<Rightarrow> ListView m r (api_base m r)
      | m # r # x # rest \<Rightarrow>
          if x = lit ''create'' then CreateView m r (api_base m r @ lit ''/create'')
          else if rest \<noteq> [] \<and> hd rest = lit ''edit''
            then EditView m r x (api_base m r @ [slash] @ x @ lit ''/edit'')
          else DetailView m r x (api_base m r @ [slash] @ x))"

lemma parseRoute_route_of: "parseRoute p = route_of (segments (strip_ui p))"
  by (auto simp: parseRoute_def route_of_def Let_def Suc_le_eq hd_conv_nth numeral_2_eq_2
      numeral_3_eq_3 numeral_eq_Suc split: list.split)

text \<open>The segments a route keeps: what its endpoint spells after \<open>/api/v1/ui/\<close>.\<close>

fun route_segments :: "route \<Rightarrow> jstring list" where
  "route_segments Home = []"
| "route_segments (Module m) = [m]"
| "route_segments (ListView m r u) = [m, r]"
| "route_segments (CreateView m r u) = [m, r, lit ''create'']"
| "route_segments (EditView m r i u) = [m, r, i, lit ''edit'']"
| "route_segments (DetailView m r i u) = [m, r, i]"

lemma api_base_join: "api_base m r = lit ''/api/v1/ui/'' @ join [slash] [m, r]"
  by (simp add: api_base_def)

lemma apiUrl_route_of:
  "apiUrl (route_of ps) = Some u \<Longrightarrow>
   u = lit ''/api/v1/ui/'' @ join [slash] (route_segments (route_of ps))"
  by (auto simp: route_of_def api_base_join lit_tail_segment split: list.splits if_splits)

lemma route_of_route_segments: "route_of (route_segments (route_of ps)) = route_of ps"
  by (auto simp: route_of_def split: list.split)

lemma route_segments_clean:
  assumes "\<forall>s \<in> set ps. s \<noteq> [] \<and> slash \<notin> set s"
  shows "\<forall>s \<in> set (route_segments (route_of ps)). s \<noteq> [] \<and> slash \<notin> set s"
  using assms by (auto simp: route_of_def split: list.splits)

lemma api_prefix_split: "lit ''/api/v1/ui/'' = lit ''/api/v1'' @ lit ''/ui/''"
  by (simp add: lit_def)

section \<open>Properties\<close>

text \<open>
  C4. Endpoint round trip. Whatever path the browser shows, when the parsed route has an SDUI
  endpoint then dropping the \<open>/api/v1\<close> in front of that endpoint gives a browser path that
  parses to the very same route (same type, module, resource, id and endpoint).
\<close>

theorem parseRoute_apiUrl_roundtrip:
  assumes "apiUrl (parseRoute p) = Some u"
  shows "parseRoute (drop (length (lit ''/api/v1'')) u) = parseRoute p"
proof -
  let ?ps = "segments (strip_ui p)" and ?qs = "route_segments (route_of (segments (strip_ui p)))"
  have clean: "\<forall>s \<in> set ?qs. s \<noteq> [] \<and> slash \<notin> set s"
    by (intro route_segments_clean) (blast dest: segments_clean)
  have "u = lit ''/api/v1'' @ lit ''/ui/'' @ join [slash] ?qs"
    using assms apiUrl_route_of [of ?ps u]
    by (simp only: parseRoute_route_of api_prefix_split append_assoc)
  then have "drop (length (lit ''/api/v1'')) u = lit ''/ui/'' @ join [slash] ?qs"
    by simp
  then show ?thesis
    by (simp only: parseRoute_route_of segments_canonical [OF clean] route_of_route_segments)
qed

text \<open>
  One-to-one mapping. On a path in the documented URL format the endpoint is the browser
  path with \<open>/api/v1\<close> in front, so distinct pages have distinct endpoints.
\<close>

theorem parseRoute_mirrors_path:
  assumes "ui_url p"
  shows "apiUrl (parseRoute p) = Some (lit ''/api/v1'' @ p)"
proof -
  let ?ps = "segments (strip_ui p)"
  have p: "p = lit ''/ui/'' @ join [slash] ?ps"
    and len: "length ?ps = 2 \<or> length ?ps = 3 \<or>
       length ?ps = 4 \<and> ?ps ! 2 \<noteq> lit ''create'' \<and> ?ps ! 3 = lit ''edit''"
    using assms by (auto simp: ui_url_def Let_def)
  have "route_segments (route_of ?ps) = ?ps \<and> apiUrl (route_of ?ps) \<noteq> None"
    using len by (auto simp: route_of_def numeral_2_eq_2 numeral_3_eq_3 numeral_eq_Suc
        length_Suc_conv)
  then have "apiUrl (parseRoute p) = Some (lit ''/api/v1/ui/'' @ join [slash] ?ps)"
    using apiUrl_route_of [of ?ps] by (auto simp: parseRoute_route_of)
  also have "lit ''/api/v1/ui/'' @ join [slash] ?ps = lit ''/api/v1'' @ p"
    using p by (simp only: api_prefix_split append_assoc)
  finally show ?thesis .
qed

text \<open>Witnesses: the edit page of an invoice, reached with doubled and trailing slashes.\<close>

theorem parseRoute_apiUrl_roundtrip_witness:
  "apiUrl (parseRoute (lit ''/ui//finance/invoices/42/edit/'')) =
     Some (lit ''/api/v1/ui/finance/invoices/42/edit'') \<and>
   parseRoute (drop (length (lit ''/api/v1'')) (lit ''/api/v1/ui/finance/invoices/42/edit'')) =
     parseRoute (lit ''/ui//finance/invoices/42/edit/'')"
proof -
  have "apiUrl (parseRoute (lit ''/ui//finance/invoices/42/edit/'')) =
     Some (lit ''/api/v1/ui/finance/invoices/42/edit'')"
    by (simp add: parseRoute_def strip_ui_def segments_def api_base_def lit_def)
  then show ?thesis
    using parseRoute_apiUrl_roundtrip by blast
qed

theorem parseRoute_mirrors_path_witness:
  "ui_url (lit ''/ui/finance/invoices/create'') \<and>
   apiUrl (parseRoute (lit ''/ui/finance/invoices/create'')) =
     Some (lit ''/api/v1'' @ lit ''/ui/finance/invoices/create'')"
proof -
  have "ui_url (lit ''/ui/finance/invoices/create'')"
    by (simp add: ui_url_def strip_ui_def segments_def lit_def)
  then show ?thesis
    using parseRoute_mirrors_path by blast
qed

end
