(* ===== verification/JS_Value.thy ===== *)
theory JS_Value
  imports JS_Prelude
begin

text \<open>
  JavaScript values as far as the front end inspects them: what \<open>JSON.parse\<close> yields, and
  \<open>undefined\<close>. Numbers are exact integers; the sources only pass them on or do small integer
  arithmetic on them. An object is the list of its own properties in insertion order.
\<close>

datatype jval =
    JUndef
  | JNull
  | JBool bool
  | JNum int
  | JStr jstring
  | JArr "jval list"
  | JObj "(jstring \<times> jval) list"

fun truthy :: "jval \<Rightarrow> bool" where
  "truthy JUndef = False"
| "truthy JNull = False"
| "truthy (JBool b) = b"
| "truthy (JNum n) = (n \<noteq> 0)"
| "truthy (JStr s) = (s \<noteq> [])"
| "truthy (JArr xs) = True"
| "truthy (JObj ps) = True"

text \<open>\<open>v.name\<close> for the property names of the sources, which no built-in prototype defines.\<close>

fun get_prop :: "jval \<Rightarrow> jstring \<Rightarrow> js_error + jval" where
  "get_prop JUndef k = Inl TypeError"
| "get_prop JNull k = Inl TypeError"
| "get_prop (JObj ps) k = Inr (case map_of ps k of None \<Rightarrow> JUndef | Some v \<Rightarrow> v)"
| "get_prop _ k = Inr JUndef"

fun is_array :: "jval \<Rightarrow> bool" where
  "is_array (JArr xs) = True"
| "is_array _ = False"

text \<open>\<open>a || b\<close>\<close>

definition or_else :: "jval \<Rightarrow> jval \<Rightarrow> jval" where
  "or_else a b = (if truthy a then a else b)"

text \<open>The digits of a number, \<open>String(n)\<close>.\<close>

fun nat_digits :: "nat \<Rightarrow> jstring" where
  "nat_digits n = (if n < 10 then [0x30 + n] else nat_digits (n div 10) @ [0x30 + n mod 10])"

declare nat_digits.simps [simp del]

definition int_string :: "int \<Rightarrow> jstring" where
  "int_string n = (if n < 0 then 0x2D # nat_digits (nat (- n)) else nat_digits (nat n))"

text \<open>
  \<open>parseInt(s, 10)\<close>: leading white space, an optional sign and the longest run of digits;
  \<^term>\<open>None\<close> is \<open>NaN\<close>.
\<close>

definition js_white :: "code_unit \<Rightarrow> bool" where
  "js_white c \<longleftrightarrow> c \<in> {0x09, 0x0A, 0x0B, 0x0C, 0x0D, 0x20, 0xA0, 0x1680, 0x2028, 0x2029, 0x202F, 0x205F,
     0x3000, 0xFEFF} \<or> 0x2000 \<le> c \<and> c \<le> 0x200A"

text \<open>\<open>str.trim()\<close>\<close>

definition trim :: "jstring \<Rightarrow> jstring" where
  "trim s = rev (dropWhile js_white (rev (dropWhile js_white s)))"

abbreviation dec_digit :: "code_unit \<Rightarrow> bool" where "dec_digit c \<equiv> 0x30 \<le> c \<and> c \<le> 0x39"

definition digits_value :: "jstring \<Rightarrow> int" where
  "digits_value ds = foldl (\<lambda>n d. n * 10 + int (d - 0x30)) 0 ds"

definition parse_int :: "jstring \<Rightarrow> int option" where
  "parse_int s =
     (let t = dropWhile js_white s;
          neg = (t \<noteq> [] \<and> hd t = 0x2D);
          body = (if t \<noteq> [] \<and> (hd t = 0x2D \<or> hd t = 0x2B) then tl t else t);
          ds = takeWhile dec_digit body
      in if ds = [] then None else Some (if neg then - digits_value ds else digits_value ds))"

section \<open>Reading back a printed number\<close>

lemma nat_digits_not_Nil [simp]: "nat_digits n \<noteq> []"
  by (subst nat_digits.simps) simp

lemma nat_digits_dec: "\<forall>c \<in> set (nat_digits n). dec_digit c"
proof (induction n rule: nat_digits.induct)
  case (1 n)
  then show ?case by (subst nat_digits.simps) auto
qed

lemma digits_value_nat_digits [simp]: "digits_value (nat_digits n) = int n"
proof (induction n rule: nat_digits.induct)
  case (1 n)
  show ?case
  proof (cases "n < 10")
    case True
    then show ?thesis by (subst nat_digits.simps) (simp add: digits_value_def)
  next
    case False
    have "digits_value (nat_digits n) = digits_value (nat_digits (n div 10)) * 10 + int (n mod 10)"
      using False by (subst nat_digits.simps) (simp add: digits_value_def)
    also have "\<dots> = int (n div 10 * 10 + n mod 10)"
      by (simp only: 1 [OF False] of_nat_add of_nat_mult of_nat_numeral)
    finally show ?thesis by (simp only: div_mult_mod_eq)
  qed
qed

lemma takeWhile_nat_digits [simp]: "takeWhile dec_digit (nat_digits n) = nat_digits n"
  using nat_digits_dec [of n] by (simp add: takeWhile_eq_all_conv)

lemma nat_digits_head:
  "dropWhile js_white (nat_digits n) = nat_digits n" "hd (nat_digits n) \<noteq> 0x2D"
  "hd (nat_digits n) \<noteq> 0x2B"
proof -
  have "dec_digit (hd (nat_digits n))" using nat_digits_dec [of n] by auto
  then show "hd (nat_digits n) \<noteq> 0x2D" "hd (nat_digits n) \<noteq> 0x2B" "dropWhile js_white (nat_digits n) = nat_digits n"
    by (auto simp: dropWhile_eq_self_iff js_white_def)
qed

theorem parse_int_int_string [simp]: "parse_int (int_string n) = Some n"
  by (simp add: parse_int_def int_string_def nat_digits_head Let_def js_white_def)


interpretation numerals: codec "\<lambda>_. True" int_string "\<lambda>s. the (parse_int s)"
  by unfold_locales simp

lemma int_string_inject [simp]: "int_string m = int_string n \<longleftrightarrow> m = n"
  using numerals.enc_inj by (auto dest: inj_onD)

end
