(* ===== verification/Navigation.thy ===== *)
theory Navigation
  imports Markup Routing JS_Value
begin

text \<open>
  The sidebar of the shell (\<open>src/awo/web.old/src/main.js\<close>, sections Navigation, Sidebar and Sidebar
  Search): the menu markup, the active entry, the breadcrumb, the accordion and the search. The menu
  is kept twice: as the markup \<open>renderNav\<close> writes and as the groups and items the later operations
  find in it; \<open>renderNav_tokens\<close> shows that the markup holds exactly those.
\<close>

section \<open>Data\<close>

text \<open>\<open>NavModule\<close> and its entries, as the navigation endpoint sends them.\<close>

record nav_entry =
  e_module :: jstring
  e_label :: jstring
  e_entity :: jstring
  e_listUrl :: jstring
  e_icon :: "jstring option"

record nav_module =
  m_module :: jstring
  m_label :: jstring
  m_entries :: "nav_entry list"

text \<open>The parts of the menu's elements that the code reads or changes.\<close>

record menu_item =
  mi_url :: jstring
  mi_tooltip :: jstring
  mi_active :: bool
  mi_hidden :: bool

record menu_group =
  mg_group :: jstring
  mg_expanded :: bool
  mg_hidden :: bool
  mg_items :: "menu_item list"

section \<open>Rendering\<close>

definition MODULE_ICONS :: "(jstring \<times> jstring) list" where
  "MODULE_ICONS =
     [(lit ''finance'', lit ''fa-calculator''), (lit ''inventory'', lit ''fa-boxes-stacked''),
      (lit ''crm'', lit ''fa-users''), (lit ''hr'', lit ''fa-id-badge''),
      (lit ''platform'', lit ''fa-cogs''), (lit ''demo'', lit ''fa-flask'')]"

text \<open>
  \<open>MODULE_ICONS[mod] || 'fa-folder'\<close>; \<open>inherited\<close> gives the text of what every object inherits under
  that name, if anything.
\<close>

definition moduleIcon :: "(jstring \<Rightarrow> jstring option) \<Rightarrow> jstring \<Rightarrow> jstring" where
  "moduleIcon inherited m =
     (case map_of MODULE_ICONS m of
        Some i \<Rightarrow> i
      | None \<Rightarrow> (case inherited m of Some i \<Rightarrow> i | None \<Rightarrow> lit ''fa-folder''))"

definition entry_icon :: "nav_entry \<Rightarrow> jstring" where
  "entry_icon e = (case e_icon e of None \<Rightarrow> lit ''fa-table'' | Some i \<Rightarrow> if i \<noteq> [] then i else lit ''fa-table'')"

definition render_entry :: "nav_entry \<Rightarrow> jstring" where
  "render_entry e =
     lit ''<a class=\"menu-item\"''
     @ lit '' href=\"'' @ esc (e_listUrl e) @ lit ''\"''
     @ lit '' data-url=\"'' @ esc (e_listUrl e) @ lit ''\"''
     @ lit '' data-tooltip=\"'' @ esc (e_label e) @ lit ''\"''
     @ lit '' onclick=\"handleNavClick(event,'' @ [0x27] @ esc (e_listUrl e) @ [0x27] @ lit '')\">''
     @ lit ''<span class=\"item-icon\"><i class=\"fa '' @ esc (entry_icon e) @ lit ''\"></i></span>''
     @ lit ''<span class=\"item-label\">'' @ esc (e_label e) @ lit ''</span>''
     @ lit ''</a>''"

definition render_module :: "(jstring \<Rightarrow> jstring option) \<Rightarrow> nav_module \<Rightarrow> jstring" where
  "render_module inherited m =
     lit ''<div class=\"menu-group\" data-group=\"'' @ esc (m_module m) @ lit ''\">''
     @ lit ''<div class=\"menu-group-header\" data-tooltip=\"'' @ esc (m_label m) @ lit ''\"''
     @ lit '' onclick=\"toggleGroup('' @ [0x27] @ esc (m_module m) @ [0x27] @ lit '')\">''
     @ lit ''<span class=\"group-icon\"><i class=\"fa '' @ esc (moduleIcon inherited (m_module m)) @ lit ''\"></i></span>''
     @ lit ''<span class=\"group-label\">'' @ esc (m_label m) @ lit ''</span>''
     @ lit ''<i class=\"fa fa-chevron-down group-chevron\"></i>''
     @ lit ''</div>''
     @ lit ''<div class=\"menu-group-items\">''
     @ concat (map render_entry (m_entries m))
     @ lit ''</div></div>''"

definition renderNav :: "(jstring \<Rightarrow> jstring option) \<Rightarrow> nav_module list \<Rightarrow> jstring" where
  "renderNav inherited mods =
     (if mods = [] then
        lit ''<div style=\"padding:16px;font-size:13px;color:var(--text-muted)\">No entities registered.</div>''
      else concat (map (render_module inherited) mods))"

text \<open>The elements of that markup: fresh items are not active, fresh groups are closed.\<close>

definition menu_of :: "nav_module list \<Rightarrow> menu_group list" where
  "menu_of mods =
     map (\<lambda>m. \<lparr>mg_group = m_module m, mg_expanded = False, mg_hidden = False,
            mg_items = map (\<lambda>e. \<lparr>mi_url = e_listUrl e, mi_tooltip = e_label e, mi_active = False,
              mi_hidden = False\<rparr>) (m_entries m)\<rparr>) mods"

section \<open>The active entry and the breadcrumb\<close>

definition item_active :: "jstring \<Rightarrow> jstring \<Rightarrow> bool" where
  "item_active pathname url \<longleftrightarrow>
     pathname = url \<or> length url > 4 \<and> prefix (url @ [slash]) pathname"

definition activate :: "jstring \<Rightarrow> menu_group list \<Rightarrow> menu_group list" where
  "activate pathname menu =
     map (\<lambda>g. let items = map (\<lambda>i. i\<lparr>mi_active := item_active pathname (mi_url i)\<rparr>) (mg_items g) in
            g\<lparr>mg_items := items, mg_expanded := list_ex mi_active items\<rparr>) menu"

text \<open>The two labels, the last matching entry of the two nested loops winning.\<close>

definition crumb_entry :: "jstring \<Rightarrow> nav_module \<Rightarrow> jstring \<times> jstring \<Rightarrow> nav_entry \<Rightarrow> jstring \<times> jstring" where
  "crumb_entry pathname m labels e =
     (if pathname = e_listUrl e \<or> prefix (e_listUrl e @ [slash]) pathname then (m_label m, e_label e) else labels)"

definition crumb_labels :: "jstring \<Rightarrow> nav_module list \<Rightarrow> jstring \<times> jstring" where
  "crumb_labels pathname mods = foldl (\<lambda>ls m. foldl (crumb_entry pathname m) ls (m_entries m)) ([], []) mods"

text \<open>
  The label from the path. \<open>uc\<close> is \<open>toUpperCase\<close> on one code unit, whose tables are not part of the
  language.
\<close>

definition fallback_label :: "(jstring \<Rightarrow> jstring) \<Rightarrow> jstring \<Rightarrow> jstring" where
  "fallback_label uc pathname =
     (let seg = segments (strip_ui pathname);
          label = (if seg \<noteq> [] then replace_all 0x2D [0x20] (last seg) else lit ''Home'')
      in uc (take 1 label) @ drop 1 label)"

text \<open>The breadcrumb shows the group, if there is one, and the page.\<close>

definition breadcrumb :: "(jstring \<Rightarrow> jstring) \<Rightarrow> jstring \<Rightarrow> nav_module list \<Rightarrow> jstring option \<times> jstring" where
  "breadcrumb uc pathname mods =
     (let (groupLabel, pageLabel) = crumb_labels pathname mods;
          pageLabel = (if pageLabel = [] then fallback_label uc pathname else pageLabel)
      in (if groupLabel \<noteq> [] then Some groupLabel else None, pageLabel))"

section \<open>The accordion and the search\<close>

text \<open>
  \<open>document.querySelector('[data-group=...]')\<close>: \<open>css\<close> gives the string that a quoted selector text
  denotes, \<^term>\<open>None\<close> when the selector does not parse and the call throws.
\<close>

fun toggle_first :: "jstring \<Rightarrow> menu_group list \<Rightarrow> menu_group list" where
  "toggle_first v [] = []"
| "toggle_first v (g # gs) =
     (if mg_group g = v
      then g\<lparr>mg_expanded := \<not> mg_expanded g\<rparr> # map (\<lambda>h. h\<lparr>mg_expanded := False\<rparr>) gs
      else g\<lparr>mg_expanded := False\<rparr> # toggle_first v gs)"

definition toggleGroup ::
    "(jstring \<Rightarrow> jstring option) \<Rightarrow> jstring \<Rightarrow> menu_group list \<Rightarrow> js_error + menu_group list" where
  "toggleGroup css groupId menu =
     (case css groupId of
        None \<Rightarrow> Inl (Thrown (lit ''SyntaxError''))
      | Some v \<Rightarrow> Inr (if \<exists>g \<in> set menu. mg_group g = v then toggle_first v menu else menu))"

definition filter_item :: "(jstring \<Rightarrow> jstring) \<Rightarrow> jstring \<Rightarrow> menu_item \<Rightarrow> menu_item" where
  "filter_item lc q i = i\<lparr>mi_hidden := (index_of q (lc (mi_tooltip i)) = None)\<rparr>"

definition filter_group :: "(jstring \<Rightarrow> jstring) \<Rightarrow> jstring \<Rightarrow> menu_group \<Rightarrow> menu_group" where
  "filter_group lc q g =
     (let items = map (filter_item lc q) (mg_items g);
          hasMatch = list_ex (\<lambda>i. \<not> mi_hidden i) items
      in g\<lparr>mg_items := items, mg_hidden := \<not> hasMatch, mg_expanded := (hasMatch \<or> mg_expanded g)\<rparr>)"

text \<open>\<open>lc\<close> is \<open>toLowerCase\<close>.\<close>

definition filterNav ::
    "(jstring \<Rightarrow> jstring) \<Rightarrow> nav_module list \<Rightarrow> jstring \<Rightarrow> jstring \<Rightarrow> menu_group list \<Rightarrow> menu_group list" where
  "filterNav lc mods pathname query menu =
     (let q = lc (trim query) in
      if q = [] then activate pathname (menu_of mods) else map (filter_group lc q) menu)"


section \<open>The markup holds the menu\<close>

text \<open>
  The token stream the template means: every value stands in an attribute or a text of its own.
\<close>

definition text_token :: "jstring \<Rightarrow> token list" where
  "text_token s = (if s = [] then [] else [Text s])"

abbreviation cls :: "string \<Rightarrow> jstring \<times> jstring" where
  "cls c \<equiv> (lit ''class'', lit c)"

definition icon_tokens :: "jstring \<Rightarrow> token list" where
  "icon_tokens i = [StartTag (lit ''i'') [(lit ''class'', lit ''fa '' @ i)], EndTag (lit ''i'')]"

definition span_tokens :: "string \<Rightarrow> token list \<Rightarrow> token list" where
  "span_tokens c ts = [StartTag (lit ''span'') [cls c]] @ ts @ [EndTag (lit ''span'')]"

definition entry_tokens :: "nav_entry \<Rightarrow> token list" where
  "entry_tokens e =
     [StartTag (lit ''a'')
        [cls ''menu-item'', (lit ''href'', e_listUrl e), (lit ''data-url'', e_listUrl e),
         (lit ''data-tooltip'', e_label e),
         (lit ''onclick'', lit ''handleNavClick(event,'' @ [0x27] @ e_listUrl e @ [0x27] @ lit '')'')]]
     @ span_tokens ''item-icon'' (icon_tokens (entry_icon e))
     @ span_tokens ''item-label'' (text_token (e_label e))
     @ [EndTag (lit ''a'')]"

definition module_tokens :: "(jstring \<Rightarrow> jstring option) \<Rightarrow> nav_module \<Rightarrow> token list" where
  "module_tokens inherited m =
     [StartTag (lit ''div'') [cls ''menu-group'', (lit ''data-group'', m_module m)],
      StartTag (lit ''div'')
        [cls ''menu-group-header'', (lit ''data-tooltip'', m_label m),
         (lit ''onclick'', lit ''toggleGroup('' @ [0x27] @ m_module m @ [0x27] @ lit '')'')]]
     @ span_tokens ''group-icon'' (icon_tokens (moduleIcon inherited (m_module m)))
     @ span_tokens ''group-label'' (text_token (m_label m))
     @ icon_tokens (lit ''fa-chevron-down group-chevron'')
     @ [EndTag (lit ''div''), StartTag (lit ''div'') [cls ''menu-group-items'']]
     @ concat (map entry_tokens (m_entries m))
     @ [EndTag (lit ''div''), EndTag (lit ''div'')]"

lemma print_tokens_simps:
  "print_tokens [] = []" "print_tokens (t # ts) = print_token t @ print_tokens ts"
  "print_tokens (ts @ us) = print_tokens ts @ print_tokens us"
  by (simp_all add: print_tokens_def)

lemma print_text_token: "print_tokens (text_token s) = esc s"
  by (simp add: text_token_def print_tokens_simps)

lemmas token_defs = entry_tokens_def module_tokens_def icon_tokens_def span_tokens_def

lemma esc_lit_Cons: "esc (0x27 # s) = 0x27 # esc s" "esc (0x20 # s) = 0x20 # esc s"
  by (simp_all add: esc_Cons esc_char_def)

lemma esc_class_names:
  "esc (lit ''menu-item'') = lit ''menu-item''" "esc (lit ''menu-group'') = lit ''menu-group''"
  "esc (lit ''menu-group-header'') = lit ''menu-group-header''"
  "esc (lit ''menu-group-items'') = lit ''menu-group-items''"
  "esc (lit ''group-icon'') = lit ''group-icon''" "esc (lit ''group-label'') = lit ''group-label''"
  "esc (lit ''item-icon'') = lit ''item-icon''" "esc (lit ''item-label'') = lit ''item-label''"
  "esc (lit ''fa '') = lit ''fa ''" "esc (lit '')'') = lit '')''"
  "esc (lit ''fa-chevron-down group-chevron'') = lit ''fa-chevron-down group-chevron''"
  "esc (lit ''handleNavClick(event,'') = lit ''handleNavClick(event,''"
  "esc (lit ''toggleGroup('') = lit ''toggleGroup(''"
  by (rule esc_plain, simp add: plain_def lit_def)+

lemma render_entry_print: "render_entry e = print_tokens (entry_tokens e)"
  unfolding render_entry_def token_defs
  by (simp add: print_tokens_simps print_text_token print_attr_def esc_class_names esc_lit_Cons)
    (simp add: lit_def)

lemma render_module_print: "render_module inherited m = print_tokens (module_tokens inherited m)"
proof -
  have "concat (map render_entry es) = print_tokens (concat (map entry_tokens es))" for es
    by (induction es) (simp_all add: print_tokens_simps render_entry_print)
  then show ?thesis
    unfolding render_module_def token_defs
    by (simp add: print_tokens_simps print_text_token print_attr_def esc_class_names esc_lit_Cons)
      (simp add: lit_def)
qed


text \<open>A token list that starts and ends with a tag can be put next to any other such list.\<close>

definition tagged :: "token list \<Rightarrow> bool" where
  "tagged ts \<longleftrightarrow> good_tokens ts \<and> ts \<noteq> [] \<and> \<not> is_text (hd ts) \<and> \<not> is_text (last ts)"

lemma good_tokens_append:
  "good_tokens (ts @ us) \<longleftrightarrow>
     good_tokens ts \<and> good_tokens us \<and> (ts \<noteq> [] \<longrightarrow> us \<noteq> [] \<longrightarrow> is_text (last ts) \<longrightarrow> \<not> is_text (hd us))"
  by (induction ts) (auto simp: hd_append)

lemma tagged_append: "tagged ts \<Longrightarrow> tagged us \<Longrightarrow> tagged (ts @ us)"
  by (simp add: tagged_def good_tokens_append)

lemma tagged_concat: "xs \<noteq> [] \<Longrightarrow> (\<And>x. x \<in> set xs \<Longrightarrow> tagged (f x)) \<Longrightarrow> tagged (concat (map f xs))"
proof (induction xs)
  case (Cons x xs)
  then show ?case by (cases "xs = []") (auto intro!: tagged_append)
qed simp

lemma tagged_single: "tagged [t] \<longleftrightarrow> good_token t \<and> \<not> is_text t"
  by (auto simp: tagged_def)

lemma good_tags:
  "good_token (EndTag (lit ''i''))" "good_token (EndTag (lit ''span''))"
  "good_token (EndTag (lit ''div''))" "good_token (EndTag (lit ''a''))"
  "good_token (StartTag (lit ''i'') [(lit ''class'', a)])"
  "good_token (StartTag (lit ''span'') [(lit ''class'', a)])"
  "good_token (StartTag (lit ''div'') [(lit ''class'', a)])"
  "good_token (StartTag (lit ''div'') [(lit ''class'', a), (lit ''data-group'', b)])"
  "good_token (StartTag (lit ''div'') [(lit ''class'', a), (lit ''data-tooltip'', b), (lit ''onclick'', c)])"
  "good_token (StartTag (lit ''a'') [(lit ''class'', a), (lit ''href'', b), (lit ''data-url'', c),
     (lit ''data-tooltip'', d), (lit ''onclick'', e)])"
  by (simp_all add: lit_def)

lemma tagged_icon: "tagged (icon_tokens i)"
  unfolding icon_tokens_def tagged_def by (simp add: good_tags del: good_token.simps)

lemma tagged_span:
  "good_tokens ts \<Longrightarrow> tagged (span_tokens c ts)"
  unfolding span_tokens_def tagged_def
  by (simp add: good_tags good_tokens_append del: good_token.simps)

lemma good_text_token: "good_tokens (text_token s)"
  by (simp add: text_token_def)

lemmas tagged_intros = tagged_append tagged_span tagged_icon good_text_token

lemma tagged_good: "tagged ts \<Longrightarrow> good_tokens ts"
  by (simp add: tagged_def)

lemma tagged_entry: "tagged (entry_tokens e)"
  unfolding entry_tokens_def
  by (intro tagged_intros tagged_good [OF tagged_icon]) (simp_all add: tagged_single good_tags del: good_token.simps)

lemma tagged_two: "tagged [t, u] \<longleftrightarrow> tagged [t] \<and> tagged [u]"
  by (auto simp: tagged_def)

lemma tagged_module: "tagged (module_tokens inherited m)"
proof -
  have close: "tagged [EndTag (lit ''div''), EndTag (lit ''div'')]"
    by (simp add: tagged_two tagged_single good_tags del: good_token.simps)
  have "tagged (concat (map entry_tokens (m_entries m)) @ [EndTag (lit ''div''), EndTag (lit ''div'')])"
    using close tagged_concat [of "m_entries m" entry_tokens]
    by (cases "m_entries m = []") (auto intro: tagged_append tagged_entry)
  then show ?thesis
    unfolding module_tokens_def
    by (intro tagged_append [OF _ tagged_append [OF _ tagged_append [OF _ tagged_append [OF _ tagged_append]]]]
        tagged_span tagged_icon good_text_token tagged_good [OF tagged_icon])
      (simp_all add: tagged_two tagged_single good_tags del: good_token.simps)
qed

lemma tokenise_renderNav:
  "tokenise (renderNav inherited (m # mods)) = concat (map (module_tokens inherited) (m # mods))"
proof -
  have "concat (map (render_module inherited) ms) =
      print_tokens (concat (map (module_tokens inherited) ms))" for ms
    by (induction ms) (simp_all add: render_module_print print_tokens_simps)
  then have "renderNav inherited (m # mods) = print_tokens (concat (map (module_tokens inherited) (m # mods)))"
    unfolding renderNav_def by (simp only: list.distinct if_False)
  then show ?thesis
    by (simp only: markup.dec_enc [OF tagged_good [OF tagged_concat]] list.distinct tagged_module simp_thms)
qed


text \<open>
  What the later queries find in the tokens: a \<open>.menu-group\<close> with its \<open>data-group\<close>, and inside it the
  \<open>.menu-item\<close> elements with their \<open>data-url\<close> and \<open>data-tooltip\<close>.
\<close>

definition attr :: "(jstring \<times> jstring) list \<Rightarrow> string \<Rightarrow> jstring" where
  "attr as k = (case map_of as (lit k) of None \<Rightarrow> [] | Some v \<Rightarrow> v)"

fun read_step :: "menu_group list \<Rightarrow> token \<Rightarrow> menu_group list" where
  "read_step gs (StartTag n as) =
     (if attr as ''class'' = lit ''menu-group'' then
        gs @ [\<lparr>mg_group = attr as ''data-group'', mg_expanded = False, mg_hidden = False, mg_items = []\<rparr>]
      else if attr as ''class'' = lit ''menu-item'' \<and> gs \<noteq> [] then
        butlast gs @ [(last gs)\<lparr>mg_items := mg_items (last gs) @
          [\<lparr>mi_url = attr as ''data-url'', mi_tooltip = attr as ''data-tooltip'', mi_active = False,
            mi_hidden = False\<rparr>]\<rparr>]
      else gs)"
| "read_step gs _ = gs"

definition read_menu :: "token list \<Rightarrow> menu_group list" where
  "read_menu ts = foldl read_step [] ts"

lemma read_text [simp]: "foldl read_step gs (text_token s) = gs"
  by (simp add: text_token_def)

lemma icon_class [simp]:
  "lit ''fa '' @ i \<noteq> lit ''menu-group''" "lit ''fa '' @ i \<noteq> lit ''menu-item''"
  by (simp_all add: lit_def)

lemma read_icon [simp]: "foldl read_step gs (icon_tokens i) = gs"
  by (simp add: icon_tokens_def attr_def)

lemma read_span:
  "c \<noteq> ''menu-group'' \<Longrightarrow> c \<noteq> ''menu-item'' \<Longrightarrow> foldl read_step gs (span_tokens c ts) = foldl read_step gs ts"
  by (simp add: span_tokens_def attr_def)

lemma read_entry:
  "foldl read_step (gs @ [g]) (entry_tokens e) =
     gs @ [g\<lparr>mg_items := mg_items g @ [\<lparr>mi_url = e_listUrl e, mi_tooltip = e_label e, mi_active = False,
       mi_hidden = False\<rparr>]\<rparr>]"
  by (simp add: entry_tokens_def read_span attr_def)

lemma read_entries:
  "foldl read_step (gs @ [g]) (concat (map entry_tokens es)) =
     gs @ [g\<lparr>mg_items := mg_items g @ map (\<lambda>e. \<lparr>mi_url = e_listUrl e, mi_tooltip = e_label e, mi_active = False,
       mi_hidden = False\<rparr>) es\<rparr>]"
  by (induction es arbitrary: g) (simp_all add: read_entry)

lemma read_module: "foldl read_step gs (module_tokens inherited m) = gs @ menu_of [m]"
  by (simp add: module_tokens_def read_span attr_def read_entries menu_of_def)

lemma read_modules: "foldl read_step gs (concat (map (module_tokens inherited) ms)) = gs @ menu_of ms"
  by (induction ms arbitrary: gs) (simp_all add: read_module menu_of_def)

section \<open>Properties\<close>

text \<open>
  C8. Rendering is injection free on the level of markup and complete: whatever the labels, paths
  and icons hold, the token stream of the menu is that of the template, and the groups and items
  the other operations find in it are exactly the modules and entries, with their own names.
\<close>

theorem renderNav_menu: "read_menu (tokenise (renderNav inherited mods)) = menu_of mods"
proof (cases mods)
  case Nil
  have "renderNav inherited [] = print_tokens
      [StartTag (lit ''div'') [(lit ''style'', lit ''padding:16px;font-size:13px;color:var(--text-muted)'')],
       Text (lit ''No entities registered.''), EndTag (lit ''div'')]"
    by (simp add: renderNav_def print_tokens_simps print_attr_def)
      (simp add: lit_def esc_Cons esc_char_def)
  moreover have "good_tokens
      [StartTag (lit ''div'') [(lit ''style'', lit ''padding:16px;font-size:13px;color:var(--text-muted)'')],
       Text (lit ''No entities registered.''), EndTag (lit ''div'')]"
    by (simp add: lit_def)
  ultimately show ?thesis
    by (simp add: Nil markup.dec_enc read_menu_def attr_def menu_of_def)
next
  case (Cons m ms)
  then show ?thesis
    by (simp add: tokenise_renderNav read_menu_def read_module read_modules) (simp add: menu_of_def)
qed

text \<open>
  The escaping is not enough for the inline handlers: it keeps the apostrophe, so a module name
  with one closes the script string and the rest of the name runs as code.
\<close>

theorem group_handler_injection:
  "tokenise (renderNav (\<lambda>_. None)
     [\<lparr>m_module = lit ''x'' @ [0x27] @ lit '');alert('' @ [0x27] @ lit ''1'', m_label = lit ''X'', m_entries = []\<rparr>]) ! 1 =
   StartTag (lit ''div'')
     [(lit ''class'', lit ''menu-group-header''), (lit ''data-tooltip'', lit ''X''),
      (lit ''onclick'', lit ''toggleGroup('' @ [0x27] @ lit ''x'' @ [0x27] @ lit '');alert('' @ [0x27] @ lit ''1'' @ [0x27]
         @ lit '')'')]"
  by (simp add: tokenise_renderNav module_tokens_def)


text \<open>The list path of an entity, in the form the navigation endpoint sends it.\<close>

definition ui_path :: "jstring list \<Rightarrow> jstring" where
  "ui_path ps = lit ''/ui/'' @ join [slash] ps"

abbreviation clean :: "jstring \<Rightarrow> bool" where "clean s \<equiv> s \<noteq> [] \<and> slash \<notin> set s"

definition entity_url :: "jstring \<Rightarrow> bool" where
  "entity_url u \<longleftrightarrow> (let ps = segments (strip_ui u) in length ps = 2 \<and> u = ui_path ps)"

lemma entity_url_parts:
  assumes "entity_url u"
  obtains a b where "clean a" "clean b" "u = ui_path [a, b]"
proof -
  let ?ps = "segments (strip_ui u)"
  from assms have "length ?ps = 2" "u = ui_path ?ps" by (auto simp: entity_url_def Let_def)
  then obtain a b where ps: "?ps = [a, b]" by (auto simp: length_Suc_conv numeral_2_eq_2)
  then have "clean a" "clean b" using segments_clean [of _ "strip_ui u"] by simp_all
  moreover have "u = ui_path [a, b]" using \<open>u = ui_path ?ps\<close> by (simp only: ps)
  ultimately show ?thesis by (rule that)
qed

lemma entity_url_long: "entity_url u \<Longrightarrow> length u > 4"
  by (erule entity_url_parts) (auto simp: ui_path_def lit_def)

lemma ui_path_segments: "\<forall>s \<in> set ps. clean s \<Longrightarrow> segments (strip_ui (ui_path ps)) = ps"
  unfolding ui_path_def by (rule segments_canonical)

text \<open>Prefixes of paths, read on their segments.\<close>

lemma ui_path_prefix:
  assumes "\<forall>s \<in> set (a # b # m # r # rest). clean s"
    "ui_path (m # r # rest) = ui_path [a, b] \<or> prefix (ui_path [a, b] @ [slash]) (ui_path (m # r # rest))"
  shows "a = m \<and> b = r"
  using assms(2)
proof
  assume "ui_path (m # r # rest) = ui_path [a, b]"
  moreover have "segments (strip_ui (ui_path (m # r # rest))) = m # r # rest"
    "segments (strip_ui (ui_path [a, b])) = [a, b]"
    by (intro ui_path_segments; use assms(1) in simp)+
  ultimately show ?thesis by simp
next
  assume "prefix (ui_path [a, b] @ [slash]) (ui_path (m # r # rest))"
  then obtain x where "ui_path (m # r # rest) = ui_path [a, b] @ slash # x" by (auto simp: prefix_def)
  then have "join [slash] (m # r # rest) = a @ slash # b @ slash # x" by (simp add: ui_path_def)
  then have "split1 slash (join [slash] (m # r # rest)) = a # b # split1 slash x"
    using assms(1) by (simp add: split1_append)
  moreover have "split1 slash (join [slash] (m # r # rest)) = m # r # rest"
    using assms(1) by (intro split1_join) auto
  ultimately show ?thesis by simp
qed

lemma ui_path_self_prefix:
  "rest \<noteq> [] \<Longrightarrow> prefix (ui_path [m, r] @ [slash]) (ui_path (m # r # rest))"
  by (cases rest) (simp_all add: ui_path_def)

lemma active_entity:
  assumes "entity_url u" "\<forall>s \<in> set (m # r # rest). clean s"
  shows "(ui_path (m # r # rest) = u \<or> prefix (u @ [slash]) (ui_path (m # r # rest))) \<longleftrightarrow> u = ui_path [m, r]"
proof -
  from assms(1) obtain a b where u: "clean a" "clean b" "u = ui_path [a, b]" by (rule entity_url_parts)
  have "ui_path (m # r # rest) = u \<or> prefix (u @ [slash]) (ui_path (m # r # rest)) \<Longrightarrow> a = m \<and> b = r"
    unfolding u(3) by (rule ui_path_prefix) (use u(1,2) assms(2) in simp_all)
  moreover have "ui_path (m # r # rest) = ui_path [m, r] \<or>
      prefix (ui_path [m, r] @ [slash]) (ui_path (m # r # rest))"
    using ui_path_self_prefix [of rest m r] by (cases "rest = []") simp_all
  ultimately show ?thesis using u(3) by blast
qed

text \<open>
  C9. The menu follows the page. On any page of an entity (its list, create, detail or edit path)
  exactly the items that link to that entity's list are active, and exactly the groups with an
  active item are open.
\<close>

theorem activate_entity_page:
  assumes "\<forall>m \<in> set mods. \<forall>e \<in> set (m_entries m). entity_url (e_listUrl e)"
    "\<forall>s \<in> set (a # r # rest). clean s"
    "g \<in> set (activate (ui_path (a # r # rest)) (menu_of mods))"
  shows "(\<forall>i \<in> set (mg_items g). mi_active i \<longleftrightarrow> mi_url i = ui_path [a, r]) \<and>
    (mg_expanded g \<longleftrightarrow> (\<exists>i \<in> set (mg_items g). mi_url i = ui_path [a, r]))"
proof -
  let ?p = "ui_path (a # r # rest)"
  have "item_active ?p (e_listUrl e) \<longleftrightarrow> e_listUrl e = ui_path [a, r]"
    if "m \<in> set mods" "e \<in> set (m_entries m)" for m e
    using active_entity [OF _ assms(2), of "e_listUrl e"] entity_url_long [of "e_listUrl e"] that assms(1)
    by (auto simp: item_active_def)
  moreover from assms(3) obtain m where "m \<in> set mods"
    "mg_items g = map (\<lambda>e. \<lparr>mi_url = e_listUrl e, mi_tooltip = e_label e,
       mi_active = item_active ?p (e_listUrl e), mi_hidden = False\<rparr>) (m_entries m)"
    "mg_expanded g = list_ex mi_active (mg_items g)"
    by (auto simp: activate_def menu_of_def Let_def comp_def)
  ultimately show ?thesis by (auto simp: list_ex_iff)
qed

definition sample_nav :: "nav_module list" where
  "sample_nav =
     [\<lparr>m_module = lit ''crm'', m_label = lit ''Crm'', m_entries =
        [\<lparr>e_module = lit ''crm'', e_label = lit ''Contacts'', e_entity = lit ''crm.contact'',
          e_listUrl = lit ''/ui/crm/contacts'', e_icon = None\<rparr>]\<rparr>]"

lemma entity_url_literal: "entity_url (lit ''/ui/crm/contacts'')"
  by (simp add: entity_url_def strip_ui_def segments_def ui_path_def lit_def)

theorem activate_entity_page_witness:
  "mg_expanded (hd (activate (ui_path [lit ''crm'', lit ''contacts'', lit ''42'']) (menu_of sample_nav)))"
proof -
  let ?g = "hd (activate (ui_path [lit ''crm'', lit ''contacts'', lit ''42'']) (menu_of sample_nav))"
  have g: "?g \<in> set (activate (ui_path [lit ''crm'', lit ''contacts'', lit ''42'']) (menu_of sample_nav))"
    by (rule hd_in_set) (simp add: activate_def menu_of_def sample_nav_def)
  have "map mi_url (mg_items ?g) = [lit ''/ui/crm/contacts'']"
    by (simp add: activate_def menu_of_def sample_nav_def Let_def)
  then have "\<exists>i \<in> set (mg_items ?g). mi_url i = lit ''/ui/crm/contacts''"
    by (cases "mg_items ?g") simp_all
  moreover have "ui_path [lit ''crm'', lit ''contacts''] = lit ''/ui/crm/contacts''"
    by (simp add: ui_path_def lit_def)
  moreover have clean_parts: "\<forall>s \<in> set [lit ''crm'', lit ''contacts'', lit ''42'']. clean s"
    by (simp add: lit_def)
  moreover have "\<forall>m \<in> set sample_nav. \<forall>e \<in> set (m_entries m). entity_url (e_listUrl e)"
    by (simp add: sample_nav_def entity_url_literal)
  ultimately show ?thesis
    using activate_entity_page [OF _ clean_parts g] by simp
qed

text \<open>All entries with their modules, in the order of the two loops.\<close>

definition all_entries :: "nav_module list \<Rightarrow> (nav_module \<times> nav_entry) list" where
  "all_entries mods = concat (map (\<lambda>m. map (Pair m) (m_entries m)) mods)"

lemma foldl_last_match:
  "foldl (\<lambda>s x. if P x then f x else s) s xs =
     (if filter P xs = [] then s else f (last (filter P xs)))"
  by (induction xs arbitrary: s) auto

lemma crumb_labels_all:
  "crumb_labels p mods =
     foldl (\<lambda>ls (m, e). crumb_entry p m ls e) ([], []) (all_entries mods)"
proof -
  have "foldl (\<lambda>ls m. foldl (crumb_entry p m) ls (m_entries m)) ls mods =
      foldl (\<lambda>ls (m, e). crumb_entry p m ls e) ls (all_entries mods)" for ls
    by (induction mods arbitrary: ls) (simp_all add: all_entries_def foldl_map)
  then show ?thesis by (simp add: crumb_labels_def)
qed

text \<open>
  The breadcrumb of an entity page names the entity: the module and the label of the last entry
  that links to it, in the order of the menu. A page of no entity in the menu gets a label made of
  the last segment of its path, without a group.
\<close>

theorem breadcrumb_entity_page:
  assumes "\<forall>(m, e) \<in> set (all_entries mods). entity_url (e_listUrl e) \<and> m_label m \<noteq> [] \<and> e_label e \<noteq> []"
    "\<forall>s \<in> set (a # r # rest). clean s"
  shows "breadcrumb uc (ui_path (a # r # rest)) mods =
    (let hits = filter (\<lambda>x. e_listUrl (snd x) = ui_path [a, r]) (all_entries mods) in
     if hits = [] then (None, fallback_label uc (ui_path (a # r # rest)))
     else (Some (m_label (fst (last hits))), e_label (snd (last hits))))"
proof -
  let ?p = "ui_path (a # r # rest)"
  define hits where "hits = filter (\<lambda>x. e_listUrl (snd x) = ui_path [a, r]) (all_entries mods)"
  have "crumb_labels ?p mods =
      foldl (\<lambda>ls x. if e_listUrl (snd x) = ui_path [a, r] then (m_label (fst x), e_label (snd x)) else ls) ([], [])
        (all_entries mods)"
    unfolding crumb_labels_all
  proof (rule foldl_cong [OF refl refl])
    fix ls x
    assume "x \<in> set (all_entries mods)"
    with assms(1) have "entity_url (e_listUrl (snd x))" by (cases x) auto
    from active_entity [OF this assms(2)]
    show "(case x of (m, e) \<Rightarrow> crumb_entry ?p m ls e) =
        (if e_listUrl (snd x) = ui_path [a, r] then (m_label (fst x), e_label (snd x)) else ls)"
      by (cases x) (simp add: crumb_entry_def)
  qed
  then have labels: "crumb_labels ?p mods =
      (if hits = [] then ([], []) else (m_label (fst (last hits)), e_label (snd (last hits))))"
    by (simp only: foldl_last_match hits_def)
  have "m_label (fst (last hits)) \<noteq> [] \<and> e_label (snd (last hits)) \<noteq> []" if "hits \<noteq> []"
    using last_in_set [OF that] assms(1) by (auto simp: hits_def)
  then show ?thesis
    unfolding breadcrumb_def Let_def hits_def [symmetric] by (simp add: labels)
qed

theorem breadcrumb_entity_page_witness:
  "breadcrumb id (ui_path [lit ''crm'', lit ''contacts'', lit ''create'']) sample_nav = (Some (lit ''Crm''), lit ''Contacts'')"
  by (subst breadcrumb_entity_page)
    (simp_all add: sample_nav_def all_entries_def entity_url_literal ui_path_def, simp_all add: lit_def)

lemma toggle_first_map:
  "distinct (map mg_group menu) \<Longrightarrow>
   toggle_first v menu = map (\<lambda>g. g\<lparr>mg_expanded := (mg_group g = v \<and> \<not> mg_expanded g)\<rparr>) menu"
proof (induction menu)
  case (Cons g gs)
  have "mg_group h \<noteq> mg_group g" if "h \<in> set gs" for h
    using imageI [OF that, of mg_group] Cons.prems unfolding list.map distinct.simps set_map by metis
  with Cons show ?case by (cases "v = mg_group g") simp_all
qed simp

text \<open>
  The accordion. When the group names are distinct and the name denotes itself in the selector,
  a toggle closes every other group and flips the named one; an unknown name changes nothing, and
  neither items nor visibility are touched.
\<close>

theorem toggleGroup_accordion:
  assumes "distinct (map mg_group menu)" "css v = Some v"
  shows "toggleGroup css v menu =
    Inr (if v \<in> set (map mg_group menu)
         then map (\<lambda>g. g\<lparr>mg_expanded := (mg_group g = v \<and> \<not> mg_expanded g)\<rparr>) menu else menu)"
  using assms toggle_first_map [OF assms(1), of v] by (auto simp: toggleGroup_def)

theorem toggleGroup_accordion_witness:
  "toggleGroup Some (lit ''hr'')
     [\<lparr>mg_group = lit ''crm'', mg_expanded = True, mg_hidden = False, mg_items = []\<rparr>,
      \<lparr>mg_group = lit ''hr'', mg_expanded = False, mg_hidden = False, mg_items = []\<rparr>] =
   Inr [\<lparr>mg_group = lit ''crm'', mg_expanded = False, mg_hidden = False, mg_items = []\<rparr>,
        \<lparr>mg_group = lit ''hr'', mg_expanded = True, mg_hidden = False, mg_items = []\<rparr>]"
  by (subst toggleGroup_accordion) simp_all

lemma filter_item_hidden:
  "mi_hidden (filter_item lc q i) \<longleftrightarrow> \<not> sublist q (lc (mi_tooltip (filter_item lc q i)))"
  using index_of_sublist [of q "lc (mi_tooltip i)"]
  by (cases "index_of q (lc (mi_tooltip i))") (simp_all add: filter_item_def)

lemma filter_group_items:
  "i \<in> set (mg_items (filter_group lc q g)) \<Longrightarrow> mi_hidden i \<longleftrightarrow> \<not> sublist q (lc (mi_tooltip i))"
  unfolding filter_group_def Let_def using filter_item_hidden [of lc q] by fastforce

lemma filter_group_hidden:
  "mg_hidden (filter_group lc q g) \<longleftrightarrow> (\<forall>i \<in> set (mg_items (filter_group lc q g)). mi_hidden i)"
  by (simp add: filter_group_def Let_def list_ex_iff)

text \<open>
  The search. While the query holds more than white space, an item is visible exactly when its
  label contains the query, both in lower case, a group is visible exactly when one of its items is,
  and clearing the field afterwards brings back the menu as it is rendered for the current page.
\<close>

theorem filterNav_search:
  assumes "lc (trim query) \<noteq> []" "lc [] = []"
  shows "(\<forall>g \<in> set (filterNav lc mods path query menu).
      (\<forall>i \<in> set (mg_items g). mi_hidden i \<longleftrightarrow> \<not> sublist (lc (trim query)) (lc (mi_tooltip i))) \<and>
      (mg_hidden g \<longleftrightarrow> (\<forall>i \<in> set (mg_items g). mi_hidden i))) \<and>
    filterNav lc mods path [] (filterNav lc mods path query menu) = activate path (menu_of mods)"
proof -
  have "filterNav lc mods path query menu = map (filter_group lc (lc (trim query))) menu"
    using assms(1) by (simp add: filterNav_def Let_def)
  moreover have "filterNav lc mods path [] m = activate path (menu_of mods)" for m
    using assms(2) by (simp add: filterNav_def Let_def trim_def)
  ultimately show ?thesis
    using filter_group_items filter_group_hidden by (simp only: set_map ball_simps) blast
qed

definition sample_menu :: "menu_group list" where
  "sample_menu =
     [\<lparr>mg_group = lit ''crm'', mg_expanded = False, mg_hidden = False, mg_items =
       [\<lparr>mi_url = lit ''/ui/crm/contacts'', mi_tooltip = lit ''contacts'', mi_active = False, mi_hidden = False\<rparr>,
        \<lparr>mi_url = lit ''/ui/crm/deals'', mi_tooltip = lit ''deals'', mi_active = False, mi_hidden = False\<rparr>]\<rparr>]"

theorem filterNav_search_witness:
  "map (\<lambda>g. map mi_hidden (mg_items g)) (filterNav id [] [] (lit '' con'') sample_menu) = [[False, True]] \<and>
   \<not> mg_hidden (hd (filterNav id [] [] (lit '' con'') sample_menu))"
proof -
  let ?m = "filterNav id [] [] (lit '' con'') sample_menu"
  have q: "trim (lit '' con'') = lit ''con''" by (simp add: trim_def js_white_def lit_def)
  have items: "map (\<lambda>g. map mi_hidden (mg_items g)) ?m = [[False, True]]"
    by (simp add: filterNav_def q sample_menu_def filter_group_def filter_item_def Let_def) (simp add: lit_def)
  then have "hd ?m \<in> set ?m" "map mi_hidden (mg_items (hd ?m)) = [False, True]"
    by (cases ?m; simp)+
  moreover have "id (trim (lit '' con'')) \<noteq> []" "id [] = []" by (simp_all add: q)
  ultimately have "mg_hidden (hd ?m) \<longleftrightarrow> list_all id (map mi_hidden (mg_items (hd ?m)))"
    using filterNav_search [of id "lit '' con''" "[]" "[]" sample_menu] by (auto simp: list_all_iff)
  with items \<open>map mi_hidden (mg_items (hd ?m)) = [False, True]\<close> show ?thesis by simp
qed

end
