(* ===== verification/JS_URI.thy ===== *)
theory JS_URI
  imports JS_Prelude
begin

text \<open>
  The two URI functions of the JavaScript standard library that the front end calls,
  \<open>encodeURIComponent\<close> (the login redirect) and \<open>decodeURIComponent\<close> (the CSRF cookie), on strings of
  UTF-16 code units. The lemmas show that decoding undoes encoding and that an encoded string holds
  no character with a meaning in a query string.
\<close>

section \<open>Definitions\<close>

text \<open>The characters \<open>A-Z a-z 0-9 - _ . ! ~ * ' ( )\<close>.\<close>

definition uri_unescaped :: "code_unit \<Rightarrow> bool" where
  "uri_unescaped c \<longleftrightarrow>
     0x41 \<le> c \<and> c \<le> 0x5A \<or> 0x61 \<le> c \<and> c \<le> 0x7A \<or> 0x30 \<le> c \<and> c \<le> 0x39 \<or>
     c \<in> {0x2D, 0x5F, 0x2E, 0x21, 0x7E, 0x2A, 0x27, 0x28, 0x29}"

definition hex_digit :: "nat \<Rightarrow> code_unit" where
  "hex_digit n = (if n < 10 then 0x30 + n else 0x37 + n)"

definition hex_value :: "code_unit \<Rightarrow> nat option" where
  "hex_value c =
     (if 0x30 \<le> c \<and> c \<le> 0x39 then Some (c - 0x30)
      else if 0x41 \<le> c \<and> c \<le> 0x46 then Some (c - 0x37)
      else if 0x61 \<le> c \<and> c \<le> 0x66 then Some (c - 0x57)
      else None)"

definition pct_byte :: "nat \<Rightarrow> jstring" where
  "pct_byte b = [0x25, hex_digit (b div 16), hex_digit (b mod 16)]"

definition utf8_bytes :: "nat \<Rightarrow> nat list" where
  "utf8_bytes cp =
     (if cp < 0x80 then [cp]
      else if cp < 0x800 then [0xC0 + cp div 64, 0x80 + cp mod 64]
      else if cp < 0x10000 then [0xE0 + cp div 4096, 0x80 + cp div 64 mod 64, 0x80 + cp mod 64]
      else [0xF0 + cp div 262144, 0x80 + cp div 4096 mod 64, 0x80 + cp div 64 mod 64,
            0x80 + cp mod 64])"

definition pct_encode :: "nat \<Rightarrow> jstring" where
  "pct_encode cp = concat (map pct_byte (utf8_bytes cp))"

abbreviation is_lead :: "code_unit \<Rightarrow> bool" where "is_lead c \<equiv> 0xD800 \<le> c \<and> c \<le> 0xDBFF"
abbreviation is_trail :: "code_unit \<Rightarrow> bool" where "is_trail c \<equiv> 0xDC00 \<le> c \<and> c \<le> 0xDFFF"

fun encodeURIComponent :: "jstring \<Rightarrow> js_error + jstring" where
  "encodeURIComponent [] = Inr []"
| "encodeURIComponent [c] =
     (if uri_unescaped c then Inr [c]
      else if is_lead c \<or> is_trail c then Inl URIError
      else Inr (pct_encode c))"
| "encodeURIComponent (c # d # cs) =
     (if uri_unescaped c then bindE (encodeURIComponent (d # cs)) (\<lambda>r. Inr (c # r))
      else if is_trail c then Inl URIError
      else if is_lead c then
        if is_trail d
        then bindE (encodeURIComponent cs)
               (\<lambda>r. Inr (pct_encode (0x10000 + (c - 0xD800) * 0x400 + (d - 0xDC00)) @ r))
        else Inl URIError
      else bindE (encodeURIComponent (d # cs)) (\<lambda>r. Inr (pct_encode c @ r)))"

text \<open>One \<open>%XY\<close> escape, and a continuation byte.\<close>

fun read_pct :: "jstring \<Rightarrow> (nat \<times> jstring) option" where
  "read_pct (p # x # y # rest) =
     (if p = 0x25 then
        (case hex_value x of
           None \<Rightarrow> None
         | Some h \<Rightarrow> (case hex_value y of None \<Rightarrow> None | Some l \<Rightarrow> Some (h * 16 + l, rest)))
      else None)"
| "read_pct _ = None"

fun read_conts :: "nat \<Rightarrow> nat \<Rightarrow> jstring \<Rightarrow> (nat \<times> jstring) option" where
  "read_conts 0 acc s = Some (acc, s)"
| "read_conts (Suc n) acc s =
     (case read_pct s of
        None \<Rightarrow> None
      | Some (b, rest) \<Rightarrow>
          if 0x80 \<le> b \<and> b \<le> 0xBF then read_conts n (acc * 64 + (b - 0x80)) rest else None)"

text \<open>The code point that starts at a \<open>%\<close>; overlong forms, surrogates and values past U+10FFFF fail.\<close>

definition read_code_point :: "jstring \<Rightarrow> (nat \<times> jstring) option" where
  "read_code_point s =
     (case read_pct s of
        None \<Rightarrow> None
      | Some (b, rest) \<Rightarrow>
          if b < 0x80 then Some (b, rest)
          else if 0xC0 \<le> b \<and> b \<le> 0xDF then
            (case read_conts (Suc 0) (b - 0xC0) rest of
               None \<Rightarrow> None | Some (cp, r) \<Rightarrow> if 0x80 \<le> cp then Some (cp, r) else None)
          else if 0xE0 \<le> b \<and> b \<le> 0xEF then
            (case read_conts 2 (b - 0xE0) rest of
               None \<Rightarrow> None
             | Some (cp, r) \<Rightarrow>
                 if 0x800 \<le> cp \<and> \<not> (0xD800 \<le> cp \<and> cp \<le> 0xDFFF) then Some (cp, r) else None)
          else if 0xF0 \<le> b \<and> b \<le> 0xF7 then
            (case read_conts 3 (b - 0xF0) rest of
               None \<Rightarrow> None
             | Some (cp, r) \<Rightarrow> if 0x10000 \<le> cp \<and> cp \<le> 0x10FFFF then Some (cp, r) else None)
          else None)"

definition utf16_units :: "nat \<Rightarrow> jstring" where
  "utf16_units cp =
     (if cp < 0x10000 then [cp]
      else [0xD800 + (cp - 0x10000) div 0x400, 0xDC00 + (cp - 0x10000) mod 0x400])"

lemma read_pct_length: "read_pct s = Some (b, r) \<Longrightarrow> length r < length s"
  by (cases s rule: read_pct.cases) (auto split: if_splits option.splits)

lemma read_conts_length: "read_conts n acc s = Some (cp, r) \<Longrightarrow> length r \<le> length s"
  by (induction n acc s rule: read_conts.induct)
    (fastforce split: option.splits if_splits dest: read_pct_length)+

lemma read_code_point_length: "read_code_point s = Some (cp, r) \<Longrightarrow> length r < length s"
  by (auto simp: read_code_point_def split: option.splits if_splits
      dest!: read_pct_length read_conts_length)

function decodeURIComponent :: "jstring \<Rightarrow> js_error + jstring" where
  "decodeURIComponent [] = Inr []"
| "decodeURIComponent (c # cs) =
     (if c \<noteq> 0x25 then bindE (decodeURIComponent cs) (\<lambda>r. Inr (c # r))
      else case read_code_point (c # cs) of
             None \<Rightarrow> Inl URIError
           | Some (cp, rest) \<Rightarrow>
               bindE (decodeURIComponent rest) (\<lambda>r. Inr (utf16_units cp @ r)))"
  by pat_completeness auto
termination
  by (relation "measure length") (auto dest!: read_code_point_length)

section \<open>Decoding undoes encoding\<close>

lemma hex_roundtrip: "n < 16 \<Longrightarrow> hex_value (hex_digit n) = Some n"
  by (auto simp: hex_value_def hex_digit_def)

lemma read_pct_byte [simp]: "b < 256 \<Longrightarrow> read_pct (pct_byte b @ r) = Some (b, r)"
  by (simp add: pct_byte_def hex_roundtrip less_mult_imp_div_less)

lemma read_code_point_encode:
  assumes "cp \<le> 0x10FFFF" "\<not> (0xD800 \<le> cp \<and> cp \<le> 0xDFFF)"
  shows "read_code_point (pct_encode cp @ r) = Some (cp, r)"
proof -
  have d: "cp div 4096 = cp div 64 div 64" "cp div 262144 = cp div 4096 div 64"
    by (simp_all flip: div_mult2_eq)
  have low: "n mod 64 \<le> 63" for n :: nat by presburger
  consider "cp < 0x80" | "0x80 \<le> cp" "cp < 0x800" | "0x800 \<le> cp" "cp < 0x10000" | "0x10000 \<le> cp"
    by linarith
  then show ?thesis
  proof cases
    case 1
    then show ?thesis by (simp add: pct_encode_def utf8_bytes_def read_code_point_def)
  next
    case 2
    have "cp div 64 \<le> 31" using 2 by auto
    moreover have "cp div 64 * 64 + cp mod 64 = cp" by simp
    ultimately show ?thesis using 2 low [of cp]
      by (simp add: pct_encode_def utf8_bytes_def read_code_point_def)
  next
    case 3
    have "cp div 4096 \<le> 15" using 3 by auto
    moreover have "(cp div 4096 * 64 + cp div 64 mod 64) * 64 + cp mod 64 = cp"
      by (simp only: d div_mult_mod_eq)
    ultimately show ?thesis using 3 assms(2) low [of cp] low [of "cp div 64"]
      by (simp add: pct_encode_def utf8_bytes_def read_code_point_def numeral_2_eq_2)
  next
    case 4
    have "cp div 262144 \<le> 7" using assms(1) by auto
    moreover have "((cp div 262144 * 64 + cp div 4096 mod 64) * 64 + cp div 64 mod 64) * 64 +
        cp mod 64 = cp"
      by (simp only: d div_mult_mod_eq)
    ultimately show ?thesis using 4 assms(1) low [of cp] low [of "cp div 64"] low [of "cp div 4096"]
      by (simp add: pct_encode_def utf8_bytes_def read_code_point_def numeral_3_eq_3)
  qed
qed

lemma pct_encode_head: "\<exists>cs. pct_encode cp = 0x25 # cs"
  by (auto simp: pct_encode_def utf8_bytes_def pct_byte_def)

lemma decode_pct_encode:
  assumes "cp \<le> 0x10FFFF" "\<not> (0xD800 \<le> cp \<and> cp \<le> 0xDFFF)"
  shows "decodeURIComponent (pct_encode cp @ r) =
    bindE (decodeURIComponent r) (\<lambda>s. Inr (utf16_units cp @ s))"
proof -
  obtain cs where cs: "pct_encode cp = 0x25 # cs" using pct_encode_head by blast
  have "read_code_point (0x25 # cs @ r) = Some (cp, r)"
    using read_code_point_encode [OF assms, of r] cs by simp
  then show ?thesis by (simp add: cs)
qed

lemma utf16_units_pair:
  assumes "is_lead c" "is_trail d"
  shows "utf16_units (0x10000 + (c - 0xD800) * 0x400 + (d - 0xDC00)) = [c, d]"
    "0x10000 + (c - 0xD800) * 0x400 + (d - 0xDC00) \<le> 0x10FFFF"
    "\<not> (0xD800 \<le> 0x10000 + (c - 0xD800) * 0x400 + (d - 0xDC00) \<and>
        0x10000 + (c - 0xD800) * 0x400 + (d - 0xDC00) \<le> 0xDFFF)"
proof -
  define x y where "x = c - 0xD800" and "y = d - 0xDC00"
  then have xy: "c = 0xD800 + x" "d = 0xDC00 + y" "x < 0x400" "y < 0x400"
    using assms by auto
  have "(x * 0x400 + y) div 0x400 = x" "(x * 0x400 + y) mod 0x400 = y" using xy(4) by auto
  then show "utf16_units (0x10000 + (c - 0xD800) * 0x400 + (d - 0xDC00)) = [c, d]"
    using xy by (simp add: utf16_units_def)
qed (use assms in auto)

lemma unescaped_not_pct: "uri_unescaped c \<Longrightarrow> c \<noteq> 0x25"
  by (auto simp: uri_unescaped_def)

text \<open>\<open>jstring\<close> ranges over all numbers; a JavaScript string has 16-bit code units.\<close>

abbreviation units16 :: "jstring \<Rightarrow> bool" where "units16 s \<equiv> list_all (\<lambda>c. c < 0x10000) s"

lemma decode_encode:
  "units16 s \<Longrightarrow> encodeURIComponent s = Inr e \<Longrightarrow> decodeURIComponent e = Inr s"
proof (induction s arbitrary: e rule: encodeURIComponent.induct)
  case (2 c)
  then show ?case
    using decode_pct_encode [of c "[]"]
    by (auto simp: utf16_units_def unescaped_not_pct split: if_splits)
next
  case (3 c d cs)
  have plain: "decodeURIComponent e = Inr (c # d # cs)" if "uri_unescaped c"
    using 3 that by (auto simp: bindE_eq_Inr_iff dest: unescaped_not_pct)
  have bmp: "decodeURIComponent e = Inr (c # d # cs)"
    if "\<not> uri_unescaped c" "\<not> is_lead c" "\<not> is_trail c"
    using 3 that decode_pct_encode [of c] by (auto simp: bindE_eq_Inr_iff utf16_units_def)
  have pair: "decodeURIComponent e = Inr (c # d # cs)" if "\<not> uri_unescaped c" "is_lead c"
    using 3 that decode_pct_encode [OF utf16_units_pair(2,3) [of c d]] utf16_units_pair(1) [of c d]
    by (auto simp: bindE_eq_Inr_iff split: if_splits)
  have "\<not> uri_unescaped c \<Longrightarrow> \<not> is_trail c" using 3 by (auto split: if_splits)
  then show ?case using plain bmp pair by blast
qed simp

section \<open>Encoded strings are safe in a query\<close>

lemma hex_digit_unescaped: "n < 16 \<Longrightarrow> uri_unescaped (hex_digit n)"
  by (auto simp: hex_digit_def uri_unescaped_def)

lemma utf8_bytes_range: "cp \<le> 0x10FFFF \<Longrightarrow> b \<in> set (utf8_bytes cp) \<Longrightarrow> b < 256"
  by (auto simp: utf8_bytes_def split: if_splits)

lemma pct_byte_safe: "b < 256 \<Longrightarrow> c \<in> set (pct_byte b) \<Longrightarrow> uri_unescaped c \<or> c = 0x25"
  using hex_digit_unescaped [of "b div 16"] hex_digit_unescaped [of "b mod 16"]
  by (auto simp: pct_byte_def)

lemma pct_encode_safe:
  "cp \<le> 0x10FFFF \<Longrightarrow> c \<in> set (pct_encode cp) \<Longrightarrow> uri_unescaped c \<or> c = 0x25"
  using pct_byte_safe utf8_bytes_range by (fastforce simp: pct_encode_def)

lemma encode_safe:
  "units16 s \<Longrightarrow> encodeURIComponent s = Inr e \<Longrightarrow> c \<in> set e \<Longrightarrow> uri_unescaped c \<or> c = 0x25"
proof (induction s arbitrary: e rule: encodeURIComponent.induct)
  case (2 d)
  then show ?case using pct_encode_safe [of d c] by (auto split: if_splits)
next
  case (3 a d cs)
  then show ?case
    using pct_encode_safe [of a c] pct_encode_safe [OF utf16_units_pair(2), of a d c]
    by (auto simp: bindE_eq_Inr_iff split: if_splits)
qed simp

end
