(* ===== verification/Fetcher.thy ===== *)
theory Fetcher
  imports JS_Value JS_URI "HOL-Library.AList"
begin

text \<open>
  The request function the shell hands to AMIS (\<open>amisEnv.fetcher\<close> in
  \<open>src/awo/web.old/src/main.js\<close>): it rewrites AMIS pagination to the back end's offset and limit,
  adds the CSRF header, sends the request and normalises the answer to the AMIS envelope. URL
  parsing and printing (\<open>new URL\<close>, \<open>toString\<close>) and the network are parameters.
\<close>

section \<open>Requests\<close>

text \<open>A parsed URL: everything before the query, the query parameters in order, and the rest.\<close>

record url =
  u_base :: jstring
  u_params :: "(jstring \<times> jstring) list"
  u_hash :: jstring

record api =
  api_url :: jstring
  api_method :: "jstring option"
  api_headers :: "(jstring \<times> jstring) list option"
  api_data :: jval

record request =
  rq_url :: jstring
  rq_method :: jstring
  rq_headers :: "(jstring \<times> jstring) list"
  rq_body :: "jval option"

text \<open>\<open>URLSearchParams\<close>: \<open>get\<close>, \<open>delete\<close> and \<open>set\<close>.\<close>

definition sp_get :: "(jstring \<times> jstring) list \<Rightarrow> jstring \<Rightarrow> jstring option" where
  "sp_get ps k = map_of ps k"

definition sp_delete :: "jstring \<Rightarrow> (jstring \<times> jstring) list \<Rightarrow> (jstring \<times> jstring) list" where
  "sp_delete k ps = filter (\<lambda>(k', _). k' \<noteq> k) ps"

fun sp_set :: "jstring \<Rightarrow> jstring \<Rightarrow> (jstring \<times> jstring) list \<Rightarrow> (jstring \<times> jstring) list" where
  "sp_set k v [] = [(k, v)]"
| "sp_set k v ((k', v') # ps) =
     (if k' = k then (k, v) # sp_delete k ps else (k', v') # sp_set k v ps)"

text \<open>\<open>String((parseInt(page, 10) - 1) * limit)\<close>; a \<open>NaN\<close> operand makes the product \<open>NaN\<close>.\<close>

definition offset_string :: "jstring \<Rightarrow> int option \<Rightarrow> jstring" where
  "offset_string page limit =
     (case (parse_int page, limit) of
        (Some p, Some l) \<Rightarrow> int_string ((p - 1) * l)
      | _ \<Rightarrow> lit ''NaN'')"

text \<open>The body of the first \<open>try\<close>, on the parsed URL.\<close>

definition convert_pagination :: "url \<Rightarrow> url" where
  "convert_pagination u =
     (let page = sp_get (u_params u) (lit ''page'');
          perPage = sp_get (u_params u) (lit ''perPage'');
          ps1 = (case page of
                   None \<Rightarrow> u_params u
                 | Some pg \<Rightarrow>
                     let limit = (case perPage of
                                    None \<Rightarrow> Some 20
                                  | Some n \<Rightarrow> if n \<noteq> [] then parse_int n else Some 20)
                     in sp_set (lit ''offset'') (offset_string pg limit)
                          (sp_delete (lit ''page'') (u_params u)));
          ps2 = (case perPage of
                   None \<Rightarrow> ps1
                 | Some n \<Rightarrow> sp_set (lit ''limit'') n (sp_delete (lit ''perPage'') ps1))
      in u\<lparr>u_params := ps2\<rparr>)"

text \<open>\<open>toUpperCase\<close> on a method name, which is an ASCII token.\<close>

definition ascii_upper :: "jstring \<Rightarrow> jstring" where
  "ascii_upper s = map (\<lambda>c. if 0x61 \<le> c \<and> c \<le> 0x7A then c - 0x20 else c) s"

text \<open>
  The cookie reducer: the last \<open>csrf_token\<close> pair wins, its value is what stands between the first
  two equals signs, and a missing value is the string \<open>undefined\<close>.
\<close>

definition cookie_step :: "jstring \<Rightarrow> jstring \<Rightarrow> js_error + jstring" where
  "cookie_step v pair =
     (let kv = split1 0x3D pair in
      if kv ! 0 = lit ''csrf_token''
      then decodeURIComponent (if length kv > 1 then kv ! 1 else lit ''undefined'')
      else Inr v)"

fun foldE :: "('b \<Rightarrow> 'a \<Rightarrow> 'e + 'b) \<Rightarrow> 'b \<Rightarrow> 'a list \<Rightarrow> 'e + 'b" where
  "foldE f b [] = Inr b"
| "foldE f b (x # xs) = bindE (f b x) (\<lambda>b'. foldE f b' xs)"

definition csrf_cookie :: "jstring \<Rightarrow> js_error + jstring" where
  "csrf_cookie cookie = foldE cookie_step [] (split_str (lit ''; '') cookie)"

definition fetcher_request ::
    "(jstring \<Rightarrow> url option) \<Rightarrow> (url \<Rightarrow> jstring) \<Rightarrow> jstring \<Rightarrow> api \<Rightarrow> js_error + request" where
  "fetcher_request parse_url print_url cookie a =
     (let url = (case parse_url (api_url a) of
                   None \<Rightarrow> api_url a
                 | Some u \<Rightarrow> print_url (convert_pagination u));
          method = ascii_upper (case api_method a of
                     None \<Rightarrow> lit ''GET'' | Some m \<Rightarrow> if m \<noteq> [] then m else lit ''GET'');
          headers = foldl (\<lambda>h (k, v). AList.update k v h)
                      [(lit ''Content-Type'', lit ''application/json'')]
                      (case api_headers a of None \<Rightarrow> [] | Some h \<Rightarrow> h);
          safe = (method = lit ''GET'' \<or> method = lit ''HEAD'' \<or> method = lit ''OPTIONS'')
      in bindE (if safe then Inr [] else csrf_cookie cookie) (\<lambda>csrf.
           Inr \<lparr>rq_url = url, rq_method = method,
                rq_headers = (if csrf \<noteq> [] then AList.update (lit ''X-Csrf-Token'') csrf headers
                              else headers),
                rq_body = (if method \<noteq> lit ''GET'' \<and> method \<noteq> lit ''HEAD'' \<and> truthy (api_data a)
                           then Some (api_data a) else None)\<rparr>))"

section \<open>Responses\<close>

record response =
  res_status :: nat
  res_statusText :: jstring
  res_json :: "js_error + jval"

definition res_ok :: "response \<Rightarrow> bool" where
  "res_ok r \<longleftrightarrow> 200 \<le> res_status r \<and> res_status r \<le> 299"

text \<open>\<open>'/ui/login?next=' + encodeURIComponent(pathname)\<close>\<close>

definition login_url :: "jstring \<Rightarrow> js_error + jstring" where
  "login_url pathname = bindE (encodeURIComponent pathname) (\<lambda>e. Inr (lit ''/ui/login?next='' @ e))"

text \<open>
  The first \<open>then\<close>: the settled value, and the page the browser is sent to, if any.
\<close>

definition read_response :: "jstring \<Rightarrow> response \<Rightarrow> (js_error + jval) \<times> jstring option" where
  "read_response pathname res =
     (if res_status res = 204 then (Inr (JObj [(lit ''status'', JNum 0), (lit ''msg'', JStr [])]), None)
      else if res_status res = 401 then
        (case login_url pathname of
           Inl e \<Rightarrow> (Inl e, None)
         | Inr href \<Rightarrow> (Inl (Thrown (lit ''401'')), Some href))
      else if \<not> res_ok res then
        (let b = (case res_json res of Inl _ \<Rightarrow> JObj [] | Inr v \<Rightarrow> v) in
         (bindE (get_prop b (lit ''message'')) (\<lambda>m.
          bindE (get_prop b (lit ''msg'')) (\<lambda>m'.
            Inr (JObj [(lit ''status'', JNum (int (res_status res))),
                       (lit ''msg'', or_else m (or_else m' (JStr (res_statusText res))))]))), None))
      else (res_json res, None))"

text \<open>The second \<open>then\<close>: the envelope AMIS expects.\<close>

definition normalise :: "jval \<Rightarrow> js_error + jval" where
  "normalise json =
     (if \<not> truthy json then Inr json
      else
        bindE (get_prop json (lit ''status'')) (\<lambda>status.
        bindE (get_prop json (lit ''success'')) (\<lambda>success.
          if status \<noteq> JUndef \<and> success = JUndef then Inr json
          else
            bindE (get_prop json (lit ''data'')) (\<lambda>data.
            bindE (get_prop json (lit ''meta'')) (\<lambda>meta.
              if success \<noteq> JUndef then
                if \<not> truthy success then
                  bindE (get_prop json (lit ''message'')) (\<lambda>message.
                    Inr (JObj [(lit ''status'', JNum 1),
                               (lit ''msg'', or_else message (JStr (lit ''Request failed'')))]))
                else
                  bindE (if is_array data \<and> truthy meta then get_prop meta (lit ''pagination'')
                         else Inr JUndef) (\<lambda>pagination.
                    if truthy pagination then
                      bindE (get_prop pagination (lit ''total_records'')) (\<lambda>count.
                        Inr (JObj [(lit ''status'', JNum 0),
                                   (lit ''data'', JObj [(lit ''items'', data), (lit ''count'', count)])]))
                    else Inr (JObj [(lit ''status'', JNum 0), (lit ''data'', data), (lit ''msg'', JStr [])]))
              else
                bindE (if is_array data \<and> truthy meta then get_prop meta (lit ''total'')
                       else Inr JUndef) (\<lambda>count.
                  if count \<noteq> JUndef
                  then Inr (JObj [(lit ''status'', JNum 0),
                                  (lit ''data'', JObj [(lit ''items'', data), (lit ''count'', count)])])
                  else Inr json))))))"

text \<open>
  The final \<open>catch\<close>. The messages of the engine's own errors are not specified by the language,
  so \<open>emsg\<close> gives them.
\<close>

definition network_error :: "(js_error \<Rightarrow> jstring) \<Rightarrow> js_error \<Rightarrow> jval" where
  "network_error emsg e =
     JObj [(lit ''status'', JNum 1),
           (lit ''msg'', JStr (lit ''Network error: '' @ (case e of Thrown m \<Rightarrow> m | _ \<Rightarrow> emsg e)))]"

definition settle :: "(js_error \<Rightarrow> jstring) \<Rightarrow> jstring \<Rightarrow> js_error + response \<Rightarrow> jval \<times> jstring option" where
  "settle emsg pathname outcome =
     (let (r, href) = (case outcome of Inl e \<Rightarrow> (Inl e, None) | Inr res \<Rightarrow> read_response pathname res)
      in (case bindE r normalise of Inl e \<Rightarrow> network_error emsg e | Inr v \<Rightarrow> v, href))"

text \<open>The whole fetcher: an exception thrown before the request, or what the promise resolves to.\<close>

definition fetcher ::
    "(jstring \<Rightarrow> url option) \<Rightarrow> (url \<Rightarrow> jstring) \<Rightarrow> (js_error \<Rightarrow> jstring) \<Rightarrow>
     (request \<Rightarrow> js_error + response) \<Rightarrow> jstring \<Rightarrow> jstring \<Rightarrow> api \<Rightarrow> js_error + (jval \<times> jstring option)"
  where
  "fetcher parse_url print_url emsg fetch cookie pathname a =
     bindE (fetcher_request parse_url print_url cookie a)
       (\<lambda>rq. Inr (settle emsg pathname (fetch rq)))"

section \<open>The envelope\<close>

text \<open>An object AMIS takes as it is: \<open>status\<close> is there and \<open>success\<close> is not.\<close>

definition amis_envelope :: "jval \<Rightarrow> bool" where
  "amis_envelope v \<longleftrightarrow> (\<exists>s ps. v = JObj ps \<and> map_of ps (lit ''status'') = Some s \<and> s \<noteq> JUndef \<and>
     map_of ps (lit ''success'') = None)"

lemma normalise_envelope: "amis_envelope v \<Longrightarrow> normalise v = Inr v"
  by (auto simp: amis_envelope_def normalise_def)

lemma status_object_envelope:
  "map_of ps (lit ''success'') = None \<Longrightarrow> amis_envelope (JObj ((lit ''status'', JNum n) # ps))"
  by (simp add: amis_envelope_def)

lemma get_prop_truthy: "truthy v \<Longrightarrow> \<exists>x. get_prop v k = Inr x"
  by (cases v) auto

lemma normalise_result:
  "\<exists>w. normalise v = Inr w \<and> (w = v \<or> amis_envelope w)"
proof (cases "truthy v")
  case False
  then show ?thesis by (simp add: normalise_def)
next
  case True
  from get_prop_truthy [OF True] obtain status success data meta message
    where p: "get_prop v (lit ''status'') = Inr status" "get_prop v (lit ''success'') = Inr success"
      "get_prop v (lit ''data'') = Inr data" "get_prop v (lit ''meta'') = Inr meta"
      "get_prop v (lit ''message'') = Inr message"
    by metis
  have opt: "\<exists>x. (if is_array data \<and> truthy meta then get_prop meta k else Inr JUndef) = Inr x" for k
    using get_prop_truthy [of meta k] by auto
  from opt obtain pagination total
    where q: "(if is_array data \<and> truthy meta then get_prop meta (lit ''pagination'') else Inr JUndef) =
        Inr pagination"
      "(if is_array data \<and> truthy meta then get_prop meta (lit ''total'') else Inr JUndef) = Inr total"
    by metis
  have r: "truthy pagination \<Longrightarrow> \<exists>c. get_prop pagination (lit ''total_records'') = Inr c"
    by (rule get_prop_truthy)
  show ?thesis
    unfolding normalise_def using True r
    by (cases "truthy pagination") (auto simp: p q intro!: status_object_envelope)
qed

section \<open>Query parameters\<close>

lemma sp_get_delete [simp]:
  "sp_get (sp_delete k ps) k' = (if k' = k then None else sp_get ps k')"
  by (induction ps) (auto simp: sp_get_def sp_delete_def)

lemma sp_get_set [simp]: "sp_get (sp_set k v ps) k' = (if k' = k then Some v else sp_get ps k')"
proof (induction k v ps rule: sp_set.induct)
  case (2 k v k1 v1 ps)
  then show ?case
    using sp_get_delete [of k ps k'] by (auto simp: sp_get_def)
qed (auto simp: sp_get_def)

section \<open>Cookies\<close>

lemma foldE_append: "foldE f b (xs @ ys) = bindE (foldE f b xs) (\<lambda>b'. foldE f b' ys)"
proof (induction xs arbitrary: b)
  case (Cons x xs)
  then show ?case by (cases "f b x") auto
qed simp

text \<open>A cookie pair as the browser prints it.\<close>

definition cookie_pair :: "jstring \<Rightarrow> jstring \<Rightarrow> jstring" where
  "cookie_pair name v = name @ [0x3D] @ v"

lemma cookie_step_other:
  "0x3D \<notin> set name \<Longrightarrow> name \<noteq> lit ''csrf_token'' \<Longrightarrow> cookie_step v (cookie_pair name x) = Inr v"
  by (simp add: cookie_step_def cookie_pair_def split1_append)

lemma lit_csrf_free [simp]: "0x3D \<notin> set (lit ''csrf_token'')"
  by (simp add: lit_def)

lemma cookie_step_csrf:
  "cookie_step v (cookie_pair (lit ''csrf_token'') x) = decodeURIComponent (hd (split1 0x3D x))"
  by (simp add: cookie_step_def cookie_pair_def split1_append hd_conv_nth)

lemma foldE_cookie_others:
  "\<forall>p \<in> set qs. 0x3D \<notin> set (fst p) \<and> fst p \<noteq> lit ''csrf_token'' \<Longrightarrow>
   foldE cookie_step v (map (\<lambda>p. cookie_pair (fst p) (snd p)) qs) = Inr v"
  by (induction qs) (auto simp: cookie_step_other)

section \<open>Properties\<close>

text \<open>
  Normalising never throws and is idempotent: a reply that has been brought to the AMIS
  envelope is left alone by a second pass.
\<close>

theorem normalise_idempotent: "\<exists>w. normalise v = Inr w \<and> normalise w = Inr w"
  using normalise_result [of v] normalise_envelope by metis

text \<open>
  The two list replies of the back end: a success envelope with nested pagination, and a plain list
  with its total.
\<close>

definition list_reply :: "(jstring \<times> jval) list \<Rightarrow> jval list \<Rightarrow> jval \<Rightarrow> bool" where
  "list_reply ps items n \<longleftrightarrow>
     map_of ps (lit ''data'') = Some (JArr items) \<and>
     (case map_of ps (lit ''meta'') of
        Some (JObj ms) \<Rightarrow>
          (case map_of ps (lit ''success'') of
             Some s \<Rightarrow> s \<noteq> JUndef \<and> truthy s \<and>
               (case map_of ms (lit ''pagination'') of
                  Some (JObj qs) \<Rightarrow> map_of qs (lit ''total_records'') = Some n
                | _ \<Rightarrow> False)
           | None \<Rightarrow> map_of ps (lit ''status'') = None \<and> map_of ms (lit ''total'') = Some n \<and> n \<noteq> JUndef)
      | _ \<Rightarrow> False)"

lemma normalise_success_list:
  assumes "map_of ps (lit ''success'') = Some s" "s \<noteq> JUndef" "truthy s"
    "map_of ps (lit ''data'') = Some (JArr items)" "map_of ps (lit ''meta'') = Some (JObj ms)"
    "map_of ms (lit ''pagination'') = Some (JObj qs)" "map_of qs (lit ''total_records'') = Some n"
  shows "normalise (JObj ps) =
    Inr (JObj [(lit ''status'', JNum 0),
               (lit ''data'', JObj [(lit ''items'', JArr items), (lit ''count'', n)])])"
  using assms by (simp add: normalise_def)

lemma normalise_plain_list:
  assumes "map_of ps (lit ''success'') = None" "map_of ps (lit ''status'') = None"
    "map_of ps (lit ''data'') = Some (JArr items)" "map_of ps (lit ''meta'') = Some (JObj ms)"
    "map_of ms (lit ''total'') = Some n" "n \<noteq> JUndef"
  shows "normalise (JObj ps) =
    Inr (JObj [(lit ''status'', JNum 0),
               (lit ''data'', JObj [(lit ''items'', JArr items), (lit ''count'', n)])])"
  using assms by (simp add: normalise_def)

text \<open>
  Lists. Both list replies of the back end become \<open>status\<close> 0 with the rows as \<open>items\<close> and the
  total as \<open>count\<close>.
\<close>

theorem normalise_list_reply:
  assumes "list_reply ps items n"
  shows "normalise (JObj ps) =
    Inr (JObj [(lit ''status'', JNum 0),
               (lit ''data'', JObj [(lit ''items'', JArr items), (lit ''count'', n)])])"
proof -
  from assms obtain ms where data: "map_of ps (lit ''data'') = Some (JArr items)"
    and meta: "map_of ps (lit ''meta'') = Some (JObj ms)"
    by (auto simp: list_reply_def split: option.splits jval.splits)
  show ?thesis
  proof (cases "map_of ps (lit ''success'')")
    case None
    with assms data meta show ?thesis
      by (intro normalise_plain_list) (auto simp: list_reply_def)
  next
    case (Some s)
    with assms meta obtain qs where "map_of ms (lit ''pagination'') = Some (JObj qs)"
      "map_of qs (lit ''total_records'') = Some n" "s \<noteq> JUndef" "truthy s"
      by (auto simp: list_reply_def split: option.splits jval.splits)
    with Some data meta show ?thesis by (intro normalise_success_list) auto
  qed
qed

theorem normalise_list_reply_witness:
  "normalise (JObj [(lit ''data'', JArr [JNum 7]), (lit ''meta'', JObj [(lit ''total'', JNum 31)])]) =
    Inr (JObj [(lit ''status'', JNum 0),
               (lit ''data'', JObj [(lit ''items'', JArr [JNum 7]), (lit ''count'', JNum 31)])])"
  by (rule normalise_list_reply) (simp add: list_reply_def)

text \<open>
  C5. Pagination. When AMIS asks for page \<open>p\<close> of \<open>n\<close> rows, the back end gets offset
  \<open>(p - 1) * n\<close> and limit \<open>n\<close>, the AMIS parameters are gone and every other one is as it was.
\<close>

theorem convert_pagination_offset:
  assumes "sp_get (u_params u) (lit ''page'') = Some (int_string p)"
    "sp_get (u_params u) (lit ''perPage'') = Some (int_string n)"
  shows "sp_get (u_params (convert_pagination u)) k =
    (if k = lit ''offset'' then Some (int_string ((p - 1) * n))
     else if k = lit ''limit'' then Some (int_string n)
     else if k = lit ''page'' \<or> k = lit ''perPage'' then None
     else sp_get (u_params u) k)"
proof -
  have "int_string n \<noteq> []" by (simp add: int_string_def)
  with assms show ?thesis
    by (simp add: convert_pagination_def offset_string_def Let_def)
qed

theorem convert_pagination_offset_witness:
  "sp_get (u_params (convert_pagination
     \<lparr>u_base = lit ''/api/v1/crm/contacts'',
      u_params = [(lit ''page'', int_string 3), (lit ''q'', lit ''x''), (lit ''perPage'', int_string 20)],
      u_hash = []\<rparr>)) (lit ''offset'') = Some (int_string 40)"
  by (subst convert_pagination_offset [where p = 3 and n = 20]) (simp_all add: sp_get_def)

text \<open>
  C6. CSRF double submit. If the cookie jar holds the pair \<open>csrf_token\<close> with the encoded form of a
  token, and no later pair of that name, then every request whose method is not \<open>GET\<close>, \<open>HEAD\<close> or
  \<open>OPTIONS\<close> carries exactly that token in the header \<open>X-Csrf-Token\<close>; the read-only methods never
  look at the cookie.
\<close>

theorem fetcher_request_csrf:
  assumes token: "units16 t" "t \<noteq> []" "encodeURIComponent t = Inr e"
    and others: "\<forall>p \<in> set (ps @ qs). 0x3D \<notin> set (fst p) \<and> 0x3B \<notin> set (fst p) \<and>
       0x3B \<notin> set (snd p) \<and> fst p \<noteq> lit ''csrf_token''"
    and cookie: "cookie = join (lit ''; '') (map (\<lambda>p. cookie_pair (fst p) (snd p))
       (ps @ (lit ''csrf_token'', e) # qs))"
    and verb: "api_method a = Some m" "m \<noteq> []"
      "ascii_upper m \<notin> {lit ''GET'', lit ''HEAD'', lit ''OPTIONS''}"
  shows "\<exists>rq. fetcher_request parse_url print_url cookie a = Inr rq \<and>
    map_of (rq_headers rq) (lit ''X-Csrf-Token'') = Some t"
proof -
  let ?pair = "\<lambda>p. cookie_pair (fst p) (snd p)"
  have "c \<noteq> 0x3D \<and> c \<noteq> 0x3B" if "c \<in> set e" for c
    using encode_safe [OF token(1,3) that] by (auto simp: uri_unescaped_def)
  then have e: "0x3D \<notin> set e" "0x3B \<notin> set e" by auto
  have name: "0x3B \<notin> set (lit ''csrf_token'')" by (simp add: lit_def)
  have sep: "lit ''; '' = [0x3B, 0x20]" by (simp add: lit_def)
  have "0x3B \<notin> set (?pair p)" if "p \<in> set (ps @ qs)" for p
    using bspec [OF others that] by (simp add: cookie_pair_def)
  then have "\<forall>p \<in> ?pair ` set (ps @ qs). 0x3B \<notin> set p" by blast
  moreover have "0x3B \<notin> set (cookie_pair (lit ''csrf_token'') e)"
    using e name by (simp add: cookie_pair_def)
  ultimately have "\<forall>p \<in> set (map ?pair (ps @ (lit ''csrf_token'', e) # qs)). 0x3B \<notin> set p"
    unfolding set_map by (simp add: image_Un ball_Un)
  then have "split_str (lit ''; '') cookie =
      map ?pair ps @ cookie_pair (lit ''csrf_token'') e # map ?pair qs"
    unfolding cookie sep by (subst split_str_parts) auto
  moreover have "foldE cookie_step [] (map ?pair ps) = Inr []" "foldE cookie_step t (map ?pair qs) = Inr t"
    using others by (auto intro!: foldE_cookie_others)
  moreover have "cookie_step [] (cookie_pair (lit ''csrf_token'') e) = Inr t"
    using decode_encode [OF token(1,3)] e(1) by (simp add: cookie_step_csrf split1_free)
  ultimately have "csrf_cookie cookie = Inr t"
    by (simp add: csrf_cookie_def foldE_append)
  then show ?thesis
    using token(2) verb by (simp add: fetcher_request_def Let_def update_conv')
qed

theorem fetcher_request_csrf_witness:
  "\<exists>rq. fetcher_request (\<lambda>_. None) u_base (lit ''sid=9; csrf_token=a; lang=en'')
     \<lparr>api_url = lit ''/api/v1/crm/contacts'', api_method = Some (lit ''post''), api_headers = None,
      api_data = JNull\<rparr> = Inr rq \<and>
    map_of (rq_headers rq) (lit ''X-Csrf-Token'') = Some (lit ''a'')"
  by (rule fetcher_request_csrf [where e = "lit ''a''" and m = "lit ''post''"
        and ps = "[(lit ''sid'', lit ''9'')]" and qs = "[(lit ''lang'', lit ''en'')]"])
    (simp_all add: lit_def uri_unescaped_def cookie_pair_def ascii_upper_def)

text \<open>
  C7. Expired sessions. An unauthorised reply sends the browser to the login page with the current
  path in \<open>next\<close>, from where it can be read back exactly; AMIS sees status 1.
\<close>

theorem settle_unauthorised:
  assumes "units16 path" "encodeURIComponent path = Inr e" "res_status res = 401"
  shows "settle emsg path (Inr res) =
      (JObj [(lit ''status'', JNum 1), (lit ''msg'', JStr (lit ''Network error: 401''))],
       Some (lit ''/ui/login?next='' @ e)) \<and>
    decodeURIComponent e = Inr path"
  using assms decode_encode [OF assms(1,2)]
  by (simp add: settle_def read_response_def login_url_def network_error_def flip: lit_simps(2))

theorem settle_unauthorised_witness:
  "settle (\<lambda>_. []) (lit ''/ui'') (Inr \<lparr>res_status = 401, res_statusText = [], res_json = Inl TypeError\<rparr>) =
      (JObj [(lit ''status'', JNum 1), (lit ''msg'', JStr (lit ''Network error: 401''))],
       Some (lit ''/ui/login?next='' @ lit ''%2Fui'')) \<and>
    decodeURIComponent (lit ''%2Fui'') = Inr (lit ''/ui'')"
  by (rule settle_unauthorised)
    (simp_all add: lit_def uri_unescaped_def pct_encode_def pct_byte_def utf8_bytes_def hex_digit_def)

text \<open>
  Error replies. A reply that is neither ok nor unauthorised reaches AMIS with its HTTP status
  and the first usable message of \<open>message\<close>, \<open>msg\<close> and the status text; a body that is not JSON
  counts as the empty object. The browser stays where it is.
\<close>

theorem settle_http_error:
  assumes "res_status res \<notin> {401, 204}" "\<not> res_ok res"
    "res_json res = Inr (JObj ps) \<or> (\<exists>err. res_json res = Inl err) \<and> ps = []"
  shows "settle emsg path (Inr res) =
    (JObj [(lit ''status'', JNum (int (res_status res))),
           (lit ''msg'', or_else (case map_of ps (lit ''message'') of None \<Rightarrow> JUndef | Some v \<Rightarrow> v)
              (or_else (case map_of ps (lit ''msg'') of None \<Rightarrow> JUndef | Some v \<Rightarrow> v)
                (JStr (res_statusText res))))], None)"
  using assms by (auto simp: settle_def read_response_def normalise_envelope status_object_envelope)

theorem settle_http_error_witness:
  "settle (\<lambda>_. []) (lit ''/ui'')
     (Inr \<lparr>res_status = 409, res_statusText = lit ''Conflict'',
       res_json = Inr (JObj [(lit ''msg'', JStr (lit ''taken''))])\<rparr>) =
    (JObj [(lit ''status'', JNum 409), (lit ''msg'', JStr (lit ''taken''))], None)"
  by (subst settle_http_error [where ps = "[(lit ''msg'', JStr (lit ''taken''))]"])
    (simp_all add: res_ok_def or_else_def)

text \<open>
  A token with an equals sign, as padded base64 has it, does not survive the cookie reader: the
  header carries only what stands before the sign, and the double-submit check compares a truncated
  token.
\<close>

theorem csrf_token_truncated:
  "csrf_cookie (lit ''csrf_token=YWJj=='') = Inr (lit ''YWJj'') \<and>
   csrf_cookie (lit ''csrf_token=YWJj%3D%3D'') = Inr (lit ''YWJj=='')"
  by (simp add: csrf_cookie_def cookie_step_def js_eval split_str.simps
    read_code_point_def utf16_units_def hex_value_def)

end
