(* ===== verification/Debug_Panel.thy ===== *)
theory Debug_Panel
  imports JS_Prelude
begin

text \<open>
  The on-screen debug panel of the shell (\<open>dbg\<close> in \<open>src/awo/web.old/src/main.js\<close>): it is created by the
  first message, can be folded by a click on its header, and keeps the bottom padding of the page in
  step so that it never covers the content.
\<close>

record debug_panel =
  dbg_made :: bool
  dbg_min :: bool
  dbg_display :: jstring
  dbg_button :: jstring
  dbg_lines :: "(jstring \<times> jstring) list"
  dbg_padding :: jstring

text \<open>\<open>dbg_lines\<close> holds the text and the colour of each line; \<open>dbg_padding\<close> is the \<open>paddingBottom\<close> of \<open>#content\<close>.\<close>

definition dbg_init :: debug_panel where
  "dbg_init = \<lparr>dbg_made = False, dbg_min = False, dbg_display = [], dbg_button = [], dbg_lines = [],
     dbg_padding = []\<rparr>"

text \<open>The part of \<open>dbg\<close> that builds the panel. The button first shows a minus sign, U+2212.\<close>

definition dbg_create :: "debug_panel \<Rightarrow> debug_panel" where
  "dbg_create d =
     (if dbg_made d then d
      else d\<lparr>dbg_made := True, dbg_button := [0x2212], dbg_padding := lit ''160px''\<rparr>)"

text \<open>A check mark, a cross or a dot, by the third state of \<open>ok\<close>.\<close>

definition dbg_mark :: "bool option \<Rightarrow> jstring" where
  "dbg_mark ok = (case ok of Some True \<Rightarrow> [0x2713, 0x20] | Some False \<Rightarrow> [0x2717, 0x20] | None \<Rightarrow> [0xB7, 0x20])"

definition dbg_color :: "bool option \<Rightarrow> jstring" where
  "dbg_color ok =
     (case ok of Some True \<Rightarrow> lit ''#4ade80'' | Some False \<Rightarrow> lit ''#f87171'' | None \<Rightarrow> lit ''#9ca3af'')"

definition dbg :: "jstring \<Rightarrow> bool option \<Rightarrow> debug_panel \<Rightarrow> debug_panel" where
  "dbg msg ok d = (let d' = dbg_create d in d'\<lparr>dbg_lines := dbg_lines d' @ [(dbg_mark ok @ msg, dbg_color ok)]\<rparr>)"

text \<open>The click listener of the header.\<close>

definition dbg_click :: "debug_panel \<Rightarrow> debug_panel" where
  "dbg_click d =
     (let m = (\<not> dbg_min d) in
      d\<lparr>dbg_min := m,
        dbg_display := (if m then lit ''none'' else lit ''block''),
        dbg_button := (if m then lit ''+'' else [0x2212]),
        dbg_padding := (if m then lit ''24px'' else lit ''160px'')\<rparr>)"

text \<open>Folded or not, the panel, its button and the padding of the page agree.\<close>

definition dbg_inv :: "debug_panel \<Rightarrow> bool" where
  "dbg_inv d \<longleftrightarrow>
     (if dbg_made d
      then (dbg_display d = lit ''none'') = dbg_min d \<and>
        dbg_button d = (if dbg_min d then lit ''+'' else [0x2212]) \<and>
        dbg_padding d = (if dbg_min d then lit ''24px'' else lit ''160px'')
      else \<not> dbg_min d \<and> dbg_lines d = [] \<and> dbg_display d = [])"

inductive dbg_step :: "debug_panel \<Rightarrow> debug_panel \<Rightarrow> bool" where
  message: "dbg_step d (dbg msg ok d)"
| click: "dbg_made d \<Longrightarrow> dbg_step d (dbg_click d)"

lemma dbg_inv_init: "dbg_inv dbg_init"
  by (simp add: dbg_inv_def dbg_init_def)

lemma dbg_inv_step: "dbg_step d d' \<Longrightarrow> dbg_inv d \<Longrightarrow> dbg_inv d'"
  by (induction rule: dbg_step.induct)
    (auto simp: dbg_inv_def dbg_def dbg_create_def dbg_click_def Let_def split: if_splits)

interpretation panel: invariant_system "\<lambda>d. d = dbg_init" dbg_step dbg_inv
  by unfold_locales (auto intro: dbg_inv_init dbg_inv_step)

text \<open>
  After any mix of messages and clicks the panel is folded exactly when its button shows a plus
  and the page keeps the small padding; no message is lost or reordered by folding.
\<close>

theorem dbg_panel_consistent:
  assumes "dbg_step\<^sup>*\<^sup>* dbg_init d" "dbg_made d"
  shows "(dbg_display d = lit ''none'') = dbg_min d \<and> (dbg_button d = lit ''+'') = dbg_min d \<and>
    (dbg_padding d = lit ''24px'') = dbg_min d \<and>
    dbg_lines (dbg msg ok (dbg_click d)) = dbg_lines d @ [(dbg_mark ok @ msg, dbg_color ok)]"
  using panel.reachable_inv [OF refl assms(1)] assms(2)
  by (simp add: dbg_inv_def dbg_def dbg_create_def dbg_click_def Let_def lit_def split: if_splits)

theorem dbg_panel_consistent_witness:
  "dbg_lines (dbg (lit ''b'') None (dbg_click (dbg (lit ''a'') (Some True) dbg_init))) =
     dbg_lines (dbg (lit ''a'') (Some True) dbg_init) @ [([0xB7, 0x20] @ lit ''b'', lit ''#9ca3af'')]"
proof -
  have "dbg_step\<^sup>*\<^sup>* dbg_init (dbg (lit ''a'') (Some True) dbg_init)"
    by (rule r_into_rtranclp) (rule dbg_step.message)
  from dbg_panel_consistent [OF this, of "lit ''b''" None] show ?thesis
    by (simp add: dbg_mark_def dbg_color_def dbg_def dbg_create_def Let_def)
qed

end
