(* ===== verification/Shell.thy ===== *)
theory Shell
  imports Navigation Fetcher Debug_Panel
begin

text \<open>
  The shell itself (\<open>src/awo/web.old/src/main.js\<close>): loading the navigation, navigating to a page, the
  listeners that call \<open>navigate\<close>, the sidebar and the bootstrap. Every asynchronous function is cut at
  its \<open>await\<close>s: the part up to an \<open>await\<close> runs in one step and leaves a job in \<open>pending\<close>, and the
  answer continues it in a later step, so that answers may arrive in any order. A call of
  \<open>navigate\<close> takes the depth of the call stack that is left; running out is the \<open>RangeError\<close> the
  language throws.
\<close>

section \<open>State\<close>

text \<open>What the browser and the AMIS SDK do for the shell.\<close>

record platform =
  p_uc :: "jstring \<Rightarrow> jstring"
  p_lc :: "jstring \<Rightarrow> jstring"
  p_css :: "jstring \<Rightarrow> jstring option"
  p_inherited :: "jstring \<Rightarrow> jstring option"
  p_path :: "jstring \<Rightarrow> jstring"
  p_emsg :: "js_error \<Rightarrow> jstring"
  p_embed :: "jval \<Rightarrow> js_error + bool option"

text \<open>
  \<open>p_path\<close> gives the \<open>pathname\<close> of a URL, \<open>p_emsg\<close> the message of an engine error, and \<open>p_embed\<close> what
  \<open>amis.embed\<close> returns for a schema: an exception, a falsy value, or an instance with or without an
  \<open>unmount\<close> function.
\<close>

record instance_ =
  inst_id :: nat
  inst_unmount :: bool

datatype content = Markup jstring | Embedded nat jval

datatype job =
    NavFetch
  | NavBody
  | PageFetch jstring jstring
  | PageErrBody jstring nat
  | PageSchema

text \<open>
  \<open>PageFetch\<close> holds the path and the endpoint, \<open>PageErrBody\<close> the endpoint and the status. In
  \<open>navModules\<close> the value \<^term>\<open>None\<close> is \<open>null\<close>. \<open>h_back\<close> starts with the current URL. \<open>live\<close> records the
  instances that have been embedded and not been unmounted.
\<close>

record shell =
  navModules :: "nav_module list option"
  menu_html :: jstring
  menu :: "menu_group list"
  crumb :: "jstring option \<times> jstring"
  content :: content
  currentInstance :: "instance_ option"
  live :: "nat list"
  h_back :: "jstring list"
  h_forward :: "jstring list"
  href :: "jstring option"
  collapsed :: bool
  mobile_open :: bool
  backdrop :: bool
  innerWidth :: nat
  amis :: bool
  debug :: debug_panel
  pending :: "(nat \<times> job) list"
  next_id :: nat

definition location :: "shell \<Rightarrow> jstring" where
  "location s = (case h_back s of [] \<Rightarrow> [] | u # _ \<Rightarrow> u)"

definition pushState :: "jstring \<Rightarrow> shell \<Rightarrow> shell" where
  "pushState u s = s\<lparr>h_back := u # h_back s, h_forward := []\<rparr>"

definition replaceState :: "jstring \<Rightarrow> shell \<Rightarrow> shell" where
  "replaceState u s = s\<lparr>h_back := u # tl (h_back s)\<rparr>"

definition log_dbg :: "jstring \<Rightarrow> bool option \<Rightarrow> shell \<Rightarrow> shell" where
  "log_dbg msg ok s = s\<lparr>debug := dbg msg ok (debug s)\<rparr>"

definition await :: "job \<Rightarrow> shell \<Rightarrow> shell" where
  "await j s = s\<lparr>pending := pending s @ [(next_id s, j)], next_id := Suc (next_id s)\<rparr>"

definition finish :: "nat \<Rightarrow> shell \<Rightarrow> shell" where
  "finish i s = s\<lparr>pending := filter (\<lambda>p. fst p \<noteq> i) (pending s)\<rparr>"

section \<open>Errors\<close>

text \<open>The arrow in front of \<open>Go back\<close> is U+2190.\<close>

definition error_html :: "jstring \<Rightarrow> jstring \<Rightarrow> jstring" where
  "error_html title detail =
     lit ''<div class=\"error-page\">''
     @ lit ''<h2><i class=\"fa fa-exclamation-triangle\"></i> '' @ esc title @ lit ''</h2>''
     @ lit ''<p>'' @ esc detail @ lit ''</p>''
     @ lit ''<a onclick=\"history.back()\">'' @ [0x2190] @ lit '' Go back</a>''
     @ lit ''</div>''"

definition showError :: "jstring \<Rightarrow> jstring \<Rightarrow> shell \<Rightarrow> shell" where
  "showError title detail s = s\<lparr>content := Markup (error_html title detail)\<rparr>"

definition err_message :: "platform \<Rightarrow> js_error \<Rightarrow> jstring" where
  "err_message pl e = (case e of Thrown m \<Rightarrow> m | _ \<Rightarrow> p_emsg pl e)"

text \<open>\<open>String(v)\<close> for a parsed JSON value, which is what \<open>new Error(v)\<close> keeps.\<close>

fun to_string :: "jval \<Rightarrow> jstring" and element_string :: "jval \<Rightarrow> jstring" where
  "to_string JUndef = lit ''undefined''"
| "to_string JNull = lit ''null''"
| "to_string (JBool b) = (if b then lit ''true'' else lit ''false'')"
| "to_string (JNum n) = int_string n"
| "to_string (JStr s) = s"
| "to_string (JArr xs) = join (lit '','') (map element_string xs)"
| "to_string (JObj ps) = lit ''[object Object]''"
| "element_string JUndef = []"
| "element_string JNull = []"
| "element_string (JBool b) = (if b then lit ''true'' else lit ''false'')"
| "element_string (JNum n) = int_string n"
| "element_string (JStr s) = s"
| "element_string (JArr xs) = join (lit '','') (map element_string xs)"
| "element_string (JObj ps) = lit ''[object Object]''"

section \<open>Navigating\<close>

definition updateActiveNav :: "platform \<Rightarrow> jstring \<Rightarrow> shell \<Rightarrow> shell \<times> js_error option" where
  "updateActiveNav pl pathname s =
     (let s' = s\<lparr>menu := activate pathname (menu s)\<rparr> in
      case navModules s' of
        None \<Rightarrow> (s', Some TypeError)
      | Some mods \<Rightarrow> (s'\<lparr>crumb := breadcrumb (p_uc pl) pathname mods\<rparr>, None))"

definition unmount_current :: "shell \<Rightarrow> shell" where
  "unmount_current s =
     (case currentInstance s of
        None \<Rightarrow> s
      | Some i \<Rightarrow> if inst_unmount i
                 then s\<lparr>currentInstance := None, live := removeAll (inst_id i) (live s)\<rparr> else s)"

text \<open>The dots after \<open>Loading\<close> and in the messages are U+2026.\<close>

definition loading_html :: jstring where
  "loading_html = lit ''<div class=\"loading\"><i class=\"fa fa-spinner fa-spin\"></i>&nbsp; Loading'' @ [0x2026] @ lit ''</div>''"

definition no_entities_html :: jstring where
  "no_entities_html = lit ''<div class=\"loading\">No entities registered. Check server logs.</div>''"

fun is_redirect :: "route \<Rightarrow> bool" where
  "is_redirect Home = True"
| "is_redirect (Module m) = True"
| "is_redirect _ = False"

text \<open>\<open>navModules[0].entries[0].listUrl\<close> behind its two length guards.\<close>

definition first_url :: "nav_module list \<Rightarrow> jstring option" where
  "first_url mods =
     (case mods of
        [] \<Rightarrow> None
      | m # _ \<Rightarrow> (case m_entries m of [] \<Rightarrow> None | e # _ \<Rightarrow> Some (e_listUrl e)))"

fun navigate :: "platform \<Rightarrow> nat \<Rightarrow> jstring \<Rightarrow> shell \<Rightarrow> shell \<times> js_error option" where
  "navigate pl 0 p s = (s, Some RangeError)"
| "navigate pl (Suc depth) p s =
     (let pathname = (if p \<noteq> [] then p else p_path pl (location s)) in
      case updateActiveNav pl pathname s of
        (s1, Some e) \<Rightarrow> (s1, Some e)
      | (s1, None) \<Rightarrow>
          let route = parseRoute pathname;
              s2 = (unmount_current s1)\<lparr>content := Markup loading_html\<rparr>
          in if is_redirect route then
               (case navModules s2 of
                  None \<Rightarrow> (s2, Some TypeError)
                | Some mods \<Rightarrow>
                    (case first_url mods of
                       Some first \<Rightarrow> navigate pl depth first (replaceState first s2)
                     | None \<Rightarrow> (s2\<lparr>content := Markup no_entities_html\<rparr>, None)))
             else
               (case apiUrl route of
                  None \<Rightarrow> (showError (lit ''Unknown route'') pathname s2, None)
                | Some url \<Rightarrow>
                    (await (PageFetch pathname url)
                       (log_dbg (lit ''GET '' @ url @ [0x20, 0x2026]) None s2), None)))"

text \<open>The answer to the page request.\<close>

definition page_response :: "platform \<Rightarrow> jstring \<Rightarrow> jstring \<Rightarrow> js_error + nat \<Rightarrow> shell \<Rightarrow> shell" where
  "page_response pl pathname url outcome s =
     (case outcome of
        Inl e \<Rightarrow> showError (lit ''Page error'') (err_message pl e) s
      | Inr status \<Rightarrow>
          let ok = (200 \<le> status \<and> status \<le> 299);
              s1 = log_dbg (lit ''page HTTP '' @ nat_digits status) (Some ok) s
          in if status = 401 \<or> status = 403 then
               (case login_url pathname of
                  Inl e \<Rightarrow> showError (lit ''Page error'') (err_message pl e) s1
                | Inr u \<Rightarrow> s1\<lparr>href := Some u\<rparr>)
             else if \<not> ok then await (PageErrBody url status) s1
             else await PageSchema s1)"

text \<open>
  \<open>schema.locale = 'en-US'\<close> where the schema is an object without a truthy one. (An array, which no page
  is, would get the property too, without it being part of its elements.)
\<close>

definition set_prop :: "jstring \<Rightarrow> jval \<Rightarrow> (jstring \<times> jval) list \<Rightarrow> (jstring \<times> jval) list" where
  "set_prop k v ps = AList.update k v ps"

definition with_locale :: "jval \<Rightarrow> jval" where
  "with_locale schema =
     (case schema of
        JObj ps \<Rightarrow>
          (case map_of ps (lit ''locale'') of
             Some v \<Rightarrow> if truthy v then schema else JObj (set_prop (lit ''locale'') (JStr (lit ''en-US'')) ps)
           | None \<Rightarrow> JObj (set_prop (lit ''locale'') (JStr (lit ''en-US'')) ps))
      | _ \<Rightarrow> schema)"

definition embed_page :: "platform \<Rightarrow> jval \<Rightarrow> shell \<Rightarrow> shell" where
  "embed_page pl schema s =
     (case p_embed pl schema of
        Inl e \<Rightarrow> showError (lit ''Page error'') (err_message pl e) s
      | Inr r \<Rightarrow>
          let i = next_id s;
              inst = map_option (\<lambda>u. \<lparr>inst_id = i, inst_unmount = u\<rparr>) r
          in log_dbg (lit ''amis.embed fired, instance='' @ (if r = None then lit ''undefined'' else lit ''object''))
               (Some (r \<noteq> None))
               (s\<lparr>currentInstance := inst, content := Embedded i schema, live := i # live s, next_id := Suc i\<rparr>))"

definition page_body :: "platform \<Rightarrow> job \<Rightarrow> js_error + jval \<Rightarrow> shell \<Rightarrow> shell" where
  "page_body pl j body s =
     (case j of
        PageErrBody url status \<Rightarrow>
          let errBody = (case body of Inl _ \<Rightarrow> JObj [] | Inr v \<Rightarrow> v) in
          (case get_prop errBody (lit ''message'') of
             Inl e \<Rightarrow> showError (lit ''Page error'') (err_message pl e) s
           | Inr m \<Rightarrow>
               showError (lit ''Page error'')
                 (to_string (or_else m (JStr (lit ''HTTP '' @ nat_digits status @ lit '': '' @ url)))) s)
      | PageSchema \<Rightarrow>
          (case body of
             Inl e \<Rightarrow> showError (lit ''Page error'') (err_message pl e) s
           | Inr schema \<Rightarrow>
               let s1 = s\<lparr>content := Markup []\<rparr> in
               if \<not> amis s1 then
                 showError (lit ''AMIS SDK not loaded'')
                   (lit ''sdk.js did not initialise. Check browser console for 404 errors.'') s1
               else embed_page pl (with_locale schema) s1)
      | _ \<Rightarrow> s)"


section \<open>Loading the navigation\<close>

text \<open>
  The code after \<open>loadNav\<close> has settled. \<open>depth\<close> is the call stack that a listener starts with.
\<close>

definition bootstrap :: "platform \<Rightarrow> nat \<Rightarrow> shell \<Rightarrow> shell \<times> js_error option" where
  "bootstrap pl depth s =
     (let path = p_path pl (location s) in
      if \<not> prefix (lit ''/ui'') path \<or> path = lit ''/ui'' \<or> path = lit ''/ui/'' then
        (case navModules s of
           None \<Rightarrow> (s, Some TypeError)
         | Some mods \<Rightarrow>
             (case first_url mods of
                Some first \<Rightarrow> navigate pl depth first (replaceState first s)
              | None \<Rightarrow> navigate pl depth (lit ''/ui'') s))
      else navigate pl depth path s)"

definition loadNav :: "shell \<Rightarrow> shell" where
  "loadNav s = await NavFetch (log_dbg (lit ''GET /api/v1/ui/nav '' @ [0x2026]) None s)"

definition nav_error :: "platform \<Rightarrow> js_error \<Rightarrow> shell \<Rightarrow> shell" where
  "nav_error pl e s = log_dbg (lit ''nav error: '' @ err_message pl e) (Some False) s"

definition nav_response :: "platform \<Rightarrow> nat \<Rightarrow> js_error + nat \<Rightarrow> shell \<Rightarrow> shell \<times> js_error option" where
  "nav_response pl depth outcome s =
     (case outcome of
        Inl e \<Rightarrow> bootstrap pl depth (nav_error pl e s)
      | Inr status \<Rightarrow>
          let ok = (200 \<le> status \<and> status \<le> 299);
              s1 = log_dbg (lit ''nav HTTP '' @ nat_digits status) (Some ok) s
          in if ok then (await NavBody s1, None) else bootstrap pl depth s1)"

definition entry_count :: "nav_module list \<Rightarrow> nat" where
  "entry_count mods = foldl (\<lambda>n m. n + length (m_entries m)) 0 mods"

definition show_nav :: "platform \<Rightarrow> nav_module list \<Rightarrow> shell \<Rightarrow> shell" where
  "show_nav pl mods s = s\<lparr>menu_html := renderNav (p_inherited pl) mods, menu := menu_of mods\<rparr>"

text \<open>The body of the navigation reply: a list of modules, or \<open>null\<close>, which is what an empty list is sent as.\<close>

definition nav_body ::
    "platform \<Rightarrow> nat \<Rightarrow> js_error + nav_module list option \<Rightarrow> shell \<Rightarrow> shell \<times> js_error option" where
  "nav_body pl depth body s =
     bootstrap pl depth
       (case body of
          Inl e \<Rightarrow> nav_error pl e s
        | Inr None \<Rightarrow> nav_error pl TypeError (s\<lparr>navModules := None\<rparr>)
        | Inr (Some mods) \<Rightarrow>
            let s1 = log_dbg (lit ''nav modules='' @ nat_digits (length mods) @ lit '' entries=''
                       @ nat_digits (entry_count mods)) (Some True) (s\<lparr>navModules := Some mods\<rparr>);
                s2 = show_nav pl mods s1
            in fst (updateActiveNav pl (p_path pl (location s2)) s2))"

section \<open>Listeners\<close>



definition closeMobileSidebar :: "shell \<Rightarrow> shell" where
  "closeMobileSidebar s = s\<lparr>mobile_open := False, backdrop := False\<rparr>"

definition collapseSidebarOnNav :: "shell \<Rightarrow> shell" where
  "collapseSidebarOnNav s = (if innerWidth s \<ge> 768 then s\<lparr>collapsed := True\<rparr> else s)"

text \<open>\<open>navigate\<close> is asynchronous: what it throws is a rejected promise that no listener reads.\<close>

definition handleNavClick :: "platform \<Rightarrow> nat \<Rightarrow> jstring \<Rightarrow> shell \<Rightarrow> shell" where
  "handleNavClick pl depth url s =
     collapseSidebarOnNav (closeMobileSidebar (fst (navigate pl depth url (pushState url s))))"

text \<open>The click listener of the document, on a click inside an \<open>a[href]\<close>.\<close>

definition link_click :: "platform \<Rightarrow> nat \<Rightarrow> jstring \<Rightarrow> shell \<Rightarrow> shell" where
  "link_click pl depth u s =
     (if u = [] then s
      else if prefix (lit ''/ui/'') u \<or> u = lit ''/ui''
      then fst (navigate pl depth u (pushState u s)) else s)"

text \<open>
  A click on an item of the menu: its own handler first, then the click bubbles to the document,
  whose listener finds the item's \<open>href\<close>.
\<close>

definition menu_click :: "platform \<Rightarrow> nat \<Rightarrow> jstring \<Rightarrow> shell \<Rightarrow> shell" where
  "menu_click pl depth url s = link_click pl depth url (handleNavClick pl depth url s)"

definition jumpTo :: "platform \<Rightarrow> nat \<Rightarrow> jstring option \<Rightarrow> shell \<Rightarrow> shell" where
  "jumpTo pl depth to s =
     (let t = (case to of None \<Rightarrow> [] | Some t \<Rightarrow> t);
          url = (if prefix [0x23] t then drop 1 t else t)
      in if url = [] then s
         else let url' = (if prefix [slash] url then url else lit ''/ui/'' @ url)
              in fst (navigate pl depth url' (pushState url' s)))"

text \<open>The browser moves in its history and fires \<open>popstate\<close>.\<close>

definition popstate :: "platform \<Rightarrow> nat \<Rightarrow> shell \<Rightarrow> shell" where
  "popstate pl depth s = fst (navigate pl depth (p_path pl (location s)) s)"

definition go_back :: "shell \<Rightarrow> shell" where
  "go_back s =
     (case h_back s of
        u # v # us \<Rightarrow> s\<lparr>h_back := v # us, h_forward := u # h_forward s\<rparr>
      | _ \<Rightarrow> s)"

definition go_forward :: "shell \<Rightarrow> shell" where
  "go_forward s =
     (case h_forward s of
        u # us \<Rightarrow> s\<lparr>h_back := u # h_back s, h_forward := us\<rparr>
      | _ \<Rightarrow> s)"

definition group_click :: "platform \<Rightarrow> jstring \<Rightarrow> shell \<Rightarrow> shell" where
  "group_click pl g s = (case toggleGroup (p_css pl) g (menu s) of Inl _ \<Rightarrow> s | Inr m \<Rightarrow> s\<lparr>menu := m\<rparr>)"

text \<open>
  The \<open>input\<close> listener of the search field. Clearing it renders the menu again; with \<open>null\<close> for the
  modules the rendering throws and the menu stays.
\<close>

definition search_input :: "platform \<Rightarrow> jstring \<Rightarrow> shell \<Rightarrow> shell" where
  "search_input pl query s =
     (if p_lc pl (trim query) = [] then
        (case navModules s of
           None \<Rightarrow> s
         | Some mods \<Rightarrow> fst (updateActiveNav pl (p_path pl (location s)) (show_nav pl mods s)))
      else s\<lparr>menu := map (filter_group (p_lc pl) (p_lc pl (trim query))) (menu s)\<rparr>)"

section \<open>Loading the SDK\<close>



section \<open>Runs\<close>

text \<open>The page after the script has run: the only job is the request for the navigation.\<close>

definition start :: "bool \<Rightarrow> debug_panel \<Rightarrow> nat \<Rightarrow> jstring \<Rightarrow> shell" where
  "start amis_ok panel width url =
     loadNav \<lparr>navModules = Some [], menu_html = [], menu = [], crumb = (None, []), content = Markup [],
       currentInstance = None, live = [], h_back = [url], h_forward = [], href = None, collapsed = False,
       mobile_open = False, backdrop = False, innerWidth = width, amis = amis_ok, debug = panel,
       pending = [], next_id = 0\<rparr>"




section \<open>The invariant\<close>

text \<open>
  Identifiers are fresh, the history has a current entry, the mobile sidebar and its backdrop agree,
  the debug panel is consistent, and whatever AMIS shows is alive and is the instance the next
  navigation will unmount.
\<close>

definition ids_ok :: "shell \<Rightarrow> bool" where
  "ids_ok s \<longleftrightarrow> distinct (map fst (pending s)) \<and> (\<forall>p \<in> set (pending s). fst p < next_id s) \<and>
     distinct (live s) \<and> (\<forall>i \<in> set (live s). i < next_id s)"

definition mount_ok :: "shell \<Rightarrow> bool" where
  "mount_ok s \<longleftrightarrow>
     (\<forall>j. currentInstance s = Some j \<longrightarrow> inst_id j \<in> set (live s)) \<and>
     (\<forall>i v. content s = Embedded i v \<longrightarrow>
        i \<in> set (live s) \<and> (\<forall>j. currentInstance s = Some j \<longrightarrow> inst_id j = i))"

definition shell_inv :: "shell \<Rightarrow> bool" where
  "shell_inv s \<longleftrightarrow> h_back s \<noteq> [] \<and> mobile_open s = backdrop s \<and> dbg_inv (debug s) \<and> dbg_made (debug s) \<and>
     ids_ok s \<and> mount_ok s"

named_theorems shell_intro \<open>primitive updates that keep the invariant of the shell\<close>

lemma shell_inv_menu [shell_intro]: "shell_inv s \<Longrightarrow> shell_inv (s\<lparr>menu := m\<rparr>)"
  by (simp add: shell_inv_def ids_ok_def mount_ok_def)

lemma shell_inv_crumb [shell_intro]: "shell_inv s \<Longrightarrow> shell_inv (s\<lparr>crumb := c\<rparr>)"
  by (simp add: shell_inv_def ids_ok_def mount_ok_def)

lemma shell_inv_modules [shell_intro]: "shell_inv s \<Longrightarrow> shell_inv (s\<lparr>navModules := m\<rparr>)"
  by (simp add: shell_inv_def ids_ok_def mount_ok_def)

lemma shell_inv_html [shell_intro]: "shell_inv s \<Longrightarrow> shell_inv (s\<lparr>menu_html := h\<rparr>)"
  by (simp add: shell_inv_def ids_ok_def mount_ok_def)

lemma shell_inv_href [shell_intro]: "shell_inv s \<Longrightarrow> shell_inv (s\<lparr>href := h\<rparr>)"
  by (simp add: shell_inv_def ids_ok_def mount_ok_def)

lemma shell_inv_collapsed [shell_intro]: "shell_inv s \<Longrightarrow> shell_inv (s\<lparr>collapsed := b\<rparr>)"
  by (simp add: shell_inv_def ids_ok_def mount_ok_def)

lemma shell_inv_width [shell_intro]: "shell_inv s \<Longrightarrow> shell_inv (s\<lparr>innerWidth := w\<rparr>)"
  by (simp add: shell_inv_def ids_ok_def mount_ok_def)

lemma shell_inv_mobile [shell_intro]: "shell_inv s \<Longrightarrow> shell_inv (s\<lparr>mobile_open := b, backdrop := b\<rparr>)"
  by (simp add: shell_inv_def ids_ok_def mount_ok_def)

lemma shell_inv_history [shell_intro]:
  "shell_inv s \<Longrightarrow> h \<noteq> [] \<Longrightarrow> shell_inv (s\<lparr>h_back := h, h_forward := f\<rparr>)"
  "shell_inv s \<Longrightarrow> h \<noteq> [] \<Longrightarrow> shell_inv (s\<lparr>h_back := h\<rparr>)"
  by (simp_all add: shell_inv_def ids_ok_def mount_ok_def)

lemma shell_inv_markup [shell_intro]: "shell_inv s \<Longrightarrow> shell_inv (s\<lparr>content := Markup h\<rparr>)"
  by (simp add: shell_inv_def ids_ok_def mount_ok_def)

lemma shell_inv_log [shell_intro]: "shell_inv s \<Longrightarrow> shell_inv (log_dbg msg ok s)"
proof -
  assume s: "shell_inv s"
  then have "dbg_inv (dbg msg ok (debug s))"
    using dbg_inv_step [OF dbg_step.message] by (simp add: shell_inv_def)
  with s show ?thesis
    by (simp add: shell_inv_def ids_ok_def mount_ok_def log_dbg_def)
      (simp add: dbg_def dbg_create_def Let_def)
qed

lemma shell_inv_fold [shell_intro]: "shell_inv s \<Longrightarrow> shell_inv (s\<lparr>debug := dbg_click (debug s)\<rparr>)"
  using dbg_inv_step [OF dbg_step.click, of "debug s"]
  by (simp add: shell_inv_def ids_ok_def mount_ok_def) (simp add: dbg_click_def Let_def)

lemma shell_inv_await [shell_intro]: "shell_inv s \<Longrightarrow> shell_inv (await j s)"
  by (auto simp: shell_inv_def ids_ok_def mount_ok_def await_def less_Suc_eq)

lemma shell_inv_finish [shell_intro]: "shell_inv s \<Longrightarrow> shell_inv (finish i s)"
  by (auto simp: shell_inv_def ids_ok_def mount_ok_def finish_def distinct_map_filter)

lemma shell_inv_unmount [shell_intro]:
  "shell_inv s \<Longrightarrow> shell_inv ((unmount_current s)\<lparr>content := Markup h\<rparr>)"
  by (auto simp: shell_inv_def ids_ok_def mount_ok_def unmount_current_def distinct_removeAll split: option.splits)

lemma shell_inv_push [shell_intro]:
  "shell_inv s \<Longrightarrow> shell_inv (pushState u s)" "shell_inv s \<Longrightarrow> shell_inv (replaceState u s)"
  by (simp_all add: pushState_def replaceState_def shell_intro)

lemma shell_inv_error [shell_intro]: "shell_inv s \<Longrightarrow> shell_inv (showError t d s)"
  by (simp add: showError_def shell_intro)

lemma shell_inv_active [shell_intro]: "shell_inv s \<Longrightarrow> shell_inv (fst (updateActiveNav pl p s))"
  by (auto simp: updateActiveNav_def Let_def split: option.split intro: shell_intro)

text \<open>One level of \<open>navigate\<close>, on the path it settles on.\<close>

lemma navigate_Suc:
  assumes "pathname = (if p \<noteq> [] then p else p_path pl (location s))"
    "updateActiveNav pl pathname s = (s1, err)"
  shows "navigate pl (Suc depth) p s =
    (case err of
       Some e \<Rightarrow> (s1, Some e)
     | None \<Rightarrow>
         let s2 = (unmount_current s1)\<lparr>content := Markup loading_html\<rparr> in
         (case apiUrl (parseRoute pathname) of
            Some url \<Rightarrow>
              (await (PageFetch pathname url) (log_dbg (lit ''GET '' @ url @ [0x20, 0x2026]) None s2), None)
          | None \<Rightarrow>
              (case navModules s2 of
                 None \<Rightarrow> (s2, Some TypeError)
               | Some mods \<Rightarrow>
                   (case first_url mods of
                      Some first \<Rightarrow> navigate pl depth first (replaceState first s2)
                    | None \<Rightarrow> (s2\<lparr>content := Markup no_entities_html\<rparr>, None)))))"
  unfolding navigate.simps(2) assms(1) [symmetric] Let_def assms(2)
  by (cases err; cases "parseRoute pathname") (simp_all split: option.split)

declare navigate.simps(2) [simp del]

lemma shell_inv_navigate [shell_intro]: "shell_inv s \<Longrightarrow> shell_inv (fst (navigate pl depth p s))"
proof (induction depth arbitrary: p s)
  case (Suc depth)
  define pathname where "pathname = (if p \<noteq> [] then p else p_path pl (location s))"
  obtain s1 err where u: "updateActiveNav pl pathname s = (s1, err)" by force
  have "shell_inv s1" using shell_inv_active [OF Suc.prems, of pl pathname] u by simp
  then show ?case
    unfolding navigate_Suc [OF pathname_def u]
    by (auto simp: Let_def intro!: Suc.IH shell_intro split: option.split)
qed simp

lemma shell_inv_bootstrap [shell_intro]: "shell_inv s \<Longrightarrow> shell_inv (fst (bootstrap pl depth s))"
  by (auto simp: bootstrap_def Let_def split: option.split intro: shell_intro)

lemma shell_inv_nav_response [shell_intro]: "shell_inv s \<Longrightarrow> shell_inv (fst (nav_response pl depth r s))"
  by (auto simp: nav_response_def Let_def nav_error_def split: sum.split intro!: shell_intro)

lemma shell_inv_nav_body [shell_intro]: "shell_inv s \<Longrightarrow> shell_inv (fst (nav_body pl depth b s))"
  unfolding nav_body_def
  by (rule shell_inv_bootstrap)
    (auto simp: Let_def nav_error_def show_nav_def split: sum.split option.split intro!: shell_intro)

lemma shell_inv_page_response [shell_intro]: "shell_inv s \<Longrightarrow> shell_inv (page_response pl p u r s)"
  by (auto simp: page_response_def Let_def split: sum.split intro!: shell_intro)

lemma shell_inv_embed [shell_intro]: "shell_inv s \<Longrightarrow> shell_inv (embed_page pl v s)"
proof (cases "p_embed pl v")
  case (Inr r)
  assume s: "shell_inv s"
  let ?i = "next_id s"
  have "?i \<notin> set (live s)" using s by (auto simp: shell_inv_def ids_ok_def)
  with s have "shell_inv (s\<lparr>currentInstance := map_option (\<lambda>u. \<lparr>inst_id = ?i, inst_unmount = u\<rparr>) r,
      content := Embedded ?i v, live := ?i # live s, next_id := Suc ?i\<rparr>)"
    by (auto simp: shell_inv_def ids_ok_def mount_ok_def less_Suc_eq)
  with Inr show ?thesis by (simp add: embed_page_def Let_def shell_inv_log)
qed (simp add: embed_page_def shell_intro)

lemma shell_inv_page_body [shell_intro]: "shell_inv s \<Longrightarrow> shell_inv (page_body pl j b s)"
  by (auto simp: page_body_def Let_def split: job.split sum.split intro!: shell_intro)

lemma shell_inv_click [shell_intro]:
  assumes "shell_inv s"
  shows "shell_inv (handleNavClick pl depth u s)" "shell_inv (link_click pl depth u s)"
    "shell_inv (jumpTo pl depth t s)" "shell_inv (popstate pl depth s)"
  using assms
  by (auto simp: handleNavClick_def link_click_def jumpTo_def popstate_def Let_def collapseSidebarOnNav_def
      closeMobileSidebar_def intro!: shell_intro split: option.split)

lemma shell_inv_move [shell_intro]: "shell_inv s \<Longrightarrow> shell_inv (go_back s)" "shell_inv s \<Longrightarrow> shell_inv (go_forward s)"
  by (auto simp: go_back_def go_forward_def split: list.split intro!: shell_intro)

lemma shell_inv_search [shell_intro]:
  "shell_inv s \<Longrightarrow> shell_inv (search_input pl q s)" "shell_inv s \<Longrightarrow> shell_inv (group_click pl g s)"
  by (auto simp: search_input_def group_click_def show_nav_def split: option.split sum.split intro!: shell_intro)


lemma dbg_inv_message: "dbg_inv d \<Longrightarrow> dbg_inv (dbg msg ok d)"
  by (rule dbg_inv_step [OF dbg_step.message])

lemma shell_inv_start: "dbg_inv d \<Longrightarrow> shell_inv (start a d w u)"
  unfolding start_def loadNav_def
  by (rule shell_inv_await)
    (simp add: shell_inv_def log_dbg_def ids_ok_def mount_ok_def dbg_inv_message, simp add: dbg_def dbg_create_def Let_def)





section \<open>Visiting a page\<close>

text \<open>The state \<open>navigate\<close> leaves behind for a path with an endpoint.\<close>

definition requested :: "platform \<Rightarrow> nav_module list \<Rightarrow> jstring \<Rightarrow> jstring \<Rightarrow> shell \<Rightarrow> shell" where
  "requested pl mods p u s =
     await (PageFetch p u) (log_dbg (lit ''GET '' @ u @ [0x20, 0x2026]) None
       ((unmount_current (s\<lparr>menu := activate p (menu s), crumb := breadcrumb (p_uc pl) p mods\<rparr>))
          \<lparr>content := Markup loading_html\<rparr>))"

lemma navigate_page:
  assumes "navModules s = Some mods" "p \<noteq> []" "apiUrl (parseRoute p) = Some u"
  shows "navigate pl (Suc depth) p s = (requested pl mods p u s, None)"
proof -
  have "updateActiveNav pl p s = (s\<lparr>menu := activate p (menu s), crumb := breadcrumb (p_uc pl) p mods\<rparr>, None)"
    using assms(1) by (simp add: updateActiveNav_def)
  from navigate_Suc [of p p pl s, OF _ this] assms(2,3) show ?thesis
    by (simp add: requested_def Let_def)
qed

lemma requested_simps [simp]:
  "navModules (requested pl mods p u s) = navModules s"
  "menu (requested pl mods p u s) = activate p (menu s)"
  "crumb (requested pl mods p u s) = breadcrumb (p_uc pl) p mods"
  "content (requested pl mods p u s) = Markup loading_html"
  "h_back (requested pl mods p u s) = h_back s" "h_forward (requested pl mods p u s) = h_forward s"
  "amis (requested pl mods p u s) = amis s"
  "pending (requested pl mods p u s) = pending s @ [(next_id s, PageFetch p u)]"
  "next_id (requested pl mods p u s) = Suc (next_id s)"
  "innerWidth (requested pl mods p u s) = innerWidth s"
  by (simp_all add: requested_def await_def log_dbg_def unmount_current_def split: option.split)

lemma requested_instance [simp]:
  "currentInstance (requested pl mods p u s) = currentInstance (unmount_current s)"
  "live (requested pl mods p u s) = live (unmount_current s)"
  by (simp_all add: requested_def await_def log_dbg_def unmount_current_def split: option.split)

text \<open>A good answer to the page request \<open>i\<close>: status 200 and a body that parses.\<close>

definition answered :: "platform \<Rightarrow> nat \<Rightarrow> jstring \<Rightarrow> jstring \<Rightarrow> jval \<Rightarrow> shell \<Rightarrow> shell" where
  "answered pl i p u v s =
     page_body pl PageSchema (Inr v) (finish (next_id s) (page_response pl p u (Inr 200) (finish i s)))"

lemma answered_simps:
  assumes "p_embed pl (with_locale v) = Inr r" "amis s"
    "\<forall>q \<in> set (pending s). fst q < next_id s"
  shows "content (answered pl i p u v s) = Embedded (Suc (next_id s)) (with_locale v)"
    "currentInstance (answered pl i p u v s) =
       map_option (\<lambda>b. \<lparr>inst_id = Suc (next_id s), inst_unmount = b\<rparr>) r"
    "live (answered pl i p u v s) = Suc (next_id s) # live s"
    "pending (answered pl i p u v s) = filter (\<lambda>q. fst q \<noteq> i) (pending s)"
    "h_back (answered pl i p u v s) = h_back s" "amis (answered pl i p u v s) = amis s"
    "next_id (answered pl i p u v s) = Suc (Suc (next_id s))"
    "menu (answered pl i p u v s) = menu s" "crumb (answered pl i p u v s) = crumb s"
    "navModules (answered pl i p u v s) = navModules s"
proof -
  have "filter (\<lambda>q. fst q \<noteq> next_id s) (filter (\<lambda>q. fst q \<noteq> i) (pending s)) = filter (\<lambda>q. fst q \<noteq> i) (pending s)"
    unfolding filter_filter using assms(3) by (intro filter_cong) auto
  then show "pending (answered pl i p u v s) = filter (\<lambda>q. fst q \<noteq> i) (pending s)"
    using assms(1,2)
    by (simp add: answered_def page_response_def page_body_def embed_page_def Let_def finish_def await_def
        log_dbg_def)
qed (use assms(1,2) in \<open>simp_all add: answered_def page_response_def page_body_def embed_page_def Let_def
      finish_def await_def log_dbg_def\<close>)


text \<open>Rejecting a reused number: answers only ever meet fresh jobs.\<close>

lemma ids_okD: "ids_ok s \<Longrightarrow> \<forall>q \<in> set (pending s). fst q < next_id s"
  by (simp add: ids_ok_def)

lemma ids_fresh: "ids_ok s \<Longrightarrow> filter (\<lambda>q. fst q \<noteq> next_id s) (pending s) = pending s"
  by (auto simp: ids_ok_def filter_id_conv)

section \<open>Properties\<close>


lemma contacts_route:
  "apiUrl (parseRoute (lit ''/ui/crm/contacts'')) = Some (lit ''/api/v1/ui/crm/contacts'')"
  by (simp add: parseRoute_def strip_ui_def segments_def api_base_def lit_def Let_def)

text \<open>A browser on which every schema can be embedded.\<close>

definition plain_platform :: platform where
  "plain_platform = \<lparr>p_uc = id, p_lc = id, p_css = Some, p_inherited = (\<lambda>_. None), p_path = id,
     p_emsg = (\<lambda>_. []), p_embed = (\<lambda>_. Inr (Some True))\<rparr>"


text \<open>
  C1. Visiting a page. From a consistent state with the navigation loaded, following an internal
  link and getting a good answer leaves the shell on that URL with the page's schema embedded (in
  the default locale), the menu and breadcrumb of that page, no request of its own left, and every
  earlier instance that could be unmounted gone.
\<close>

theorem visit_page:
  assumes "shell_inv s" "navModules s = Some mods" "amis s"
    "prefix (lit ''/ui/'') p" "apiUrl (parseRoute p) = Some u"
    "p_embed pl (with_locale v) = Inr (Some True)"
  shows "let t = answered pl (next_id s) p u v (link_click pl (Suc depth) p s); i = Suc (Suc (next_id s)) in
    location t = p \<and> content t = Embedded i (with_locale v) \<and>
    currentInstance t = Some \<lparr>inst_id = i, inst_unmount = True\<rparr> \<and>
    live t = i # live (unmount_current s) \<and> pending t = pending s \<and>
    menu t = activate p (menu s) \<and> crumb t = breadcrumb (p_uc pl) p mods"
proof -
  let ?s = "pushState p s"
  have "p \<noteq> []" using assms(4) by auto
  have s': "link_click pl (Suc depth) p s = requested pl mods p u ?s"
    using navigate_page [of ?s mods p u pl depth] assms(2,4,5) \<open>p \<noteq> []\<close>
    by (simp add: link_click_def pushState_def)
  have ids: "ids_ok ?s" using assms(1) by (simp add: shell_inv_def ids_ok_def pushState_def)
  then have fresh: "\<forall>q \<in> set (pending (requested pl mods p u ?s)). fst q < next_id (requested pl mods p u ?s)"
    by (auto simp: ids_ok_def less_Suc_eq)
  have un: "live (unmount_current ?s) = live (unmount_current s)"
    by (simp add: unmount_current_def pushState_def split: option.split)
  have "amis (requested pl mods p u ?s)" using assms(3) by (simp add: pushState_def)
  note a = answered_simps [OF assms(6) this fresh, of "next_id s" p u]
  show ?thesis
    unfolding s' Let_def using ids_fresh [OF ids] un
    by (simp add: a location_def) (simp add: pushState_def)
qed

theorem visit_page_witness:
  "location (answered plain_platform 1 (lit ''/ui/crm/contacts'') (lit ''/api/v1/ui/crm/contacts'') (JObj [])
     (link_click plain_platform 2 (lit ''/ui/crm/contacts'') (start True dbg_init 400 (lit ''/ui'')))) = lit ''/ui/crm/contacts''"
proof -
  let ?s = "start True dbg_init 400 (lit ''/ui'')"
  have "navModules ?s = Some []" "amis ?s" "next_id ?s = 1"
    by (simp_all add: start_def loadNav_def await_def log_dbg_def)
  moreover have "prefix (lit ''/ui/'') (lit ''/ui/crm/contacts'')" by (simp add: lit_def)
  moreover note contacts_route
  moreover have "p_embed plain_platform (with_locale (JObj [])) = Inr (Some True)"
    by (simp add: plain_platform_def)
  ultimately show ?thesis
    using visit_page [OF shell_inv_start [OF dbg_inv_init], of True 400 "lit ''/ui''" "[]" "lit ''/ui/crm/contacts''"
        "lit ''/api/v1/ui/crm/contacts''" plain_platform "JObj []" 1]
    by (simp add: Let_def numeral_2_eq_2)
qed



lemma navigate_redirect:
  assumes "navModules s = Some mods" "first_url mods = Some f" "q \<noteq> []" "apiUrl (parseRoute q) = None"
  shows "\<exists>t. (\<forall>d. navigate pl (Suc d) q s = navigate pl d f t) \<and> navModules t = Some mods"
proof -
  let ?s = "s\<lparr>menu := activate q (menu s), crumb := breadcrumb (p_uc pl) q mods\<rparr>"
  let ?t = "replaceState f ((unmount_current ?s)\<lparr>content := Markup loading_html\<rparr>)"
  have "updateActiveNav pl q s = (?s, None)" using assms(1) by (simp add: updateActiveNav_def)
  from navigate_Suc [of q q pl s, OF _ this] assms have "navigate pl (Suc d) q s = navigate pl d f ?t" for d
    by (simp add: Let_def unmount_current_def split: option.split)
  moreover have "navModules ?t = Some mods"
    using assms(1) by (simp add: replaceState_def unmount_current_def split: option.split)
  ultimately show ?thesis by blast
qed



text \<open>
  C17. If the first entry of the menu links to a path without an endpoint, such as a bare module,
  \<open>navigate\<close> calls itself with that path for ever: whatever the stack, the call ends in a
  \<open>RangeError\<close> and nothing is requested.
\<close>

theorem navigate_diverges:
  assumes "navModules s = Some mods" "first_url mods = Some f" "f \<noteq> []" "apiUrl (parseRoute f) = None"
  shows "snd (navigate pl depth f s) = Some RangeError"
  using assms(1)
proof (induction depth arbitrary: s)
  case (Suc depth)
  from navigate_redirect [OF Suc.prems assms(2,3,4), of pl] obtain t
    where "navigate pl (Suc depth) f s = navigate pl depth f t" "navModules t = Some mods" by blast
  with Suc.IH show ?case by simp
qed simp

definition module_only :: "nav_module list" where
  "module_only = [\<lparr>m_module = lit ''crm'', m_label = lit ''Crm'', m_entries =
     [\<lparr>e_module = lit ''crm'', e_label = lit ''Crm'', e_entity = lit ''crm'', e_listUrl = lit ''/ui/crm'', e_icon = None\<rparr>]\<rparr>]"

theorem navigate_diverges_witness:
  "snd (navigate plain_platform 1000 (lit ''/ui/crm'')
     ((start True dbg_init 400 (lit ''/ui''))\<lparr>navModules := Some module_only\<rparr>)) = Some RangeError"
proof (rule navigate_diverges [where mods = module_only])
  show "first_url module_only = Some (lit ''/ui/crm'')" by (simp add: module_only_def first_url_def)
  show "apiUrl (parseRoute (lit ''/ui/crm'')) = None"
    by (simp add: parseRoute_def strip_ui_def segments_def lit_def)
qed simp_all

text \<open>
  An empty navigation that arrives as \<open>null\<close> stops the shell: the reply is stored before it is
  looked at, so the bootstrap throws, no page is ever requested, and the message for an empty menu
  is not shown. The empty list does show it.
\<close>

theorem null_navigation_stops:
  "snd (nav_body pl (Suc depth) (Inr None) s) = Some TypeError \<and>
   content (fst (nav_body pl (Suc depth) (Inr None) s)) = content s \<and>
   pending (fst (nav_body pl (Suc depth) (Inr None) s)) = pending s"
  by (simp add: nav_body_def bootstrap_def Let_def nav_error_def log_dbg_def navigate.simps updateActiveNav_def)


lemma requested_twice_unmount [simp]:
  "navModules (pushState p s) = navModules s" "pending (pushState p s) = pending s"
  "next_id (pushState p s) = next_id s" "h_back (pushState p s) = p # h_back s"
  "amis (pushState p s) = amis s" "live (pushState p s) = live s"
  "currentInstance (pushState p s) = currentInstance s"
  by (simp_all add: pushState_def)

lemma link_click_page:
  assumes "navModules s = Some mods" "prefix (lit ''/ui/'') p" "apiUrl (parseRoute p) = Some u"
  shows "link_click pl (Suc d) p s = requested pl mods p u (pushState p s)"
proof -
  have "p \<noteq> []" using assms(2) by auto
  with navigate_page [of "pushState p s" mods p u pl d] assms show ?thesis
    by (simp add: link_click_def)
qed

text \<open>
  A click on an item of the menu is handled twice, by the item and by the document: the URL is
  pushed twice on the history and its page is requested twice.
\<close>

theorem menu_click_twice:
  assumes "navModules s = Some mods" "prefix (lit ''/ui/'') p" "apiUrl (parseRoute p) = Some u"
  shows "h_back (menu_click pl (Suc d) p s) = p # p # h_back s \<and>
    pending (menu_click pl (Suc d) p s) =
      pending s @ [(next_id s, PageFetch p u), (Suc (next_id s), PageFetch p u)]"
proof -
  have "p \<noteq> []" using assms(2) by auto
  let ?t = "collapseSidebarOnNav (closeMobileSidebar (requested pl mods p u (pushState p s)))"
  have "handleNavClick pl (Suc d) p s = ?t"
    using navigate_page [of "pushState p s" mods p u pl d] assms \<open>p \<noteq> []\<close>
    by (simp add: handleNavClick_def)
  moreover have "navModules ?t = Some mods" "h_back ?t = p # h_back s" "next_id ?t = Suc (next_id s)"
    "pending ?t = pending s @ [(next_id s, PageFetch p u)]"
    using assms(1) by (simp_all add: collapseSidebarOnNav_def closeMobileSidebar_def)
  ultimately show ?thesis
    using link_click_page [OF _ assms(2,3), of ?t mods pl d] by (simp add: menu_click_def)
qed

theorem menu_click_twice_witness:
  "h_back (menu_click plain_platform 3 (lit ''/ui/crm/contacts'') (start True dbg_init 400 (lit ''/ui''))) =
     [lit ''/ui/crm/contacts'', lit ''/ui/crm/contacts'', lit ''/ui'']"
  using menu_click_twice [OF _ _ contacts_route, of "start True dbg_init 400 (lit ''/ui'')" "[]" plain_platform 2]
  by (simp add: start_def loadNav_def await_def log_dbg_def numeral_3_eq_3 numeral_2_eq_2) (simp add: lit_def)

text \<open>
  C10. Answers are not matched with the page they were asked for. If two links are followed and the
  first page is answered last, the shell shows the first page under the URL of the second, and the
  instance of the second is mounted for ever: the next navigation unmounts only the first.
\<close>

theorem late_answer_wins:
  assumes "ids_ok s" "navModules s = Some mods" "amis s" "live s = []" "currentInstance s = None"
    "prefix (lit ''/ui/'') p" "apiUrl (parseRoute p) = Some u" "p_embed pl (with_locale v) = Inr (Some True)"
    "prefix (lit ''/ui/'') p'" "apiUrl (parseRoute p') = Some u'" "p_embed pl (with_locale v') = Inr (Some True)"
  shows "let t = answered pl (next_id s) p u v
      (answered pl (Suc (next_id s)) p' u' v' (link_click pl (Suc d) p' (link_click pl (Suc d) p s)))
    in location t = p' \<and> (\<exists>i. content t = Embedded i (with_locale v)) \<and> pending t = pending s \<and>
       length (live t) = 2 \<and> length (live (unmount_current t)) = 1"
proof -
  let ?a = "requested pl mods p u (pushState p s)"
  let ?b = "requested pl mods p' u' (pushState p' ?a)"
  have b: "link_click pl (Suc d) p' (link_click pl (Suc d) p s) = ?b"
    using link_click_page [OF assms(2,6,7), of pl d] link_click_page [of ?a mods p' u' pl d] assms(2,9,10) by simp
  have un: "live (unmount_current (pushState p' ?a)) = []" "amis ?b" "h_back ?b = p' # p # h_back s"
    using assms(3-5) by (simp_all add: unmount_current_def)
  have pend: "pending ?b = pending s @ [(next_id s, PageFetch p u), (Suc (next_id s), PageFetch p' u')]"
    "next_id ?b = Suc (Suc (next_id s))" by simp_all
  have fb: "\<forall>q \<in> set (pending ?b). fst q < next_id ?b"
    using ids_okD [OF assms(1)] by (auto simp: less_Suc_eq)
  note c = answered_simps [OF assms(11) un(2) fb, of "Suc (next_id s)" p' u']
  let ?c = "answered pl (Suc (next_id s)) p' u' v' ?b"
  have fc: "\<forall>q \<in> set (pending ?c). fst q < next_id ?c"
    unfolding c(4,7) using fb by auto
  have "amis ?c" using c(6) un(2) by simp
  note e = answered_simps [OF assms(8) this fc, of "next_id s" p u]
  have "filter (\<lambda>q. fst q \<noteq> Suc (next_id s)) (pending s) = pending s"
    "filter (\<lambda>q. fst q \<noteq> next_id s) (pending s) = pending s"
    using ids_okD [OF assms(1)] by (auto simp: filter_id_conv)
  then have "pending (answered pl (next_id s) p u v ?c) = pending s"
    unfolding e(4) c(4) pend(1) by simp
  moreover have "live (answered pl (next_id s) p u v ?c) = [Suc (next_id ?c), Suc (next_id ?b)]"
    unfolding e(3) c(3) using un(1) by simp
  ultimately show ?thesis
    unfolding b Let_def
    by (simp add: e(1,2,5) c(5,7) un(3) location_def unmount_current_def)
qed


lemma deals_route: "apiUrl (parseRoute (lit ''/ui/crm/deals'')) = Some (lit ''/api/v1/ui/crm/deals'')"
  by (simp add: parseRoute_def strip_ui_def segments_def api_base_def lit_def Let_def)

theorem late_answer_wins_witness:
  "location (answered plain_platform 1 (lit ''/ui/crm/contacts'') (lit ''/api/v1/ui/crm/contacts'') (JObj [])
     (answered plain_platform 2 (lit ''/ui/crm/deals'') (lit ''/api/v1/ui/crm/deals'') JNull
       (link_click plain_platform 1 (lit ''/ui/crm/deals'')
         (link_click plain_platform 1 (lit ''/ui/crm/contacts'') (start True dbg_init 400 (lit ''/ui'')))))) = lit ''/ui/crm/deals''"
proof -
  let ?s = "start True dbg_init 400 (lit ''/ui'')"
  have "ids_ok ?s" using shell_inv_start [OF dbg_inv_init] by (simp add: shell_inv_def)
  moreover have "navModules ?s = Some []" "amis ?s" "live ?s = []" "currentInstance ?s = None" "next_id ?s = 1"
    by (simp_all add: start_def loadNav_def await_def log_dbg_def)
  moreover have "prefix (lit ''/ui/'') (lit ''/ui/crm/contacts'')" "prefix (lit ''/ui/'') (lit ''/ui/crm/deals'')"
    by (simp_all add: lit_def)
  moreover have "p_embed plain_platform x = Inr (Some True)" for x by (simp add: plain_platform_def)
  ultimately show ?thesis
    using late_answer_wins [of ?s "[]" "lit ''/ui/crm/contacts''" "lit ''/api/v1/ui/crm/contacts''" plain_platform
        "JObj []" "lit ''/ui/crm/deals''" "lit ''/api/v1/ui/crm/deals''" JNull 0] contacts_route deals_route
    by (simp add: Let_def numeral_2_eq_2)
qed

end
