(* ===== verification/Theme.thy ===== *)
theory Theme
  imports JS_Prelude
begin

text \<open>
  The theme switch of the shell (\<open>src/awo/web.old/src/main.js\<close>, section Theme): the stored choice, the
  operating system's preference, and the attributes and classes of the page that follow them.
  The store may refuse reads or writes (private browsing, quota), which the code catches. Writes of
  other tabs to the shared store are outside the model.
\<close>

section \<open>State\<close>

record theme_page =
  read_ok :: bool
  write_ok :: bool
  stored :: "jstring option"
  osDark :: bool
  data_theme :: "jstring option"
  html_dark :: bool
  body_dark :: bool
  themeIcon :: "jstring option"
  themeLabel :: "jstring option"

text \<open>
  \<open>themeIcon\<close> and \<open>themeLabel\<close> are \<^term>\<open>None\<close> when the page has no such element.
\<close>

definition themeOrder :: "jstring list" where
  "themeOrder = [lit ''system'', lit ''light'', lit ''dark'']"

definition themeIcons :: "(jstring \<times> jstring) list" where
  "themeIcons = [(lit ''system'', lit ''fa-circle-half-stroke''), (lit ''light'', lit ''fa-sun''),
     (lit ''dark'', lit ''fa-moon'')]"

definition themeLabels :: "(jstring \<times> jstring) list" where
  "themeLabels = [(lit ''system'', lit ''System''), (lit ''light'', lit ''Light''), (lit ''dark'', lit ''Dark'')]"

section \<open>Operations\<close>

definition getTheme :: "theme_page \<Rightarrow> jstring" where
  "getTheme s =
     (if read_ok s
      then (case stored s of None \<Rightarrow> lit ''system'' | Some t \<Rightarrow> if t \<noteq> [] then t else lit ''system'')
      else lit ''system'')"

definition isDark :: "theme_page \<Rightarrow> jstring \<Rightarrow> bool" where
  "isDark s theme \<longleftrightarrow> theme = lit ''dark'' \<or> theme = lit ''system'' \<and> osDark s"

text \<open>
  The lookups \<open>themeIcons[theme]\<close> and \<open>themeLabels[theme]\<close> also see what every object inherits; the
  argument \<open>inherited\<close> gives the text of such a member (\<open>toString\<close> and its like), none for other names.
\<close>

definition lookup_or :: "(jstring \<Rightarrow> jstring option) \<Rightarrow> (jstring \<times> jstring) list \<Rightarrow> jstring \<Rightarrow> jstring \<Rightarrow> jstring" where
  "lookup_or inherited m k d =
     (case map_of m k of Some v \<Rightarrow> v
      | None \<Rightarrow> (case inherited k of Some v \<Rightarrow> v | None \<Rightarrow> d))"

definition applyTheme :: "(jstring \<Rightarrow> jstring option) \<Rightarrow> jstring \<Rightarrow> theme_page \<Rightarrow> theme_page" where
  "applyTheme inherited theme s =
     (let dark = isDark s theme in
      s\<lparr>data_theme := Some theme,
        html_dark := dark,
        body_dark := dark,
        themeIcon := map_option
          (\<lambda>_. lit ''fa '' @ lookup_or inherited themeIcons theme (lit ''fa-circle-half-stroke'')) (themeIcon s),
        themeLabel := map_option (\<lambda>_. lookup_or inherited themeLabels theme theme) (themeLabel s),
        stored := (if write_ok s then Some theme else stored s)\<rparr>)"

text \<open>\<open>themeOrder.indexOf(cur)\<close>, with \<open>-1\<close> for an unknown theme.\<close>

fun indexOf :: "'a list \<Rightarrow> 'a \<Rightarrow> int" where
  "indexOf [] x = - 1"
| "indexOf (y # ys) x = (if y = x then 0 else let i = indexOf ys x in if i < 0 then - 1 else i + 1)"

definition next_theme :: "jstring \<Rightarrow> jstring" where
  "next_theme cur = themeOrder ! nat ((indexOf themeOrder cur + 1) mod int (length themeOrder))"

definition cycleTheme :: "(jstring \<Rightarrow> jstring option) \<Rightarrow> theme_page \<Rightarrow> theme_page" where
  "cycleTheme inherited s = applyTheme inherited (next_theme (getTheme s)) s"

text \<open>The \<open>change\<close> listener on the media query: the preference flips, then the listener runs.\<close>

definition os_change :: "(jstring \<Rightarrow> jstring option) \<Rightarrow> bool \<Rightarrow> theme_page \<Rightarrow> theme_page" where
  "os_change inherited dark s =
     (let s' = s\<lparr>osDark := dark\<rparr> in
      if getTheme s' = lit ''system'' then applyTheme inherited (lit ''system'') s' else s')"

definition theme_init :: "(jstring \<Rightarrow> jstring option) \<Rightarrow> theme_page \<Rightarrow> theme_page" where
  "theme_init inherited s = applyTheme inherited (getTheme s) s"

section \<open>The invariant of the page\<close>

text \<open>After the script has initialised the page, the user clicks the switch and the system changes.\<close>

inductive theme_step :: "(jstring \<Rightarrow> jstring option) \<Rightarrow> theme_page \<Rightarrow> theme_page \<Rightarrow> bool"
  for inherited where
  cycle: "theme_step inherited s (cycleTheme inherited s)"
| os: "theme_step inherited s (os_change inherited d s)"

text \<open>
  The store keeps the choice, or its fixed value is one after which the switch never shows \<open>system\<close>
  without the listener knowing.
\<close>

definition remembers :: "theme_page \<Rightarrow> bool" where
  "remembers s \<longleftrightarrow> read_ok s \<and> write_ok s \<or> getTheme s \<in> {lit ''system'', lit ''light''}"

text \<open>
  What a user sees: the two \<open>dark\<close> classes agree with the theme shown in \<open>data-theme\<close> under the
  preference of the system. With a working store the shown theme is the stored one; otherwise the
  choice cannot be remembered and only two themes are ever shown.
\<close>

definition theme_inv :: "theme_page \<Rightarrow> bool" where
  "theme_inv s \<longleftrightarrow>
     (\<exists>t. data_theme s = Some t \<and> body_dark s = html_dark s \<and>
        (if read_ok s \<and> write_ok s then getTheme s = t
         else t = getTheme s \<or> t = next_theme (getTheme s)) \<and>
        (remembers s \<longrightarrow> html_dark s = isDark s t))"

lemma getTheme_not_Nil [simp]: "getTheme s \<noteq> []"
  by (simp add: getTheme_def split: option.split)

lemma next_theme_eq:
  "next_theme cur =
     (if cur = lit ''system'' then lit ''light'' else if cur = lit ''light'' then lit ''dark''
      else lit ''system'')"
  by (auto simp: next_theme_def themeOrder_def)

lemma next_theme_not_Nil [simp]: "next_theme t \<noteq> []"
  by (simp add: next_theme_eq)

lemma applyTheme_get [simp]:
  "t \<noteq> [] \<Longrightarrow> getTheme (applyTheme inherited t s) = (if read_ok s \<and> write_ok s then t else getTheme s)"
  by (simp add: getTheme_def applyTheme_def Let_def)

lemma applyTheme_shows [simp]:
  "data_theme (applyTheme inherited t s) = Some t"
  "html_dark (applyTheme inherited t s) = isDark s t"
  "body_dark (applyTheme inherited t s) = isDark s t"
  "isDark (applyTheme inherited t s) = isDark s"
  "read_ok (applyTheme inherited t s) = read_ok s" "write_ok (applyTheme inherited t s) = write_ok s"
  by (auto simp: applyTheme_def Let_def isDark_def fun_eq_iff)

lemma theme_init_inv: "theme_inv (theme_init inherited s)"
  by (simp add: theme_inv_def theme_init_def)

lemma cycleTheme_inv: "theme_inv (cycleTheme inherited s)"
  by (simp add: theme_inv_def cycleTheme_def)

lemma os_change_get [simp]: "getTheme (s\<lparr>osDark := d\<rparr>) = getTheme s"
  by (simp add: getTheme_def)

lemma os_change_inv:
  assumes "theme_inv s"
  shows "theme_inv (os_change inherited d s)"
proof (cases "getTheme s = lit ''system''")
  case True
  then show ?thesis by (simp add: theme_inv_def os_change_def)
next
  case False
  from assms obtain t where t: "data_theme s = Some t" "body_dark s = html_dark s"
    "if read_ok s \<and> write_ok s then getTheme s = t else t = getTheme s \<or> t = next_theme (getTheme s)"
    "remembers s \<Longrightarrow> html_dark s = isDark s t"
    by (auto simp: theme_inv_def)
  have "remembers s \<Longrightarrow> t \<noteq> lit ''system''"
    using t(3) False by (auto simp: remembers_def next_theme_eq split: if_splits)
  then have "remembers s \<Longrightarrow> html_dark s = isDark (s\<lparr>osDark := d\<rparr>) t"
    using t(4) by (simp add: isDark_def)
  with t False show ?thesis
    by (simp add: theme_inv_def os_change_def remembers_def)
qed

interpretation theme_switch:
  invariant_system "\<lambda>s. \<exists>s0. s = theme_init inherited s0" "theme_step inherited" theme_inv
  for inherited
proof
  show "\<exists>s0. s = theme_init inherited s0 \<Longrightarrow> theme_inv s" for s
    using theme_init_inv by blast
  show "theme_step inherited s t \<Longrightarrow> theme_inv s \<Longrightarrow> theme_inv t" for s t
    by (induction rule: theme_step.induct) (auto intro: cycleTheme_inv os_change_inv)
qed

section \<open>Properties\<close>

text \<open>
  On every page the script can reach with a working store, the dark classes of \<open>html\<close> and \<open>body\<close>
  are exactly what the shown theme and the system's preference ask for, and the shown theme is the
  one a reload would read back.
\<close>

theorem theme_consistent:
  assumes "(theme_step inherited)\<^sup>*\<^sup>* (theme_init inherited s0) s" "read_ok s" "write_ok s"
  shows "data_theme s = Some (getTheme s) \<and>
    html_dark s = (getTheme s = lit ''dark'' \<or> getTheme s = lit ''system'' \<and> osDark s) \<and>
    body_dark s = html_dark s"
  using theme_switch.reachable_inv [OF _ assms(1)] assms(2,3) by (auto simp: theme_inv_def isDark_def remembers_def)

definition fresh_page :: theme_page where
  "fresh_page = \<lparr>read_ok = True, write_ok = True, stored = None, osDark = True, data_theme = None,
     html_dark = False, body_dark = False, themeIcon = Some [], themeLabel = None\<rparr>"

theorem theme_consistent_witness:
  "data_theme (theme_init (\<lambda>_. None) fresh_page) = Some (lit ''system'') \<and>
   html_dark (theme_init (\<lambda>_. None) fresh_page)"
proof -
  let ?s = "theme_init (\<lambda>_. None) fresh_page"
  have "getTheme fresh_page = lit ''system''" by (simp add: getTheme_def fresh_page_def)
  then have "getTheme ?s = lit ''system''" "read_ok ?s" "write_ok ?s" "osDark ?s"
    by (simp_all add: theme_init_def) (simp_all add: fresh_page_def applyTheme_def Let_def)
  with theme_consistent [of "\<lambda>_. None" fresh_page ?s] show ?thesis by simp
qed

text \<open>
  With a working store three clicks on the switch bring a known theme back and run through all
  three; an unknown stored value restarts the cycle at \<open>system\<close>. Without one the switch never leaves
  the theme it first moves to.
\<close>

theorem cycleTheme_period:
  "if read_ok s \<and> write_ok s
   then getTheme (cycleTheme inherited s) = next_theme (getTheme s) \<and>
     (if getTheme s \<in> set themeOrder
      then getTheme (cycleTheme inherited (cycleTheme inherited (cycleTheme inherited s))) = getTheme s \<and>
        distinct [getTheme s, getTheme (cycleTheme inherited s),
          getTheme (cycleTheme inherited (cycleTheme inherited s))]
      else getTheme (cycleTheme inherited s) = lit ''system'')
   else data_theme (cycleTheme inherited (cycleTheme inherited s)) = data_theme (cycleTheme inherited s)"
  by (auto simp: cycleTheme_def next_theme_eq themeOrder_def)

text \<open>
  When the store can be read but not written and holds \<open>dark\<close>, a click shows \<open>system\<close>, and the
  page then ignores a change of the system's preference: it stays light under a dark system.
\<close>

theorem theme_stale_without_write:
  "let s = os_change (\<lambda>_. None) True (cycleTheme (\<lambda>_. None) (theme_init (\<lambda>_. None)
             (fresh_page\<lparr>write_ok := False, stored := Some (lit ''dark''), osDark := False\<rparr>)))
   in data_theme s = Some (lit ''system'') \<and> osDark s \<and> \<not> html_dark s"
  by (simp add: Let_def os_change_def cycleTheme_def theme_init_def fresh_page_def applyTheme_def getTheme_def
      next_theme_eq isDark_def)

end
