(* ===== verification/Schema_Loader.thy ===== *)
theory Schema_Loader
  imports JS_Value
begin

text \<open>
  The schema loader (\<open>src/web/utils/schema-loader.js\<close>): a cache in front of \<open>fetch\<close> that hands every
  caller its own copy. Objects live in a heap, so that a caller who changes what it was given can be
  told apart from the cache. \<open>given\<close> records the objects that callers hold. URLs are taken not to be
  names that every object inherits (\<open>constructor\<close> and its like), which \<open>cache[url]\<close> would find.
\<close>

section \<open>Copies\<close>

lemma size_element: "x \<in> set xs \<Longrightarrow> size x < Suc (size_list size xs)"
  using size_list_estimation' [of x xs "size x" size] by simp

lemma size_member: "(p :: jstring \<times> jval) \<in> set ps \<Longrightarrow> size (snd p) < Suc (size_list (size_prod (\<lambda>_. 0) size) ps)"
proof -
  assume "p \<in> set ps"
  moreover have "size (snd p) \<le> size_prod (\<lambda>_. 0) size p" by (cases p) simp
  ultimately have "size (snd p) \<le> size_list (size_prod (\<lambda>_. 0) size) ps"
    by (rule size_list_estimation')
  then show ?thesis by simp
qed

text \<open>\<open>JSON.parse(JSON.stringify(v))\<close> below the top level.\<close>

function json_copy :: "jval \<Rightarrow> jval" where
  "json_copy (JArr xs) = JArr (map (\<lambda>x. if x = JUndef then JNull else json_copy x) xs)"
| "json_copy (JObj ps) = JObj (map (\<lambda>p. (fst p, json_copy (snd p))) (filter (\<lambda>p. snd p \<noteq> JUndef) ps))"
| "json_copy JUndef = JUndef"
| "json_copy JNull = JNull"
| "json_copy (JBool b) = JBool b"
| "json_copy (JNum n) = JNum n"
| "json_copy (JStr s) = JStr s"
  by pat_completeness auto

termination
proof (relation "measure size")
  show "\<And>xs x. x \<in> set xs \<Longrightarrow> x \<noteq> JUndef \<Longrightarrow> (x, JArr xs) \<in> measure size"
    using size_element by simp
  show "\<And>ps p. p \<in> set (filter (\<lambda>p. snd p \<noteq> JUndef) ps) \<Longrightarrow> (snd p, JObj ps) \<in> measure size"
    using size_member by simp
qed simp


text \<open>What \<open>res.json()\<close> can yield.\<close>

inductive is_json :: "jval \<Rightarrow> bool" where
  "is_json JNull"
| "is_json (JBool b)"
| "is_json (JNum n)"
| "is_json (JStr s)"
| "(\<And>x. x \<in> set xs \<Longrightarrow> is_json x) \<Longrightarrow> is_json (JArr xs)"
| "(\<And>p. p \<in> set ps \<Longrightarrow> is_json (snd p)) \<Longrightarrow> is_json (JObj ps)"

inductive_cases is_json_undef [elim!]: "is_json JUndef"

lemma json_copy_json [simp]: "is_json v \<Longrightarrow> json_copy v = v"
proof (induction rule: is_json.induct)
  case (5 xs)
  then have "map (\<lambda>x. if x = JUndef then JNull else json_copy x) xs = xs"
    by (intro map_idI) auto
  then show ?case by simp
next
  case (6 ps)
  have "snd p \<noteq> JUndef" if "p \<in> set ps" for p using "6.hyps" [OF that] by auto
  then have "filter (\<lambda>p. snd p \<noteq> JUndef) ps = ps" by (simp add: filter_id_conv)
  moreover have "map (\<lambda>p. (fst p, json_copy (snd p))) ps = ps"
    using 6 by (intro map_idI) auto
  ultimately show ?case by simp
qed simp_all

section \<open>The loader\<close>

record loader =
  basePath :: jstring
  heap :: "nat \<Rightarrow> jval option"
  next_addr :: nat
  cache :: "jstring \<Rightarrow> nat option"
  given :: "nat set"
  requests :: "(jstring \<times> jstring) list"

text \<open>\<open>requests\<close> holds the URL and the path of each \<open>fetch\<close> that has not been answered.\<close>

definition SchemaLoader :: "jstring option \<Rightarrow> loader" where
  "SchemaLoader base =
     \<lparr>basePath = (case base of None \<Rightarrow> [] | Some b \<Rightarrow> b), heap = (\<lambda>_. None), next_addr = 0, cache = (\<lambda>_. None),
      given = {}, requests = []\<rparr>"

datatype load_result = Hit nat | Fetching

text \<open>\<open>cache[url]\<close> counts only when it is truthy, which every object and array is.\<close>

definition cached :: "loader \<Rightarrow> jstring \<Rightarrow> jval option" where
  "cached l url =
     (case cache l url of
        None \<Rightarrow> None
      | Some a \<Rightarrow> (case heap l a of Some v \<Rightarrow> if truthy v then Some v else None | None \<Rightarrow> None))"

definition alloc :: "jval \<Rightarrow> loader \<Rightarrow> nat \<times> loader" where
  "alloc v l = (next_addr l, l\<lparr>heap := (heap l)(next_addr l \<mapsto> v), next_addr := Suc (next_addr l)\<rparr>)"

definition give :: "jval \<Rightarrow> loader \<Rightarrow> nat \<times> loader" where
  "give v l = (let (a, l') = alloc (json_copy v) l in (a, l'\<lparr>given := insert a (given l')\<rparr>))"

definition load :: "jstring \<Rightarrow> loader \<Rightarrow> load_result \<times> loader" where
  "load path l =
     (let url = basePath l @ path in
      case cached l url of
        Some v \<Rightarrow> (case give v l of (a, l') \<Rightarrow> (Hit a, l'))
      | None \<Rightarrow> (Fetching, l\<lparr>requests := requests l @ [(url, path)]\<rparr>))"

text \<open>
  The two \<open>then\<close>s: the reply to a request, as the status flag \<open>res.ok\<close> and the parsed body. The promise
  is rejected with the message of the first, or with the error of the parser.
\<close>

definition loaded :: "jstring \<times> jstring \<Rightarrow> bool \<Rightarrow> js_error + jval \<Rightarrow> loader \<Rightarrow> (js_error + nat) \<times> loader" where
  "loaded rq res_ok body l =
     (let l0 = l\<lparr>requests := remove1 rq (requests l)\<rparr> in
      if \<not> res_ok then (Inl (Thrown (lit ''Failed to load schema: '' @ snd rq)), l0)
      else case body of
        Inl e \<Rightarrow> (Inl e, l0)
      | Inr schema \<Rightarrow>
          let (a, l1) = alloc schema l0;
              l2 = l1\<lparr>cache := (cache l1)(fst rq \<mapsto> a)\<rparr>;
              (b, l3) = give schema l2
          in (Inr b, l3))"

text \<open>A caller changes an object that it was given.\<close>

definition mutate :: "nat \<Rightarrow> jval \<Rightarrow> loader \<Rightarrow> loader" where
  "mutate a v l = l\<lparr>heap := (heap l)(a \<mapsto> v)\<rparr>"

inductive loader_step :: "loader \<Rightarrow> loader \<Rightarrow> bool" where
  do_load: "loader_step l (snd (load path l))"
| do_reply: "rq \<in> set (requests l) \<Longrightarrow> (\<And>v. body = Inr v \<Longrightarrow> is_json v) \<Longrightarrow>
    loader_step l (snd (loaded rq res_ok body l))"
| do_mutate: "a \<in> given l \<Longrightarrow> loader_step l (mutate a v l)"

inductive_simps loader_step_iff: "loader_step l l'"

section \<open>The cache is private\<close>

definition loader_inv :: "loader \<Rightarrow> bool" where
  "loader_inv l \<longleftrightarrow>
     (\<forall>a \<in> given l. a < next_addr l) \<and>
     (\<forall>url a. cache l url = Some a \<longrightarrow> a < next_addr l \<and> a \<notin> given l \<and> (\<exists>v. heap l a = Some v \<and> is_json v))"

lemma loader_inv_step:
  assumes "loader_step l l'" "loader_inv l"
  shows "loader_inv l'"
  using assms
proof (induction rule: loader_step.induct)
  case (do_load l path)
  then show ?case
    by (auto simp: load_def Let_def give_def alloc_def loader_inv_def less_Suc_eq split: option.split)
next
  case (do_reply rq l body res_ok)
  then show ?case
    by (cases body) (fastforce simp: loaded_def Let_def give_def alloc_def loader_inv_def less_Suc_eq)+
next
  case (do_mutate a l v)
  then show ?case by (auto simp: mutate_def loader_inv_def)
qed

interpretation schema_cache: invariant_system "\<lambda>l. \<exists>b. l = SchemaLoader b" loader_step loader_inv
proof
  show "\<exists>b. l = SchemaLoader b \<Longrightarrow> loader_inv l" for l by (auto simp: loader_inv_def SchemaLoader_def)
  show "loader_step l l' \<Longrightarrow> loader_inv l \<Longrightarrow> loader_inv l'" for l l' by (rule loader_inv_step)
qed

text \<open>An object that no caller holds keeps its value, whatever happens to its place in the cache.\<close>

definition unshared :: "nat \<Rightarrow> loader \<Rightarrow> bool" where
  "unshared a l \<longleftrightarrow> a < next_addr l \<and> a \<notin> given l"

lemma unshared_step:
  "loader_step l l' \<Longrightarrow> unshared a l \<Longrightarrow> unshared a l' \<and> heap l' a = heap l a"
  by (induction rule: loader_step.induct)
    (auto simp: unshared_def load_def loaded_def mutate_def Let_def give_def alloc_def
      split: option.split sum.split)

section \<open>Properties\<close>

text \<open>
  A run of the loader with the schemas it has fetched, newest first, each under the path that was asked for. Callers load,
  requests are answered in any order and with any outcome, and callers change what they were given.
\<close>

inductive loader_run :: "jstring option \<Rightarrow> (jstring \<times> jval) list \<Rightarrow> loader \<Rightarrow> bool" for base where
  run_start: "loader_run base [] (SchemaLoader base)"
| run_load: "loader_run base fetched l \<Longrightarrow> loader_run base fetched (snd (load path l))"
| run_fetched: "\<lbrakk>loader_run base fetched l; rq \<in> set (requests l); is_json v\<rbrakk> \<Longrightarrow>
    loader_run base ((snd rq, v) # fetched) (snd (loaded rq True (Inr v) l))"
| run_failed: "\<lbrakk>loader_run base fetched l; rq \<in> set (requests l); \<not> res_ok \<or> body = Inl e\<rbrakk> \<Longrightarrow>
    loader_run base fetched (snd (loaded rq res_ok body l))"
| run_mutate: "loader_run base fetched l \<Longrightarrow> a \<in> given l \<Longrightarrow> loader_run base fetched (mutate a v l)"

lemma loader_run_steps: "loader_run base fetched l \<Longrightarrow> loader_step\<^sup>*\<^sup>* (SchemaLoader base) l"
proof (induction rule: loader_run.induct)
  case (run_failed fetched l rq res_ok body e)
  have "snd (loaded rq res_ok body l) = snd (loaded rq False (Inl e) l)"
    using run_failed.hyps(3) by (auto simp: loaded_def Let_def)
  moreover have "loader_step l (snd (loaded rq False (Inl e) l))" using run_failed.hyps(2) by (intro loader_step.do_reply) auto
  ultimately show ?case using run_failed.IH by (simp add: rtranclp.rtrancl_into_rtrancl)
qed (auto intro: rtranclp.rtrancl_into_rtrancl loader_step.intros)

lemma loader_run_inv: "loader_run base fetched l \<Longrightarrow> loader_inv l"
  using schema_cache.reachable_inv [OF _ loader_run_steps] by blast

text \<open>Requests are for the path below the base, and each schema that was fetched last for a path is in the cache under its URL.\<close>

definition loader_base :: "jstring option \<Rightarrow> jstring" where
  "loader_base base = (case base of None \<Rightarrow> [] | Some b \<Rightarrow> b)"

definition keeps_fetched :: "jstring option \<Rightarrow> (jstring \<times> jval) list \<Rightarrow> loader \<Rightarrow> bool" where
  "keeps_fetched base fetched l \<longleftrightarrow> basePath l = loader_base base \<and>
     (\<forall>rq \<in> set (requests l). fst rq = loader_base base @ snd rq) \<and>
     (\<forall>path. Option.bind (cache l (loader_base base @ path)) (heap l) = map_of fetched path)"

lemma cached_kept:
  assumes "loader_inv l" "loader_step l l'" "cache l' url = cache l url"
  shows "Option.bind (cache l' url) (heap l') = Option.bind (cache l url) (heap l)"
proof (cases "cache l url")
  case (Some a)
  then have "unshared a l" using assms(1) by (simp add: loader_inv_def unshared_def)
  then show ?thesis using unshared_step [OF assms(2)] Some assms(3) by simp
qed (simp add: assms(3))

lemma keeps_fetched_step:
  assumes "keeps_fetched base fetched l" "loader_inv l" "loader_step l l'" "cache l' = cache l" "basePath l' = basePath l"
    "\<forall>rq \<in> set (requests l') - set (requests l). fst rq = loader_base base @ snd rq"
  shows "keeps_fetched base fetched l'"
  using assms(1,5,6) cached_kept [OF assms(2,3)] assms(4) by (auto simp: keeps_fetched_def)

lemma fetched_cached:
  fixes l rq v
  defines "l' \<equiv> snd (loaded rq True (Inr v) l)"
  assumes "loader_inv l" "rq \<in> set (requests l)" "is_json v"
  shows "Option.bind (cache l' url) (heap l') = (if url = fst rq then Some v else Option.bind (cache l url) (heap l))"
    "basePath l' = basePath l" "requests l' = remove1 rq (requests l)"
proof -
  have "loader_step l l'" unfolding l'_def using assms(3,4) by (intro loader_step.do_reply) auto
  from cached_kept [OF assms(2) this, of url]
  show "Option.bind (cache l' url) (heap l') = (if url = fst rq then Some v else Option.bind (cache l url) (heap l))"
    by (auto simp: l'_def loaded_def give_def alloc_def Let_def)
qed (simp_all add: l'_def loaded_def give_def alloc_def Let_def)

lemma loader_run_keeps: "loader_run base fetched l \<Longrightarrow> keeps_fetched base fetched l"
proof (induction rule: loader_run.induct)
  case (run_load fetched l path)
  show ?case
    by (rule keeps_fetched_step [OF run_load.IH loader_run_inv [OF run_load.hyps] loader_step.do_load])
      (use run_load.IH in \<open>auto simp: load_def give_def alloc_def keeps_fetched_def Let_def split: option.split\<close>)
next
  case (run_fetched fetched l rq v)
  note f = fetched_cached [OF loader_run_inv [OF run_fetched.hyps(1)] run_fetched.hyps(2,3)]
  show ?case
    using run_fetched.IH run_fetched.hyps(2) by (auto simp: keeps_fetched_def f dest: set_remove1_subset [THEN subsetD])
next
  case (run_failed fetched l rq res_ok body e)
  then show ?case by (auto simp: keeps_fetched_def loaded_def Let_def dest: notin_set_remove1 split: sum.splits)
next
  case (run_mutate fetched l a v)
  show ?case
    by (rule keeps_fetched_step [OF run_mutate.IH loader_run_inv [OF run_mutate.hyps(1)] loader_step.do_mutate [OF run_mutate.hyps(2)]])
      (simp_all add: mutate_def)
qed (simp add: keeps_fetched_def SchemaLoader_def loader_base_def)

text \<open>
  C15. The cache is private and holds what was fetched. Whatever has been loaded, answered in any order, and done by callers to the
  objects they were given, a load of a path hands out a new object with exactly the schema that was fetched last for this path; when none
  was fetched (or one that is not truthy, such as \<open>null\<close>), it asks the server for the path below the base.
\<close>

theorem load_returns_fetched_schema:
  assumes "loader_run base fetched l"
  shows "case map_of fetched path of
      Some v \<Rightarrow>
        if truthy v then (\<exists>a l'. load path l = (Hit a, l') \<and> a \<notin> given l \<and> heap l' a = Some v)
        else load path l = (Fetching, l\<lparr>requests := requests l @ [(loader_base base @ path, path)]\<rparr>)
    | None \<Rightarrow> load path l = (Fetching, l\<lparr>requests := requests l @ [(loader_base base @ path, path)]\<rparr>)"
proof -
  have k: "basePath l = loader_base base" "Option.bind (cache l (loader_base base @ path)) (heap l) = map_of fetched path"
    using loader_run_keeps [OF assms] by (simp_all add: keeps_fetched_def)
  have c: "cached l (loader_base base @ path) = (case map_of fetched path of Some v \<Rightarrow> if truthy v then Some v else None | None \<Rightarrow> None)"
    unfolding k(2) [symmetric] by (simp add: cached_def split: option.split)
  have inv: "loader_inv l" by (rule loader_run_inv [OF assms])
  show ?thesis
  proof (cases "map_of fetched path")
    case (Some v)
    then obtain a where "cache l (loader_base base @ path) = Some a" "heap l a = Some v" using k(2) by (auto simp: bind_eq_Some_conv)
    then have "is_json v" using inv by (fastforce simp: loader_inv_def)
    moreover have "next_addr l \<notin> given l" using inv by (auto simp: loader_inv_def)
    ultimately show ?thesis using Some c k(1) by (auto simp: load_def give_def alloc_def Let_def)
  qed (use c k(1) in \<open>simp add: load_def Let_def\<close>)
qed

text \<open>A caller empties the schema it was given; the next one gets what the server sent.\<close>

theorem load_returns_fetched_schema_witness:
  "let l = snd (load (lit ''p'') (SchemaLoader (Some (lit ''/s/''))));
       l = mutate 1 (JArr []) (snd (loaded (lit ''/s/p'', lit ''p'') True (Inr (JArr [JNull])) l))
   in \<exists>a l'. load (lit ''p'') l = (Hit a, l') \<and> heap l' a = Some (JArr [JNull])"
proof -
  let ?l = "snd (load (lit ''p'') (SchemaLoader (Some (lit ''/s/''))))" and ?rq = "(lit ''/s/p'', lit ''p'')"
  let ?m = "snd (loaded ?rq True (Inr (JArr [JNull])) ?l)"
  have "?rq \<in> set (requests ?l)"
    by (simp add: load_def SchemaLoader_def cached_def Let_def lit_def)
  moreover have "is_json (JArr [JNull])" by (intro is_json.intros) (auto intro: is_json.intros)
  ultimately have "loader_run (Some (lit ''/s/'')) [(lit ''p'', JArr [JNull])] ?m"
    using run_fetched [OF run_load [OF run_start], of ?rq] by simp
  moreover have "1 \<in> given ?m"
    by (simp add: load_def loaded_def SchemaLoader_def cached_def give_def alloc_def Let_def)
  ultimately have "loader_run (Some (lit ''/s/'')) [(lit ''p'', JArr [JNull])] (mutate 1 (JArr []) ?m)" by (rule run_mutate)
  from load_returns_fetched_schema [OF this, of "lit ''p''"] show ?thesis by (auto simp: Let_def)
qed

end
