(* ===== verification/Path_Module.thy ===== *)
theory Path_Module
  imports Routing
begin

text \<open>
  The path functions (\<open>src/site/assets/javascripts/lunr/wordcut.js\<close>, bundled module 22; the POSIX
  functions of the same names are what the development server calls). \<open>normalizeArray\<close> is the single
  backward pass of the source; the lemmas show that it computes what the forward reading of a path,
  one directory at a time, gives.
\<close>

section \<open>Definitions\<close>

abbreviation dot :: jstring where "dot \<equiv> lit ''.''"
abbreviation dotdot :: jstring where "dotdot \<equiv> lit ''..''"

text \<open>
  The loop of \<open>normalizeArray\<close>: the parts not yet seen, last first, the counter \<open>up\<close>, and the parts
  behind the current one that are still in the array.
\<close>

fun na_loop :: "jstring list \<Rightarrow> nat \<Rightarrow> jstring list \<Rightarrow> nat \<times> jstring list" where
  "na_loop [] up kept = (up, kept)"
| "na_loop (p # ps) up kept =
     (if p = dot then na_loop ps up kept
      else if p = dotdot then na_loop ps (Suc up) kept
      else if up > 0 then na_loop ps (up - 1) kept
      else na_loop ps up (p # kept))"

definition normalizeArray :: "jstring list \<Rightarrow> bool \<Rightarrow> jstring list" where
  "normalizeArray parts allowAboveRoot =
     (let (up, kept) = na_loop (rev parts) 0 [] in
      if allowAboveRoot then replicate up dotdot @ kept else kept)"

definition isAbsolute :: "jstring \<Rightarrow> bool" where
  "isAbsolute p \<longleftrightarrow> prefix [slash] p"

definition normalize :: "jstring \<Rightarrow> jstring" where
  "normalize path =
     (let absolute = isAbsolute path;
          trailingSlash = (path \<noteq> [] \<and> last path = slash);
          q = join [slash] (normalizeArray (segments path) (\<not> absolute));
          q = (if q = [] \<and> \<not> absolute then dot else q);
          q = (if q \<noteq> [] \<and> trailingSlash then q @ [slash] else q)
      in (if absolute then [slash] else []) @ q)"

definition path_join :: "jstring list \<Rightarrow> jstring" where
  "path_join paths = normalize (join [slash] (filter (\<lambda>p. p \<noteq> []) paths))"

text \<open>
  \<open>resolve\<close>: the arguments from the last to the first, and then the working directory, until the path
  is absolute.
\<close>

fun resolve_loop :: "jstring list \<Rightarrow> jstring \<Rightarrow> jstring \<times> bool" where
  "resolve_loop [] acc = (acc, False)"
| "resolve_loop (p # ps) acc =
     (if p = [] then resolve_loop ps acc
      else if isAbsolute p then (p @ [slash] @ acc, True)
      else resolve_loop ps (p @ [slash] @ acc))"

definition resolve :: "jstring \<Rightarrow> jstring list \<Rightarrow> jstring" where
  "resolve cwd args =
     (let (p, absolute) = resolve_loop (rev args @ [cwd]) [];
          q = (if absolute then [slash] else []) @ join [slash] (normalizeArray (segments p) (\<not> absolute))
      in if q = [] then dot else q)"

text \<open>
  The regular expression \<open>splitPathRe\<close>: an optional leading slash, the shortest directory part, the
  last segment with its extension, and trailing slashes. The extension starts at the last dot of the
  segment unless that dot is its first character or the segment is \<open>..\<close>.
\<close>

definition drop_slashes :: "jstring \<Rightarrow> jstring" where
  "drop_slashes p = rev (dropWhile (\<lambda>c. c = slash) (rev p))"

definition last_segment :: "jstring \<Rightarrow> jstring" where
  "last_segment p = rev (takeWhile (\<lambda>c. c \<noteq> slash) (rev (drop_slashes p)))"

definition ext_of :: "jstring \<Rightarrow> jstring" where
  "ext_of b =
     (let tail = takeWhile (\<lambda>c. c \<noteq> 0x2E) (rev b) in
      if b = dotdot \<or> Suc (length tail) \<ge> length b then []
      else 0x2E # rev tail)"

definition splitPath :: "jstring \<Rightarrow> jstring \<times> jstring \<times> jstring \<times> jstring" where
  "splitPath p =
     (let root = (if isAbsolute p then [slash] else []);
          rest = drop (length root) p;
          base = last_segment rest;
          dir = take (length (drop_slashes rest) - length base) rest
      in (root, dir, base, ext_of base))"

definition dirname :: "jstring \<Rightarrow> jstring" where
  "dirname p =
     (let (root, dir, _, _) = splitPath p in
      if root = [] \<and> dir = [] then dot
      else root @ (if dir \<noteq> [] then butlast dir else dir))"

definition basename :: "jstring \<Rightarrow> jstring \<Rightarrow> jstring" where
  "basename p ext =
     (let (_, _, f, _) = splitPath p in
      if ext \<noteq> [] \<and> suffix ext f then take (length f - length ext) f else f)"

definition extname :: "jstring \<Rightarrow> jstring" where
  "extname p = (let (_, _, _, e) = splitPath p in e)"

text \<open>
  \<open>relative\<close>. The inner \<open>trim\<close> drops empty strings at both ends; its \<open>slice\<close> ends at
  \<open>end - start + 1\<close>.
\<close>

definition trim_parts :: "jstring list \<Rightarrow> jstring list" where
  "trim_parts arr =
     (let start = length (takeWhile (\<lambda>s. s = []) arr);
          stop = length arr - length (takeWhile (\<lambda>s. s = []) (rev arr))
      in if start \<ge> stop then [] else drop start (take (stop - start) arr))"

fun common :: "'a list \<Rightarrow> 'a list \<Rightarrow> nat" where
  "common (x # xs) (y # ys) = (if x = y then Suc (common xs ys) else 0)"
| "common _ _ = 0"

definition relative :: "jstring \<Rightarrow> jstring \<Rightarrow> jstring \<Rightarrow> jstring" where
  "relative cwd from to =
     (let f = trim_parts (split1 slash (drop 1 (resolve cwd [from])));
          t = trim_parts (split1 slash (drop 1 (resolve cwd [to])));
          n = common f t
      in join [slash] (replicate (length f - n) dotdot @ drop n t))"

section \<open>The backward pass\<close>

text \<open>The forward reading: how far above the start, and the directories entered below that.\<close>

definition walk_step :: "nat \<times> jstring list \<Rightarrow> jstring \<Rightarrow> nat \<times> jstring list" where
  "walk_step = (\<lambda>(up, st) p.
     if p = dot then (up, st)
     else if p = dotdot then (if st = [] then (Suc up, []) else (up, butlast st))
     else (up, st @ [p]))"

definition walk :: "jstring list \<Rightarrow> nat \<times> jstring list" where
  "walk ps = foldl walk_step (0, []) ps"

lemma walk_snoc: "walk (ps @ [p]) = walk_step (walk ps) p"
  by (simp add: walk_def)

lemma na_loop_walk:
  "na_loop (rev ps) up kept =
     (let (u, st) = walk ps in
      if up \<le> length st then (u, take (length st - up) st @ kept) else (u + (up - length st), kept))"
proof (induction ps arbitrary: up kept rule: rev_induct)
  case Nil
  show ?case by (simp add: walk_def)
next
  case (snoc p ps)
  obtain u st where w: "walk ps = (u, st)" by force
  consider "p = dot" | "p = dotdot" | "p \<noteq> dot" "p \<noteq> dotdot" by blast
  then show ?case
  proof cases
    case 1
    then show ?thesis by (simp add: walk_snoc walk_step_def w snoc)
  next
    case 2
    then show ?thesis
      by (cases st rule: rev_cases) (auto simp: walk_snoc walk_step_def w snoc)
  next
    case 3
    then show ?thesis
      by (cases up) (auto simp: walk_snoc walk_step_def w snoc Suc_diff_le)
  qed
qed

lemma normalizeArray_walk:
  "normalizeArray ps allow = (let (u, st) = walk ps in if allow then replicate u dotdot @ st else st)"
  using na_loop_walk [of ps 0 "[]"] by (cases "walk ps") (simp add: normalizeArray_def)


section \<open>Normal forms\<close>

abbreviation named :: "jstring \<Rightarrow> bool" where "named p \<equiv> p \<noteq> dot \<and> p \<noteq> dotdot"

lemma walk_from_named: "\<forall>p \<in> set qs. named p \<Longrightarrow> foldl walk_step (u, st) qs = (u, st @ qs)"
  by (induction qs arbitrary: st) (auto simp: walk_step_def)

lemma dotdot_not_dot [simp]: "dotdot \<noteq> dot"
  by simp

lemma walk_from_dots: "foldl walk_step (u, []) (replicate n dotdot) = (u + n, [])"
  by (induction n arbitrary: u) (auto simp: walk_step_def)

lemma walk_normal: "\<forall>p \<in> set st. named p \<Longrightarrow> walk (replicate u dotdot @ st) = (u, st)"
  by (simp add: walk_def walk_from_dots walk_from_named)

lemma walk_parts: "walk ps = (u, st) \<Longrightarrow> set st \<subseteq> set ps \<and> (\<forall>p \<in> set st. named p)"
proof (induction ps arbitrary: u st rule: rev_induct)
  case (snoc p ps)
  obtain u' st' where w: "walk ps = (u', st')" by force
  from snoc.IH [OF w] snoc.prems show ?case
    by (auto simp: walk_snoc w walk_step_def split: if_splits dest: in_set_butlastD)
qed (simp add: walk_def)

lemma split1_snoc: "split1 c (p @ [c]) = split1 c p @ [[]]"
  by (induction p) (auto split: list.split)

lemma segments_slash [simp]: "segments (slash # p) = segments p" "segments (p @ [slash]) = segments p"
  by (simp_all add: segments_def split1_snoc)

lemma segments_append_slash: "segments (p @ slash # s) = segments p @ segments s"
  by (simp add: segments_def split1_append_sep)

text \<open>The parts of a normalised path.\<close>

definition normal_parts :: "jstring \<Rightarrow> jstring list" where
  "normal_parts path =
     (let ps = normalizeArray (segments path) (\<not> isAbsolute path) in
      if ps = [] \<and> \<not> isAbsolute path then [dot] else ps)"

lemma dotdot_clean: "dotdot \<noteq> []" "slash \<notin> set dotdot" "dot \<noteq> []" "slash \<notin> set dot"
  by (simp_all add: lit_def)

lemma normal_parts_clean: "\<forall>p \<in> set (normal_parts path). p \<noteq> [] \<and> slash \<notin> set p"
proof -
  obtain u st where w: "walk (segments path) = (u, st)" by force
  have "set st \<subseteq> set (segments path)" using walk_parts [OF w] by simp
  then have "\<forall>p \<in> set st. p \<noteq> [] \<and> slash \<notin> set p" using segments_clean by blast
  then show ?thesis
    by (auto simp: normal_parts_def normalizeArray_walk w dotdot_clean)
qed

lemma normal_parts_again:
  assumes "segments q = normal_parts path" "isAbsolute q = isAbsolute path"
  shows "normal_parts q = normal_parts path"
proof -
  obtain u st where w: "walk (segments path) = (u, st)" by force
  have named: "\<forall>p \<in> set st. named p" using walk_parts [OF w] by simp
  have "walk [dot] = (0, [])" by (simp add: walk_def walk_step_def)
  moreover have "walk st = (0, st)" using walk_normal [OF named, of 0] by simp
  ultimately show ?thesis
    unfolding normal_parts_def [of q] assms normalizeArray_walk
    by (auto simp: normal_parts_def normalizeArray_walk w walk_normal [OF named] Let_def)
qed

lemma normalize_parts:
  "normalize path =
     (if isAbsolute path then [slash] else []) @ join [slash] (normal_parts path) @
     (if normal_parts path \<noteq> [] \<and> path \<noteq> [] \<and> last path = slash then [slash] else [])"
proof -
  have ne: "join [slash] (normalizeArray (segments path) b) = [] \<longleftrightarrow> normalizeArray (segments path) b = []"
    if "b = (\<not> isAbsolute path)" for b
    using normal_parts_clean [of path] that
    by (auto simp: join_eq_Nil_iff normal_parts_def split: if_splits)
  show ?thesis
    using ne [OF refl] by (auto simp: normalize_def normal_parts_def Let_def)
qed

lemma clean_ends: "p \<noteq> [] \<Longrightarrow> c \<notin> set p \<Longrightarrow> hd p \<noteq> c" "p \<noteq> [] \<Longrightarrow> c \<notin> set p \<Longrightarrow> last p \<noteq> c"
  using hd_in_set last_in_set by metis+

lemma join_head:
  assumes "ps \<noteq> []" "\<forall>p \<in> set ps. p \<noteq> [] \<and> slash \<notin> set p"
  shows "join [slash] ps \<noteq> []" "hd (join [slash] ps) \<noteq> slash" "last (join [slash] ps) \<noteq> slash"
  using assms
  by (induction "[slash]" ps rule: join.induct)
    (simp_all add: hd_append last_append join_Cons clean_ends)

lemma isAbsolute_hd: "isAbsolute p \<longleftrightarrow> p \<noteq> [] \<and> hd p = slash"
  by (cases p) (auto simp: isAbsolute_def)

lemma normalize_shape:
  "isAbsolute (normalize path) = isAbsolute path" "segments (normalize path) = normal_parts path"
  "normal_parts path \<noteq> [] \<Longrightarrow>
   (normalize path \<noteq> [] \<and> last (normalize path) = slash) = (path \<noteq> [] \<and> last path = slash)"
proof -
  let ?ps = "normal_parts path"
  note clean = normal_parts_clean [of path]
  have rel: "?ps \<noteq> []" if "\<not> isAbsolute path" using that by (simp add: normal_parts_def Let_def)
  have seg: "segments (join [slash] ?ps) = ?ps" using clean by (rule segments_join)
  show "segments (normalize path) = ?ps" by (simp add: normalize_parts seg)
  show "isAbsolute (normalize path) = isAbsolute path"
    using rel join_head [OF _ clean] by (auto simp: normalize_parts isAbsolute_hd hd_append)
  show "(normalize path \<noteq> [] \<and> last (normalize path) = slash) = (path \<noteq> [] \<and> last path = slash)"
    if "?ps \<noteq> []"
    using join_head [OF that clean] that by (simp add: normalize_parts last_append)
qed

lemma normalize_normalize: "normalize (normalize path) = normalize path"
proof -
  have parts: "normal_parts (normalize path) = normal_parts path"
    by (rule normal_parts_again) (simp_all add: normalize_shape)
  then show ?thesis
    using normalize_shape(3) [of path]
    unfolding normalize_parts [of "normalize path"] parts normalize_shape(1)
    by (cases "normal_parts path = []") (auto simp: normalize_parts [of path])
qed

section \<open>Properties\<close>

text \<open>
  C13. The backward pass of \<open>normalizeArray\<close>, with its single counter, computes the forward reading
  of the path: enter a named directory, leave it at \<open>..\<close>, and count the \<open>..\<close> that find none to leave.
\<close>

theorem normalizeArray_forward:
  "normalizeArray parts allowAboveRoot =
     (let (up, dirs) = foldl walk_step (0, []) parts in
      if allowAboveRoot then replicate up dotdot @ dirs else dirs)"
  using normalizeArray_walk [of parts allowAboveRoot] by (simp add: walk_def)

text \<open>
  C14. Normalising a path is idempotent, keeps it absolute or relative, and leaves no \<open>.\<close> and no
  \<open>..\<close> behind a name; an absolute path keeps no \<open>..\<close> at all.
\<close>

theorem normalize_normal_form:
  "normalize (normalize path) = normalize path \<and> isAbsolute (normalize path) = isAbsolute path \<and>
   (\<exists>n dirs. segments (normalize path) = replicate n dotdot @ dirs \<and>
      dotdot \<notin> set dirs \<and> (dot \<in> set dirs \<longleftrightarrow> dirs = [dot]) \<and> (if isAbsolute path then n = 0 else True))"
proof -
  obtain u st where w: "walk (segments path) = (u, st)" by force
  have named: "\<forall>p \<in> set st. named p" using walk_parts [OF w] by simp
  have "segments (normalize path) =
      (if isAbsolute path then st else if u = 0 \<and> st = [] then [dot] else replicate u dotdot @ st)"
    by (simp add: normalize_shape normal_parts_def normalizeArray_walk w)
  moreover have "segments (normalize path) = replicate (if isAbsolute path then 0 else u) dotdot @
      (if \<not> isAbsolute path \<and> u = 0 \<and> st = [] then [dot] else st)"
    using calculation by simp
  ultimately have "\<exists>n dirs. segments (normalize path) = replicate n dotdot @ dirs \<and>
      dotdot \<notin> set dirs \<and> (dot \<in> set dirs \<longleftrightarrow> dirs = [dot]) \<and> (if isAbsolute path then n = 0 else True)"
    using named
    by (intro exI [of _ "if isAbsolute path then 0 else u"]
        exI [of _ "if \<not> isAbsolute path \<and> u = 0 \<and> st = [] then [dot] else st"]) auto
  with normalize_normalize normalize_shape(1) show ?thesis by blast
qed

end
