(* ===== verification/Dev_Server.thy ===== *)
theory Dev_Server
  imports Path_Module
begin

text \<open>
  The development server plugin (\<open>src/awo/web.old/vite.config.js\<close>): two middlewares that map the URL
  below \<open>/sdk\<close> and \<open>/locales\<close> to a file next to the project and send it with a content type. The file
  system is an argument, \<open>exists\<close>.
\<close>

datatype reply =
    Next
  | Send (send_file: jstring) (send_type: jstring) (send_cache: jstring)

definition sdkDir :: "jstring \<Rightarrow> jstring \<Rightarrow> jstring" where
  "sdkDir cwd dir = resolve cwd [dir, lit ''../../web/sdk'']"

definition utilsDir :: "jstring \<Rightarrow> jstring \<Rightarrow> jstring" where
  "utilsDir cwd dir = resolve cwd [dir, lit ''../../web/utils'']"

definition serveStaticFile :: "(jstring \<Rightarrow> bool) \<Rightarrow> jstring \<Rightarrow> reply" where
  "serveStaticFile exists filePath =
     (if \<not> exists filePath then Next
      else let ext = extname filePath;
               mime = (if ext = lit ''.css'' then lit ''text/css''
                       else if ext = lit ''.js'' then lit ''application/javascript''
                       else lit ''application/octet-stream'')
           in Send filePath mime (lit ''public, max-age=86400''))"

text \<open>The two middlewares; \<open>url\<close> is \<open>req.url\<close>, from which the server has removed the mount path.\<close>

definition sdk_middleware :: "(jstring \<Rightarrow> bool) \<Rightarrow> jstring \<Rightarrow> jstring \<Rightarrow> reply" where
  "sdk_middleware exists sdk url = serveStaticFile exists (path_join [sdk, url])"

definition locales_middleware :: "(jstring \<Rightarrow> bool) \<Rightarrow> jstring \<Rightarrow> jstring \<Rightarrow> reply" where
  "locales_middleware exists utils url =
     (let name = (if prefix [slash] url then drop 1 url else url)
      in serveStaticFile exists (path_join [utils, lit ''locale-'' @ name]))"

section \<open>Joining below a directory\<close>

text \<open>A directory as \<open>resolve\<close> gives it: absolute, in normal form, without a trailing slash.\<close>

definition directory :: "jstring list \<Rightarrow> jstring" where
  "directory ds = slash # join [slash] ds"

abbreviation plain_parts :: "jstring list \<Rightarrow> bool" where
  "plain_parts ds \<equiv> \<forall>p \<in> set ds. p \<noteq> [] \<and> slash \<notin> set p \<and> named p"

text \<open>Below a stack of directories, a reading that never climbs above its start only adds to them.\<close>

lemma walk_below:
  assumes "walk ps = (0, st)"
  shows "foldl walk_step (u, ds) ps = (u, ds @ st)"
  using assms
proof (induction ps arbitrary: st rule: rev_induct)
  case (snoc p ps)
  obtain u' st' where w: "walk ps = (u', st')" by force
  with snoc.prems have step: "walk_step (u', st') p = (0, st)" by (simp add: walk_snoc)
  then have "u' = 0" by (auto simp: walk_step_def split: if_splits)
  with snoc.IH w have "foldl walk_step (u, ds) ps = (u, ds @ st')" by simp
  with step \<open>u' = 0\<close> show ?case
    by (auto simp: walk_step_def butlast_append split: if_splits)
qed (simp add: walk_def)

lemma join_directory:
  assumes "plain_parts ds" "url \<noteq> []" "walk (segments url) = (0, st)"
  shows "segments (path_join [directory ds, url]) = ds @ st"
proof -
  let ?p = "directory ds @ [slash] @ url"
  have j: "path_join [directory ds, url] = normalize ?p"
    using assms(2) by (simp add: path_join_def directory_def)
  have abs: "isAbsolute ?p" by (simp add: isAbsolute_def directory_def)
  have "segments (directory ds) = ds"
    using assms(1) segments_join [of ds] by (simp add: directory_def)
  then have "segments ?p = ds @ segments url" by (simp add: segments_append_slash)
  moreover have "walk (ds @ segments url) = (0, ds @ st)"
    using walk_below [OF assms(3), of 0 ds] walk_from_named [of ds 0 "[]"] assms(1) by (simp add: walk_def)
  ultimately show ?thesis
    using abs by (simp add: j normalize_shape normal_parts_def normalizeArray_walk Let_def)
qed

section \<open>Properties\<close>

text \<open>
  C16. Containment. As long as the requested path never climbs above its own start, what the server
  sends for it lies below the SDK directory, with the content type of its extension.
\<close>

theorem sdk_contained:
  assumes "plain_parts ds" "url \<noteq> []" "walk (segments url) = (0, st)"
    "sdk_middleware exists (directory ds) url = Send f mime cache"
  shows "segments f = ds @ st \<and> exists f \<and>
    mime = (if extname f = lit ''.css'' then lit ''text/css''
            else if extname f = lit ''.js'' then lit ''application/javascript'' else lit ''application/octet-stream'')"
  using assms(4) join_directory [OF assms(1-3)]
  by (auto simp: sdk_middleware_def serveStaticFile_def Let_def split: if_splits)

theorem sdk_contained_witness:
  "segments (send_file (sdk_middleware (\<lambda>_. True) (directory [lit ''web'', lit ''sdk'']) (lit ''/a/../sdk.js''))) =
     [lit ''web'', lit ''sdk''] @ [lit ''sdk.js'']"
proof -
  have "walk (segments (lit ''/a/../sdk.js'')) = (0, [lit ''sdk.js''])"
    by (simp add: walk_def walk_step_def segments_def lit_def)
  moreover have "plain_parts [lit ''web'', lit ''sdk'']" by (simp add: lit_def)
  moreover obtain f mime cache where
    "sdk_middleware (\<lambda>_. True) (directory [lit ''web'', lit ''sdk'']) (lit ''/a/../sdk.js'') = Send f mime cache"
    by (simp add: sdk_middleware_def serveStaticFile_def Let_def)
  ultimately show ?thesis
    using sdk_contained [of "[lit ''web'', lit ''sdk'']" "lit ''/a/../sdk.js''" "[lit ''sdk.js'']" "\<lambda>_. True"]
    by simp
qed

text \<open>
  Nothing checks that: a URL with enough \<open>..\<close> makes the server send any file it can read.
\<close>

theorem sdk_escapes:
  "send_file (sdk_middleware (\<lambda>_. True) (lit ''/srv/web/sdk'') (lit ''/../../../etc/passwd'')) = lit ''/etc/passwd''"
  by (simp add: sdk_middleware_def serveStaticFile_def Let_def path_join_def normalize_def isAbsolute_def
      segments_def normalizeArray_def lit_def)

end
