(* ===== verification/Locale_Bundles.thy ===== *)
theory Locale_Bundles
  imports Locale_Tables "HOL-Library.Multiset"
begin

text \<open>
  The message bundles at work: how the development bundle registers itself, how a message is looked
  up and filled, and how far the bundle of the production build agrees with the one it is said to be
  a copy of.
\<close>

section \<open>Registering and looking up\<close>

text \<open>
  The script of \<open>src/web/utils/locale-en.js\<close>. The module \<open>amis-core\<close> belongs to the SDK: \<open>has_register\<close>
  says whether it is there and offers \<open>registerLocale\<close>; the two calls are arguments.
\<close>

definition locale_en_script ::
    "('core \<Rightarrow> bool) \<Rightarrow> (string \<Rightarrow> (string \<times> string) list \<Rightarrow> 'core \<Rightarrow> 'core) \<Rightarrow> (string \<Rightarrow> 'core \<Rightarrow> 'core) \<Rightarrow>
     'core \<Rightarrow> 'core" where
  "locale_en_script has_register registerLocale setDefaultLocale core =
     (if \<not> has_register core then core
      else setDefaultLocale ''en-US'' (registerLocale ''en-US'' locale_en core))"

text \<open>The property a key has in an object literal: the last one wins.\<close>

definition message :: "(string \<times> string) list \<Rightarrow> string \<Rightarrow> string option" where
  "message t k = map_of (rev t) k"

text \<open>The names between double braces, which the SDK replaces by values.\<close>

fun placeholder_scan :: "nat \<Rightarrow> string \<Rightarrow> string list" where
  "placeholder_scan 0 s = []"
| "placeholder_scan (Suc n) (c # d # s) =
     (if c = CHR ''{'' \<and> d = CHR ''{''
      then takeWhile (\<lambda>x. x \<noteq> CHR ''}'') s # placeholder_scan n (dropWhile (\<lambda>x. x \<noteq> CHR ''}'') s)
      else placeholder_scan n (d # s))"
| "placeholder_scan (Suc n) s = []"

text \<open>Every round of the scan drops a character, so the length of the text is enough.\<close>

definition placeholders :: "string \<Rightarrow> string list" where
  "placeholders s = placeholder_scan (length s) s"

section \<open>Comparing the tables\<close>

text \<open>The keys with different texts.\<close>

definition reworded :: "string list" where
  "reworded = [''Combo.maxLength'', ''Combo.minLength'', ''deleteConfirm'', ''File.pause'', ''File.uploadFailed'',
     ''validate.matchRegexp'', ''UserSelect.save'', ''UserSelect.clear'']"

definition same_entry :: "string \<times> string \<Rightarrow> string \<times> string \<Rightarrow> bool" where
  "same_entry a b \<longleftrightarrow> fst a = fst b \<and> (snd a = snd b \<or> fst a \<in> set reworded)"

lemma same_entry_refl [simp]: "same_entry a a"
  by (simp add: same_entry_def)

lemma same_entry_reworded: "k \<in> set reworded \<Longrightarrow> same_entry (k, v) (k, w)"
  by (simp add: same_entry_def)

lemma reworded_keys:
  "''Combo.maxLength'' \<in> set reworded" "''Combo.minLength'' \<in> set reworded" "''deleteConfirm'' \<in> set reworded"
  "''File.pause'' \<in> set reworded" "''File.uploadFailed'' \<in> set reworded"
  "''validate.matchRegexp'' \<in> set reworded" "''UserSelect.save'' \<in> set reworded"
  "''UserSelect.clear'' \<in> set reworded"
  unfolding reworded_def by simp_all

lemmas same_rows = list.rel_inject(2) list.rel_inject(1) same_entry_refl
  same_entry_reworded [OF reworded_keys(1)] same_entry_reworded [OF reworded_keys(2)]
  same_entry_reworded [OF reworded_keys(3)] same_entry_reworded [OF reworded_keys(4)]
  same_entry_reworded [OF reworded_keys(5)] same_entry_reworded [OF reworded_keys(6)]
  same_entry_reworded [OF reworded_keys(7)] same_entry_reworded [OF reworded_keys(8)]

lemma same_part_1: "list_all2 same_entry locale_en_1 en_1"
  unfolding locale_en_1_def en_1_def by (simp only: same_rows simp_thms)

lemma same_part_3: "list_all2 same_entry locale_en_3 en_3"
  unfolding locale_en_3_def en_3_def by (simp only: same_rows simp_thms)

text \<open>In the second part one entry stands nine places further down.\<close>

lemma same_part_2:
  "\<exists>p x q r. locale_en_2 = p @ x # q @ r \<and> fst x \<notin> fst ` set q \<and> list_all2 same_entry (p @ q @ x # r) en_2"
proof (intro exI conjI)
  show "locale_en_2 = take 3 locale_en_2 @ (locale_en_2 ! 3) # take 9 (drop 4 locale_en_2) @ drop 13 locale_en_2"
    by (simp add: locale_en_2_def)
  show "fst (locale_en_2 ! 3) \<notin> fst ` set (take 9 (drop 4 locale_en_2))"
    by (simp add: locale_en_2_def)
  show "list_all2 same_entry (take 3 locale_en_2 @ take 9 (drop 4 locale_en_2) @ (locale_en_2 ! 3) #
      drop 13 locale_en_2) en_2"
    by (simp add: locale_en_2_def en_2_def same_rows)
qed

lemma message_append: "message (s @ t) k = (case message t k of None \<Rightarrow> message s k | Some v \<Rightarrow> Some v)"
  by (cases "map_of (rev t) k") (simp_all add: message_def map_add_def)

lemma message_move:
  "fst x \<notin> fst ` set q \<Longrightarrow> message (p @ x # q @ r) k = message (p @ q @ x # r) k"
proof -
  assume "fst x \<notin> fst ` set q"
  then have "fst x = k \<Longrightarrow> map_of (rev q) k = None" by (auto simp: map_of_eq_None_iff)
  then show ?thesis
    by (cases x; cases "map_of (rev r) k"; cases "map_of (rev q) k") (auto simp: message_def map_add_def)
qed

lemma message_same:
  assumes "list_all2 same_entry t u"
  shows "message t k = message u k \<or> k \<in> set reworded"
  using assms
proof (induction rule: list_all2_induct)
  case (Cons x t y u)
  have "message (z # w) k = (case message w k of None \<Rightarrow> if fst z = k then Some (snd z) else None | Some v \<Rightarrow> Some v)"
    for z w by (cases "map_of (rev w) k"; cases z) (simp_all add: message_def map_add_def)
  with Cons show ?case by (auto simp: same_entry_def split: option.split)
qed simp

lemma message_tables: "k \<notin> set reworded \<Longrightarrow> message en k = message locale_en k"
proof -
  assume k: "k \<notin> set reworded"
  from same_part_2 obtain p x q r where two: "locale_en_2 = p @ x # q @ r" "fst x \<notin> fst ` set q"
    "list_all2 same_entry (p @ q @ x # r) en_2" by blast
  have "message locale_en_2 k = message en_2 k"
    using message_same [OF two(3), of k] message_move [OF two(2), of p r k] k two(1) by simp
  moreover have "message locale_en_1 k = message en_1 k" "message locale_en_3 k = message en_3 k"
    using message_same [OF same_part_1, of k] message_same [OF same_part_3, of k] k by auto
  ultimately show ?thesis by (simp only: en_def locale_en_def message_append)
qed

lemma same_keys: "list_all2 same_entry t u \<Longrightarrow> map fst t = map fst u"
  by (induction rule: list_all2_induct) (auto simp: same_entry_def)

lemma tables_keys: "mset (map fst en) = mset (map fst locale_en)"
proof -
  from same_part_2 obtain p x q r where two: "locale_en_2 = p @ x # q @ r"
    "list_all2 same_entry (p @ q @ x # r) en_2" by blast
  have "mset (map fst en_2) = mset (map fst locale_en_2)"
    unfolding same_keys [OF two(2), symmetric] two(1) by simp
  with same_keys [OF same_part_1] same_keys [OF same_part_3] show ?thesis
    by (simp add: en_def locale_en_def flip: mset_map)
qed

section \<open>Properties\<close>

text \<open>
  The production bundle has the keys of the development bundle, each as often, and but for eight
  reworded keys a lookup gives the same text in both.
\<close>

theorem locale_tables_agree:
  "mset (map fst shipped_en) = mset (map fst locale_en) \<and>
   (\<forall>k. k \<notin> set reworded \<longrightarrow> message shipped_en k = message locale_en k)"
  unfolding shipped_en using tables_keys message_tables by blast

theorem locale_tables_agree_witness: "message shipped_en ''cancel'' = message locale_en ''cancel''"
proof -
  have "''cancel'' \<notin> set reworded" unfolding reworded_def by simp
  then show ?thesis using locale_tables_agree by blast
qed

text \<open>
  The reworded \<open>Combo.maxLength\<close> asks for a value the SDK does not have: the name between its
  braces is \<open>MaxLength\<close>, where the development bundle has \<open>maxLength\<close>, and a stray brace follows it.
\<close>

theorem combo_placeholder_broken:
  "fst (locale_en_1 ! 25) = ''Combo.maxLength'' \<and> placeholders (snd (locale_en_1 ! 25)) = [''maxLength''] \<and>
   fst (en_1 ! 25) = ''Combo.maxLength'' \<and> placeholders (snd (en_1 ! 25)) = [''MaxLength'']"
proof -
  have "locale_en_1 ! 25 = (''Combo.maxLength'', ''Maximum item is {{maxLength}}. Please delete some'')"
    "en_1 ! 25 = (''Combo.maxLength'', ''Maximum item ia {{MaxLength}}}. Please delete some'')"
    unfolding locale_en_1_def en_1_def by simp_all
  moreover have "placeholders ''Maximum item is {{maxLength}}. Please delete some'' = [''maxLength'']"
    "placeholders ''Maximum item ia {{MaxLength}}}. Please delete some'' = [''MaxLength'']"
    by code_simp+
  ultimately show ?thesis by (simp only: fst_conv snd_conv simp_thms)
qed

end
