(* ===== verification/Wordcut_Dict.thy ===== *)
theory Wordcut_Dict
  imports JS_Prelude "HOL-Library.List_Lexorder" "HOL-Library.Multiset"
begin

text \<open>
  The dictionary of the Thai word segmenter behind the documentation site's search
  (\<open>src/site/assets/javascripts/lunr/wordcut.js\<close>, module 2, \<open>WordcutDict\<close>): a sorted array of
  words in which an acceptor keeps the interval of words that start with the text read so far and
  narrows it by two binary searches per code unit. The lemmas show that the interval is exact, so
  an acceptor is alive as long as some word continues the text and final exactly on a word.
\<close>

section \<open>Acceptors\<close>

text \<open>
  The acceptor objects of all rules; \<open>acc_rule\<close> is the rule whose \<open>transit\<close> closure the object
  carries. \<open>l\<close> and \<open>r\<close> are used by dictionary acceptors only,
  \<open>patterns\<close> by those of \<open>PartRule\<close>; a property an object lacks is \<^term>\<open>None\<close>.
\<close>

datatype creator =
    WordRule | SpaceRule | SingleSymbolRule | NumberRule | Rule0 | PartRule | DictRule

record acceptor =
  acc_rule :: creator
  acc_l :: int
  acc_r :: int
  patterns :: "jstring list"
  strOffset :: nat
  isFinal :: bool
  isError :: bool
  acc_tag :: string
  acc_type :: string
  acc_w :: nat
  acc_unk :: "nat option"
  acc_mw :: "nat option"

section \<open>The dictionary\<close>

datatype side = LEFT | RIGHT

text \<open>\<open>text.split(/[\r\n]+/)\<close>: a run of line ends is one separator.\<close>

abbreviation is_eol :: "code_unit \<Rightarrow> bool" where "is_eol c \<equiv> c = 0x0D \<or> c = 0x0A"

function split_lines :: "jstring \<Rightarrow> jstring \<Rightarrow> jstring list" where
  "split_lines acc [] = [rev acc]"
| "split_lines acc (c # cs) =
     (if is_eol c then rev acc # split_lines [] (dropWhile is_eol cs)
      else split_lines (c # acc) cs)"
  by pat_completeness auto
termination
  by (relation "measure (\<lambda>(acc, s). length s)") (auto simp: le_imp_less_Suc length_dropWhile_le)

definition sortuniq :: "jstring list \<Rightarrow> jstring list" where
  "sortuniq a =
     (let arr = sort a in
      map (\<lambda>pos. arr ! pos)
        (filter (\<lambda>pos. pos = 0 \<or> arr ! pos \<noteq> arr ! (pos - 1)) [0..<length arr]))"

definition finalizeDict :: "jstring list \<Rightarrow> jstring list" where
  "finalizeDict dict = sortuniq dict"

text \<open>
  \<open>finalize\<close> is \<open>undefined\<close>, \<open>true\<close> or \<open>false\<close>; only \<open>false\<close> skips the sorting.
\<close>

definition addWords :: "jstring list \<Rightarrow> jstring list \<Rightarrow> bool option \<Rightarrow> jstring list" where
  "addWords dict words finalize =
     (let dict' = dict @ words in
      if finalize = None \<or> finalize = Some True then finalizeDict dict' else dict')"

text \<open>
  \<open>builtin\<close> is the word list the bundle inlines as one string literal; the file names are not
  read.
\<close>

definition addFiles :: "jstring \<Rightarrow> jstring list \<Rightarrow> jstring list \<Rightarrow> bool option \<Rightarrow> jstring list" where
  "addFiles builtin dict files finalize =
     (let words = filter (\<lambda>w. length w > 1) (split_lines [] builtin);
          dict' = addWords dict words (Some False)
      in if finalize = None \<or> finalize = Some True then finalizeDict dict' else dict')"

datatype path_arg = NoPath | OnePath jstring | ManyPaths "jstring list"

text \<open>
  \<open>init\<close>; the result of \<open>dictPath.concat.apply(dictPath, dictPathFile)\<close> is discarded by the
  source, so an array of paths adds nothing.
\<close>

definition dict_init ::
    "jstring \<Rightarrow> jstring \<Rightarrow> path_arg \<Rightarrow> bool \<Rightarrow> jstring list option \<Rightarrow> jstring list" where
  "dict_init builtin defaultDict dictPathFile withDefault words =
     (let dictPath0 = (if withDefault \<or> dictPathFile = NoPath then [defaultDict] else []);
          dictPath = (case dictPathFile of
                        NoPath \<Rightarrow> dictPath0
                      | OnePath p \<Rightarrow> dictPath0 @ [p]
                      | ManyPaths ps \<Rightarrow> dictPath0);
          dict1 = addFiles builtin [] dictPath (Some False);
          dict2 = (case words of None \<Rightarrow> dict1 | Some ws \<Rightarrow> addWords dict1 ws (Some False))
      in finalizeDict dict2)"

function dictSeek_loop ::
    "jstring list \<Rightarrow> int \<Rightarrow> int \<Rightarrow> code_unit \<Rightarrow> nat \<Rightarrow> side \<Rightarrow> int option
      \<Rightarrow> js_error + int option" where
  "dictSeek_loop dict l r ch off pos ans =
     (if l \<le> r then
        let m = (l + r) div 2 in
        bindE (array_get dict m) (\<lambda>dict_item.
          if length dict_item \<le> off then dictSeek_loop dict (m + 1) r ch off pos ans
          else let ch' = dict_item ! off in
            if ch' < ch then dictSeek_loop dict (m + 1) r ch off pos ans
            else if ch' > ch then dictSeek_loop dict l (m - 1) ch off pos ans
            else if pos = LEFT then dictSeek_loop dict l (m - 1) ch off pos (Some m)
            else dictSeek_loop dict (m + 1) r ch off pos (Some m))
      else Inr ans)"
  by pat_completeness auto
termination
  by (relation "measure (\<lambda>(d, l, r, c, off, pos, a). nat (r - l + 1))") auto

declare dictSeek_loop.simps [simp del]

definition dictSeek ::
    "jstring list \<Rightarrow> int \<Rightarrow> int \<Rightarrow> code_unit \<Rightarrow> nat \<Rightarrow> side \<Rightarrow> js_error + int option" where
  "dictSeek dict l r ch off pos = dictSeek_loop dict l r ch off pos None"

definition dict_isFinal :: "jstring list \<Rightarrow> acceptor \<Rightarrow> js_error + bool" where
  "dict_isFinal dict a =
     bindE (array_get dict (acc_l a)) (\<lambda>item. Inr (length item = strOffset a))"

definition dict_createAcceptor :: "jstring list \<Rightarrow> acceptor" where
  "dict_createAcceptor dict =
     \<lparr>acc_rule = DictRule, acc_l = 0, acc_r = int (length dict) - 1, patterns = [],
      strOffset = 0, isFinal = False, isError = False, acc_tag = ''DICT'', acc_type = ''DICT'', acc_w = 1, acc_unk = None,
      acc_mw = None\<rparr>"

text \<open>
  \<open>transit\<close>; a second search that finds nothing would store \<open>null\<close> in \<open>acceptor.r\<close>, which
  later arithmetic reads as \<open>0\<close>.
\<close>

definition dict_transit :: "jstring list \<Rightarrow> acceptor \<Rightarrow> code_unit \<Rightarrow> js_error + acceptor" where
  "dict_transit dict a ch =
     bindE (dictSeek dict (acc_l a) (acc_r a) ch (strOffset a) LEFT) (\<lambda>found.
       case found of
         None \<Rightarrow> Inr (a\<lparr>isError := True\<rparr>)
       | Some l \<Rightarrow>
           bindE (dictSeek dict l (acc_r a) ch (strOffset a) RIGHT) (\<lambda>r.
             let a' = a\<lparr>acc_l := l, acc_r := (case r of None \<Rightarrow> 0 | Some r' \<Rightarrow> r'),
                        strOffset := Suc (strOffset a)\<rparr>
             in bindE (dict_isFinal dict a') (\<lambda>f. Inr (a'\<lparr>isFinal := f\<rparr>))))"

text \<open>Feeding a text to one acceptor, which is dropped at the first error.\<close>

fun dict_run :: "jstring list \<Rightarrow> acceptor \<Rightarrow> jstring \<Rightarrow> js_error + acceptor" where
  "dict_run dict a [] = Inr a"
| "dict_run dict a (c # cs) =
     bindE (dict_transit dict a c) (\<lambda>a'. if isError a' then Inr a' else dict_run dict a' cs)"

section \<open>Sorting without duplicates\<close>

lemma filter_index_remdups_adj:
  "map (\<lambda>i. xs ! i) (filter (\<lambda>i. i = 0 \<or> xs ! i \<noteq> xs ! (i - 1)) [0..<length xs]) =
     remdups_adj xs"
proof (induction xs rule: rev_induct)
  case (snoc x xs)
  let ?P = "\<lambda>ys i. i = 0 \<or> ys ! i \<noteq> ys ! (i - Suc 0)"
  have "filter (?P (xs @ [x])) [0..<length xs] = filter (?P xs) [0..<length xs]"
    by (rule filter_cong) (auto simp: nth_append)
  moreover have "map ((!) (xs @ [x])) (filter (?P xs) [0..<length xs]) =
      map ((!) xs) (filter (?P xs) [0..<length xs])"
    by (rule map_cong) (auto simp: nth_append)
  moreover note snoc
  ultimately have init: "map ((!) (xs @ [x])) (filter (?P (xs @ [x])) [0..<length xs]) =
      remdups_adj xs"
    by (simp only: One_nat_def)
  have last: "xs \<noteq> [] \<Longrightarrow> (xs @ [x]) ! (length xs - Suc 0) = last xs"
    by (simp add: nth_append last_conv_nth)
  show ?case
    using init last by (cases "xs = []") (auto simp: remdups_adj_append'')
qed simp

lemma sortuniq_remdups_adj: "sortuniq a = remdups_adj (sort a)"
  unfolding sortuniq_def Let_def by (rule filter_index_remdups_adj)

lemma set_sortuniq [simp]: "set (sortuniq a) = set a"
  by (simp add: sortuniq_remdups_adj)

lemma sorted_sortuniq [simp]: "sorted (sortuniq a)"
  by (simp add: sortuniq_remdups_adj sorted_remdups_adj)

lemma distinct_sortuniq [simp]: "distinct (sortuniq a)"
proof -
  have "distinct (remdups_adj xs)" if "sorted xs" for xs :: "jstring list"
    using that by (induction xs rule: remdups_adj.induct) (auto, fastforce?)
  then show ?thesis by (simp add: sortuniq_remdups_adj)
qed

section \<open>Binary search\<close>

text \<open>
  The value \<open>dictSeek\<close> compares at position \<open>i\<close>: \<open>0\<close> for a word that ends before the
  offset, else one more than the code unit there, so that a short word sorts first.
\<close>

definition key :: "jstring list \<Rightarrow> nat \<Rightarrow> int \<Rightarrow> nat" where
  "key d off i = (let x = d ! nat i in if length x \<le> off then 0 else Suc (x ! off))"

definition mono_key :: "jstring list \<Rightarrow> nat \<Rightarrow> int \<Rightarrow> int \<Rightarrow> bool" where
  "mono_key d off l r \<longleftrightarrow> (\<forall>i j. l \<le> i \<and> i \<le> j \<and> j \<le> r \<longrightarrow> key d off i \<le> key d off j)"

lemma mono_keyD: "mono_key d off l r \<Longrightarrow> l \<le> i \<Longrightarrow> i \<le> j \<Longrightarrow> j \<le> r \<Longrightarrow> key d off i \<le> key d off j"
  by (simp add: mono_key_def)

lemma mono_key_sub: "mono_key d off l r \<Longrightarrow> l \<le> l' \<Longrightarrow> r' \<le> r \<Longrightarrow> mono_key d off l' r'"
  by (auto simp: mono_key_def)

lemma dictSeek_loop_step:
  assumes "l \<le> r" "0 \<le> l" "r < int (length d)"
  defines "m \<equiv> (l + r) div 2"
  shows "dictSeek_loop d l r ch off pos ans =
     (if key d off m < Suc ch then dictSeek_loop d (m + 1) r ch off pos ans
      else if Suc ch < key d off m then dictSeek_loop d l (m - 1) ch off pos ans
      else if pos = LEFT then dictSeek_loop d l (m - 1) ch off pos (Some m)
      else dictSeek_loop d (m + 1) r ch off pos (Some m))"
proof -
  have "0 \<le> m" "m < int (length d)" using assms by auto
  then show ?thesis
    using assms(1)
    by (simp add: dictSeek_loop.simps [of d l r] array_get_in key_def Let_def m_def)
qed

text \<open>
  The result \<open>res\<close> of a search in \<open>[l, r]\<close> that already holds \<open>ans\<close>: the outermost
  position on the given side whose key is the sought one, or \<open>ans\<close> when there is none.
\<close>

definition outermost ::
    "side \<Rightarrow> jstring list \<Rightarrow> nat \<Rightarrow> code_unit \<Rightarrow> int \<Rightarrow> int \<Rightarrow> int option \<Rightarrow> int option \<Rightarrow> bool"
  where
  "outermost pos d off ch l r ans res \<longleftrightarrow>
     (res = ans \<and> (\<forall>i. l \<le> i \<and> i \<le> r \<longrightarrow> key d off i \<noteq> Suc ch)) \<or>
     (\<exists>m. res = Some m \<and> l \<le> m \<and> m \<le> r \<and> key d off m = Suc ch \<and>
       (\<forall>i. l \<le> i \<and> i \<le> r \<and> (if pos = LEFT then i < m else m < i) \<longrightarrow>
         key d off i \<noteq> Suc ch))"

lemma outermost_extend_down:
  assumes "outermost pos d off ch (m + 1) r ans res" "l \<le> m"
    "\<And>i. l \<le> i \<Longrightarrow> i \<le> m \<Longrightarrow> key d off i \<noteq> Suc ch"
  shows "outermost pos d off ch l r ans res"
proof -
  have "l \<le> i \<longleftrightarrow> m + 1 \<le> i" if "key d off i = Suc ch" for i
    using assms(2,3) that by (meson add1_zle_eq dual_order.trans not_le order_less_imp_le)
  then show ?thesis
    using assms(1) unfolding outermost_def by blast
qed

lemma outermost_extend_up:
  assumes "outermost pos d off ch l (m - 1) ans res" "m \<le> r"
    "\<And>i. m \<le> i \<Longrightarrow> i \<le> r \<Longrightarrow> key d off i \<noteq> Suc ch"
  shows "outermost pos d off ch l r ans res"
proof -
  have "i \<le> r \<longleftrightarrow> i \<le> m - 1" if "key d off i = Suc ch" for i
    using assms(2,3) that by (meson dual_order.trans not_le order_less_imp_le zle_diff1_eq)
  then show ?thesis
    using assms(1) unfolding outermost_def by blast
qed

lemma outermost_hit_left:
  assumes "key d off m = Suc ch" "l \<le> m" "m \<le> r"
    "outermost LEFT d off ch l (m - 1) (Some m) res"
  shows "outermost LEFT d off ch l r ans res"
  using assms by (auto simp: outermost_def)

lemma outermost_hit_right:
  assumes "key d off m = Suc ch" "l \<le> m" "m \<le> r"
    "outermost RIGHT d off ch (m + 1) r (Some m) res"
  shows "outermost RIGHT d off ch l r ans res"
  using assms by (auto simp: outermost_def)

lemma mid_bounds: "l \<le> r \<Longrightarrow> l \<le> (l + r) div 2 \<and> (l + r) div 2 \<le> (r :: int)"
  by auto

lemma dictSeek_loop_correct:
  assumes "0 \<le> l" "r < int (length d)" "mono_key d off l r"
  shows "\<exists>res. dictSeek_loop d l r ch off pos ans = Inr res \<and> outermost pos d off ch l r ans res"
  using assms
proof (induction "nat (r - l + 1)" arbitrary: l r ans rule: less_induct)
  case less
  show ?case
  proof (cases "l \<le> r")
    case False
    then show ?thesis by (auto simp: dictSeek_loop.simps [of d l r] outermost_def)
  next
    case True
    define m where "m = (l + r) div 2"
    have m: "l \<le> m" "m \<le> r" using mid_bounds [OF True] by (simp_all add: m_def)
    note step = dictSeek_loop_step [OF True less.prems(1,2), of ch off pos ans, folded m_def]
    have sub: "mono_key d off (m + 1) r" "mono_key d off l (m - 1)"
      using less.prems(3) m by (auto elim: mono_key_sub)
    have up: "\<exists>res. dictSeek_loop d (m + 1) r ch off pos a = Inr res \<and>
        outermost pos d off ch (m + 1) r a res" for a
      using less.hyps [of r "m + 1"] less.prems(1,2) m sub by auto
    have down: "\<exists>res. dictSeek_loop d l (m - 1) ch off pos a = Inr res \<and>
        outermost pos d off ch l (m - 1) a res" for a
      using less.hyps [of "m - 1" l] less.prems(1,2) m sub by auto
    have mono: "key d off i \<le> key d off j" if "l \<le> i" "i \<le> j" "j \<le> r" for i j
      using less.prems(3) that by (auto simp: mono_key_def)
    have low: "key d off i \<noteq> Suc ch" if "key d off m < Suc ch" "l \<le> i" "i \<le> m" for i
      using mono [of i m] that m by auto
    have high: "key d off i \<noteq> Suc ch" if "Suc ch < key d off m" "m \<le> i" "i \<le> r" for i
      using mono [of m i] that m by auto
    consider "key d off m < Suc ch" | "Suc ch < key d off m" | "key d off m = Suc ch"
      by linarith
    then show ?thesis
    proof cases
      case 1
      with step up [of ans] show ?thesis by (metis outermost_extend_down low m(1))
    next
      case 2
      with step down [of ans] show ?thesis by (metis not_less_iff_gr_or_eq outermost_extend_up high m(2))
    next
      case 3
      with step m up [of "Some m"] down [of "Some m"] show ?thesis
        by (cases pos) (auto intro: outermost_hit_left outermost_hit_right)
    qed
  qed
qed

corollary dictSeek_correct:
  assumes "0 \<le> l" "r < int (length d)" "mono_key d off l r"
  shows "\<exists>res. dictSeek d l r ch off pos = Inr res \<and> outermost pos d off ch l r None res"
  using dictSeek_loop_correct [OF assms] by (simp add: dictSeek_def)

section \<open>The interval of an acceptor\<close>

definition spans :: "jstring list \<Rightarrow> int \<Rightarrow> int \<Rightarrow> jstring \<Rightarrow> bool" where
  "spans d l r w \<longleftrightarrow> 0 \<le> l \<and> r < int (length d) \<and>
     (\<forall>i. 0 \<le> i \<and> i < int (length d) \<longrightarrow> (l \<le> i \<and> i \<le> r \<longleftrightarrow> prefix w (d ! nat i)))"

lemma spans_memD: "spans d l r w \<Longrightarrow> l \<le> i \<Longrightarrow> i \<le> r \<Longrightarrow> prefix w (d ! nat i)"
  unfolding spans_def by (metis order.trans order_le_less_trans)

lemma append_le_append_iff [simp]: "(w @ x \<le> w @ y) = (x \<le> (y :: jstring))"
  by (induction w) auto

lemma prefix_imp_le: "prefix w x \<Longrightarrow> w \<le> (x :: jstring)"
  using append_le_append_iff [of w "[]"] by (auto simp: prefix_def simp del: append_le_append_iff)

lemma key_prefix:
  assumes "prefix w (d ! nat i)"
  shows "key d (length w) i = (case drop (length w) (d ! nat i) of [] \<Rightarrow> 0 | c # _ \<Rightarrow> Suc c)"
  using assms by (auto simp: key_def Let_def prefix_def nth_append split: list.split)

lemma prefix_snoc_key:
  assumes "prefix w (d ! nat i)"
  shows "prefix (w @ [ch]) (d ! nat i) \<longleftrightarrow> key d (length w) i = Suc ch"
  using assms by (auto simp: key_prefix prefix_def split: list.split)

lemma prefix_snocD: "prefix (w @ [ch]) x \<Longrightarrow> prefix w x"
  by (auto simp: prefix_def)

lemma spans_mono_key:
  assumes "sorted d" "spans d l r w"
  shows "mono_key d (length w) l r"
  unfolding mono_key_def
proof (intro allI impI)
  fix i j assume ij: "l \<le> i \<and> i \<le> j \<and> j \<le> r"
  then have pre: "prefix w (d ! nat i)" "prefix w (d ! nat j)"
    using spans_memD [OF assms(2)] by auto
  have "d ! nat i \<le> d ! nat j"
    using assms ij by (intro sorted_nth_mono) (auto simp: spans_def)
  with pre show "key d (length w) i \<le> key d (length w) j"
    by (auto simp: key_prefix prefix_def split: list.split)
qed

text \<open>The two searches of \<open>transit\<close> narrow the interval to the words with one more code unit.\<close>

lemma dictSeek_narrows:
  assumes sorted: "sorted d" and sp: "spans d l r w"
  shows "(dictSeek d l r ch (length w) LEFT = Inr None \<and>
            (\<forall>x \<in> set d. \<not> prefix (w @ [ch]) x)) \<or>
         (\<exists>L R. dictSeek d l r ch (length w) LEFT = Inr (Some L) \<and>
            dictSeek d L r ch (length w) RIGHT = Inr (Some R) \<and>
            spans d L R (w @ [ch]) \<and> L \<le> R)"
proof -
  let ?k = "key d (length w)"
  have mono: "mono_key d (length w) l r" using spans_mono_key [OF sorted sp] .
  have bounds: "0 \<le> l" "r < int (length d)" using sp by (auto simp: spans_def)
  have pre: "prefix (w @ [ch]) (d ! nat i) \<longleftrightarrow> l \<le> i \<and> i \<le> r \<and> ?k i = Suc ch"
    if "0 \<le> i" "i < int (length d)" for i
    using sp that by (metis prefix_snoc_key prefix_snocD spans_def)
  obtain res where res: "dictSeek d l r ch (length w) LEFT = Inr res"
    "outermost LEFT d (length w) ch l r None res"
    using dictSeek_correct [OF bounds mono] by blast
  show ?thesis
  proof (cases res)
    case None
    with res(2) have "\<forall>i. l \<le> i \<and> i \<le> r \<longrightarrow> ?k i \<noteq> Suc ch"
      by (auto simp: outermost_def)
    then have "\<not> prefix (w @ [ch]) x" if "x \<in> set d" for x
      using pre that by (metis in_set_conv_nth nat_int of_nat_0_le_iff of_nat_less_iff)
    with None res(1) show ?thesis by blast
  next
    case (Some L)
    with res(2) have L: "l \<le> L" "L \<le> r" "?k L = Suc ch"
      "\<And>i. l \<le> i \<Longrightarrow> i < L \<Longrightarrow> ?k i \<noteq> Suc ch"
      by (auto simp: outermost_def)
    obtain res' where res': "dictSeek d L r ch (length w) RIGHT = Inr res'"
      "outermost RIGHT d (length w) ch L r None res'"
      using dictSeek_correct [of L r d "length w"] mono_key_sub [OF mono L(1)] bounds L(1)
      by (metis order.refl order.trans)
    then obtain R where R: "res' = Some R" "L \<le> R" "R \<le> r" "?k R = Suc ch"
      "\<And>i. L \<le> i \<Longrightarrow> i \<le> r \<Longrightarrow> R < i \<Longrightarrow> ?k i \<noteq> Suc ch"
      using L(2,3) by (auto simp: outermost_def)
    have inside: "?k i = Suc ch" if "L \<le> i" "i \<le> R" for i
      using mono_keyD [OF mono, of L i] mono_keyD [OF mono, of i R] that L(1,3) R(3,4) by auto
    have "L \<le> i \<and> i \<le> R \<longleftrightarrow> l \<le> i \<and> i \<le> r \<and> ?k i = Suc ch" for i
      by (cases "i < L"; cases "R < i") (use inside [of i] L(1) L(4) [of i] R(3) R(5) [of i] in auto)
    with pre bounds L R have "spans d L R (w @ [ch])"
      by (simp add: spans_def)
    with Some res(1) res'(1) R show ?thesis by blast
  qed
qed

lemma spans_first_word:
  assumes "sorted d" "spans d l r w" "l \<le> r"
  shows "length (d ! nat l) = length w \<longleftrightarrow> w \<in> set d"
proof
  have pre: "prefix w (d ! nat l)" and l: "nat l < length d"
    using spans_memD [OF assms(2), of l] assms by (auto simp: spans_def)
  {
    assume "length (d ! nat l) = length w"
    with pre have "d ! nat l = w" by (auto simp: prefix_def)
    with l show "w \<in> set d" by auto
  next
    assume "w \<in> set d"
    then obtain k where k: "k < length d" "d ! k = w" by (auto simp: in_set_conv_nth)
    then have "l \<le> int k" using assms(2) by (auto simp: spans_def dest: spec [of _ "int k"])
    then have "d ! nat l \<le> w" using assms(1) k by (metis nat_le_iff sorted_nth_mono)
    with prefix_imp_le [OF pre] show "length (d ! nat l) = length w" by simp
  }
qed

text \<open>
  The invariant of a live acceptor that has read \<open>w\<close>.
\<close>

definition reads :: "jstring list \<Rightarrow> acceptor \<Rightarrow> jstring \<Rightarrow> bool" where
  "reads d a w \<longleftrightarrow> spans d (acc_l a) (acc_r a) w \<and> strOffset a = length w"

lemma reads_create: "reads d (dict_createAcceptor d) []"
  by (auto simp: reads_def spans_def dict_createAcceptor_def)

lemma dict_transit_reads:
  assumes "sorted d" "reads d a w"
  shows "\<exists>a'. dict_transit d a ch = Inr a' \<and>
     (if \<exists>x \<in> set d. prefix (w @ [ch]) x
      then isError a' = isError a \<and> reads d a' (w @ [ch]) \<and>
           (isFinal a' \<longleftrightarrow> w @ [ch] \<in> set d) \<and> acc_type a' = acc_type a
      else a' = a\<lparr>isError := True\<rparr>)"
proof -
  have sp: "spans d (acc_l a) (acc_r a) w" and off: "strOffset a = length w"
    using assms(2) by (auto simp: reads_def)
  from dictSeek_narrows [OF assms(1) sp, of ch] show ?thesis
  proof (elim disjE conjE exE)
    assume "dictSeek d (acc_l a) (acc_r a) ch (length w) LEFT = Inr None"
      "\<forall>x \<in> set d. \<not> prefix (w @ [ch]) x"
    then show ?thesis by (auto simp: dict_transit_def off)
  next
    fix L R
    assume *: "dictSeek d (acc_l a) (acc_r a) ch (length w) LEFT = Inr (Some L)"
      "dictSeek d L (acc_r a) ch (length w) RIGHT = Inr (Some R)"
      "spans d L R (w @ [ch])" "L \<le> R"
    then have L: "0 \<le> L" "L < int (length d)" by (auto simp: spans_def)
    have ex: "\<exists>x \<in> set d. prefix (w @ [ch]) x"
      using spans_memD [OF *(3), of L] *(4) L by (metis nat_less_iff nth_mem order.refl)
    show ?thesis
      using * L ex spans_first_word [OF assms(1) *(3,4)]
      by (auto simp: dict_transit_def dict_isFinal_def off array_get_in reads_def)
  qed
qed

lemma dict_run_reads:
  assumes "sorted d" "reads d a w" "\<not> isError a"
  shows "\<exists>a'. dict_run d a v = Inr a' \<and>
     (if v = [] \<or> (\<exists>x \<in> set d. prefix (w @ v) x)
      then \<not> isError a' \<and> reads d a' (w @ v) \<and> (v \<noteq> [] \<longrightarrow> (isFinal a' \<longleftrightarrow> w @ v \<in> set d))
      else isError a')"
  using assms(2,3)
proof (induction v arbitrary: a w)
  case (Cons c v)
  obtain a1 where a1: "dict_transit d a c = Inr a1"
    "if \<exists>x \<in> set d. prefix (w @ [c]) x
      then isError a1 = isError a \<and> reads d a1 (w @ [c]) \<and> (isFinal a1 \<longleftrightarrow> w @ [c] \<in> set d) \<and>
        acc_type a1 = acc_type a
      else a1 = a\<lparr>isError := True\<rparr>"
    using dict_transit_reads [OF assms(1) Cons.prems(1)] by blast
  show ?case
  proof (cases "\<exists>x \<in> set d. prefix (w @ [c]) x")
    case True
    with a1 Cons.prems(2) have ok: "reads d a1 (w @ [c])" "\<not> isError a1"
      "isFinal a1 \<longleftrightarrow> w @ [c] \<in> set d" by auto
    then have run: "dict_run d a (c # v) = dict_run d a1 v" using a1(1) by simp
    show ?thesis
    proof (cases "v = []")
      case True
      with a1(1) ok \<open>\<exists>x \<in> set d. prefix (w @ [c]) x\<close> show ?thesis by simp
    next
      case False
      from Cons.IH [OF ok(1,2)] obtain a2 where "dict_run d a1 v = Inr a2"
        "if v = [] \<or> (\<exists>x \<in> set d. prefix ((w @ [c]) @ v) x)
         then \<not> isError a2 \<and> reads d a2 ((w @ [c]) @ v) \<and>
           (v \<noteq> [] \<longrightarrow> (isFinal a2 \<longleftrightarrow> (w @ [c]) @ v \<in> set d))
         else isError a2"
        by blast
      with False show ?thesis
        unfolding run by (intro exI [of _ a2]) (simp split: if_splits)
    qed
  next
    case False
    then have "\<not> (\<exists>x \<in> set d. prefix (w @ c # v) x)"
      by (metis append_Cons append_Nil append_assoc append_prefixD)
    with False a1 show ?thesis by auto
  qed
qed simp

section \<open>Properties\<close>

text \<open>
  C12. Dictionary lookup. Build the dictionary from any words and feed any text to a fresh
  acceptor: no step throws, the acceptor survives exactly when some word starts with the text, and
  it is then final exactly when the text is one of the words.
\<close>

theorem dict_acceptor_correct:
  assumes "w \<noteq> []"
  shows "\<exists>a. dict_run (finalizeDict words) (dict_createAcceptor (finalizeDict words)) w = Inr a \<and>
     (isError a \<longleftrightarrow> (\<forall>x \<in> set words. \<not> prefix w x)) \<and>
     (\<not> isError a \<longrightarrow> (isFinal a \<longleftrightarrow> w \<in> set words))"
proof -
  let ?d = "finalizeDict words"
  have "sorted ?d" "set ?d = set words" by (simp_all add: finalizeDict_def)
  moreover have "\<not> isError (dict_createAcceptor ?d)"
    by (simp add: dict_createAcceptor_def)
  ultimately show ?thesis
    using dict_run_reads [of ?d "dict_createAcceptor ?d" "[]" w] reads_create assms
    by (auto split: if_splits)
qed

text \<open>
  Binary search. On a stretch of the dictionary whose words agree up to the offset,
  \<open>dictSeek\<close> ends without an exception at the outermost index on the requested side that has the
  sought code unit at the offset, and answers \<open>null\<close> exactly when there is none.
\<close>

theorem dictSeek_outermost:
  assumes "sorted d" "spans d l r w"
  shows "\<exists>res. dictSeek d l r ch (length w) pos = Inr res \<and>
     (case res of
        None \<Rightarrow> \<forall>i. l \<le> i \<and> i \<le> r \<longrightarrow> \<not> prefix (w @ [ch]) (d ! nat i)
      | Some m \<Rightarrow> l \<le> m \<and> m \<le> r \<and> prefix (w @ [ch]) (d ! nat m) \<and>
          (\<forall>i. l \<le> i \<and> i \<le> r \<and> prefix (w @ [ch]) (d ! nat i) \<longrightarrow>
             (if pos = LEFT then m \<le> i else i \<le> m)))"
proof -
  have bounds: "0 \<le> l" "r < int (length d)" using assms(2) by (auto simp: spans_def)
  have pre: "prefix (w @ [ch]) (d ! nat i) \<longleftrightarrow> key d (length w) i = Suc ch" if "l \<le> i" "i \<le> r" for i
    using prefix_snoc_key spans_memD [OF assms(2) that] by blast
  obtain res where "dictSeek d l r ch (length w) pos = Inr res"
    "outermost pos d (length w) ch l r None res"
    using dictSeek_correct [OF bounds spans_mono_key [OF assms]] by blast
  then show ?thesis
    by (intro exI [of _ res]) (auto simp: outermost_def pre split: option.split if_splits,
        (metis not_less)+)
qed

text \<open>
  Witnesses: the dictionary built from the unsorted words \<open>[ca, ab, a, ab]\<close> (code units 1, 2, 3).
\<close>

theorem dict_acceptor_correct_witness:
  "\<exists>a. dict_run (finalizeDict [[3, 1], [1, 2], [1], [1, 2]])
          (dict_createAcceptor (finalizeDict [[3, 1], [1, 2], [1], [1, 2]])) [1, 2] = Inr a \<and>
     \<not> isError a \<and> isFinal a"
  using dict_acceptor_correct [of "[1, 2]" "[[3, 1], [1, 2], [1], [1, 2]]"]
  by (auto simp del: dict_run.simps)

theorem dictSeek_outermost_witness:
  "\<exists>m. dictSeek [[1], [1, 2], [1, 2, 5], [3, 1]] 0 2 2 (length [1 :: nat]) LEFT = Inr (Some m) \<and>
     0 \<le> m \<and> m \<le> 2 \<and> prefix [1, 2 :: nat] ([[1], [1, 2], [1, 2, 5], [3, 1]] ! nat m)"
proof -
  let ?d = "[[1], [1, 2], [1, 2, 5], [3, 1]] :: jstring list"
  have sp: "spans ?d 0 2 [1]"
    unfolding spans_def
  proof (intro conjI allI impI)
    fix i :: int
    assume "0 \<le> i \<and> i < int (length ?d)"
    then have "i = 0 \<or> i = 1 \<or> i = 2 \<or> i = 3" by auto
    then show "(0 \<le> i \<and> i \<le> 2) = prefix [1] (?d ! nat i)" by auto
  qed simp_all
  have hit: "\<exists>i. 0 \<le> i \<and> i \<le> 2 \<and> prefix ([1] @ [2]) (?d ! nat i)"
    by (rule exI [of _ 1]) simp
  have "sorted ?d" by simp
  from dictSeek_outermost [OF this sp, of 2 LEFT] hit show ?thesis
    by (auto split: option.splits)
qed

end
