(* ===== verification/Wordcut_Rules.thy ===== *)
theory Wordcut_Rules
  imports Wordcut_Dict
begin

text \<open>
  The acceptor rules of the segmenter (\<open>wordcut.js\<close>, modules 3 and 6) and the set of running
  acceptors (module 1, \<open>Acceptors\<close>). Each code unit first starts the acceptors the rules create
  and then moves every running one, keeping those without an error. The lemmas describe the rules
  that read a run of one character class through one interface, and give the bookkeeping facts the
  path search relies on: a surviving acceptor has read exactly one code unit more.
\<close>

section \<open>Character classes\<close>

text \<open>
  \<open>ch.toLowerCase()\<close> lies between \<open>"a"\<close> and \<open>"z"\<close>: the ASCII letters and the two code units
  whose lower case starts with an ASCII letter, U+0130 and U+212A.
\<close>

definition is_latin :: "code_unit \<Rightarrow> bool" where
  "is_latin ch \<longleftrightarrow> 0x41 \<le> ch \<and> ch \<le> 0x5A \<or> 0x61 \<le> ch \<and> ch \<le> 0x7A \<or> ch = 0x130 \<or> ch = 0x212A"

definition is_digit :: "code_unit \<Rightarrow> bool" where
  "is_digit ch \<longleftrightarrow> 0x30 \<le> ch \<and> ch \<le> 0x39"

definition is_space :: "code_unit \<Rightarrow> bool" where
  "is_space ch \<longleftrightarrow> ch \<in> {0x20, 0x09, 0x0D, 0x0A, 0xA0, 0x2003}"

text \<open>The characters of \<open>/^[\@\(\)\/\,\-\."`]$/\<close>.\<close>

definition is_symbol :: "code_unit \<Rightarrow> bool" where
  "is_symbol ch \<longleftrightarrow> ch \<in> {0x40, 0x28, 0x29, 0x2F, 0x2C, 0x2D, 0x2E, 0x22, 0x60}"

section \<open>Latin rules\<close>

definition fresh_acceptor :: "creator \<Rightarrow> string \<Rightarrow> acceptor" where
  "fresh_acceptor rule name =
     \<lparr>acc_rule = rule, acc_l = 0, acc_r = 0, patterns = [], strOffset = 0, isFinal = False,
      isError = False, acc_tag = name, acc_type = name, acc_w = 1, acc_unk = None,
      acc_mw = None\<rparr>"

definition advance :: "acceptor \<Rightarrow> acceptor" where
  "advance a = a\<lparr>isFinal := True, strOffset := Suc (strOffset a)\<rparr>"

definition reject :: "acceptor \<Rightarrow> acceptor" where
  "reject a = a\<lparr>isError := True\<rparr>"

definition WordRule_transit :: "acceptor \<Rightarrow> code_unit \<Rightarrow> acceptor" where
  "WordRule_transit a ch = (if is_latin ch then advance a else reject a)"

definition NumberRule_transit :: "acceptor \<Rightarrow> code_unit \<Rightarrow> acceptor" where
  "NumberRule_transit a ch = (if is_digit ch then advance a else reject a)"

definition SpaceRule_transit :: "acceptor \<Rightarrow> code_unit \<Rightarrow> acceptor" where
  "SpaceRule_transit a ch = (if is_space ch then advance a else reject a)"

definition SingleSymbolRule_transit :: "acceptor \<Rightarrow> code_unit \<Rightarrow> acceptor" where
  "SingleSymbolRule_transit a ch =
     (if strOffset a = 0 \<and> is_symbol ch then advance a else reject a)"

section \<open>Thai rules\<close>

definition isMatch :: "jstring \<Rightarrow> nat \<Rightarrow> code_unit \<Rightarrow> bool" where
  "isMatch pat offset ch =
     (if length pat \<le> offset then False
      else let pch = pat ! offset in
        pch = ch \<or>
        (pch \<in> {0x0E01, 0x0E02} \<and> 0x0E01 \<le> ch \<and> ch \<le> 0x0E2E) \<or>
        (pch \<in> {0x0E21, 0x0E1A} \<and> 0x0E01 \<le> ch \<and> ch \<le> 0x0E2E) \<or>
        (pch = 0x0E49 \<and> 0x0E48 \<le> ch \<and> ch \<le> 0x0E4B))"

definition Rule0_pat :: jstring where
  "Rule0_pat = [0x0E40, 0x0E2B, 0x0E01, 0x0E47, 0x0E21]"

definition Rule0_transit :: "acceptor \<Rightarrow> code_unit \<Rightarrow> acceptor" where
  "Rule0_transit a ch =
     (if isMatch Rule0_pat (strOffset a) ch
      then a\<lparr>isFinal := (strOffset a + 1 = length Rule0_pat), strOffset := Suc (strOffset a)\<rparr>
      else reject a)"

definition PartRule_patterns :: "jstring list" where
  "PartRule_patterns =
     [[0x0E41, 0x0E01], [0x0E40, 0x0E01], [0x0E01, 0x0E49], [0x0E01, 0x0E01, 0x0E4C],
      [0x0E01, 0x0E32], [0x0E01, 0x0E35], [0x0E01, 0x0E34], [0x0E01, 0x0E37, 0x0E01]]"

definition PartRule_createAcceptor :: acceptor where
  "PartRule_createAcceptor =
     (fresh_acceptor PartRule ''PART'')\<lparr>patterns := PartRule_patterns, acc_unk := Some 1\<rparr>"

definition PartRule_transit :: "acceptor \<Rightarrow> code_unit \<Rightarrow> acceptor" where
  "PartRule_transit a ch =
     (let offset = strOffset a;
          pats = filter (\<lambda>pat. isMatch pat offset ch) (patterns a);
          a' = a\<lparr>patterns := pats\<rparr>
      in if length pats > 0
         then a'\<lparr>isFinal := (\<exists>pat \<in> set pats. length pat = 1 + offset),
                 strOffset := Suc (strOffset a)\<rparr>
         else reject a')"

section \<open>The running acceptors\<close>

record acceptors =
  creators :: "creator list"
  acc_dict :: "jstring list"
  current :: "acceptor list"
  tag :: "string \<rightharpoonup> acceptor"

definition acceptors_init :: acceptors where
  "acceptors_init = \<lparr>creators = [], acc_dict = [], current = [], tag = Map.empty\<rparr>"

definition acceptors_reset :: "acceptors \<Rightarrow> acceptors" where
  "acceptors_reset s = s\<lparr>current := [], tag := Map.empty\<rparr>"

text \<open>\<open>creator.createAcceptor(tag)\<close>; \<^term>\<open>None\<close> is \<open>null\<close>.\<close>

fun createAcceptor :: "jstring list \<Rightarrow> creator \<Rightarrow> (string \<rightharpoonup> acceptor) \<Rightarrow> acceptor option" where
  "createAcceptor dict WordRule tags =
     (if tags ''WORD_RULE'' \<noteq> None then None else Some (fresh_acceptor WordRule ''WORD_RULE''))"
| "createAcceptor dict NumberRule tags =
     (if tags ''NUMBER_RULE'' \<noteq> None then None
      else Some (fresh_acceptor NumberRule ''NUMBER_RULE''))"
| "createAcceptor dict SpaceRule tags =
     (if tags ''SPACE_RULE'' \<noteq> None then None else Some (fresh_acceptor SpaceRule ''SPACE_RULE''))"
| "createAcceptor dict SingleSymbolRule tags = Some (fresh_acceptor SingleSymbolRule ''SINSYM'')"
| "createAcceptor dict Rule0 tags = Some (fresh_acceptor Rule0 ''THAI_RULE'')"
| "createAcceptor dict PartRule tags = Some PartRule_createAcceptor"
| "createAcceptor dict DictRule tags = Some (dict_createAcceptor dict)"

definition acceptor_transit :: "jstring list \<Rightarrow> acceptor \<Rightarrow> code_unit \<Rightarrow> js_error + acceptor" where
  "acceptor_transit dict a ch =
     (case acc_rule a of
        WordRule \<Rightarrow> Inr (WordRule_transit a ch)
      | SpaceRule \<Rightarrow> Inr (SpaceRule_transit a ch)
      | SingleSymbolRule \<Rightarrow> Inr (SingleSymbolRule_transit a ch)
      | NumberRule \<Rightarrow> Inr (NumberRule_transit a ch)
      | Rule0 \<Rightarrow> Inr (Rule0_transit a ch)
      | PartRule \<Rightarrow> Inr (PartRule_transit a ch)
      | DictRule \<Rightarrow> dict_transit dict a ch)"

definition acceptors_transit :: "acceptors \<Rightarrow> code_unit \<Rightarrow> js_error + acceptors" where
  "acceptors_transit s ch =
     (let started = current s @ List.map_filter (\<lambda>c. createAcceptor (acc_dict s) c (tag s)) (creators s)
      in bindE (mapE (\<lambda>a. acceptor_transit (acc_dict s) a ch) started) (\<lambda>moved.
           let alive = filter (\<lambda>a. \<not> isError a) moved
           in Inr (s\<lparr>current := alive,
                    tag := foldl (\<lambda>t a. t(acc_tag a \<mapsto> a)) Map.empty alive\<rparr>)))"

definition getFinalAcceptors :: "acceptors \<Rightarrow> acceptor list" where
  "getFinalAcceptors s = filter isFinal (current s)"

section \<open>Wiring of the rules\<close>

text \<open>\<open>Wordcut.initNoDict\<close> and \<open>Wordcut.init\<close> (module 7).\<close>

definition defaultLatinRules :: "creator list" where
  "defaultLatinRules = [WordRule, SpaceRule, SingleSymbolRule, NumberRule]"

definition defaultThaiRules :: "creator list" where
  "defaultThaiRules = [Rule0, PartRule]"

definition wordcut_initNoDict :: acceptors where
  "wordcut_initNoDict =
     (let s = acceptors_init; s1 = s\<lparr>creators := creators s @ defaultLatinRules\<rparr>
      in s1\<lparr>creators := creators s1 @ defaultThaiRules\<rparr>)"

definition wordcut_init ::
    "jstring \<Rightarrow> jstring \<Rightarrow> path_arg \<Rightarrow> bool \<Rightarrow> jstring list option \<Rightarrow> acceptors" where
  "wordcut_init builtin defaultDict dict_path withDefault additionalWords =
     (let s = wordcut_initNoDict
      in s\<lparr>creators := creators s @ [DictRule],
           acc_dict := dict_init builtin defaultDict dict_path withDefault additionalWords\<rparr>)"

section \<open>One step of an acceptor\<close>

lemmas rule_transit_defs =
  WordRule_transit_def NumberRule_transit_def SpaceRule_transit_def SingleSymbolRule_transit_def
  Rule0_transit_def PartRule_transit_def Let_def

lemma advance_sel [simp]:
  "strOffset (advance a) = Suc (strOffset a)" "isFinal (advance a)" "isError (advance a) = isError a"
  "acc_rule (advance a) = acc_rule a"
  by (simp_all add: advance_def)

lemma reject_sel [simp]: "isError (reject a)" "acc_rule (reject a) = acc_rule a"
  by (simp_all add: reject_def)

text \<open>A dictionary acceptor's interval is known to hold the words that start with what it read.\<close>

definition sound_acceptor :: "jstring list \<Rightarrow> acceptor \<Rightarrow> bool" where
  "sound_acceptor dict a \<longleftrightarrow> \<not> isError a \<and> (acc_rule a = DictRule \<longrightarrow> (\<exists>w. reads dict a w))"

lemma createAcceptor_sound:
  "createAcceptor dict c tags = Some a \<Longrightarrow>
   sound_acceptor dict a \<and> strOffset a = 0 \<and> \<not> isFinal a"
  by (cases c) (auto simp: sound_acceptor_def fresh_acceptor_def PartRule_createAcceptor_def
      dict_createAcceptor_def reads_def spans_def split: if_splits)

text \<open>
  Moving a sound acceptor over a sorted dictionary throws nothing; unless it fails it stays sound
  and has read one code unit more.
\<close>

lemma acceptor_transit_sound:
  assumes "sorted dict" "sound_acceptor dict a"
  shows "\<exists>a'. acceptor_transit dict a ch = Inr a' \<and> acc_rule a' = acc_rule a \<and>
    (\<not> isError a' \<longrightarrow> sound_acceptor dict a' \<and> strOffset a' = Suc (strOffset a))"
proof (cases "acc_rule a = DictRule")
  case True
  with assms(2) obtain w where w: "reads dict a w" "\<not> isError a"
    by (auto simp: sound_acceptor_def)
  have "acc_rule a' = acc_rule a" if "dict_transit dict a ch = Inr a'" for a'
    using that by (auto simp: dict_transit_def Let_def bindE_eq_Inr_iff split: option.splits)
  moreover obtain a' where "dict_transit dict a ch = Inr a'"
    "isError a' \<or> \<not> isError a' \<and> reads dict a' (w @ [ch])"
    using dict_transit_reads [OF assms(1) w(1), of ch] by (auto split: if_splits)
  ultimately show ?thesis
    using True w by (intro exI [of _ a']) (auto simp: acceptor_transit_def sound_acceptor_def reads_def)
next
  case False
  then show ?thesis
    using assms(2)
    by (cases "acc_rule a")
      (auto simp: acceptor_transit_def sound_acceptor_def rule_transit_defs)
qed

text \<open>The state of the running acceptors after \<open>n\<close> code units of the text.\<close>

definition sound_acceptors :: "nat \<Rightarrow> acceptors \<Rightarrow> bool" where
  "sound_acceptors n s \<longleftrightarrow> sorted (acc_dict s) \<and>
     (\<forall>a \<in> set (current s). sound_acceptor (acc_dict s) a \<and> 1 \<le> strOffset a \<and> strOffset a \<le> n)"

lemma sound_acceptors_reset: "sorted (acc_dict s) \<Longrightarrow> sound_acceptors 0 (acceptors_reset s)"
  by (simp add: sound_acceptors_def acceptors_reset_def)

lemma acceptors_transit_sound:
  assumes "sound_acceptors n s"
  shows "\<exists>s'. acceptors_transit s ch = Inr s' \<and> sound_acceptors (Suc n) s'"
proof -
  let ?started = "current s @ List.map_filter (\<lambda>c. createAcceptor (acc_dict s) c (tag s)) (creators s)"
  let ?P = "\<lambda>a a'. \<not> isError a' \<longrightarrow> sound_acceptor (acc_dict s) a' \<and> 1 \<le> strOffset a' \<and> strOffset a' \<le> Suc n"
  have started: "sound_acceptor (acc_dict s) a \<and> strOffset a \<le> n" if "a \<in> set ?started" for a
    using that assms createAcceptor_sound
    by (fastforce simp: sound_acceptors_def List.map_filter_def)
  have "\<exists>a'. acceptor_transit (acc_dict s) a ch = Inr a' \<and> ?P a a'" if "a \<in> set ?started" for a
    using acceptor_transit_sound [of "acc_dict s" a ch] started [OF that] assms
    by (auto simp: sound_acceptors_def)
  then obtain moved where moved: "mapE (\<lambda>a. acceptor_transit (acc_dict s) a ch) ?started = Inr moved"
    "list_all2 ?P ?started moved"
    using mapE_Inr [of ?started "\<lambda>a. acceptor_transit (acc_dict s) a ch" ?P] by blast
  from moved(2) have "\<forall>a' \<in> set moved. ?P a' a'"
    by (auto simp: list_all2_conv_all_nth in_set_conv_nth)
  with moved(1) assms show ?thesis
    by (auto simp: acceptors_transit_def sound_acceptors_def Let_def)
qed

lemma final_acceptor_bounds:
  assumes "sound_acceptors n s" "a \<in> set (getFinalAcceptors s)"
  shows "1 \<le> strOffset a" "strOffset a \<le> n"
  using assms by (auto simp: sound_acceptors_def getFinalAcceptors_def)

section \<open>Rules that read a run of one character class\<close>

text \<open>
  The contract of the three run rules: an accepted code unit advances the acceptor and makes it
  final, any other one fails it. The client lemma reads a whole text.
\<close>

fun acceptor_run :: "jstring list \<Rightarrow> acceptor \<Rightarrow> jstring \<Rightarrow> js_error + acceptor" where
  "acceptor_run dict a [] = Inr a"
| "acceptor_run dict a (c # cs) =
     bindE (acceptor_transit dict a c)
       (\<lambda>a'. if isError a' then Inr a' else acceptor_run dict a' cs)"

locale run_rule =
  fixes rule :: creator and accepts :: "code_unit \<Rightarrow> bool"
  assumes transit: "acc_rule a = rule \<Longrightarrow>
    acceptor_transit dict a ch = Inr (if accepts ch then advance a else reject a)"
begin

lemma run_reads:
  assumes "acc_rule a = rule" "\<not> isError a"
  shows "\<exists>a'. acceptor_run dict a w = Inr a' \<and> (isError a' \<longleftrightarrow> \<not> list_all accepts w) \<and>
    (list_all accepts w \<longrightarrow> strOffset a' = strOffset a + length w \<and> (w \<noteq> [] \<longrightarrow> isFinal a'))"
  using assms
proof (induction w arbitrary: a)
  case (Cons c w)
  show ?case
  proof (cases "accepts c")
    case True
    then have "acceptor_run dict a (c # w) = acceptor_run dict (advance a) w"
      using Cons.prems by (simp add: transit)
    then show ?thesis
      using Cons.IH [of "advance a"] Cons.prems True by (cases "w = []") (auto simp: transit)
  next
    case False
    with Cons.prems show ?thesis by (simp add: transit)
  qed
qed simp

end

interpretation words: run_rule WordRule is_latin
  by unfold_locales (simp add: acceptor_transit_def WordRule_transit_def)

interpretation numbers: run_rule NumberRule is_digit
  by unfold_locales (simp add: acceptor_transit_def NumberRule_transit_def)

interpretation spaces: run_rule SpaceRule is_space
  by unfold_locales (simp add: acceptor_transit_def SpaceRule_transit_def)

section \<open>Properties\<close>

text \<open>
  Run rules. A fresh word, number or space acceptor that reads a non-empty text is alive and
  final, with the whole text read, exactly when every code unit belongs to the rule's class; else
  it ends in the error state. No step throws.
\<close>

theorem run_rules_accept_classes:
  assumes "w \<noteq> []"
    "(rule, name, accepts) \<in> {(WordRule, ''WORD_RULE'', is_latin), (NumberRule, ''NUMBER_RULE'', is_digit),
       (SpaceRule, ''SPACE_RULE'', is_space)}"
    "createAcceptor dict rule Map.empty = Some a"
  shows "\<exists>a'. acceptor_run dict a w = Inr a' \<and> (isError a' \<longleftrightarrow> \<not> list_all accepts w) \<and>
    (list_all accepts w \<longrightarrow> isFinal a' \<and> strOffset a' = length w)"
proof -
  have a: "a = fresh_acceptor rule name" using assms(2,3) by auto
  have fresh: "acc_rule a = rule" "\<not> isError a" "strOffset a = 0"
    by (simp_all add: a fresh_acceptor_def)
  consider "rule = WordRule" "accepts = is_latin" | "rule = NumberRule" "accepts = is_digit"
    | "rule = SpaceRule" "accepts = is_space"
    using assms(2) by auto
  then have "\<exists>a'. acceptor_run dict a w = Inr a' \<and> (isError a' \<longleftrightarrow> \<not> list_all accepts w) \<and>
    (list_all accepts w \<longrightarrow> strOffset a' = strOffset a + length w \<and> (w \<noteq> [] \<longrightarrow> isFinal a'))"
  proof cases
    case 1 then show ?thesis using words.run_reads [of a dict w] fresh(1,2) by simp
  next
    case 2 then show ?thesis using numbers.run_reads [of a dict w] fresh(1,2) by simp
  next
    case 3 then show ?thesis using spaces.run_reads [of a dict w] fresh(1,2) by simp
  qed
  with assms(1) fresh(3) show ?thesis by auto
qed

theorem run_rules_accept_classes_witness:
  "\<exists>a'. acceptor_run [] (fresh_acceptor NumberRule ''NUMBER_RULE'') (lit ''2024'') = Inr a' \<and>
     isFinal a' \<and> strOffset a' = 4"
proof -
  have "list_all is_digit (lit ''2024'')" by (simp add: lit_def is_digit_def)
  then show ?thesis
    using run_rules_accept_classes [of "lit ''2024''" NumberRule "''NUMBER_RULE''" is_digit "[]"]
    by auto
qed

end
