(* ===== verification/Wordcut_Core.thy ===== *)
theory Wordcut_Core
  imports Wordcut_Rules "HOL-Library.Product_Lexorder"
begin

text \<open>
  The path search of the segmenter (\<open>wordcut.js\<close>, modules 4, 5 and 8): \<open>PathInfoBuilder\<close> turns
  the final acceptors at a position into candidate steps, \<open>PathSelector\<close> picks one, and
  \<open>WordcutCore\<close> builds a path over the text and reads the pieces back from its end. The lemmas show
  that for every text and dictionary nothing throws, the loop that reads the path back stops, and
  the pieces are non-empty and put together give the text.
\<close>

section \<open>Path steps\<close>

record path_info =
  pi_p :: "nat option"
  pi_mw :: nat
  pi_w :: nat
  pi_unk :: nat
  pi_type :: string
  pi_merge :: "nat option"

definition createPath :: "path_info list" where
  "createPath =
     [\<lparr>pi_p = None, pi_mw = 0, pi_w = 0, pi_unk = 0, pi_type = ''INIT'', pi_merge = None\<rparr>]"

text \<open>\<open>for (j = p + 1; j <= i; j++) path[j].merge = p\<close>; a missing \<open>path[j]\<close> throws.\<close>

definition mark_merge :: "path_info list \<Rightarrow> nat \<Rightarrow> nat \<Rightarrow> js_error + path_info list" where
  "mark_merge path p i =
     (if i < length path \<or> i \<le> p
      then Inr (map (\<lambda>(j, info). if p + 1 \<le> j \<and> j \<le> i then info\<lparr>pi_merge := Some p\<rparr> else info)
                  (enumerate 0 path))
      else Inl TypeError)"

text \<open>
  The body of the \<open>map\<close> in \<open>buildByAcceptors\<close>: the new step and the path with the merge marks a
  \<open>PART\<close> acceptor leaves behind. A negative index reads \<open>undefined\<close>.
\<close>

definition build_info ::
    "path_info list \<Rightarrow> acceptor \<Rightarrow> nat \<Rightarrow> js_error + (path_info \<times> path_info list)" where
  "build_info path a i =
     (let p = int i - int (strOffset a) + 1 in
      bindE (array_get path p) (\<lambda>from.
        let info = \<lparr>pi_p = Some (nat p),
                    pi_mw = pi_mw from + (case acc_mw a of None \<Rightarrow> 0 | Some m \<Rightarrow> m),
                    pi_w = acc_w a + pi_w from,
                    pi_unk = (case acc_unk a of None \<Rightarrow> 0 | Some u \<Rightarrow> u) + pi_unk from,
                    pi_type = acc_type a, pi_merge = None\<rparr>
        in if acc_type a = ''PART''
           then bindE (mark_merge path (nat p) i) (\<lambda>path'.
                  Inr (info\<lparr>pi_merge := Some (nat p)\<rparr>, path'))
           else Inr (info, path)))"

fun buildByAcceptors ::
    "path_info list \<Rightarrow> acceptor list \<Rightarrow> nat \<Rightarrow> js_error + (path_info list \<times> path_info list)" where
  "buildByAcceptors path [] i = Inr ([], path)"
| "buildByAcceptors path (a # as) i =
     bindE (build_info path a i) (\<lambda>(info, path').
       bindE (buildByAcceptors path' as i) (\<lambda>(infos, path''). Inr (info # infos, path'')))"

definition is_tone_mark :: "code_unit \<Rightarrow> bool" where
  "is_tone_mark ch \<longleftrightarrow> 0x0E48 \<le> ch \<and> ch \<le> 0x0E4E"

definition fallback :: "path_info list \<Rightarrow> nat \<Rightarrow> jstring \<Rightarrow> nat \<Rightarrow> js_error + path_info" where
  "fallback path leftBoundary text i =
     bindE (array_get path (int leftBoundary)) (\<lambda>info.
     bindE (array_get text (int i)) (\<lambda>ch.
       if is_tone_mark ch
       then Inr \<lparr>pi_p = (if leftBoundary \<noteq> 0 then pi_p info else Some leftBoundary),
                 pi_mw = 0, pi_w = 1 + pi_w info, pi_unk = 1 + pi_unk info,
                 pi_type = ''UNK'', pi_merge = None\<rparr>
       else Inr \<lparr>pi_p = Some leftBoundary, pi_mw = pi_mw info, pi_w = 1 + pi_w info,
                 pi_unk = 1 + pi_unk info, pi_type = ''UNK'', pi_merge = None\<rparr>))"

definition build ::
    "path_info list \<Rightarrow> acceptor list \<Rightarrow> nat \<Rightarrow> nat \<Rightarrow> jstring
      \<Rightarrow> js_error + (path_info list \<times> path_info list)" where
  "build path finalAcceptors i leftBoundary text =
     bindE (buildByAcceptors path finalAcceptors i) (\<lambda>(basicPathInfos, path').
       if length basicPathInfos > 0 then Inr (basicPathInfos, path')
       else bindE (fallback path' leftBoundary text i) (\<lambda>info. Inr ([info], path')))"

section \<open>Choosing a step\<close>

text \<open>The reducer of \<open>selectPath\<close>: fewer unknown pieces, then smaller \<open>mw\<close>, then fewer words.\<close>

definition better :: "path_info \<Rightarrow> path_info \<Rightarrow> path_info" where
  "better selectedPath path =
     (if pi_unk path < pi_unk selectedPath then path
      else if pi_unk path = pi_unk selectedPath then
        (if pi_mw path < pi_mw selectedPath then path
         else if pi_mw path = pi_mw selectedPath \<and> pi_w path < pi_w selectedPath then path
         else selectedPath)
      else selectedPath)"

definition selectPath :: "path_info list \<Rightarrow> path_info option" where
  "selectPath paths =
     foldl (\<lambda>sel path. case sel of None \<Rightarrow> Some path | Some s \<Rightarrow> Some (better s path)) None paths"

section \<open>Building the path\<close>

text \<open>
  One round of the \<open>for\<close> loop of \<open>buildPath\<close>; the loop state is the path, the left boundary and
  the running acceptors. A \<open>null\<close> selection would throw on \<open>selectedPath.type\<close>.
\<close>

definition buildPath_step ::
    "jstring \<Rightarrow> nat \<Rightarrow> path_info list \<times> nat \<times> acceptors \<Rightarrow> js_error + (path_info list \<times> nat \<times> acceptors)"
  where
  "buildPath_step text i st =
     (case st of (path, leftBoundary, accs) \<Rightarrow>
       bindE (array_get text (int i)) (\<lambda>ch.
       bindE (acceptors_transit accs ch) (\<lambda>accs'.
       bindE (build path (getFinalAcceptors accs') i leftBoundary text) (\<lambda>(infos, path').
         case selectPath infos of
           None \<Rightarrow> Inl TypeError
         | Some sel \<Rightarrow>
             Inr (path' @ [sel], if pi_type sel \<noteq> ''UNK'' then i else leftBoundary, accs')))))"

fun buildPath_loop ::
    "jstring \<Rightarrow> nat \<Rightarrow> nat \<Rightarrow> path_info list \<times> nat \<times> acceptors
      \<Rightarrow> js_error + (path_info list \<times> nat \<times> acceptors)" where
  "buildPath_loop text i 0 st = Inr st"
| "buildPath_loop text i (Suc n) st =
     bindE (buildPath_step text i st) (\<lambda>st'. buildPath_loop text (Suc i) n st')"

definition buildPath :: "acceptors \<Rightarrow> jstring \<Rightarrow> js_error + path_info list" where
  "buildPath accs text =
     bindE (buildPath_loop text 0 (length text) (createPath, 0, acceptors_reset accs))
       (\<lambda>(path, _). Inr path)"

section \<open>Reading the pieces back\<close>

record range =
  rg_s :: nat
  rg_e :: nat

text \<open>
  The \<open>while (e > 0)\<close> loop of \<open>pathToRanges\<close>, with the ranges collected last first as in the
  source. On an arbitrary path the loop may throw (an index past the end) or not end, so it has fuel
  and \<^term>\<open>None\<close> stands for no normal result; a \<open>null\<close> start compares as \<open>0\<close>.
\<close>

fun ranges_loop :: "nat \<Rightarrow> path_info list \<Rightarrow> nat \<Rightarrow> range list \<Rightarrow> range list option" where
  "ranges_loop 0 path e ranges = (if e > 0 then None else Some ranges)"
| "ranges_loop (Suc n) path e ranges =
     (if e > 0 then
        if e \<ge> length path then None else
        let info = path ! e; s = (case pi_p info of None \<Rightarrow> 0 | Some p \<Rightarrow> p) in
        case pi_merge info of
          Some m \<Rightarrow>
            if ranges \<noteq> []
            then ranges_loop n path m (butlast ranges @ [(last ranges)\<lparr>rg_s := m\<rparr>])
            else ranges_loop n path s (ranges @ [\<lparr>rg_s = s, rg_e = e\<rparr>])
        | None \<Rightarrow> ranges_loop n path s (ranges @ [\<lparr>rg_s = s, rg_e = e\<rparr>])
      else Some ranges)"

definition pathToRanges :: "path_info list \<Rightarrow> range list option" where
  "pathToRanges path = map_option rev (ranges_loop (length path) path (length path - 1) [])"

definition substring :: "jstring \<Rightarrow> range \<Rightarrow> jstring" where
  "substring text r = take (rg_e r - rg_s r) (drop (rg_s r) text)"

definition rangesToText :: "jstring \<Rightarrow> range list \<Rightarrow> jstring \<Rightarrow> jstring" where
  "rangesToText text ranges delimiter = join delimiter (map (substring text) ranges)"

text \<open>The entry points: an exception of \<open>buildPath\<close>, or the result of reading the path back.\<close>

definition cut_ranges :: "acceptors \<Rightarrow> jstring \<Rightarrow> js_error + range list option" where
  "cut_ranges accs text = bindE (buildPath accs text) (\<lambda>path. Inr (pathToRanges path))"

definition cut :: "acceptors \<Rightarrow> jstring \<Rightarrow> jstring option \<Rightarrow> js_error + jstring option" where
  "cut accs text delimiter =
     bindE (cut_ranges accs text) (\<lambda>ranges. Inr (map_option (\<lambda>rs.
       rangesToText text rs (case delimiter of None \<Rightarrow> lit ''|'' | Some d \<Rightarrow> d)) ranges))"

definition cutIntoRanges ::
    "acceptors \<Rightarrow> jstring \<Rightarrow> bool \<Rightarrow> js_error + (range \<times> jstring option) list option" where
  "cutIntoRanges accs text noText =
     bindE (cut_ranges accs text) (\<lambda>ranges. Inr (map_option
       (map (\<lambda>r. (r, if noText then None else Some (substring text r)))) ranges))"

definition cutIntoArray :: "acceptors \<Rightarrow> jstring \<Rightarrow> js_error + jstring list option" where
  "cutIntoArray accs text =
     bindE (cut_ranges accs text) (\<lambda>ranges. Inr (map_option (map (substring text)) ranges))"

section \<open>The path is well formed\<close>

text \<open>A step into position \<open>k\<close> comes from an earlier position, and so does its merge mark.\<close>

definition step_ok :: "nat \<Rightarrow> path_info \<Rightarrow> bool" where
  "step_ok k info \<longleftrightarrow> (\<exists>p. pi_p info = Some p \<and> p < k) \<and>
     (case pi_merge info of None \<Rightarrow> True | Some m \<Rightarrow> m < k)"

definition wf_path :: "path_info list \<Rightarrow> bool" where
  "wf_path path \<longleftrightarrow> path \<noteq> [] \<and> (\<forall>k. 0 < k \<and> k < length path \<longrightarrow> step_ok k (path ! k))"

lemma wf_createPath [simp]: "wf_path createPath" "length createPath = 1"
  by (auto simp: wf_path_def createPath_def)

lemma wf_path_snoc: "wf_path path \<Longrightarrow> step_ok (length path) info \<Longrightarrow> wf_path (path @ [info])"
  by (auto simp: wf_path_def nth_append less_Suc_eq)

lemma mark_merge_wf:
  assumes "wf_path path" "i < length path"
  shows "\<exists>path'. mark_merge path p i = Inr path' \<and> wf_path path' \<and> length path' = length path"
proof -
  have "step_ok k ((path ! k)\<lparr>pi_merge := Some p\<rparr>)" if "0 < k" "k < length path" "p + 1 \<le> k" for k
    using assms(1) that by (auto simp: wf_path_def step_ok_def)
  with assms show ?thesis
    by (auto simp: mark_merge_def wf_path_def nth_enumerate_eq simp flip: length_greater_0_conv)
qed

lemma build_info_ok:
  assumes "wf_path path" "length path = Suc i" "1 \<le> strOffset a" "strOffset a \<le> Suc i"
  shows "\<exists>info path'. build_info path a i = Inr (info, path') \<and> step_ok (Suc i) info \<and>
    wf_path path' \<and> length path' = Suc i"
proof -
  let ?p = "int i - int (strOffset a) + 1"
  have p: "0 \<le> ?p" "?p < int (length path)" "nat ?p < Suc i" using assms(2-4) by auto
  have "\<exists>path'. mark_merge path (nat ?p) i = Inr path' \<and> wf_path path' \<and> length path' = length path"
    using mark_merge_wf [of path i] assms(1,2) by simp
  with p assms(1,2) show ?thesis
    by (auto simp: build_info_def Let_def array_get_in step_ok_def)
qed

lemma buildByAcceptors_ok:
  assumes "wf_path path" "length path = Suc i" "\<forall>a \<in> set as. 1 \<le> strOffset a \<and> strOffset a \<le> Suc i"
  shows "\<exists>infos path'. buildByAcceptors path as i = Inr (infos, path') \<and>
    list_all (step_ok (Suc i)) infos \<and> length infos = length as \<and> wf_path path' \<and> length path' = Suc i"
  using assms
proof (induction as arbitrary: path)
  case (Cons a as)
  obtain info path1 where 1: "build_info path a i = Inr (info, path1)" "step_ok (Suc i) info"
    "wf_path path1" "length path1 = Suc i"
    using build_info_ok [of path i a] Cons.prems by auto
  obtain infos path2 where "buildByAcceptors path1 as i = Inr (infos, path2)"
    "list_all (step_ok (Suc i)) infos" "length infos = length as" "wf_path path2"
    "length path2 = Suc i"
    using Cons.IH [OF 1(3,4)] Cons.prems(3) by auto
  with 1 show ?case by simp
qed simp

lemma fallback_ok:
  assumes "wf_path path" "length path = Suc i" "lb \<le> i" "i < length text"
  shows "\<exists>info. fallback path lb text i = Inr info \<and> step_ok (Suc i) info"
proof -
  have "lb \<noteq> 0 \<Longrightarrow> \<exists>q. pi_p (path ! lb) = Some q \<and> q < lb"
    using assms(1-3) by (auto simp: wf_path_def step_ok_def)
  with assms show ?thesis
    by (auto simp: fallback_def array_get_in step_ok_def)
qed

lemma build_ok:
  assumes "wf_path path" "length path = Suc i" "lb \<le> i" "i < length text"
    "\<forall>a \<in> set as. 1 \<le> strOffset a \<and> strOffset a \<le> Suc i"
  shows "\<exists>infos path'. build path as i lb text = Inr (infos, path') \<and> infos \<noteq> [] \<and>
    list_all (step_ok (Suc i)) infos \<and> wf_path path' \<and> length path' = Suc i"
proof -
  obtain infos path1 where 1: "buildByAcceptors path as i = Inr (infos, path1)"
    "list_all (step_ok (Suc i)) infos" "wf_path path1" "length path1 = Suc i"
    using buildByAcceptors_ok [OF assms(1,2,5)] by blast
  obtain info where "fallback path1 lb text i = Inr info" "step_ok (Suc i) info"
    using fallback_ok [OF 1(3,4) assms(3,4)] by blast
  with 1 show ?thesis by (cases "infos = []") (auto simp: build_def)
qed

section \<open>The selected step\<close>

definition cost :: "path_info \<Rightarrow> nat \<times> nat \<times> nat" where
  "cost info = (pi_unk info, pi_mw info, pi_w info)"

lemma better_cost: "better s x = (if cost x < cost s then x else s)"
  by (auto simp: better_def cost_def)

lemma selectPath_snoc:
  "selectPath (xs @ [x]) = (case selectPath xs of None \<Rightarrow> Some x | Some s \<Rightarrow> Some (better s x))"
  by (simp add: selectPath_def)

lemma selectPath_best:
  assumes "xs \<noteq> []"
  shows "\<exists>i < length xs. selectPath xs = Some (xs ! i) \<and>
    (\<forall>j < length xs. cost (xs ! i) \<le> cost (xs ! j)) \<and> (\<forall>j < i. cost (xs ! i) < cost (xs ! j))"
  using assms
proof (induction xs rule: rev_nonempty_induct)
  case (single x)
  then show ?case by (simp add: selectPath_def)
next
  case (snoc x xs)
  then obtain i where i: "i < length xs" "selectPath xs = Some (xs ! i)"
    "\<forall>j < length xs. cost (xs ! i) \<le> cost (xs ! j)" "\<forall>j < i. cost (xs ! i) < cost (xs ! j)"
    by blast
  show ?case
  proof (cases "cost x < cost (xs ! i)")
    case True
    with i show ?thesis
      by (intro exI [of _ "length xs"])
        (auto simp: selectPath_snoc better_cost nth_append less_Suc_eq intro: less_imp_le
          dest: order_less_le_trans)
  next
    case False
    with i show ?thesis
      by (intro exI [of _ i]) (auto simp: selectPath_snoc better_cost nth_append less_Suc_eq)
  qed
qed

corollary selectPath_mem: "xs \<noteq> [] \<Longrightarrow> \<exists>x \<in> set xs. selectPath xs = Some x"
  using selectPath_best [of xs] nth_mem by blast

section \<open>The whole path\<close>

definition loop_inv :: "nat \<Rightarrow> path_info list \<times> nat \<times> acceptors \<Rightarrow> bool" where
  "loop_inv i st \<longleftrightarrow> (case st of (path, lb, accs) \<Rightarrow>
     wf_path path \<and> length path = Suc i \<and> lb \<le> i \<and> sound_acceptors i accs)"

lemma buildPath_step_inv:
  assumes "loop_inv i st" "i < length text"
  shows "\<exists>st'. buildPath_step text i st = Inr st' \<and> loop_inv (Suc i) st'"
proof -
  obtain path lb accs where st: "st = (path, lb, accs)" by (cases st)
  have inv: "wf_path path" "length path = Suc i" "lb \<le> i" "sound_acceptors i accs"
    using assms(1) by (auto simp: loop_inv_def st)
  obtain accs' where accs': "acceptors_transit accs (text ! i) = Inr accs'"
    "sound_acceptors (Suc i) accs'"
    using acceptors_transit_sound [OF inv(4)] by blast
  have "\<forall>a \<in> set (getFinalAcceptors accs'). 1 \<le> strOffset a \<and> strOffset a \<le> Suc i"
    using final_acceptor_bounds [OF accs'(2)] by blast
  then obtain infos path' where b: "build path (getFinalAcceptors accs') i lb text = Inr (infos, path')"
    "infos \<noteq> []" "list_all (step_ok (Suc i)) infos" "wf_path path'" "length path' = Suc i"
    using build_ok [OF inv(1-3) assms(2)] by blast
  obtain sel where sel: "selectPath infos = Some sel" "sel \<in> set infos"
    using selectPath_mem [OF b(2)] by blast
  then have "step_ok (length path') sel" using b(3,5) by (simp add: list_all_iff)
  with b(4) have "wf_path (path' @ [sel])" by (rule wf_path_snoc)
  with st inv(3) accs' b sel(1) assms(2) show ?thesis
    by (simp add: buildPath_step_def array_get_in loop_inv_def)
qed

lemma buildPath_loop_inv:
  assumes "loop_inv i st" "i + n \<le> length text"
  shows "\<exists>st'. buildPath_loop text i n st = Inr st' \<and> loop_inv (i + n) st'"
  using assms
proof (induction n arbitrary: i st)
  case (Suc n)
  then obtain st1 where "buildPath_step text i st = Inr st1" "loop_inv (Suc i) st1"
    using buildPath_step_inv [of i st "text"] by auto
  with Suc.IH [of "Suc i" st1] Suc.prems show ?case by simp
qed simp

lemma buildPath_ok:
  assumes "sorted (acc_dict accs)"
  shows "\<exists>path. buildPath accs text = Inr path \<and> wf_path path \<and> length path = Suc (length text)"
proof -
  have start: "loop_inv 0 (createPath, 0, acceptors_reset accs)"
    using sound_acceptors_reset [OF assms] by (simp add: loop_inv_def)
  obtain st where "buildPath_loop text 0 (length text) (createPath, 0, acceptors_reset accs) = Inr st"
    "loop_inv (length text) st"
    using buildPath_loop_inv [OF start, of "length text" "text"] by auto
  then show ?thesis by (auto simp: buildPath_def loop_inv_def)
qed

section \<open>The ranges\<close>

text \<open>Non-empty ranges that follow each other from \<open>a\<close> to \<open>b\<close>.\<close>

fun chain :: "range list \<Rightarrow> nat \<Rightarrow> nat \<Rightarrow> bool" where
  "chain [] a b \<longleftrightarrow> a = b"
| "chain (r # rs) a b \<longleftrightarrow> rg_s r = a \<and> a < rg_e r \<and> chain rs (rg_e r) b"

lemma chain_le: "chain rs a b \<Longrightarrow> a \<le> b"
  by (induction rs arbitrary: a) fastforce+

lemma rev_last: "xs \<noteq> [] \<Longrightarrow> rev xs = last xs # rev (butlast xs)"
  by (metis append_butlast_last_id rev_eq_Cons_iff rev_rev_ident)

lemma ranges_loop_chain:
  assumes "wf_path path" "e < length path" "e \<le> n" "chain (rev ranges) e len"
  shows "\<exists>rs. ranges_loop n path e ranges = Some rs \<and> chain (rev rs) 0 len"
  using assms(2-)
proof (induction n arbitrary: e ranges)
  case (Suc n)
  show ?case
  proof (cases "e > 0")
    case True
    with assms(1) Suc.prems(1) obtain p where p: "pi_p (path ! e) = Some p" "p < e"
      and m: "\<And>m. pi_merge (path ! e) = Some m \<Longrightarrow> m < e"
      by (fastforce simp: wf_path_def step_ok_def split: option.splits)
    have push: "\<exists>rs. ranges_loop n path p (ranges @ [\<lparr>rg_s = p, rg_e = e\<rparr>]) = Some rs \<and>
        chain (rev rs) 0 len"
      using Suc.IH [of p] Suc.prems p(2) by simp
    have ext: "\<exists>rs. ranges_loop n path m (butlast ranges @ [(last ranges)\<lparr>rg_s := m\<rparr>]) = Some rs \<and>
        chain (rev rs) 0 len" if "m < e" "ranges \<noteq> []" for m
      using Suc.IH [of m] Suc.prems that by (simp add: rev_last)
    show ?thesis
      using True Suc.prems(1) p(1) push ext m by (auto simp: Let_def split: option.split)
  next
    case False
    with Suc.prems(3) show ?thesis by simp
  qed
qed simp

lemma pathToRanges_chain:
  assumes "wf_path path"
  shows "\<exists>rs. pathToRanges path = Some rs \<and> chain rs 0 (length path - 1)"
proof -
  have "length path - 1 < length path" using assms by (auto simp: wf_path_def)
  then show ?thesis
    using ranges_loop_chain [OF assms, of "length path - 1" "length path" "[]" "length path - 1"]
    by (auto simp: pathToRanges_def)
qed

lemma chain_substrings:
  "chain rs a b \<Longrightarrow> b \<le> length text \<Longrightarrow>
     concat (map (substring text) rs) = take (b - a) (drop a text) \<and> [] \<notin> set (map (substring text) rs)"
proof (induction rs arbitrary: a)
  case (Cons r rs)
  then have r: "rg_s r = a" "a < rg_e r" "rg_e r \<le> b" using chain_le by auto
  have "concat (map (substring text) rs) = take (b - rg_e r) (drop (rg_e r) text)"
    using Cons by auto
  moreover have "take (b - a) (drop a text) =
      take (rg_e r - a) (drop a text) @ take (b - rg_e r) (drop (rg_e r) text)"
    using r take_add [of "rg_e r - a" "b - rg_e r" "drop a text"] by simp
  moreover have "[] \<notin> set (map (substring text) rs)" using Cons by auto
  moreover have "substring text r = take (rg_e r - a) (drop a text)"
    using r(1) by (simp add: substring_def)
  ultimately show ?case using r Cons.prems(2) by simp
qed simp

lemma cut_ranges_ok:
  assumes "sorted (acc_dict accs)"
  shows "\<exists>rs. cut_ranges accs text = Inr (Some rs) \<and> chain rs 0 (length text)"
  using buildPath_ok [OF assms, of "text"] pathToRanges_chain by (fastforce simp: cut_ranges_def)

lemma sorted_dict_wordcut_init [simp]:
  "sorted (acc_dict (wordcut_init builtin defaultDict dict_path withDefault additionalWords))"
  by (simp add: wordcut_init_def Let_def dict_init_def finalizeDict_def)

section \<open>Properties\<close>

text \<open>
  C11. Segmentation loses nothing. Whatever the built-in word list, the arguments of \<open>init\<close> and the
  text, \<open>cutIntoArray\<close> throws nothing and returns, its pieces are non-empty, and put together they
  are the text.
\<close>

theorem cutIntoArray_partitions:
  "\<exists>pieces. cutIntoArray (wordcut_init builtin defaultDict dict_path withDefault words) text =
     Inr (Some pieces) \<and> concat pieces = text \<and> [] \<notin> set pieces"
proof -
  let ?a = "wordcut_init builtin defaultDict dict_path withDefault words"
  obtain rs where rs: "cut_ranges ?a text = Inr (Some rs)" "chain rs 0 (length text)"
    using cut_ranges_ok [of ?a "text"] by auto
  then show ?thesis
    using chain_substrings [OF rs(2), of "text"] by (simp add: cutIntoArray_def)
qed

text \<open>
  \<open>cut\<close> is \<open>cutIntoArray\<close> with the delimiter between the pieces, the default one being a
  vertical bar.
\<close>

theorem cut_joins_pieces:
  "\<exists>pieces. cutIntoArray (wordcut_init builtin defaultDict dict_path withDefault words) text =
     Inr (Some pieces) \<and>
   cut (wordcut_init builtin defaultDict dict_path withDefault words) text delimiter =
     Inr (Some (join (case delimiter of None \<Rightarrow> lit ''|'' | Some d \<Rightarrow> d) pieces))"
  using cut_ranges_ok [of "wordcut_init builtin defaultDict dict_path withDefault words" "text"]
  by (auto simp: cut_def cutIntoArray_def rangesToText_def)

text \<open>
  Path selection. Among any candidates \<open>selectPath\<close> returns the first one whose number of
  unknown pieces, \<open>mw\<close> and number of words are least in this order.
\<close>

theorem selectPath_least:
  assumes "paths \<noteq> []"
  shows "\<exists>i < length paths. selectPath paths = Some (paths ! i) \<and>
    (\<forall>j < length paths. cost (paths ! i) \<le> cost (paths ! j)) \<and>
    (\<forall>j < i. cost (paths ! i) < cost (paths ! j))"
  using selectPath_best [OF assms] .

theorem selectPath_least_witness:
  "\<exists>i < length [\<lparr>pi_p = Some 0, pi_mw = 0, pi_w = 2, pi_unk = 1, pi_type = ''UNK'', pi_merge = None\<rparr>,
                 \<lparr>pi_p = Some 1, pi_mw = 0, pi_w = 3, pi_unk = 0, pi_type = ''DICT'', pi_merge = None\<rparr>].
     selectPath [\<lparr>pi_p = Some 0, pi_mw = 0, pi_w = 2, pi_unk = 1, pi_type = ''UNK'', pi_merge = None\<rparr>,
                 \<lparr>pi_p = Some 1, pi_mw = 0, pi_w = 3, pi_unk = 0, pi_type = ''DICT'', pi_merge = None\<rparr>] =
       Some ([\<lparr>pi_p = Some 0, pi_mw = 0, pi_w = 2, pi_unk = 1, pi_type = ''UNK'', pi_merge = None\<rparr>,
              \<lparr>pi_p = Some 1, pi_mw = 0, pi_w = 3, pi_unk = 0, pi_type = ''DICT'', pi_merge = None\<rparr>] ! i)"
  using selectPath_least
    [of "[\<lparr>pi_p = Some 0, pi_mw = 0, pi_w = 2, pi_unk = 1, pi_type = ''UNK'', pi_merge = None\<rparr>,
          \<lparr>pi_p = Some 1, pi_mw = 0, pi_w = 3, pi_unk = 0, pi_type = ''DICT'', pi_merge = None\<rparr>]"]
  by blast

text \<open>The equations that run the segmenter on a concrete text.\<close>

lemmas wordcut_eval =
  cut_def cut_ranges_def buildPath_def buildPath_step_def wordcut_init_def wordcut_initNoDict_def
  acceptors_init_def defaultLatinRules_def defaultThaiRules_def dict_init_def addFiles_def
  addWords_def finalizeDict_def sortuniq_def acceptors_reset_def createPath_def array_get_def
  acceptors_transit_def List.map_filter_def fresh_acceptor_def PartRule_createAcceptor_def
  dict_createAcceptor_def acceptor_transit_def rule_transit_defs advance_def reject_def
  dict_transit_def dictSeek_def dictSeek_loop.simps isMatch_def Rule0_pat_def PartRule_patterns_def
  getFinalAcceptors_def build_def build_info_def mark_merge_def fallback_def is_tone_mark_def
  selectPath_def better_def pathToRanges_def rangesToText_def substring_def lit_def is_latin_def
  is_digit_def is_space_def is_symbol_def

text \<open>
  An unknown character after a known word. The left boundary is set to the index of the last
  code unit of a word and not past it, so the unknown piece that follows starts one code unit too
  early: with an empty dictionary the text \<open>hi$\<close> is cut into \<open>h\<close> and \<open>i$\<close>, although \<open>hi\<close> alone
  is one word.
\<close>

theorem cut_unknown_takes_last_letter:
  "cut (wordcut_init [] [] NoPath False None) (lit ''hi'') None = Inr (Some (lit ''hi'')) \<and>
   cut (wordcut_init [] [] NoPath False None) (lit ''hi$'') None = Inr (Some (lit ''h|i$''))"
  by (simp add: wordcut_eval)

end
