(* ===== verification/Process_Queue.thy ===== *)
theory Process_Queue
  imports JS_Prelude
begin

text \<open>
  The \<open>nextTick\<close> queue of the process shim (\<open>src/site/assets/javascripts/lunr/wordcut.js\<close>, bundled module
  24). Items run in turns; an item may queue further items and may throw, which leaves the drain in
  the middle and lets a timer resume it. The drain is modelled one item at a time: \<open>turn\<close> says where
  the code stands. The abstract queue is \<open>todo\<close>; the lemmas show that the array, the index and the two
  flags implement it, first in first out, and that a timer is always set while work is left.
\<close>

section \<open>State\<close>

datatype timer = DrainTimer | CleanUpTimer

datatype turn = Idle | Inner nat

text \<open>
  \<open>Inner len\<close> is the inner loop with its bound. \<open>ran\<close> and \<open>queued\<close> record the items that have been run and
  all that were ever queued, in order.
\<close>

record 'i process =
  queue :: "'i list"
  draining :: bool
  currentQueue :: "'i list option"
  queueIndex :: int
  timers :: "timer list"
  turn :: turn
  ran :: "'i list"
  queued :: "'i list"

definition process_init :: "'i process" where
  "process_init = \<lparr>queue = [], draining = False, currentQueue = None, queueIndex = - 1, timers = [], turn = Idle,
     ran = [], queued = []\<rparr>"

section \<open>Operations\<close>

text \<open>\<open>runTimeout\<close> where \<open>setTimeout\<close> is the function that was cached, and \<open>runClearTimeout\<close>.\<close>

definition runTimeout :: "timer \<Rightarrow> 'i process \<Rightarrow> 'i process" where
  "runTimeout t s = s\<lparr>timers := timers s @ [t]\<rparr>"

definition runClearTimeout :: "timer \<Rightarrow> 'i process \<Rightarrow> 'i process" where
  "runClearTimeout t s = s\<lparr>timers := remove1 t (timers s)\<rparr>"

definition nextTick :: "'i \<Rightarrow> 'i process \<Rightarrow> 'i process" where
  "nextTick x s =
     (let s' = s\<lparr>queue := queue s @ [x], queued := queued s @ [x]\<rparr> in
      if length (queue s') = 1 \<and> \<not> draining s' then runTimeout DrainTimer s' else s')"

text \<open>The head of the outer loop: take over the queue, or stop.\<close>

definition drain_round :: "nat \<Rightarrow> 'i process \<Rightarrow> 'i process" where
  "drain_round len s =
     (if len = 0 then
        runClearTimeout CleanUpTimer (s\<lparr>currentQueue := None, draining := False, turn := Idle\<rparr>)
      else s\<lparr>currentQueue := Some (queue s), queue := [], turn := Inner len\<rparr>)"

definition drainQueue :: "'i process \<Rightarrow> 'i process" where
  "drainQueue s =
     (if draining s then s
      else let s' = (runTimeout CleanUpTimer s)\<lparr>draining := True\<rparr> in drain_round (length (queue s')) s')"

text \<open>
  One pass of the inner loop: the item at the next index, with the items it queues and whether it
  throws; or the end of the inner loop.
\<close>

definition drain_pass :: "'i list \<Rightarrow> bool \<Rightarrow> nat \<Rightarrow> 'i process \<Rightarrow> 'i process" where
  "drain_pass new throws len s =
     (let i = queueIndex s + 1 in
      if i < int len then
        let x = the (currentQueue s) ! nat i;
            s' = foldl (\<lambda>t y. nextTick y t) (s\<lparr>queueIndex := i, ran := ran s @ [x]\<rparr>) new
        in if throws then s'\<lparr>turn := Idle\<rparr> else s'
      else
        let s' = s\<lparr>queueIndex := - 1\<rparr> in drain_round (length (queue s')) s')"

definition cleanUpNextTick :: "'i process \<Rightarrow> 'i process" where
  "cleanUpNextTick s =
     (if \<not> draining s \<or> currentQueue s = None then s
      else
        let cq = the (currentQueue s);
            s' = s\<lparr>draining := False\<rparr>;
            s'' = (if cq \<noteq> [] then s'\<lparr>queue := cq @ queue s'\<rparr> else s'\<lparr>queueIndex := - 1\<rparr>)
        in if queue s'' \<noteq> [] then drainQueue s'' else s'')"

definition fire :: "timer \<Rightarrow> 'i process \<Rightarrow> 'i process" where
  "fire t s =
     (let s' = s\<lparr>timers := remove1 t (timers s)\<rparr> in
      case t of DrainTimer \<Rightarrow> drainQueue s' | CleanUpTimer \<Rightarrow> cleanUpNextTick s')"

text \<open>Timers fire, and other code queues items, only between turns.\<close>

inductive process_step :: "'i process \<Rightarrow> 'i process \<Rightarrow> bool" where
  tick: "turn s = Idle \<Longrightarrow> process_step s (nextTick x s)"
| timeout: "turn s = Idle \<Longrightarrow> t \<in> set (timers s) \<Longrightarrow> process_step s (fire t s)"
| pass: "turn s = Inner len \<Longrightarrow> process_step s (drain_pass new throws len s)"

section \<open>The abstract queue\<close>

definition todo :: "'i process \<Rightarrow> 'i list" where
  "todo s = (case currentQueue s of None \<Rightarrow> [] | Some cq \<Rightarrow> drop (nat (queueIndex s + 1)) cq) @ queue s"

definition process_inv :: "'i process \<Rightarrow> bool" where
  "process_inv s \<longleftrightarrow>
     ran s @ todo s = queued s \<and> - 1 \<le> queueIndex s \<and>
     (if draining s
      then (\<exists>cq. currentQueue s = Some cq \<and> cq \<noteq> [] \<and> queueIndex s < int (length cq) \<and>
             (\<forall>len. turn s = Inner len \<longrightarrow> len = length cq)) \<and> CleanUpTimer \<in> set (timers s)
      else currentQueue s = None \<and> queueIndex s = - 1 \<and> turn s = Idle \<and>
        (queue s \<noteq> [] \<longrightarrow> DrainTimer \<in> set (timers s)))"

lemma nextTick_inv: "process_inv s \<Longrightarrow> process_inv (nextTick x s)"
  by (auto simp: process_inv_def nextTick_def Let_def runTimeout_def todo_def)

lemma nextTicks_inv: "process_inv s \<Longrightarrow> process_inv (foldl (\<lambda>t y. nextTick y t) s ys)"
  by (induction ys arbitrary: s) (auto intro: nextTick_inv)


lemma drain_round_inv:
  assumes "draining s" "CleanUpTimer \<in> set (timers s)" "- 1 \<le> queueIndex s"
    "queueIndex s < int (length (queue s))" "queue s = [] \<Longrightarrow> queueIndex s = - 1"
    "ran s @ drop (nat (queueIndex s + 1)) (queue s) = queued s"
  shows "process_inv (drain_round (length (queue s)) s)"
  using assms by (auto simp: process_inv_def drain_round_def todo_def runClearTimeout_def)

lemma drainQueue_inv:
  assumes "\<not> draining s" "- 1 \<le> queueIndex s"
    "queueIndex s < int (length (queue s))" "queue s = [] \<Longrightarrow> queueIndex s = - 1"
    "ran s @ drop (nat (queueIndex s + 1)) (queue s) = queued s"
  shows "process_inv (drainQueue s)"
proof -
  let ?s = "(runTimeout CleanUpTimer s)\<lparr>draining := True\<rparr>"
  have "process_inv (drain_round (length (queue ?s)) ?s)"
    by (rule drain_round_inv) (use assms in \<open>simp_all add: runTimeout_def\<close>)
  with assms(1) show ?thesis by (simp add: drainQueue_def Let_def)
qed

lemma cleanUp_inv:
  assumes "draining s" "currentQueue s = Some cq" "cq \<noteq> []" "- 1 \<le> queueIndex s"
    "queueIndex s < int (length cq)" "ran s @ drop (nat (queueIndex s + 1)) cq @ queue s = queued s"
  shows "process_inv (cleanUpNextTick s)"
proof -
  let ?s = "s\<lparr>draining := False, queue := cq @ queue s\<rparr>"
  have "process_inv (drainQueue ?s)"
    by (rule drainQueue_inv) (use assms in \<open>simp_all add: nat_le_iff\<close>)
  with assms(1-3) show ?thesis by (simp add: cleanUpNextTick_def Let_def)
qed

lemma fire_inv:
  assumes "process_inv s" "turn s = Idle" "t \<in> set (timers s)"
  shows "process_inv (fire t s)"
proof (cases "draining s")
  case True
  then obtain cq where cq: "currentQueue s = Some cq" "cq \<noteq> []" "queueIndex s < int (length cq)"
    using assms(1) by (auto simp: process_inv_def)
  show ?thesis
  proof (cases t)
    case DrainTimer
    with assms True show ?thesis
      by (auto simp: fire_def drainQueue_def process_inv_def todo_def in_set_remove1)
  next
    case CleanUpTimer
    have "process_inv (cleanUpNextTick (s\<lparr>timers := remove1 t (timers s)\<rparr>))"
      by (rule cleanUp_inv [where cq = cq]) (use assms(1) True cq in \<open>simp_all add: process_inv_def todo_def\<close>)
    with CleanUpTimer show ?thesis by (simp add: fire_def)
  qed
next
  case False
  then have idle: "currentQueue s = None" "queueIndex s = - 1" "ran s @ queue s = queued s"
    using assms(1) by (auto simp: process_inv_def todo_def)
  show ?thesis
  proof (cases t)
    case DrainTimer
    have "process_inv (drainQueue (s\<lparr>timers := remove1 t (timers s)\<rparr>))"
      by (rule drainQueue_inv) (use False idle in simp_all)
    with DrainTimer show ?thesis by (simp add: fire_def)
  next
    case CleanUpTimer
    with assms(1) False show ?thesis
      by (auto simp: fire_def cleanUpNextTick_def process_inv_def todo_def in_set_remove1)
  qed
qed

lemma drain_pass_inv:
  assumes "process_inv s" "turn s = Inner len"
  shows "process_inv (drain_pass new throws len s)"
proof -
  have dr: "draining s" using assms by (auto simp: process_inv_def split: if_splits)
  then obtain cq where cq: "currentQueue s = Some cq" "cq \<noteq> []" "queueIndex s < int (length cq)" "len = length cq"
    "- 1 \<le> queueIndex s" "ran s @ drop (nat (queueIndex s + 1)) cq @ queue s = queued s"
    "CleanUpTimer \<in> set (timers s)"
    using assms by (auto simp: process_inv_def todo_def)
  let ?i = "queueIndex s + 1"
  show ?thesis
  proof (cases "?i < int len")
    case True
    let ?s = "s\<lparr>queueIndex := ?i, ran := ran s @ [cq ! nat ?i]\<rparr>"
    have "drop (nat ?i) cq = cq ! nat ?i # drop (Suc (nat ?i)) cq"
      using True cq(4,5) by (intro Cons_nth_drop_Suc [symmetric]) linarith
    moreover have "nat (?i + 1) = Suc (nat ?i)" using cq(5) by linarith
    ultimately have "process_inv ?s"
      using dr cq True assms(2) by (simp add: process_inv_def todo_def)
    then have "process_inv (foldl (\<lambda>t y. nextTick y t) ?s new)" (is "process_inv ?t") by (rule nextTicks_inv)
    moreover have "process_inv (?t\<lparr>turn := Idle\<rparr>)"
      using calculation by (auto simp: process_inv_def todo_def split: if_splits)
    ultimately show ?thesis using True cq(1) by (simp add: drain_pass_def Let_def)
  next
    case False
    with cq(3,4) have "drop (nat ?i) cq = []" by simp
    with cq(6) have "ran s @ queue s = queued s" by simp
    then have "process_inv (drain_round (length (queue s)) (s\<lparr>queueIndex := - 1\<rparr>))"
      using drain_round_inv [of "s\<lparr>queueIndex := - 1\<rparr>"] dr cq(7) by simp
    with False show ?thesis by (simp add: drain_pass_def Let_def)
  qed
qed

lemma process_inv_step: "process_step s t \<Longrightarrow> process_inv s \<Longrightarrow> process_inv t"
  by (induction rule: process_step.induct) (auto intro: nextTick_inv fire_inv drain_pass_inv)

interpretation tick_queue: invariant_system "\<lambda>s. s = process_init" process_step process_inv
proof
  show "s = process_init \<Longrightarrow> process_inv s" for s :: "'a process"
    by (simp add: process_inv_def process_init_def todo_def)
  show "process_step s t \<Longrightarrow> process_inv s \<Longrightarrow> process_inv t" for s t :: "'a process"
    by (rule process_inv_step)
qed

section \<open>Properties\<close>

text \<open>
  C18. First in, first out, exactly once. Whatever the items queue and whichever of them throw, the
  items run so far are a prefix of all items ever queued, in the order they were queued, and as long
  as any is left either the drain is running or a timer will resume it.
\<close>

theorem nextTick_fifo:
  assumes "process_step\<^sup>*\<^sup>* process_init s"
  shows "prefix (ran s) (queued s) \<and> (ran s = queued s \<or> turn s = Idle \<and> timers s \<noteq> [] \<or> (\<exists>len. turn s = Inner len))"
proof -
  have inv: "process_inv s" using tick_queue.reachable_inv [OF refl assms] .
  then have "ran s @ todo s = queued s" by (simp add: process_inv_def)
  moreover have "timers s \<noteq> []" if "todo s \<noteq> []"
    using inv that by (cases "draining s") (auto simp: process_inv_def todo_def)
  ultimately show ?thesis
    by (cases "turn s") (auto simp: prefix_def intro: exI [of _ "todo s"], metis append_Nil2)
qed

theorem nextTick_fifo_witness:
  "prefix (ran (nextTick (2 :: nat) (nextTick 1 process_init))) [1, 2]"
proof -
  have "process_step\<^sup>*\<^sup>* process_init (nextTick (2 :: nat) (nextTick 1 process_init))"
  proof (rule rtranclp.rtrancl_into_rtrancl [OF r_into_rtranclp])
    show "process_step process_init (nextTick (1 :: nat) process_init)"
      by (rule process_step.tick) (simp add: process_init_def)
    show "process_step (nextTick (1 :: nat) process_init) (nextTick 2 (nextTick 1 process_init))"
      by (rule process_step.tick) (simp add: process_init_def nextTick_def runTimeout_def Let_def)
  qed
  from nextTick_fifo [OF this] show ?thesis
    by (simp add: process_init_def nextTick_def runTimeout_def Let_def)
qed

end
