(* ===== verification/Process_Timers.thy ===== *)
theory Process_Timers
  imports JS_Prelude
begin

text \<open>
  How the process shim finds the timer functions of its environment (\<open>src/site/assets/javascripts/lunr/wordcut.js\<close>, bundled
  module 24): it keeps the function it has found when it was loaded, and calls it in one of three ways. The theory
  \<open>Process_Queue\<close> takes the result, that the function is called.
\<close>

section \<open>Definitions\<close>

text \<open>The global name: not declared at all, declared without a function, or a function, which is known by a number.\<close>

datatype timer_global = Undeclared | Falsy | Timer nat

text \<open>What was kept: a function, or the one that only throws.\<close>

datatype timer_cache = DefaultTimer | Kept nat

datatype call_way = AsFunction | OnNull | OnThis

datatype timer_error = ReferenceError | NotDefined | Refused

definition keep_timer :: "timer_global \<Rightarrow> timer_cache" where
  "keep_timer g = (case g of Timer n \<Rightarrow> Kept n | _ \<Rightarrow> DefaultTimer)"

text \<open>A call in one of the ways; \<open>accepts\<close> says which functions put up with which.\<close>

definition call_timer :: "(nat \<Rightarrow> call_way \<Rightarrow> bool) \<Rightarrow> timer_cache \<Rightarrow> call_way \<Rightarrow> timer_error + nat \<times> call_way" where
  "call_timer accepts c w =
     (case c of DefaultTimer \<Rightarrow> Inl NotDefined | Kept n \<Rightarrow> if accepts n w then Inr (n, w) else Inl Refused)"

definition try_ways :: "(nat \<Rightarrow> call_way \<Rightarrow> bool) \<Rightarrow> timer_cache \<Rightarrow> timer_error + nat \<times> call_way" where
  "try_ways accepts c =
     (case call_timer accepts c AsFunction of
        Inr r \<Rightarrow> Inr r
      | Inl e \<Rightarrow> (case call_timer accepts c OnNull of Inr r \<Rightarrow> Inr r | Inl e' \<Rightarrow> call_timer accepts c OnThis))"

text \<open>\<open>runTimeout\<close>; what is kept may change. Comparing with a name that is not declared throws.\<close>

definition find_timeout ::
    "(nat \<Rightarrow> call_way \<Rightarrow> bool) \<Rightarrow> timer_global \<Rightarrow> timer_cache \<Rightarrow> timer_cache \<times> (timer_error + nat \<times> call_way)" where
  "find_timeout accepts g c =
     (case g of
        Undeclared \<Rightarrow> (c, Inl ReferenceError)
      | Falsy \<Rightarrow> (c, try_ways accepts c)
      | Timer n \<Rightarrow>
          if c = Kept n then (c, call_timer accepts c AsFunction)
          else if c = DefaultTimer then (Kept n, call_timer accepts (Kept n) AsFunction)
          else (c, try_ways accepts c))"

text \<open>\<open>runClearTimeout\<close> does the same with its function.\<close>

definition find_clearTimeout ::
    "(nat \<Rightarrow> call_way \<Rightarrow> bool) \<Rightarrow> timer_global \<Rightarrow> timer_cache \<Rightarrow> timer_cache \<times> (timer_error + nat \<times> call_way)" where
  "find_clearTimeout accepts g c =
     (case g of
        Undeclared \<Rightarrow> (c, Inl ReferenceError)
      | Falsy \<Rightarrow> (c, try_ways accepts c)
      | Timer n \<Rightarrow>
          if c = Kept n then (c, call_timer accepts c AsFunction)
          else if c = DefaultTimer then (Kept n, call_timer accepts (Kept n) AsFunction)
          else (c, try_ways accepts c))"

section \<open>What is called\<close>

lemma try_ways_first:
  "try_ways accepts (Kept n) =
     (case List.find (accepts n) [AsFunction, OnNull, OnThis] of Some w \<Rightarrow> Inr (n, w) | None \<Rightarrow> Inl Refused)"
  by (simp add: try_ways_def call_timer_def)

text \<open>
  The function that was there at the start is the one that is called, in whatever environment later, also when a test has put
  another in its place; it is called in the first way it puts up with, and it stays the one that is kept.
\<close>

theorem timer_found_stays:
  assumes "accepts n AsFunction" "g \<noteq> Undeclared"
  shows "find_timeout accepts g (keep_timer (Timer n)) = (Kept n, Inr (n, AsFunction)) \<and>
    find_clearTimeout accepts g (keep_timer (Timer n)) = (Kept n, Inr (n, AsFunction))"
  using assms
  by (cases g) (auto simp: find_timeout_def find_clearTimeout_def keep_timer_def try_ways_first call_timer_def)

text \<open>A function that is defined after the shim was loaded is found when it is needed, and kept from then on.\<close>

theorem timer_found_later:
  assumes "accepts n AsFunction" "g = Undeclared \<or> g = Falsy"
  shows "find_timeout accepts (Timer n) (keep_timer g) = (Kept n, Inr (n, AsFunction))"
  using assms by (auto simp: find_timeout_def keep_timer_def call_timer_def)

text \<open>
  The message for a missing timer never comes where the name is not declared: the comparison before it throws first.
\<close>

theorem timer_undeclared:
  "find_timeout accepts Undeclared c = (c, Inl ReferenceError) \<and> call_timer accepts (keep_timer Undeclared) w = Inl NotDefined"
  by (simp add: find_timeout_def call_timer_def keep_timer_def)

end
