(* ===== verification/Once_Inflight.thy ===== *)
theory Once_Inflight
  imports JS_Prelude
begin

text \<open>
  Two small packages bundled with the segmentation (\<open>src/site/assets/javascripts/lunr/wordcut.js\<close>,
  modules 18 and 21): \<open>once\<close>, which lets a function run a single time, and \<open>inflight\<close>, which lets
  several callers share one running request.
\<close>

section \<open>Once\<close>

text \<open>The properties of the wrapper; \<open>value\<close> is \<^term>\<open>None\<close> while it is \<open>undefined\<close>.\<close>

record 'b once_state =
  called :: bool
  once_value :: "'b option"

definition once_new :: "'b once_state" where
  "once_new = \<lparr>called = False, once_value = None\<rparr>"

text \<open>A call of the wrapper: what it returns or throws, and its new state. \<open>fn\<close> may throw.\<close>

definition once_call :: "('a \<Rightarrow> js_error + 'b) \<Rightarrow> 'a \<Rightarrow> 'b once_state \<Rightarrow> (js_error + 'b option) \<times> 'b once_state" where
  "once_call fn args f =
     (if called f then (Inr (once_value f), f)
      else let f' = f\<lparr>called := True\<rparr> in
           case fn args of
             Inl e \<Rightarrow> (Inl e, f')
           | Inr v \<Rightarrow> (Inr (Some v), f'\<lparr>once_value := Some v\<rparr>))"

definition onceStrict_call ::
    "jstring \<Rightarrow> ('a \<Rightarrow> js_error + 'b) \<Rightarrow> 'a \<Rightarrow> 'b once_state \<Rightarrow> (js_error + 'b option) \<times> 'b once_state" where
  "onceStrict_call name fn args f =
     (if called f
      then (Inl (Thrown ((if name \<noteq> [] then name else lit ''Function wrapped with `once`'')
                   @ lit '' shouldn'' @ [0x27] @ lit ''t be called more than once'')), f)
      else let f' = f\<lparr>called := True\<rparr> in
           case fn args of
             Inl e \<Rightarrow> (Inl e, f')
           | Inr v \<Rightarrow> (Inr (Some v), f'\<lparr>once_value := Some v\<rparr>))"

text \<open>After the first call the wrapper never runs the function again and keeps its answer.\<close>

lemma once_call_again:
  "once_call fn args (snd (once_call fn' args' f)) =
     (Inr (once_value (snd (once_call fn' args' f))), snd (once_call fn' args' f))"
  by (auto simp: once_call_def Let_def split: sum.split)

section \<open>Inflight\<close>

text \<open>
  \<open>reqs\<close> maps a key to the callbacks that wait for it. \<open>ticks\<close> holds the keys whose \<open>RES\<close> has been
  scheduled again with \<open>nextTick\<close>, \<open>open_keys\<close> those whose first \<open>RES\<close> has not been called.
  \<open>asked\<close> and \<open>answered_cbs\<close> record every callback that was handed in and every one that was called.
\<close>

record ('k, 'c) inflight_state =
  reqs :: "'k \<Rightarrow> 'c list option"
  ticks :: "'k list"
  open_keys :: "'k list"
  asked :: "('k \<times> 'c) list"
  answered_cbs :: "('k \<times> 'c) list"

definition inflight_init :: "('k, 'c) inflight_state" where
  "inflight_init = \<lparr>reqs = (\<lambda>_. None), ticks = [], open_keys = [], asked = [], answered_cbs = []\<rparr>"

text \<open>The result says whether the caller gets \<open>RES\<close> and has to start the request.\<close>

definition inflight :: "'k \<Rightarrow> 'c \<Rightarrow> ('k, 'c) inflight_state \<Rightarrow> bool \<times> ('k, 'c) inflight_state" where
  "inflight key cb s =
     (let s' = s\<lparr>asked := asked s @ [(key, cb)]\<rparr> in
      case reqs s key of
        Some cbs \<Rightarrow> (False, s'\<lparr>reqs := (reqs s')(key \<mapsto> cbs @ [cb])\<rparr>)
      | None \<Rightarrow> (True, s'\<lparr>reqs := (reqs s')(key \<mapsto> [cb]), open_keys := open_keys s' @ [key]\<rparr>))"

text \<open>
  The body of \<open>RES\<close>: the callbacks that are there run in order, and \<open>added\<close> are the calls of
  \<open>inflight\<close> they make meanwhile. What follows is the \<open>finally\<close> block. A callback that throws ends the loop
  early: \<open>ran_cbs\<close> counts the callbacks that were called.
\<close>

definition res_body :: "'k \<Rightarrow> nat \<Rightarrow> ('k \<times> 'c) list \<Rightarrow> ('k, 'c) inflight_state \<Rightarrow> ('k, 'c) inflight_state" where
  "res_body key ran_cbs added s =
     (case reqs s key of
        None \<Rightarrow> s
      | Some cbs \<Rightarrow>
          let len = length cbs;
              s1 = s\<lparr>answered_cbs := answered_cbs s @ map (Pair key) (take ran_cbs cbs)\<rparr>;
              s2 = foldl (\<lambda>t a. snd (inflight (fst a) (snd a) t)) s1 added;
              cbs' = the (reqs s2 key)
          in if length cbs' > len then s2\<lparr>reqs := (reqs s2)(key \<mapsto> drop len cbs'), ticks := ticks s2 @ [key]\<rparr>
             else s2\<lparr>reqs := (reqs s2)(key := None)\<rparr>)"

section \<open>Nothing is forgotten\<close>

text \<open>The callbacks of a key that were asked for and have not been called.\<close>

definition waiting :: "'k \<Rightarrow> ('k, 'c) inflight_state \<Rightarrow> 'c list" where
  "waiting key s = (case reqs s key of None \<Rightarrow> [] | Some cbs \<Rightarrow> cbs)"

definition of_key :: "'k \<Rightarrow> ('k \<times> 'c) list \<Rightarrow> 'c list" where
  "of_key key xs = map snd (filter (\<lambda>p. fst p = key) xs)"

lemma of_key_simps [simp]:
  "of_key key [] = []" "of_key key (xs @ ys) = of_key key xs @ of_key key ys"
  "of_key key [(k, c)] = (if k = key then [c] else [])"
  "of_key key (map (Pair k) cs) = (if k = key then cs else [])"
  by (auto simp: of_key_def comp_def filter_map)

text \<open>
  Every waiting key has exactly one \<open>RES\<close> left to call: the one its first caller got, one that is
  scheduled, or the one that is \<open>running\<close>.
\<close>

definition res_left :: "'k option \<Rightarrow> ('k, 'c) inflight_state \<Rightarrow> bool" where
  "res_left running s \<longleftrightarrow>
     (\<forall>key. reqs s key \<noteq> Some [] \<and>
        count_list (open_keys s) key + count_list (ticks s) key + (if running = Some key then 1 else 0) =
          (if reqs s key = None then 0 else 1))"

definition inflight_inv :: "'k option \<Rightarrow> ('k, 'c) inflight_state \<Rightarrow> bool" where
  "inflight_inv running s \<longleftrightarrow>
     (\<forall>key. of_key key (answered_cbs s) @ waiting key s = of_key key (asked s)) \<and> res_left running s"

text \<open>
  One \<open>RES\<close>, the first of a key or a scheduled one, in which every callback returns.
\<close>

definition first_res :: "'k \<Rightarrow> ('k \<times> 'c) list \<Rightarrow> ('k, 'c) inflight_state \<Rightarrow> ('k, 'c) inflight_state" where
  "first_res key added s =
     (let s' = s\<lparr>open_keys := remove1 key (open_keys s)\<rparr> in res_body key (length (waiting key s')) added s')"

definition tick_res :: "'k \<Rightarrow> ('k \<times> 'c) list \<Rightarrow> ('k, 'c) inflight_state \<Rightarrow> ('k, 'c) inflight_state" where
  "tick_res key added s =
     (let s' = s\<lparr>ticks := remove1 key (ticks s)\<rparr> in res_body key (length (waiting key s')) added s')"

inductive inflight_step :: "('k, 'c) inflight_state \<Rightarrow> ('k, 'c) inflight_state \<Rightarrow> bool" where
  ask: "inflight_step s (snd (inflight key cb s))"
| res: "key \<in> set (open_keys s) \<Longrightarrow> inflight_step s (first_res key added s)"
| next_tick: "key \<in> set (ticks s) \<Longrightarrow> inflight_step s (tick_res key added s)"

lemma inflight_waiting:
  "waiting k (snd (inflight key cb s)) = waiting k s @ (if k = key then [cb] else [])"
  by (auto simp: inflight_def waiting_def Let_def split: option.split)

lemma inflight_logs [simp]:
  "answered_cbs (snd (inflight key cb s)) = answered_cbs s" "asked (snd (inflight key cb s)) = asked s @ [(key, cb)]"
  by (auto simp: inflight_def Let_def split: option.split)

lemma inflights:
  fixes s :: "('k, 'c) inflight_state"
  defines "add \<equiv> \<lambda>s as. foldl (\<lambda>t a. snd (inflight (fst a) (snd a) t)) s as"
  shows "waiting k (add s as) = waiting k s @ of_key k as" "answered_cbs (add s as) = answered_cbs s"
    "asked (add s as) = asked s @ as"
  unfolding add_def
  by (induction as arbitrary: s) (auto simp: inflight_waiting of_key_def)

lemma res_leftD:
  "res_left running s \<Longrightarrow> reqs s k \<noteq> Some []"
  "res_left running s \<Longrightarrow> count_list (open_keys s) k + count_list (ticks s) k +
     (if running = Some k then 1 else 0) = (if reqs s k = None then 0 else 1)"
  by (simp_all add: res_left_def)

lemma inflight_res_left:
  assumes "res_left running s"
  shows "res_left running (snd (inflight key cb s))"
  unfolding res_left_def
proof (intro allI conjI)
  fix k
  note old = res_leftD [OF assms, of k]
  show "reqs (snd (inflight key cb s)) k \<noteq> Some []"
    using old(1) by (cases "reqs s key") (simp_all add: inflight_def)
  show "count_list (open_keys (snd (inflight key cb s))) k + count_list (ticks (snd (inflight key cb s))) k +
      (if running = Some k then 1 else 0) = (if reqs (snd (inflight key cb s)) k = None then 0 else 1)"
    using old(2) by (cases "reqs s key"; cases "k = key") (simp_all add: inflight_def)
qed

lemma inflights_res_left:
  "res_left running s \<Longrightarrow> res_left running (foldl (\<lambda>t a. snd (inflight (fst a) (snd a) t)) s as)"
  by (induction as arbitrary: s) (auto intro: inflight_res_left)

lemma inflight_keeps: "inflight_inv running s \<Longrightarrow> inflight_inv running (snd (inflight key cb s))"
  by (auto simp: inflight_inv_def inflight_res_left inflight_waiting)

text \<open>When no callback throws, \<open>RES\<close> hands its answer to all that wait and keeps those that came meanwhile.\<close>

lemma res_body_keeps:
  assumes "inflight_inv (Some key) s" "length (waiting key s) \<le> n"
  shows "inflight_inv None (res_body key n added s)"
proof -
  have left: "res_left (Some key) s" and old: "of_key k (answered_cbs s) @ waiting k s = of_key k (asked s)" for k
    using assms(1) by (simp_all add: inflight_inv_def)
  obtain cbs where cbs: "reqs s key = Some cbs"
    using res_leftD(2) [OF left, of key] by (cases "reqs s key") simp_all
  then have wait: "waiting key s = cbs" by (simp add: waiting_def)
  let ?s1 = "s\<lparr>answered_cbs := answered_cbs s @ map (Pair key) cbs\<rparr>"
  define s2 where "s2 = foldl (\<lambda>t a. snd (inflight (fst a) (snd a) t)) ?s1 added"
  have w: "waiting k s2 = waiting k s @ of_key k added" "answered_cbs s2 = answered_cbs s @ map (Pair key) cbs"
    "asked s2 = asked s @ added" for k
    unfolding s2_def inflights by (simp_all add: waiting_def)
  have "res_left (Some key) s2"
    unfolding s2_def by (rule inflights_res_left) (use left in \<open>simp add: res_left_def\<close>)
  then have left2: "reqs s2 k \<noteq> Some []" "count_list (open_keys s2) k + count_list (ticks s2) k +
      (if key = k then 1 else 0) = (if reqs s2 k = None then 0 else 1)" for k
    by (simp_all add: res_left_def)
  have "reqs s2 key \<noteq> None" using left2(2) [of key] by (cases "reqs s2 key") simp_all
  then have cbs': "reqs s2 key = Some (cbs @ of_key key added)"
    using w(1) [of key] wait by (auto simp: waiting_def)
  have r: "res_body key n added s =
      (if of_key key added \<noteq> [] then s2\<lparr>reqs := (reqs s2)(key \<mapsto> of_key key added), ticks := ticks s2 @ [key]\<rparr>
       else s2\<lparr>reqs := (reqs s2)(key := None)\<rparr>)"
    using assms(2) cbs wait cbs' by (simp add: res_body_def Let_def s2_def [symmetric])
  have "waiting k (res_body key n added s) = (if k = key then of_key key added else waiting k s @ of_key k added)" for k
    using w(1) [of k] by (simp add: r waiting_def)
  moreover have "answered_cbs (res_body key n added s) = answered_cbs s2" "asked (res_body key n added s) = asked s2"
    by (simp_all add: r)
  ultimately have all: "of_key k (answered_cbs (res_body key n added s)) @ waiting k (res_body key n added s) =
      of_key k (asked (res_body key n added s))" for k
    using old [of k] old [of key] wait w(2,3) by simp
  have zero: "count_list (open_keys s2) key = 0" "count_list (ticks s2) key = 0"
    using left2(2) [of key] cbs' by simp_all
  have rl: "res_left None (res_body key n added s)"
    unfolding res_left_def
  proof (intro allI conjI)
    fix k
    show "reqs (res_body key n added s) k \<noteq> Some []"
      unfolding r using left2(1) [of k] by simp
    show "count_list (open_keys (res_body key n added s)) k + count_list (ticks (res_body key n added s)) k +
        (if None = Some k then 1 else 0) = (if reqs (res_body key n added s) k = None then 0 else 1)"
    proof (cases "k = key")
      case True
      with zero show ?thesis unfolding r by simp
    next
      case False
      with left2(2) [of k] show ?thesis unfolding r by (cases "reqs s2 k") simp_all
    qed
  qed
  from all rl show ?thesis unfolding inflight_inv_def by blast
qed

lemma count_list_remove1: "x \<in> set xs \<Longrightarrow> count_list (remove1 x xs) y = count_list xs y - (if x = y then 1 else 0)"
  by (induction xs) (auto simp: count_list_0_iff)

lemma count_list_pos: "x \<in> set xs \<Longrightarrow> 0 < count_list xs x"
  by (metis count_list_0_iff gr0I)

text \<open>Taking a \<open>RES\<close> out of either place makes it the running one.\<close>

lemma res_left_take:
  assumes "res_left None s" "count_list xs key = count_list (open_keys s) key + count_list (ticks s) key - 1"
    "0 < count_list (open_keys s) key + count_list (ticks s) key"
    "\<And>k. k \<noteq> key \<Longrightarrow> count_list xs k = count_list (open_keys s) k + count_list (ticks s) k"
    "\<And>k. count_list (open_keys t) k + count_list (ticks t) k = count_list xs k" "reqs t = reqs s"
  shows "res_left (Some key) t"
  unfolding res_left_def
proof (intro allI conjI)
  fix k
  show "reqs t k \<noteq> Some []" using res_leftD(1) [OF assms(1)] assms(6) by simp
  show "count_list (open_keys t) k + count_list (ticks t) k + (if Some key = Some k then 1 else 0) =
      (if reqs t k = None then 0 else 1)"
    using res_leftD(2) [OF assms(1), of k] assms(2-6) by (cases "k = key"; cases "reqs s k") simp_all
qed

lemma first_res_keeps:
  assumes "inflight_inv None s" "key \<in> set (open_keys s)"
  shows "inflight_inv None (first_res key added s)"
proof -
  let ?t = "s\<lparr>open_keys := remove1 key (open_keys s)\<rparr>"
  have "res_left (Some key) ?t"
    by (rule res_left_take [where s = s and xs = "remove1 key (open_keys s) @ ticks s"])
      (use assms count_list_pos [OF assms(2)] in \<open>simp_all add: inflight_inv_def count_list_remove1\<close>)
  with assms(1) have "inflight_inv (Some key) ?t" by (simp add: inflight_inv_def waiting_def)
  then show ?thesis unfolding first_res_def Let_def by (rule res_body_keeps) simp
qed

lemma tick_res_keeps:
  assumes "inflight_inv None s" "key \<in> set (ticks s)"
  shows "inflight_inv None (tick_res key added s)"
proof -
  let ?t = "s\<lparr>ticks := remove1 key (ticks s)\<rparr>"
  have "res_left (Some key) ?t"
    by (rule res_left_take [where s = s and xs = "open_keys s @ remove1 key (ticks s)"])
      (use assms count_list_pos [OF assms(2)] in \<open>simp_all add: inflight_inv_def count_list_remove1\<close>)
  with assms(1) have "inflight_inv (Some key) ?t" by (simp add: inflight_inv_def waiting_def)
  then show ?thesis unfolding tick_res_def Let_def by (rule res_body_keeps) simp
qed

interpretation shared_requests: invariant_system "\<lambda>s. s = inflight_init" inflight_step "inflight_inv None"
proof
  show "s = inflight_init \<Longrightarrow> inflight_inv None s" for s :: "('a, 'b) inflight_state"
    by (simp add: inflight_inv_def inflight_init_def waiting_def res_left_def)
  show "inflight_step s t \<Longrightarrow> inflight_inv None s \<Longrightarrow> inflight_inv None t" for s t :: "('a, 'b) inflight_state"
    by (induction rule: inflight_step.induct) (auto intro: inflight_keeps first_res_keeps tick_res_keeps)
qed

section \<open>Properties\<close>

text \<open>
  C19. Every caller of \<open>inflight\<close> is answered exactly once, in the order of the calls, as long as no
  callback throws: for each key the callbacks called so far, followed by those that still wait, are
  the callbacks handed in; and a key with waiting callbacks has exactly one \<open>RES\<close> left to answer it.
\<close>

theorem inflight_exactly_once:
  assumes "inflight_step\<^sup>*\<^sup>* inflight_init s"
  shows "of_key key (answered_cbs s) @ waiting key s = of_key key (asked s) \<and>
    count_list (open_keys s @ ticks s) key = (if waiting key s = [] then 0 else 1)"
proof -
  have inv: "inflight_inv None s" using shared_requests.reachable_inv [OF refl assms] .
  then show ?thesis
    using res_leftD [of None s key] unfolding inflight_inv_def
    by (cases "reqs s key") (auto simp: waiting_def dest: spec [of _ key])
qed

theorem inflight_exactly_once_witness:
  "of_key 7 (answered_cbs (snd (inflight (7 :: nat) CHR ''a'' inflight_init))) @
     waiting 7 (snd (inflight (7 :: nat) CHR ''a'' inflight_init)) = [CHR ''a'']"
proof -
  have "inflight_step\<^sup>*\<^sup>* inflight_init (snd (inflight (7 :: nat) CHR ''a'' inflight_init))"
    by (rule r_into_rtranclp) (rule inflight_step.ask)
  from inflight_exactly_once [OF this, of 7] show ?thesis
    by (simp add: inflight_def inflight_init_def Let_def of_key_def)
qed

end
