(* ===== verification/JS_RegExp.thy ===== *)
theory JS_RegExp
  imports JS_Value
begin

text \<open>
  The regular expressions of the language, without the \<open>u\<close> flag: the text that \<open>new RegExp\<close> takes is cut into
  tokens, the tokens are put together with a stack, and \<open>run\<close> matches the way the language defines it, with a continuation that says
  what has to match afterwards. Only whether there is a match is kept, so greedy and lazy quantifiers are the same, a
  capturing group is a group, and an escaped number is the octal escape that it is in an expression without capturing groups.
\<close>

section \<open>Syntax\<close>

datatype cls_item = CRange nat nat | CDigit bool | CSpace bool | CWord bool

datatype regex =
    Eps
  | Chr code_unit
  | Dot
  | Cls bool "cls_item list"
  | AtStart
  | AtEnd
  | WordBoundary bool
  | Cat regex regex
  | Alt regex regex
  | Rep regex nat "nat option"
  | Look bool regex

datatype re_escape = EChar code_unit | ECls cls_item

definition letter :: "code_unit \<Rightarrow> bool" where
  "letter c \<longleftrightarrow> 0x41 \<le> c \<and> c \<le> 0x5A \<or> 0x61 \<le> c \<and> c \<le> 0x7A"

definition word_char :: "code_unit \<Rightarrow> bool" where
  "word_char c \<longleftrightarrow> letter c \<or> dec_digit c \<or> c = 0x5F"

abbreviation line_break :: "code_unit \<Rightarrow> bool" where
  "line_break c \<equiv> c = 0x0A \<or> c = 0x0D \<or> c = 0x2028 \<or> c = 0x2029"

definition hex_digit_value :: "code_unit \<Rightarrow> nat option" where
  "hex_digit_value c =
     (if dec_digit c then Some (c - 0x30)
      else if 0x41 \<le> c \<and> c \<le> 0x46 then Some (c - 0x37)
      else if 0x61 \<le> c \<and> c \<le> 0x66 then Some (c - 0x57) else None)"

text \<open>Exactly \<open>n\<close> hexadecimal digits.\<close>

fun read_hex :: "nat \<Rightarrow> nat \<Rightarrow> jstring \<Rightarrow> (nat \<times> jstring) option" where
  "read_hex n v [] = (if n = 0 then Some (v, []) else None)"
| "read_hex n v (c # s) =
     (if n = 0 then Some (v, c # s)
      else case hex_digit_value c of None \<Rightarrow> None | Some d \<Rightarrow> read_hex (n - 1) (16 * v + d) s)"

text \<open>The further digits of an octal escape, at most \<open>n\<close> of them.\<close>

fun read_octal :: "nat \<Rightarrow> nat \<Rightarrow> jstring \<Rightarrow> nat \<times> jstring" where
  "read_octal n v [] = (v, [])"
| "read_octal n v (c # s) =
     (if 0 < n \<and> 0x30 \<le> c \<and> c \<le> 0x37 then read_octal (n - 1) (8 * v + (c - 0x30)) s else (v, c # s))"

definition control_escape :: "code_unit \<Rightarrow> code_unit option" where
  "control_escape c = map_of [(0x66, 0x0C), (0x6E, 0x0A), (0x72, 0x0D), (0x74, 0x09), (0x76, 0x0B)] c"

definition class_escape :: "code_unit \<Rightarrow> cls_item option" where
  "class_escape c = map_of [(0x64, CDigit True), (0x44, CDigit False), (0x73, CSpace True), (0x53, CSpace False),
     (0x77, CWord True), (0x57, CWord False)] c"

text \<open>What stands after a backslash.\<close>

fun read_escape :: "bool \<Rightarrow> jstring \<Rightarrow> (re_escape \<times> jstring) option" where
  "read_escape in_class [] = None"
| "read_escape in_class (c # s) =
     (case class_escape c of
        Some k \<Rightarrow> Some (ECls k, s)
      | None \<Rightarrow>
        (case control_escape c of
           Some d \<Rightarrow> Some (EChar d, s)
         | None \<Rightarrow>
             if in_class \<and> c = 0x62 then Some (EChar 0x08, s)
             else if c = 0x63
             then (if s \<noteq> [] \<and> (letter (hd s) \<or> in_class \<and> word_char (hd s)) then Some (EChar (hd s mod 32), tl s)
                   else Some (EChar 0x5C, c # s))
             else if c = 0x78 \<or> c = 0x75
             then (case read_hex (if c = 0x78 then 2 else 4) 0 s of
                     Some (v, r) \<Rightarrow> Some (EChar v, r)
                   | None \<Rightarrow> Some (EChar c, s))
             else if 0x30 \<le> c \<and> c \<le> 0x37
             then (case read_octal (if c \<le> 0x33 then 2 else 1) (c - 0x30) s of (v, r) \<Rightarrow> Some (EChar v, r))
             else Some (EChar c, s)))"

text \<open>The text of a class up to its closing bracket.\<close>

fun class_text :: "jstring \<Rightarrow> (jstring \<times> jstring) option" where
  "class_text [] = None"
| "class_text [c] = (if c = 0x5D then Some ([], []) else None)"
| "class_text (c # d # s) =
     (if c = 0x5D then Some ([], d # s)
      else if c = 0x5C then map_option (\<lambda>(b, r). (c # d # b, r)) (class_text s)
      else map_option (\<lambda>(b, r). (c # b, r)) (class_text (d # s)))"

fun read_atom :: "jstring \<Rightarrow> (re_escape \<times> jstring) option" where
  "read_atom [] = None"
| "read_atom (c # s) = (if c = 0x5C then read_escape True s else Some (EChar c, s))"

fun item_of :: "re_escape \<Rightarrow> cls_item" where
  "item_of (EChar c) = CRange c c"
| "item_of (ECls k) = k"

fun range_items :: "re_escape \<Rightarrow> re_escape \<Rightarrow> cls_item list option" where
  "range_items (EChar a) (EChar b) = (if a \<le> b then Some [CRange a b] else None)"
| "range_items a b = Some [item_of a, CRange 0x2D 0x2D, item_of b]"

lemma read_hex_length: "read_hex n v s = Some (w, r) \<Longrightarrow> length r \<le> length s"
  by (induction n v s rule: read_hex.induct) (auto split: option.splits if_splits)

lemma read_octal_length: "read_octal n v s = (w, r) \<Longrightarrow> length r \<le> length s"
  by (induction n v s rule: read_octal.induct) (auto split: if_splits)

lemma read_escape_length: "read_escape b s = Some (e, r) \<Longrightarrow> length r \<le> length s"
  by (cases s) (auto split: option.splits if_splits prod.splits dest: read_hex_length read_octal_length)

lemma read_atom_length: "read_atom s = Some (a, r) \<Longrightarrow> length r < length s"
  by (cases s) (auto split: if_splits dest: read_escape_length)

lemma class_text_length: "class_text s = Some (b, r) \<Longrightarrow> length r < length s"
proof (induction s arbitrary: b r rule: class_text.induct)
  case (3 c d s)
  consider "c = 0x5D" | "c = 0x5C" | "c \<noteq> 0x5D" "c \<noteq> 0x5C" by blast
  then show ?case using 3 by cases fastforce+
qed (auto split: if_splits)

function class_items :: "jstring \<Rightarrow> cls_item list option" where
  "class_items s =
     (case read_atom s of
        None \<Rightarrow> if s = [] then Some [] else None
      | Some (a, r) \<Rightarrow>
          (case read_atom (tl r) of
             None \<Rightarrow> map_option ((#) (item_of a)) (class_items r)
           | Some (b, q) \<Rightarrow>
               if hd r = 0x2D
               then (case range_items a b of
                       None \<Rightarrow> None
                     | Some ks \<Rightarrow> map_option ((@) ks) (class_items q))
               else map_option ((#) (item_of a)) (class_items r)))"
  by pat_completeness auto

termination
  by (relation "measure length") (auto dest!: read_atom_length)

declare class_items.simps [simp del]

section \<open>Tokens\<close>

datatype grp = Plain | Ahead bool

datatype token =
    TChr code_unit
  | TDot
  | TCls bool "cls_item list"
  | TAssert regex
  | TOpen grp
  | TClose
  | TBar
  | TQuant nat "nat option"

text \<open>A quantifier may be followed by a question mark, which makes it lazy.\<close>

fun unlazy :: "jstring \<Rightarrow> jstring" where
  "unlazy [] = []"
| "unlazy (c # s) = (if c = 0x3F then s else c # s)"

definition decimal :: "jstring \<Rightarrow> nat" where
  "decimal ds = nat (digits_value ds)"

text \<open>\<open>{n}\<close>, \<open>{n,}\<close> and \<open>{n,m}\<close>, after the opening brace; any other brace stands for itself.\<close>

definition read_braces :: "jstring \<Rightarrow> ((nat \<times> nat option) \<times> jstring) option" where
  "read_braces s =
     (let lo = takeWhile dec_digit s; r = dropWhile dec_digit s
      in if lo = [] \<or> r = [] then None
         else if hd r = 0x7D then Some ((decimal lo, Some (decimal lo)), tl r)
         else if hd r \<noteq> 0x2C then None
         else let hi = takeWhile dec_digit (tl r); q = dropWhile dec_digit (tl r)
              in if q = [] \<or> hd q \<noteq> 0x7D then None
                 else Some ((decimal lo, if hi = [] then None else Some (decimal hi)), tl q))"

text \<open>The start of a group, after the parenthesis.\<close>

fun open_group :: "jstring \<Rightarrow> (grp \<times> jstring) option" where
  "open_group (a # b # s) =
     (if a \<noteq> 0x3F then Some (Plain, a # b # s)
      else if b = 0x3A then Some (Plain, s)
      else if b = 0x3D then Some (Ahead True, s)
      else if b = 0x21 then Some (Ahead False, s)
      else None)"
| "open_group [a] = (if a = 0x3F then None else Some (Plain, [a]))"
| "open_group [] = Some (Plain, [])"

text \<open>A class, after the opening bracket.\<close>

definition read_class :: "jstring \<Rightarrow> ((bool \<times> cls_item list) \<times> jstring) option" where
  "read_class s =
     (let neg = (s \<noteq> [] \<and> hd s = 0x5E)
      in case class_text (if neg then tl s else s) of
           None \<Rightarrow> None
         | Some (b, r) \<Rightarrow> map_option (\<lambda>ks. ((neg, ks), r)) (class_items b))"

text \<open>One token; \<^term>\<open>None\<close> is a \<open>SyntaxError\<close>.\<close>

fun next_token :: "jstring \<Rightarrow> (token \<times> jstring) option" where
  "next_token [] = None"
| "next_token (c # s) =
     (if c = 0x5E then Some (TAssert AtStart, s)
      else if c = 0x24 then Some (TAssert AtEnd, s)
      else if c = 0x2E then Some (TDot, s)
      else if c = 0x7C then Some (TBar, s)
      else if c = 0x29 then Some (TClose, s)
      else if c = 0x28 then map_option (\<lambda>(g, r). (TOpen g, r)) (open_group s)
      else if c = 0x2A then Some (TQuant 0 None, unlazy s)
      else if c = 0x2B then Some (TQuant 1 None, unlazy s)
      else if c = 0x3F then Some (TQuant 0 (Some 1), unlazy s)
      else if c = 0x7B
      then (case read_braces s of
              Some ((lo, hi), r) \<Rightarrow> Some (TQuant lo hi, unlazy r)
            | None \<Rightarrow> Some (TChr c, s))
      else if c = 0x5B then map_option (\<lambda>((neg, ks), r). (TCls neg ks, r)) (read_class s)
      else if c = 0x5C
      then (if s \<noteq> [] \<and> hd s = 0x62 then Some (TAssert (WordBoundary True), tl s)
            else if s \<noteq> [] \<and> hd s = 0x42 then Some (TAssert (WordBoundary False), tl s)
            else (case read_escape False s of
                    None \<Rightarrow> None
                  | Some (EChar d, r) \<Rightarrow> Some (TChr d, r)
                  | Some (ECls k, r) \<Rightarrow> Some (TCls False [k], r)))
      else Some (TChr c, s))"

lemma unlazy_length: "length (unlazy s) \<le> length s"
  by (cases s) auto

lemma read_braces_length: "read_braces s = Some (x, r) \<Longrightarrow> length r \<le> length s"
  using length_dropWhile_le [of dec_digit s] length_dropWhile_le [of dec_digit "tl (dropWhile dec_digit s)"]
  by (auto simp: read_braces_def Let_def split: if_splits)

lemma open_group_length: "open_group s = Some (g, r) \<Longrightarrow> length r \<le> length s"
  by (cases s rule: open_group.cases) (auto split: if_splits)

lemma read_class_length: "read_class s = Some (x, r) \<Longrightarrow> length r \<le> length s"
  by (auto simp: read_class_def Let_def split: option.splits if_splits dest!: class_text_length)

lemma next_token_length: "next_token s = Some (t, r) \<Longrightarrow> length r < length s"
proof (cases s)
  case (Cons c u)
  assume "next_token s = Some (t, r)"
  with Cons show ?thesis
    using unlazy_length [of u] unlazy_length
    by (auto split: if_splits option.splits re_escape.splits simp: less_Suc_eq_le
        dest!: open_group_length read_braces_length read_class_length read_escape_length intro: le_trans)
qed simp

function tokens :: "jstring \<Rightarrow> token list option" where
  "tokens s =
     (if s = [] then Some []
      else case next_token s of
             None \<Rightarrow> None
           | Some (t, r) \<Rightarrow> map_option ((#) t) (tokens r))"
  by pat_completeness auto

termination
  by (relation "measure length") (auto dest: next_token_length)

declare tokens.simps [simp del]

section \<open>Putting the tokens together\<close>

text \<open>
  The alternatives that are finished and the terms of the current one, the last first; a term that can take a
  quantifier is marked.
\<close>

type_synonym frame = "regex option \<times> (regex \<times> bool) list"

definition close_frame :: "frame \<Rightarrow> regex" where
  "close_frame f =
     (let r = foldr Cat (rev (map fst (snd f))) Eps
      in case fst f of None \<Rightarrow> r | Some a \<Rightarrow> Alt a r)"

fun wrap :: "grp \<Rightarrow> regex \<Rightarrow> regex" where
  "wrap Plain r = r"
| "wrap (Ahead pos) r = Look pos r"

abbreviation add_term :: "regex \<Rightarrow> bool \<Rightarrow> frame \<Rightarrow> frame" where
  "add_term r q f \<equiv> (fst f, (r, q) # snd f)"

fun assemble :: "token list \<Rightarrow> (grp \<times> frame) list \<Rightarrow> frame \<Rightarrow> regex option" where
  "assemble [] st f = (if st = [] then Some (close_frame f) else None)"
| "assemble (TChr c # ts) st f = assemble ts st (add_term (Chr c) True f)"
| "assemble (TDot # ts) st f = assemble ts st (add_term Dot True f)"
| "assemble (TCls neg ks # ts) st f = assemble ts st (add_term (Cls neg ks) True f)"
| "assemble (TAssert r # ts) st f = assemble ts st (add_term r False f)"
| "assemble (TOpen g # ts) st f = assemble ts ((g, f) # st) (None, [])"
| "assemble (TClose # ts) st f =
     (case st of
        [] \<Rightarrow> None
      | (g, f') # st' \<Rightarrow> assemble ts st' (add_term (wrap g (close_frame f)) True f'))"
| "assemble (TBar # ts) st f = assemble ts st (Some (close_frame f), [])"
| "assemble (TQuant lo hi # ts) st f =
     (case snd f of
        (r, True) # rs \<Rightarrow>
          if (case hi of Some h \<Rightarrow> h < lo | None \<Rightarrow> False) then None
          else assemble ts st (fst f, (Rep r lo hi, False) # rs)
      | _ \<Rightarrow> None)"

text \<open>\<open>new RegExp(src)\<close>\<close>

definition RegExp :: "jstring \<Rightarrow> regex option" where
  "RegExp src = (case tokens src of None \<Rightarrow> None | Some ts \<Rightarrow> assemble ts [] (None, []))"

section \<open>Matching\<close>

text \<open>\<open>ci\<close> is the case folding of the flag \<open>i\<close>, absent without the flag.\<close>

definition same_char :: "(code_unit \<Rightarrow> code_unit) option \<Rightarrow> code_unit \<Rightarrow> code_unit \<Rightarrow> bool" where
  "same_char ci c d = (case ci of None \<Rightarrow> c = d | Some canon \<Rightarrow> canon c = canon d)"

fun item_has :: "cls_item \<Rightarrow> code_unit \<Rightarrow> bool" where
  "item_has (CRange a b) c = (a \<le> c \<and> c \<le> b)"
| "item_has (CDigit pos) c = (dec_digit c = pos)"
| "item_has (CSpace pos) c = (js_white c = pos)"
| "item_has (CWord pos) c = (word_char c = pos)"

definition class_has :: "(code_unit \<Rightarrow> code_unit) option \<Rightarrow> cls_item list \<Rightarrow> code_unit \<Rightarrow> bool" where
  "class_has ci ks c =
     (case ci of
        None \<Rightarrow> list_ex (\<lambda>k. item_has k c) ks
      | Some canon \<Rightarrow> list_ex (\<lambda>d. canon d = canon c \<and> list_ex (\<lambda>k. item_has k d) ks) [0..<0x10000])"

definition word_at :: "jstring \<Rightarrow> nat \<Rightarrow> bool" where
  "word_at s i = (i < length s \<and> word_char (s ! i))"

text \<open>At most \<open>n\<close> further rounds of a loop, none of them empty, and exactly \<open>n\<close> rounds.\<close>

fun rounds :: "nat \<Rightarrow> (nat \<Rightarrow> (nat \<Rightarrow> bool) \<Rightarrow> bool) \<Rightarrow> nat \<Rightarrow> (nat \<Rightarrow> bool) \<Rightarrow> bool" where
  "rounds 0 m i k = k i"
| "rounds (Suc n) m i k = (k i \<or> m i (\<lambda>j. i < j \<and> rounds n m j k))"

fun times_exactly :: "nat \<Rightarrow> (nat \<Rightarrow> (nat \<Rightarrow> bool) \<Rightarrow> bool) \<Rightarrow> nat \<Rightarrow> (nat \<Rightarrow> bool) \<Rightarrow> bool" where
  "times_exactly 0 m i k = k i"
| "times_exactly (Suc n) m i k = m i (\<lambda>j. times_exactly n m j k)"

primrec run :: "(code_unit \<Rightarrow> code_unit) option \<Rightarrow> jstring \<Rightarrow> regex \<Rightarrow> nat \<Rightarrow> (nat \<Rightarrow> bool) \<Rightarrow> bool" where
  "run ci s Eps = (\<lambda>i k. k i)"
| "run ci s (Chr c) = (\<lambda>i k. i < length s \<and> same_char ci c (s ! i) \<and> k (Suc i))"
| "run ci s Dot = (\<lambda>i k. i < length s \<and> \<not> line_break (s ! i) \<and> k (Suc i))"
| "run ci s (Cls neg ks) = (\<lambda>i k. i < length s \<and> class_has ci ks (s ! i) \<noteq> neg \<and> k (Suc i))"
| "run ci s AtStart = (\<lambda>i k. i = 0 \<and> k i)"
| "run ci s AtEnd = (\<lambda>i k. i = length s \<and> k i)"
| "run ci s (WordBoundary pos) = (\<lambda>i k. ((0 < i \<and> word_at s (i - 1)) \<noteq> word_at s i) = pos \<and> k i)"
| "run ci s (Cat a b) = (\<lambda>i k. run ci s a i (\<lambda>j. run ci s b j k))"
| "run ci s (Alt a b) = (\<lambda>i k. run ci s a i k \<or> run ci s b i k)"
| "run ci s (Rep r lo hi) = (\<lambda>i k. times_exactly lo (run ci s r) i
     (\<lambda>j. rounds (case hi of Some h \<Rightarrow> h - lo | None \<Rightarrow> length s - j) (run ci s r) j k))"
| "run ci s (Look pos r) = (\<lambda>i k. run ci s r i (\<lambda>_. True) = pos \<and> k i)"

text \<open>\<open>str.match(re)\<close>: a match may start anywhere.\<close>

definition matches :: "(code_unit \<Rightarrow> code_unit) option \<Rightarrow> regex \<Rightarrow> jstring \<Rightarrow> bool" where
  "matches ci r s = list_ex (\<lambda>i. run ci s r i (\<lambda>_. True)) [0..<Suc (length s)]"

end
