(* ===== verification/Brace_Expansion.thy ===== *)
theory Brace_Expansion
  imports JS_Value "HOL-Library.Monad_Syntax"
begin

text \<open>
  Brace expansion, as bundled in \<open>src/site/assets/javascripts/lunr/wordcut.js\<close> (modules 10, 11 and 13: balanced-match,
  brace-expansion, concat-map). The result of \<open>expand\<close> is an option: \<^term>\<open>None\<close> says that the code
  does not return, which it does not for a sequence with step zero. The five markers that protect
  escaped characters contain a random number; it is a field of \<open>markers\<close>. The lemmas show that the pair
  of braces found is a matching one, that splitting at commas loses nothing, and what sequences and
  options expand to.
\<close>

section \<open>Finding a matching pair\<close>

text \<open>\<open>str.indexOf(c, from)\<close> for one character; both delimiters of every call in the bundle are single characters.\<close>

definition idx :: "code_unit \<Rightarrow> jstring \<Rightarrow> int \<Rightarrow> int" where
  "idx c s n = (case index_of [c] (drop (nat n) s) of None \<Rightarrow> -1 | Some i \<Rightarrow> int (nat n) + int i)"

text \<open>
  The loop of \<open>range\<close>. The variable \<open>i\<close> is at every test the smaller of the two next positions, so it is
  computed from them. The stack \<open>begs\<close> has its top first; the result holds \<open>right\<close> as it is, assigned or not.
\<close>

definition next_pos :: "int \<Rightarrow> int \<Rightarrow> int" where
  "next_pos ai bi = (if ai < bi \<and> 0 \<le> ai then ai else bi)"

definition at_open :: "int \<Rightarrow> int \<Rightarrow> bool" where
  "at_open ai bi = (next_pos ai bi = ai)"

function braces_loop ::
    "code_unit \<Rightarrow> code_unit \<Rightarrow> jstring \<Rightarrow> int \<Rightarrow> int \<Rightarrow> int list \<Rightarrow> int \<Rightarrow> int option
      \<Rightarrow> (int \<times> int option) option" where
  "braces_loop a b str ai bi begs left right =
     (if next_pos ai bi < 0 then (if begs \<noteq> [] then Some (left, right) else None)
      else if at_open ai bi
      then braces_loop a b str (idx a str (next_pos ai bi + 1)) bi (next_pos ai bi # begs) left right
      else if length begs = 1 then Some (hd begs, Some bi)
      else if begs \<noteq> [] \<and> hd begs < left
      then braces_loop a b str ai (idx b str (next_pos ai bi + 1)) (tl begs) (hd begs) (Some bi)
      else braces_loop a b str ai (idx b str (next_pos ai bi + 1)) (tl begs) left right)"
  by pat_completeness auto

termination
proof -
  define still where "still n x = (if x < 0 then 0 else 1 + nat (int n - x))" for n :: nat and x :: int
  have idx: "idx c s n = -1 \<or> (n \<le> idx c s n \<and> idx c s n < int (length s))" if "0 \<le> n" for c s n
  proof (cases "index_of [c] (drop (nat n) s)")
    case (Some i)
    then have "i + 1 \<le> length s - nat n" using index_of_bound [OF Some] by simp
    with Some that show ?thesis by (auto simp: idx_def)
  qed (simp add: idx_def)
  have dec: "still (length s) (idx c s (x + 1)) < still (length s) x" if "0 \<le> x" for c s x
    using idx [of "x + 1" c s] that by (auto simp: still_def)
  show ?thesis
    by (relation "measure (\<lambda>(a, b, str, ai, bi, begs, left, right).
        still (length str) ai + still (length str) bi)") (auto simp: dec next_pos_def at_open_def split: if_splits)
qed

declare braces_loop.simps [simp del]

definition range_braces :: "code_unit \<Rightarrow> code_unit \<Rightarrow> jstring \<Rightarrow> (int \<times> int option) option" where
  "range_braces a b str =
     (let ai = idx a str 0; bi = idx b str (ai + 1)
      in if 0 \<le> ai \<and> 0 < bi then braces_loop a b str ai bi [] (int (length str)) None else None)"

record bal_match =
  bm_start :: nat
  bm_end :: nat
  bm_pre :: jstring
  bm_body :: jstring
  bm_post :: jstring

text \<open>\<open>balanced\<close>. A pair whose right end is unassigned does not occur (\<open>range_braces_matched\<close>).\<close>

definition balanced :: "code_unit \<Rightarrow> code_unit \<Rightarrow> jstring \<Rightarrow> bal_match option" where
  "balanced a b str =
     (case range_braces a b str of
        Some (l, Some r) \<Rightarrow>
          Some \<lparr>bm_start = nat l, bm_end = nat r, bm_pre = take (nat l) str,
                bm_body = take (nat r - Suc (nat l)) (drop (Suc (nat l)) str),
                bm_post = drop (Suc (nat r)) str\<rparr>
      | _ \<Rightarrow> None)"

abbreviation open_brace :: code_unit where "open_brace \<equiv> 0x7B"
abbreviation close_brace :: code_unit where "close_brace \<equiv> 0x7D"
abbreviation comma :: code_unit where "comma \<equiv> 0x2C"
abbreviation backslash :: code_unit where "backslash \<equiv> 0x5C"

section \<open>Members of a brace set\<close>

function parseCommaParts :: "jstring \<Rightarrow> jstring list" where
  "parseCommaParts str =
     (if str = [] then [[]]
      else case balanced open_brace close_brace str of
             None \<Rightarrow> split1 comma str
           | Some m \<Rightarrow>
               let p0 = split1 comma (bm_pre m);
                   p = butlast p0 @ [last p0 @ [open_brace] @ bm_body m @ [close_brace]]
               in if bm_post m \<noteq> []
                  then let postParts = parseCommaParts (bm_post m)
                       in butlast p @ [last p @ hd postParts] @ tl postParts
                  else p)"
  by pat_completeness auto

termination
proof (relation "measure length")
  fix str :: jstring and m
  assume "str \<noteq> []" "balanced open_brace close_brace str = Some m"
  then have "length (bm_post m) < length str"
    by (auto simp: balanced_def split: option.splits prod.splits)
  then show "(bm_post m, str) \<in> measure length" by simp
qed simp

declare parseCommaParts.simps [simp del]

section \<open>Escaped characters\<close>

text \<open>The random part of the five markers, as the digits \<open>Math.random()\<close> prints.\<close>

record markers =
  r_slash :: jstring
  r_open :: jstring
  r_close :: jstring
  r_comma :: jstring
  r_period :: jstring

definition escSlash :: "markers \<Rightarrow> jstring" where "escSlash t = 0 # lit ''SLASH'' @ r_slash t @ [0]"
definition escOpen :: "markers \<Rightarrow> jstring" where "escOpen t = 0 # lit ''OPEN'' @ r_open t @ [0]"
definition escClose :: "markers \<Rightarrow> jstring" where "escClose t = 0 # lit ''CLOSE'' @ r_close t @ [0]"
definition escComma :: "markers \<Rightarrow> jstring" where "escComma t = 0 # lit ''COMMA'' @ r_comma t @ [0]"
definition escPeriod :: "markers \<Rightarrow> jstring" where "escPeriod t = 0 # lit ''PERIOD'' @ r_period t @ [0]"

definition swap_str :: "jstring \<Rightarrow> jstring \<Rightarrow> jstring \<Rightarrow> jstring" where
  "swap_str old new s = join new (split_str old s)"

definition escapeBraces :: "markers \<Rightarrow> jstring \<Rightarrow> jstring" where
  "escapeBraces t str =
     swap_str [backslash, 0x2E] (escPeriod t)
       (swap_str [backslash, comma] (escComma t)
         (swap_str [backslash, close_brace] (escClose t)
           (swap_str [backslash, open_brace] (escOpen t)
             (swap_str [backslash, backslash] (escSlash t) str))))"

definition unescapeBraces :: "markers \<Rightarrow> jstring \<Rightarrow> jstring" where
  "unescapeBraces t str =
     swap_str (escPeriod t) [0x2E]
       (swap_str (escComma t) [comma]
         (swap_str (escClose t) [close_brace]
           (swap_str (escOpen t) [open_brace]
             (swap_str (escSlash t) [backslash] str))))"

section \<open>Sequences\<close>

text \<open>\<open>-?\d+\<close> and a letter, the pieces of the two sequence patterns.\<close>

definition signed_digits :: "jstring \<Rightarrow> bool" where
  "signed_digits s = (let d = (if s \<noteq> [] \<and> hd s = 0x2D then tl s else s) in d \<noteq> [] \<and> list_all dec_digit d)"

definition one_letter :: "jstring \<Rightarrow> bool" where
  "one_letter s = (length s = 1 \<and> (0x41 \<le> hd s \<and> hd s \<le> 0x5A \<or> 0x61 \<le> hd s \<and> hd s \<le> 0x7A))"

definition dots_split :: "jstring \<Rightarrow> jstring list" where
  "dots_split s = split_str (lit ''..'') s"

definition is_sequence_of :: "(jstring \<Rightarrow> bool) \<Rightarrow> jstring \<Rightarrow> bool" where
  "is_sequence_of P body =
     (let n = dots_split body
      in (length n = 2 \<or> length n = 3 \<and> signed_digits (n ! 2)) \<and> P (n ! 0) \<and> P (n ! 1))"

definition isNumericSequence :: "jstring \<Rightarrow> bool" where
  "isNumericSequence = is_sequence_of signed_digits"

definition isAlphaSequence :: "jstring \<Rightarrow> bool" where
  "isAlphaSequence = is_sequence_of one_letter"

text \<open>\<open>numeric\<close>, on the pieces of a sequence: the number of a numeral, the code of a letter.\<close>

definition numeric :: "jstring \<Rightarrow> int" where
  "numeric str = (if signed_digits str then the (parse_int str) else int (hd str))"

definition isPadded :: "jstring \<Rightarrow> bool" where
  "isPadded el = (let d = (if el \<noteq> [] \<and> hd el = 0x2D then tl el else el)
     in length d \<ge> 2 \<and> d ! 0 = 0x30 \<and> dec_digit (d ! 1))"

text \<open>The loop \<open>for (var i = x; test(i, y); i += incr)\<close>; with step zero it never ends.\<close>

partial_function (option) seq_loop ::
    "(int \<Rightarrow> int \<Rightarrow> bool) \<Rightarrow> int \<Rightarrow> int \<Rightarrow> int \<Rightarrow> int list option" where
  "seq_loop test y incr i =
     (if test i y then Option.bind (seq_loop test y incr (i + incr)) (\<lambda>r. Some (i # r)) else Some [])"

definition alpha_item :: "int \<Rightarrow> jstring" where
  "alpha_item i = (let c = [nat (i mod 2 ^ 16)] in if c = [backslash] then [] else c)"

definition numeric_item :: "bool \<Rightarrow> nat \<Rightarrow> int \<Rightarrow> jstring" where
  "numeric_item pad width i =
     (let c = int_string i; need = int width - int (length c)
      in if pad \<and> 0 < need
         then (if i < 0 then 0x2D # replicate (nat need) 0x30 @ drop 1 c
               else replicate (nat need) 0x30 @ c)
         else c)"

definition sequence_items :: "jstring \<Rightarrow> jstring list option" where
  "sequence_items body =
     (let n = dots_split body;
          x = numeric (n ! 0);
          y = numeric (n ! 1);
          width = max (length (n ! 0)) (length (n ! 1));
          incr = (if length n = 3 then \<bar>numeric (n ! 2)\<bar> else 1);
          pad = list_ex isPadded n
      in map_option (map (if isAlphaSequence body then alpha_item else numeric_item pad width))
           (if y < x then seq_loop (\<lambda>i y. y \<le> i) y (- incr) x else seq_loop (\<lambda>i y. i \<le> y) y incr x))"

section \<open>Expansion\<close>

text \<open>\<open>m.post.match(/,.*\}/)\<close>: a comma and, later on the same line, a closing brace.\<close>

definition line_end :: "code_unit \<Rightarrow> bool" where
  "line_end c = (c = 0x0A \<or> c = 0x0D \<or> c = 0x2028 \<or> c = 0x2029)"

fun comma_then_close :: "jstring \<Rightarrow> bool" where
  "comma_then_close [] = False"
| "comma_then_close (c # s) =
     (c = comma \<and> close_brace \<in> set (takeWhile (\<lambda>d. \<not> line_end d) s) \<or> comma_then_close s)"

text \<open>\<open>/\$$/.test(m.pre)\<close>\<close>

definition ends_dollar :: "jstring \<Rightarrow> bool" where
  "ends_dollar s = (s \<noteq> [] \<and> last s = 0x24)"

definition embrace :: "jstring \<Rightarrow> jstring" where
  "embrace str = [open_brace] @ str @ [close_brace]"

text \<open>\<open>concatMap\<close> of a function that may not return.\<close>

fun mapO :: "('a \<Rightarrow> 'b option) \<Rightarrow> 'a list \<Rightarrow> 'b list option" where
  "mapO f [] = Some []"
| "mapO f (x # xs) = Option.bind (f x) (\<lambda>y. Option.bind (mapO f xs) (\<lambda>ys. Some (y # ys)))"

lemma mapO_mono [partial_function_mono]:
  assumes "\<And>x. mono_option (\<lambda>g. B g x)"
  shows "mono_option (\<lambda>g. mapO (B g) xs)"
proof (induction xs)
  case (Cons x xs)
  show ?case unfolding mapO.simps by (intro bind_mono assms Cons option.const_mono)
qed (simp add: option.const_mono)

text \<open>The two nested loops at the end of \<open>expand\<close>.\<close>

definition combine :: "bool \<Rightarrow> jstring \<Rightarrow> jstring list \<Rightarrow> jstring list \<Rightarrow> jstring list" where
  "combine keep_empty pre items posts =
     filter (\<lambda>e. keep_empty \<or> e \<noteq> []) (concat (map (\<lambda>x. map (\<lambda>p. pre @ x @ p) posts) items))"

partial_function (option) expand :: "markers \<Rightarrow> jstring \<Rightarrow> bool \<Rightarrow> jstring list option" where
  "expand t str isTop =
     (case balanced open_brace close_brace str of
        None \<Rightarrow> Some [str]
      | Some m \<Rightarrow>
          if ends_dollar (bm_pre m) then Some [str]
          else if isNumericSequence (bm_body m) \<or> isAlphaSequence (bm_body m)
          then Option.bind (if bm_post m \<noteq> [] then expand t (bm_post m) False else Some [[]]) (\<lambda>posts.
               Option.bind (sequence_items (bm_body m)) (\<lambda>items.
               Some (combine True (bm_pre m) items posts)))
          else if comma \<notin> set (bm_body m)
          then (if comma_then_close (bm_post m)
                then expand t (bm_pre m @ [open_brace] @ bm_body m @ escClose t @ bm_post m) False
                else Some [str])
          else if length (parseCommaParts (bm_body m)) = 1
          then Option.bind (expand t (hd (parseCommaParts (bm_body m))) False) (\<lambda>inner.
               Option.bind (if bm_post m \<noteq> [] then expand t (bm_post m) False else Some [[]]) (\<lambda>posts.
               if length inner = 1
               then Some (map (\<lambda>p. bm_pre m @ embrace (hd inner) @ p) posts)
               else Option.bind (mapO (\<lambda>el. expand t el False) (map embrace inner)) (\<lambda>itemss.
                    Some (combine (\<not> isTop) (bm_pre m) (concat itemss) posts))))
          else Option.bind (if bm_post m \<noteq> [] then expand t (bm_post m) False else Some [[]]) (\<lambda>posts.
               Option.bind (mapO (\<lambda>el. expand t el False) (parseCommaParts (bm_body m))) (\<lambda>itemss.
               Some (combine (\<not> isTop) (bm_pre m) (concat itemss) posts))))"

declare seq_loop.simps [code] expand.simps [code]

definition expandTop :: "markers \<Rightarrow> jstring \<Rightarrow> jstring list option" where
  "expandTop t str =
     (if str = [] then Some []
      else let s = (if take 2 str = [open_brace, close_brace]
                    then [backslash, open_brace, backslash, close_brace] @ drop 2 str else str)
           in map_option (map (unescapeBraces t)) (expand t (escapeBraces t s) True))"

section \<open>The pair found is a matching one\<close>

lemma index_of_single:
  "(index_of [c] u = None \<and> c \<notin> set u) \<or>
    (\<exists>i. index_of [c] u = Some i \<and> i < length u \<and> u ! i = c \<and> c \<notin> set (take i u))"
  by (induction u) auto

lemma idx_cases:
  assumes "0 \<le> n"
  obtains (none) "idx c s n = -1" "\<And>k. n \<le> int k \<Longrightarrow> k < length s \<Longrightarrow> s ! k \<noteq> c"
    | (found) i where "idx c s n = int i" "n \<le> int i" "i < length s" "s ! i = c"
        "\<And>k. n \<le> int k \<Longrightarrow> k < i \<Longrightarrow> s ! k \<noteq> c"
proof (cases "index_of [c] (drop (nat n) s)")
  case None
  then have free: "c \<notin> set (drop (nat n) s)" using index_of_single [of c "drop (nat n) s"] by auto
  have "s ! k \<noteq> c" if "n \<le> int k" "k < length s" for k
  proof -
    have "drop (nat n) s ! (k - nat n) = s ! k" "k - nat n < length (drop (nat n) s)" using that assms by auto
    with free show ?thesis by (metis nth_mem)
  qed
  with None show ?thesis by (intro none) (simp_all add: idx_def)
next
  case (Some i)
  then have i: "i < length s - nat n" "drop (nat n) s ! i = c" "c \<notin> set (take i (drop (nat n) s))"
    using index_of_single [of c "drop (nat n) s"] by auto
  have "s ! k \<noteq> c" if "n \<le> int k" "k < nat n + i" for k
  proof -
    have "take i (drop (nat n) s) ! (k - nat n) = s ! k" "k - nat n < length (take i (drop (nat n) s))"
      using that assms i(1) by auto
    with i(3) show ?thesis by (metis nth_mem)
  qed
  with Some i(1,2) assms show ?thesis by (intro found [of "nat n + i"]) (simp_all add: idx_def)
qed

lemma idx_nonneg:
  assumes "0 \<le> idx c s (int n)"
  shows "\<exists>i. idx c s (int n) = int i \<and> n \<le> i \<and> i < length s \<and> s ! i = c \<and> (\<forall>k. n \<le> k \<and> k < i \<longrightarrow> s ! k \<noteq> c)"
proof -
  have "0 \<le> int n" by simp
  then show ?thesis
  proof (cases rule: idx_cases [of "int n" c s])
    case none
    with assms show ?thesis by simp
  next
    case (found i)
    then show ?thesis by auto
  qed
qed

lemma idx_found:
  assumes "0 \<le> n" "n \<le> int i" "i < length s" "s ! i = c" "\<And>k. n \<le> int k \<Longrightarrow> k < i \<Longrightarrow> s ! k \<noteq> c"
  shows "idx c s n = int i"
  using assms(1)
proof (cases rule: idx_cases [of n c s])
  case none
  then show ?thesis using assms(2-4) by blast
next
  case (found j)
  then have "\<not> i < j" "\<not> j < i" using assms by blast+
  with found show ?thesis by simp
qed

lemma idx_none:
  assumes "0 \<le> n" "\<And>k. n \<le> int k \<Longrightarrow> k < length s \<Longrightarrow> s ! k \<noteq> c"
  shows "idx c s n = -1"
  using assms(1) by (cases rule: idx_cases [of n c s]) (use assms(2) in auto)

lemma idx_later:
  assumes "0 \<le> n" "n \<le> m" "\<And>k. n \<le> int k \<Longrightarrow> int k < m \<Longrightarrow> k < length s \<Longrightarrow> s ! k \<noteq> c"
  shows "idx c s m = idx c s n"
  using assms(1)
proof (cases rule: idx_cases [of n c s])
  case none
  with assms(1,2) show ?thesis by (simp add: idx_none)
next
  case (found i)
  then have "m \<le> int i" using assms(3) [of i] by linarith
  then have "idx c s m = int i" using found assms(1,2) by (intro idx_found) auto
  with found show ?thesis by simp
qed

text \<open>The depth of brackets after a text, none if one closes that was not open.\<close>

fun nest :: "code_unit \<Rightarrow> code_unit \<Rightarrow> nat \<Rightarrow> jstring \<Rightarrow> nat option" where
  "nest a b k [] = Some k"
| "nest a b k (x # s) =
     (if x = a then nest a b (Suc k) s
      else if x = b then (case k of 0 \<Rightarrow> None | Suc j \<Rightarrow> nest a b j s)
      else nest a b k s)"

definition brackets_match :: "code_unit \<Rightarrow> code_unit \<Rightarrow> jstring \<Rightarrow> bool" where
  "brackets_match a b s \<longleftrightarrow> nest a b 0 s = Some 0"

lemma nest_append: "nest a b k (s @ t) = Option.bind (nest a b k s) (\<lambda>j. nest a b j t)"
  by (induction a b k s rule: nest.induct) (auto split: nat.split)

lemma nest_shift: "nest a b k s = Some m \<Longrightarrow> nest a b (k + j) s = Some (m + j)"
proof (induction a b k s arbitrary: m rule: nest.induct)
  case (2 a b k x s)
  then show ?case by (cases k) (auto split: if_splits)
qed simp

lemma nest_free: "a \<notin> set s \<Longrightarrow> b \<notin> set s \<Longrightarrow> nest a b k s = Some k"
  by (induction s) auto

lemma brackets_match_append:
  "brackets_match a b s \<Longrightarrow> brackets_match a b t \<Longrightarrow> brackets_match a b (s @ t)"
  by (simp add: brackets_match_def nest_append)

lemma brackets_match_wrap:
  assumes "a \<noteq> b" "brackets_match a b s"
  shows "brackets_match a b (a # s @ [b])"
  using assms nest_shift [of a b 0 s 0 1] by (simp add: brackets_match_def nest_append)

definition seg :: "nat \<Rightarrow> nat \<Rightarrow> 'a list \<Rightarrow> 'a list" where
  "seg i j s = take (j - i) (drop i s)"

lemma seg_append: "i \<le> j \<Longrightarrow> j \<le> k \<Longrightarrow> seg i j s @ seg j k s = seg i k s"
proof -
  assume "i \<le> j" "j \<le> k"
  then have "seg i k s = take ((j - i) + (k - j)) (drop i s)" by (simp add: seg_def)
  also have "\<dots> = seg i j s @ seg j k s"
    using \<open>i \<le> j\<close> by (simp only: take_add seg_def drop_drop) (simp add: add.commute)
  finally show ?thesis ..
qed

lemma seg_drop: "i \<le> j \<Longrightarrow> seg i j s @ drop j s = drop i s"
  using append_take_drop_id [of "j - i" "drop i s"] by (simp add: seg_def)

lemma seg_Suc: "i < length s \<Longrightarrow> seg i (Suc i) s = [s ! i]"
  by (simp add: seg_def take_Suc_conv_app_nth hd_drop_conv_nth take_Suc)

lemma set_seg: "x \<in> set (seg i j s) \<Longrightarrow> \<exists>k. i \<le> k \<and> k < j \<and> k < length s \<and> s ! k = x"
  by (auto simp: seg_def in_set_conv_nth) (metis add.commute le_add2 less_diff_conv)

text \<open>The stack: every entry is an opening bracket, and between two entries, and above the top, all brackets match.\<close>

fun stack_ok :: "code_unit \<Rightarrow> code_unit \<Rightarrow> jstring \<Rightarrow> int list \<Rightarrow> nat \<Rightarrow> bool" where
  "stack_ok a b s [] pos = True"
| "stack_ok a b s (x # xs) pos =
     (0 \<le> x \<and> nat x < pos \<and> s ! nat x = a \<and> brackets_match a b (seg (Suc (nat x)) pos s) \<and>
      stack_ok a b s xs (nat x))"

definition matched :: "code_unit \<Rightarrow> code_unit \<Rightarrow> jstring \<Rightarrow> int \<Rightarrow> int \<Rightarrow> bool" where
  "matched a b s l r \<longleftrightarrow> 0 \<le> l \<and> l < r \<and> nat r < length s \<and> s ! nat l = a \<and> s ! nat r = b \<and>
     brackets_match a b (seg (Suc (nat l)) (nat r) s)"

lemma brackets_match_free_seg:
  assumes "\<And>k. i \<le> k \<Longrightarrow> k < j \<Longrightarrow> k < length s \<Longrightarrow> s ! k \<noteq> a \<and> s ! k \<noteq> b"
  shows "brackets_match a b (seg i j s)"
  unfolding brackets_match_def using assms by (intro nest_free) (auto dest!: set_seg)

lemma stack_ok_advance:
  assumes "stack_ok a b s begs pos" "pos \<le> i"
    and "\<And>k. pos \<le> k \<Longrightarrow> k < i \<Longrightarrow> k < length s \<Longrightarrow> s ! k \<noteq> a \<and> s ! k \<noteq> b"
  shows "stack_ok a b s begs i"
proof (cases begs)
  case (Cons x xs)
  have "brackets_match a b (seg pos i s)" using assms(3) by (rule brackets_match_free_seg)
  with assms(1) Cons have "brackets_match a b (seg (Suc (nat x)) pos s @ seg pos i s)"
    by (intro brackets_match_append) auto
  with assms(1,2) Cons show ?thesis by (simp add: seg_append)
qed simp

lemma stack_ok_pop:
  assumes "a \<noteq> b" "stack_ok a b s (x # xs) i" "i < length s" "s ! i = b"
  shows "stack_ok a b s xs (Suc i)"
proof (cases xs)
  case (Cons y ys)
  define n where "n = nat x"
  have x: "n < i" "s ! n = a" "nat y < n" using assms(2) Cons by (auto simp: n_def)
  have "seg (Suc (nat y)) (Suc i) s =
      seg (Suc (nat y)) n s @ seg n (Suc n) s @ seg (Suc n) i s @ seg i (Suc i) s"
    using x by (simp add: seg_append)
  also have "\<dots> = seg (Suc (nat y)) n s @ (a # seg (Suc n) i s @ [b])"
    using x assms(3,4) by (simp add: seg_Suc)
  finally have "brackets_match a b (seg (Suc (nat y)) (Suc i) s)"
    using assms(1,2) Cons by (auto simp: n_def intro: brackets_match_append brackets_match_wrap)
  then show ?thesis using assms(2) x Cons by auto
qed simp

text \<open>What holds when the loop has dealt with every bracket before \<open>pos\<close>.\<close>

definition range_inv ::
    "code_unit \<Rightarrow> code_unit \<Rightarrow> jstring \<Rightarrow> nat \<Rightarrow> int \<Rightarrow> int \<Rightarrow> int list \<Rightarrow> int \<Rightarrow> int option \<Rightarrow> bool" where
  "range_inv a b s pos ai bi begs left right \<longleftrightarrow>
     pos \<le> length s \<and> ai = idx a s (int pos) \<and> bi = idx b s (int pos) \<and> stack_ok a b s begs pos \<and>
     (begs = [] \<longrightarrow> 0 \<le> ai \<and> ai < bi) \<and>
     (case right of None \<Rightarrow> left = int (length s) \<and> 0 \<le> bi | Some r \<Rightarrow> matched a b s left r)"

lemma range_inv_open:
  assumes "a \<noteq> b" "range_inv a b s pos ai bi begs left right" "0 \<le> next_pos ai bi" "at_open ai bi"
  shows "range_inv a b s (Suc (nat ai)) (idx a s (ai + 1)) bi (ai # begs) left right \<and> next_pos ai bi = ai"
proof -
  have ai: "ai = idx a s (int pos)" "bi = idx b s (int pos)" "stack_ok a b s begs pos"
    using assms(2) by (simp_all add: range_inv_def)
  have i: "next_pos ai bi = ai" "0 \<le> ai" using assms(3,4) by (simp_all add: at_open_def)
  obtain i where fi: "ai = int i" "pos \<le> i" "i < length s" "s ! i = a"
      "\<And>k. pos \<le> k \<Longrightarrow> k < i \<Longrightarrow> s ! k \<noteq> a"
    using idx_nonneg [of a s pos] i(2) ai(1) by auto
  have nob: "s ! k \<noteq> b" if "pos \<le> k" "k \<le> i" "k < length s" for k
  proof -
    have "0 \<le> int pos" by simp
    then show ?thesis
    proof (cases rule: idx_cases [of "int pos" b s])
      case none
      with that show ?thesis by auto
    next
      case (found j)
      then have "bi = int j" "s ! j = b" using ai(2) by simp_all
      then have "i < j" using i(1) fi(1,4) assms(1) by (cases "i = j") (auto simp: next_pos_def split: if_splits)
      with found that show ?thesis by auto
    qed
  qed
  have free: "s ! k \<noteq> a \<and> s ! k \<noteq> b" if "pos \<le> k" "k < i" "k < length s" for k
    using fi(5) [of k] nob [of k] that by simp
  have "stack_ok a b s begs i" by (rule stack_ok_advance [OF ai(3) fi(2) free])
  then have st: "stack_ok a b s (ai # begs) (Suc (nat ai))"
    using fi by (simp add: seg_def brackets_match_def)
  have bi: "idx b s (int (Suc i)) = bi"
    unfolding ai(2) using nob fi(2) by (intro idx_later) auto
  have "case right of None \<Rightarrow> left = int (length s) \<and> 0 \<le> bi | Some r \<Rightarrow> matched a b s left r"
    using assms(2) unfolding range_inv_def by blast
  then show ?thesis
    using st bi fi(1,3) i(1) by (simp add: range_inv_def add.commute)
qed

lemma range_inv_close:
  assumes "a \<noteq> b" "range_inv a b s pos ai bi begs left right" "0 \<le> next_pos ai bi" "\<not> at_open ai bi"
  shows "next_pos ai bi = bi \<and> begs \<noteq> [] \<and> matched a b s (hd begs) bi \<and>
    idx a s (bi + 1) = ai \<and> stack_ok a b s (tl begs) (Suc (nat bi)) \<and> nat bi < length s"
proof -
  have ai: "ai = idx a s (int pos)" "bi = idx b s (int pos)" "stack_ok a b s begs pos"
    using assms(2) by (simp_all add: range_inv_def)
  have i: "next_pos ai bi = bi" "0 \<le> bi" "\<not> (0 \<le> ai \<and> ai < bi)"
    using assms(3,4) by (auto simp: at_open_def next_pos_def split: if_splits)
  then have ne: "begs \<noteq> []" using assms(2) by (auto simp: range_inv_def)
  obtain i where fi: "bi = int i" "pos \<le> i" "i < length s" "s ! i = b"
      "\<And>k. pos \<le> k \<Longrightarrow> k < i \<Longrightarrow> s ! k \<noteq> b"
    using idx_nonneg [of b s pos] i(2) ai(2) by auto
  have noa: "s ! k \<noteq> a" if "pos \<le> k" "k \<le> i" "k < length s" for k
  proof -
    have "0 \<le> int pos" by simp
    then show ?thesis
    proof (cases rule: idx_cases [of "int pos" a s])
      case none
      with that show ?thesis by auto
    next
      case (found j)
      then have "i < j" using i(3) fi(1,4) ai(1) assms(1) by (cases "i = j") auto
      with found that show ?thesis by auto
    qed
  qed
  have free: "s ! k \<noteq> a \<and> s ! k \<noteq> b" if "pos \<le> k" "k < i" "k < length s" for k
    using fi(5) [of k] noa [of k] that by simp
  have st: "stack_ok a b s begs i" by (rule stack_ok_advance [OF ai(3) fi(2) free])
  obtain x xs where begs: "begs = x # xs" using ne by (cases begs) auto
  have "stack_ok a b s xs (Suc i)" using stack_ok_pop [of a b s x xs i] assms(1) st begs fi by simp
  moreover have "matched a b s x bi" using st begs fi by (auto simp: matched_def)
  moreover have "idx a s (int i + 1) = ai"
    unfolding ai(1) using noa fi(2) by (intro idx_later) auto
  ultimately show ?thesis using i(1) begs fi by simp
qed

lemma range_loop_matched:
  assumes "a \<noteq> b" "range_inv a b s pos ai bi begs left right" "braces_loop a b s ai bi begs left right = Some (l, r)"
  shows "\<exists>r'. r = Some r' \<and> matched a b s l r'"
  using assms
proof (induction a b s ai bi begs left right arbitrary: pos rule: braces_loop.induct)
  case (1 a b s ai bi begs left right)
  note eq = braces_loop.simps [of a b s ai bi begs left right]
  consider (finish) "next_pos ai bi < 0" | (opn) "0 \<le> next_pos ai bi" "at_open ai bi"
    | (cls) "0 \<le> next_pos ai bi" "\<not> at_open ai bi" by linarith
  then show ?case
  proof cases
    case finish
    then have "bi < 0" by (auto simp: next_pos_def split: if_splits)
    with finish "1.prems"(2,3) eq show ?thesis
      by (auto simp: range_inv_def split: if_splits option.splits)
  next
    case opn
    note inv = range_inv_open [OF "1.prems"(1,2) opn]
    show ?thesis
      using "1.IH"(1) [OF _ opn(2) "1.prems"(1), of "Suc (nat ai)"] inv opn "1.prems"(3) eq by simp
  next
    case cls
    note inv = range_inv_close [OF "1.prems"(1,2) cls]
    show ?thesis
    proof (cases "length begs = 1")
      case True
      with inv cls "1.prems"(3) eq show ?thesis by auto
    next
      case False
      let ?bi = "idx b s (bi + 1)"
      from False inv have tl: "tl begs \<noteq> []" by (cases begs) (auto simp: length_Suc_conv)
      have next_inv: "range_inv a b s (Suc (nat bi)) ai ?bi (tl begs) l' (Some r')"
        if "matched a b s l' r'" for l' r'
        using that inv tl by (simp add: range_inv_def matched_def add.commute)
      show ?thesis
      proof (cases "hd begs < left")
        case True
        then show ?thesis
          using "1.IH"(2) [OF _ cls(2) False _ "1.prems"(1), of "Suc (nat bi)"]
            next_inv [of "hd begs" bi] inv cls False "1.prems"(3) eq by simp
      next
        case older: False
        have "right \<noteq> None"
        proof
          assume "right = None"
          with "1.prems"(2) have "left = int (length s)" by (simp add: range_inv_def)
          with older inv show False by (auto simp: matched_def)
        qed
        then obtain r' where "right = Some r'" "matched a b s left r'"
          using "1.prems"(2) by (auto simp: range_inv_def)
        then show ?thesis
          using "1.IH"(3) [OF _ cls(2) False _ "1.prems"(1), of "Suc (nat bi)"]
            next_inv [of left r'] inv cls False older "1.prems"(3) eq by simp
      qed
    qed
  qed
qed

lemma range_braces_matched:
  assumes "a \<noteq> b" "range_braces a b s = Some (l, r)"
  shows "\<exists>r'. r = Some r' \<and> matched a b s l r'"
proof -
  let ?ai = "idx a s 0" and ?bi = "idx b s (idx a s 0 + 1)"
  from assms(2) have start: "0 \<le> ?ai" "0 < ?bi" and
      run: "braces_loop a b s ?ai ?bi [] (int (length s)) None = Some (l, r)"
    by (auto simp: range_braces_def Let_def split: if_splits)
  obtain i where i: "?ai = int i" "i < length s" "s ! i = a" "\<And>k. k < i \<Longrightarrow> s ! k \<noteq> a"
    using idx_nonneg [of a s 0] start(1) by auto
  have "?bi = idx b s (int i)" "idx a s (int i) = int i"
    using i assms(1) idx_later [of "int i" "int i + 1" s b] idx_found [of "int i" i s a] by auto
  moreover have "int i < ?bi" using start(2) i(1) idx_nonneg [of b s "Suc i"] by (auto simp: add.commute)
  ultimately have "range_inv a b s i ?ai ?bi [] (int (length s)) None"
    using i start(2) by (simp add: range_inv_def)
  from range_loop_matched [OF assms(1) this run] show ?thesis .
qed

lemma balanced_split:
  assumes "a \<noteq> b" "balanced a b str = Some m"
  shows "str = bm_pre m @ [a] @ bm_body m @ [b] @ bm_post m \<and> brackets_match a b (bm_body m)"
proof -
  obtain l r where lr: "range_braces a b str = Some (l, Some r)" "bm_pre m = take (nat l) str"
      "bm_body m = seg (Suc (nat l)) (nat r) str" "bm_post m = drop (Suc (nat r)) str"
    using assms(2) by (auto simp: balanced_def seg_def split: option.splits prod.splits)
  then have m: "matched a b str l r" using range_braces_matched [OF assms(1)] by auto
  then have "drop (nat l) str = a # drop (Suc (nat l)) str" "drop (nat r) str = b # drop (Suc (nat r)) str"
    by (auto simp: matched_def Cons_nth_drop_Suc [symmetric])
  moreover have "drop (Suc (nat l)) str = seg (Suc (nat l)) (nat r) str @ drop (nat r) str"
    using m by (simp add: seg_drop matched_def Suc_le_eq)
  ultimately show ?thesis
    using m lr append_take_drop_id [of "nat l" str] by (simp add: matched_def)
qed

text \<open>
  The braces that \<open>balanced\<close> reports belong together: the string is the text before, an opening brace, the body, a closing
  brace and the text after, and inside the body every brace has its partner.
\<close>

theorem balanced_matches:
  assumes "a \<noteq> b" "balanced a b str = Some m"
  shows "str = bm_pre m @ [a] @ bm_body m @ [b] @ bm_post m \<and> brackets_match a b (bm_body m)"
  using assms by (rule balanced_split)

theorem balanced_matches_witness:
  "lit ''a{b}c'' = lit ''a'' @ [open_brace] @ lit ''b'' @ [close_brace] @ lit ''c'' \<and>
   brackets_match open_brace close_brace (lit ''b'')"
proof -
  have "range_braces open_brace close_brace (lit ''a{b}c'') = Some (1, Some 3)"
    by (simp add: range_braces_def braces_loop.simps next_pos_def at_open_def idx_def lit_def)
  then have "balanced open_brace close_brace (lit ''a{b}c'') =
      Some \<lparr>bm_start = 1, bm_end = 3, bm_pre = lit ''a'', bm_body = lit ''b'', bm_post = lit ''c''\<rparr>"
    by (simp add: balanced_def lit_def eval_nat_numeral)
  from balanced_matches [OF _ this] show ?thesis by simp
qed

text \<open>Where the first braces of a text enclose no others, they are the pair.\<close>

lemma balanced_first:
  assumes "a \<noteq> b" "a \<notin> set pre" "b \<notin> set body" "a \<notin> set body"
  shows "balanced a b (pre @ [a] @ body @ [b] @ post) =
    Some \<lparr>bm_start = length pre, bm_end = length pre + length body + 1, bm_pre = pre, bm_body = body, bm_post = post\<rparr>"
proof -
  let ?s = "pre @ [a] @ body @ [b] @ post" and ?i = "length pre" and ?j = "length pre + length body + 1"
  have nth_body: "?s ! k \<in> set body" if "?i < k" "k < ?j" for k
    using that by (auto simp: nth_append nth_Cons' not_less)
  have nth: "?s ! ?j = b" by (simp add: nth_append nth_Cons')
  have a: "idx a ?s 0 = int ?i"
    using assms(2) by (intro idx_found) (auto simp: nth_append)
  have b: "idx b ?s (int ?i + 1) = int ?j"
  proof (rule idx_found)
    show "?s ! k \<noteq> b" if "int ?i + 1 \<le> int k" "k < ?j" for k
      using nth_body [of k] that assms(3) by auto
  qed (use nth in auto)
  have later: "idx a ?s (int ?i + 1) = -1 \<or> int ?j < idx a ?s (int ?i + 1)"
  proof (cases "0 \<le> idx a ?s (int (Suc ?i))")
    case True
    then obtain k where k: "idx a ?s (int (Suc ?i)) = int k" "Suc ?i \<le> k" "?s ! k = a"
      using idx_nonneg by blast
    then have "k \<noteq> ?j" "\<not> k < ?j" using nth nth_body [of k] assms(1,4) by auto
    with k show ?thesis by (simp add: add.commute)
  next
    case False
    have "0 \<le> int (Suc ?i)" by simp
    then show ?thesis by (cases rule: idx_cases [of "int (Suc ?i)" a ?s]) (use False in \<open>auto simp: add.commute\<close>)
  qed
  have first: "next_pos (int ?i) (int ?j) = int ?i" "at_open (int ?i) (int ?j)"
    by (simp_all add: next_pos_def at_open_def)
  have second: "next_pos (idx a ?s (int ?i + 1)) (int ?j) = int ?j" "\<not> at_open (idx a ?s (int ?i + 1)) (int ?j)"
    using later by (auto simp: next_pos_def at_open_def)
  have step: "braces_loop a b u i j [] l None = Some (i, Some j)"
    if "next_pos i j = i" "at_open i j" "0 \<le> i" "next_pos (idx a u (i + 1)) j = j" "0 \<le> j"
      "\<not> at_open (idx a u (i + 1)) j" for u i j l
    using that by (subst braces_loop.simps) (simp add: braces_loop.simps [of a b u "idx a u (i + 1)"])
  have "range_braces a b ?s = Some (int ?i, Some (int ?j))"
    unfolding range_braces_def Let_def a b using step [OF first _ second(1) _ second(2)] by simp
  moreover have "nat (1 + (int m + int n)) = Suc (m + n)" for m n by simp
  ultimately show ?thesis by (simp add: balanced_def)
qed

section \<open>Splitting at commas\<close>

lemma join_last: "ps \<noteq> [] \<Longrightarrow> join d (butlast ps @ [last ps @ x]) = join d ps @ x"
  by (cases ps rule: rev_cases) (auto simp: join_append, metis append.assoc append_Nil join.simps(2) join_append neq_Nil_conv)

lemma join_merge:
  assumes "ps \<noteq> []" "qs \<noteq> []"
  shows "join d (butlast ps @ [last ps @ hd qs] @ tl qs) = join d ps @ join d qs"
proof (cases "tl qs = []")
  case True
  then have "qs = [hd qs]" using assms(2) by (cases qs) auto
  then show ?thesis using join_last [OF assms(1), of d "hd qs"] True by (metis append_Nil2 join.simps(2))
next
  case False
  have "join d (butlast ps @ [last ps @ hd qs] @ tl qs) = join d (butlast ps @ [last ps @ hd qs]) @ d @ join d (tl qs)"
    using False join_append [of "butlast ps @ [last ps @ hd qs]" "tl qs" d] by simp
  also have "\<dots> = join d ps @ join d (hd qs # tl qs)"
    using False assms(1) by (simp add: join_last join_Cons)
  finally show ?thesis using assms(2) by simp
qed

lemma parseCommaParts_join: "parseCommaParts str \<noteq> [] \<and> join [comma] (parseCommaParts str) = str"
proof (induction str rule: parseCommaParts.induct)
  case (1 str)
  note eq = parseCommaParts.simps [of str]
  show ?case
  proof (cases "str = [] \<or> balanced open_brace close_brace str = None")
    case True
    with eq show ?thesis by auto
  next
    case False
    then obtain m where m: "str \<noteq> []" "balanced open_brace close_brace str = Some m" by auto
    let ?p0 = "split1 comma (bm_pre m)"
    let ?p = "butlast ?p0 @ [last ?p0 @ [open_brace] @ bm_body m @ [close_brace]]"
    have str: "str = bm_pre m @ [open_brace] @ bm_body m @ [close_brace] @ bm_post m"
      using balanced_split [of open_brace close_brace str m] m(2) by simp
    have p: "join [comma] ?p = bm_pre m @ [open_brace] @ bm_body m @ [close_brace]"
      by (subst join_last) simp_all
    show ?thesis
    proof (cases "bm_post m = []")
      case True
      then have "parseCommaParts str = ?p" using eq m by (simp add: Let_def)
      with p str True show ?thesis by simp
    next
      case post: False
      then have "parseCommaParts str =
          butlast ?p @ [last ?p @ hd (parseCommaParts (bm_post m))] @ tl (parseCommaParts (bm_post m))"
        using eq m by (simp add: Let_def)
      moreover have "parseCommaParts (bm_post m) \<noteq> [] \<and> join [comma] (parseCommaParts (bm_post m)) = bm_post m"
        using 1 [OF m(1,2) refl refl] post by simp
      ultimately show ?thesis
        using join_merge [of ?p "parseCommaParts (bm_post m)" "[comma]"] p str by simp
    qed
  qed
qed

text \<open>
  Splitting a brace set at its commas loses nothing: joined with commas again, the members that
  \<open>parseCommaParts\<close> returns are the text it was given, nested sets, unmatched braces and empty members included.
\<close>

theorem parseCommaParts_roundtrip: "join [comma] (parseCommaParts str) = str"
  using parseCommaParts_join by simp

section \<open>Sequences\<close>

lemma seq_loop_zero:
  assumes "test x y"
  shows "seq_loop test y 0 x = None"
proof (cases "seq_loop test y 0 x")
  case (Some r)
  have "seq_loop test y 0 x = Option.bind (seq_loop test y 0 x) (\<lambda>r. Some (x # r))"
    using assms by (subst seq_loop.simps) simp
  with Some show ?thesis by simp
qed

lemma seq_loop_up:
  assumes "0 < incr"
  shows "\<exists>r. seq_loop (\<lambda>i y. i \<le> y) y incr x = Some r \<and> sorted_wrt (<) r \<and>
    (\<forall>v. v \<in> set r \<longleftrightarrow> (\<exists>k. v = x + int k * incr \<and> v \<le> y))"
proof (induction "nat (y - x + 1)" arbitrary: x rule: less_induct)
  case less
  show ?case
  proof (cases "x \<le> y")
    case False
    have "0 \<le> int k * incr" for k using assms by simp
    then have "\<not> x + int k * incr \<le> y" for k using False by (metis add_increasing2 order_refl order_trans)
    with False show ?thesis by (subst seq_loop.simps) auto
  next
    case True
    from less [of "x + incr"] True assms obtain r where r:
      "seq_loop (\<lambda>i y. i \<le> y) y incr (x + incr) = Some r" "sorted_wrt (<) r"
      "\<forall>v. v \<in> set r \<longleftrightarrow> (\<exists>k. v = x + incr + int k * incr \<and> v \<le> y)" by auto
    have shift: "(\<exists>k. v = x + int k * incr \<and> v \<le> y) \<longleftrightarrow> v = x \<or> (\<exists>k. v = x + incr + int k * incr \<and> v \<le> y)" for v
    proof
      assume "\<exists>k. v = x + int k * incr \<and> v \<le> y"
      then obtain k where "v = x + int k * incr" "v \<le> y" by blast
      then show "v = x \<or> (\<exists>k. v = x + incr + int k * incr \<and> v \<le> y)"
        by (cases k) (auto simp: algebra_simps)
    next
      assume "v = x \<or> (\<exists>k. v = x + incr + int k * incr \<and> v \<le> y)"
      then show "\<exists>k. v = x + int k * incr \<and> v \<le> y"
        using True by (auto intro: exI [of _ 0] exI [of _ "Suc _"] simp: algebra_simps)
    qed
    have "x < v" if "v \<in> set r" for v
      using r(3) that assms by (auto simp: add_pos_nonneg)
    with True r shift show ?thesis
      by (subst seq_loop.simps) auto
  qed
qed

lemma seq_loop_upto: "seq_loop (\<lambda>i y. i \<le> y) y 1 x = Some [x..y]"
proof (induction "nat (y - x + 1)" arbitrary: x rule: less_induct)
  case less
  then show ?case
    by (cases "x \<le> y") (subst seq_loop.simps, simp add: upto.simps [of x y])+
qed

lemma seq_loop_downto: "seq_loop (\<lambda>i y. y \<le> i) y (- 1) x = Some (rev [y..x])"
proof (induction "nat (x - y + 1)" arbitrary: x rule: less_induct)
  case less
  then show ?case
    by (cases "y \<le> x") (subst seq_loop.simps, simp add: upto_rec2 [of y x])+
qed

section \<open>What expands to what\<close>

lemma int_string_pieces:
  "signed_digits (int_string x)" "\<not> one_letter (int_string x)" "0x2E \<notin> set (int_string x)"
  "comma \<notin> set (int_string x)" "open_brace \<notin> set (int_string x)" "close_brace \<notin> set (int_string x)"
  "int_string x \<noteq> []"
proof -
  have d: "list_all dec_digit (nat_digits n)" "c \<in> set (nat_digits n) \<Longrightarrow> dec_digit c" for n c
    using nat_digits_dec [of n] by (auto simp: list_all_iff)
  have h: "dec_digit (hd (nat_digits n))" for n using d(2) [of "hd (nat_digits n)" n] by simp
  show "signed_digits (int_string x)" using d nat_digits_head(2) by (simp add: signed_digits_def int_string_def)
  show "\<not> one_letter (int_string x)" using h [of "nat x"] by (auto simp: one_letter_def int_string_def)
  have "c = 0x2D \<or> dec_digit c" if "c \<in> set (int_string x)" for c
    using that d(2) [of c] by (auto simp: int_string_def split: if_splits)
  from this [of "0x2E"] this [of comma] this [of open_brace] this [of close_brace]
  show "0x2E \<notin> set (int_string x)" "comma \<notin> set (int_string x)" "open_brace \<notin> set (int_string x)"
    "close_brace \<notin> set (int_string x)" by auto
  show "int_string x \<noteq> []" by (simp add: int_string_def)
qed

lemma hd_nat_digits_zero: "hd (nat_digits n) = 0x30 \<longleftrightarrow> n = 0"
proof (induction n rule: nat_digits.induct)
  case (1 n)
  show ?case
  proof (cases "n < 10")
    case True
    then show ?thesis by (subst nat_digits.simps) simp
  next
    case False
    then have "hd (nat_digits n) = hd (nat_digits (n div 10))" by (subst nat_digits.simps) simp
    moreover have "n div 10 \<noteq> 0" using False by (simp add: div_eq_0_iff)
    ultimately show ?thesis using 1 [OF False] False by simp
  qed
qed

lemma not_isPadded_int_string: "\<not> isPadded (int_string x)"
proof -
  have "\<not> (2 \<le> length (nat_digits n) \<and> nat_digits n ! 0 = 0x30)" for n
    using hd_nat_digits_zero [of n] by (cases "n = 0") (auto simp: nat_digits.simps [of 0] hd_conv_nth)
  then show ?thesis using nat_digits_head(2) by (auto simp: isPadded_def int_string_def Let_def hd_conv_nth split: if_splits)
qed

lemma numeric_int_string: "numeric (int_string x) = x"
  by (simp add: numeric_def int_string_pieces)

lemma dots_split_pieces:
  "ps \<noteq> [] \<Longrightarrow> list_all (\<lambda>p. 0x2E \<notin> set p) ps \<Longrightarrow> dots_split (join (lit ''..'') ps) = ps"
  unfolding dots_split_def by (intro split_str_parts) (auto simp: lit_def list_all_iff)

lemma sequence_items_range:
  "sequence_items (int_string x @ lit ''..'' @ int_string y) =
    Some (map int_string (if x \<le> y then [x..y] else rev [y..x]))"
proof -
  have "dots_split (int_string x @ lit ''..'' @ int_string y) = [int_string x, int_string y]"
    using dots_split_pieces [of "[int_string x, int_string y]"] by (simp add: int_string_pieces)
  moreover from this have "\<not> isAlphaSequence (int_string x @ lit ''..'' @ int_string y)"
    by (simp add: isAlphaSequence_def is_sequence_of_def int_string_pieces Let_def)
  moreover have "numeric_item False w = int_string" for w by (rule ext) (simp add: numeric_item_def)
  ultimately show ?thesis
    by (simp add: sequence_items_def Let_def numeric_int_string not_isPadded_int_string seq_loop_upto seq_loop_downto)
qed

lemma isNumericSequence_range: "isNumericSequence (int_string x @ lit ''..'' @ int_string y)"
  using dots_split_pieces [of "[int_string x, int_string y]"]
  by (simp add: isNumericSequence_def is_sequence_of_def int_string_pieces Let_def)

text \<open>
  A numeric sequence counts: \<open>{x..y}\<close> after a plain prefix expands to the prefix with every integer from \<open>x\<close> to \<open>y\<close>, upwards
  or downwards, both ends included, for all integers.
\<close>

theorem expand_numeric_range:
  assumes "open_brace \<notin> set pre" "\<not> ends_dollar pre"
  shows "expand t (pre @ [open_brace] @ (int_string x @ lit ''..'' @ int_string y) @ [close_brace]) isTop =
    Some (map (\<lambda>i. pre @ int_string i) (if x \<le> y then [x..y] else rev [y..x]))"
proof -
  let ?body = "int_string x @ lit ''..'' @ int_string y"
  have "open_brace \<notin> set ?body" "close_brace \<notin> set ?body"
    using int_string_pieces(5,6) by (auto simp: lit_def)
  then have m: "balanced open_brace close_brace (pre @ [open_brace] @ ?body @ [close_brace] @ []) =
      Some \<lparr>bm_start = length pre, bm_end = length pre + length ?body + 1, bm_pre = pre, bm_body = ?body, bm_post = []\<rparr>"
    using assms(1) by (intro balanced_first) auto
  have "concat (map (\<lambda>x. [pre @ x]) xs) = map (\<lambda>x. pre @ x) xs" for xs :: "jstring list"
    by (induction xs) auto
  then show ?thesis
    using m assms(2)
    by (subst expand.simps) (simp add: isNumericSequence_range sequence_items_range combine_def comp_def)
qed

theorem expand_numeric_range_witness:
  "expand \<lparr>r_slash = [], r_open = [], r_close = [], r_comma = [], r_period = []\<rparr>
     (lit ''a'' @ [open_brace] @ (int_string 3 @ lit ''..'' @ int_string 1) @ [close_brace]) True =
   Some [lit ''a'' @ int_string 3, lit ''a'' @ int_string 2, lit ''a'' @ int_string 1]"
  using expand_numeric_range [of "lit ''a''" "\<lparr>r_slash = [], r_open = [], r_close = [], r_comma = [], r_period = []\<rparr>" 3 1 True]
  by (simp add: lit_def upto.simps ends_dollar_def)

text \<open>
  A sequence with step zero never comes back: on the input \<open>{1..2..0}\<close> the loop of \<open>expand\<close> adds zero for
  ever, and neither \<open>expand\<close> nor \<open>expandTop\<close> returns.
\<close>

theorem expand_zero_step_diverges:
  "expand t (lit ''{1..2..0}'') isTop = None \<and> expandTop t (lit ''{1..2..0}'') = None"
proof -
  let ?body = "lit ''1..2..0''"
  have split: "dots_split ?body = map lit [''1'', ''2'', ''0'']"
    using dots_split_pieces [of "map lit [''1'', ''2'', ''0'']"] by (simp add: lit_def)
  have m: "balanced open_brace close_brace (lit ''{1..2..0}'') =
      Some \<lparr>bm_start = 0, bm_end = 8, bm_pre = [], bm_body = ?body, bm_post = []\<rparr>"
    using balanced_first [of open_brace close_brace "[]" ?body "[]"] by (simp add: lit_def)
  have pieces: "signed_digits (lit ''1'')" "signed_digits (lit ''2'')" "signed_digits (lit ''0'')"
    by (simp_all add: signed_digits_def lit_def)
  have nums: "numeric (lit ''1'') = 1" "numeric (lit ''2'') = 2" "numeric (lit ''0'') = 0"
    by (simp_all add: numeric_def pieces) (simp_all add: parse_int_def digits_value_def lit_def js_white_def)
  have "sequence_items ?body = None"
    by (simp add: sequence_items_def split Let_def nums seq_loop_zero)
  then have none: "expand t (lit ''{1..2..0}'') isTop = None" for isTop
    by (subst expand.simps) (simp add: m isNumericSequence_def is_sequence_of_def split pieces Let_def ends_dollar_def)
  have "swap_str [backslash, c] new (lit ''{1..2..0}'') = lit ''{1..2..0}''" for c new
    using index_of_free [of "[backslash, c]" "lit ''{1..2..0}''"]
    by (simp add: swap_str_def split_str.simps [of "[backslash, c]"] lit_def)
  then have "escapeBraces t (lit ''{1..2..0}'') = lit ''{1..2..0}''" by (simp add: escapeBraces_def)
  moreover have "take 2 (lit ''{1..2..0}'') \<noteq> [open_brace, close_brace]" by (simp add: lit_def)
  ultimately show ?thesis using none by (simp add: expandTop_def Let_def)
qed

lemma expand_plain: "open_brace \<notin> set s \<Longrightarrow> expand t s isTop = Some [s]"
proof -
  assume "open_brace \<notin> set s"
  then have "idx open_brace s 0 = -1" by (intro idx_none) (auto simp: in_set_conv_nth)
  then have "balanced open_brace close_brace s = None" by (simp add: balanced_def range_braces_def)
  then show ?thesis by (subst expand.simps) simp
qed

lemma parseCommaParts_plain:
  assumes "open_brace \<notin> set s"
  shows "parseCommaParts s = split1 comma s"
proof -
  have "idx open_brace s 0 = -1" using assms by (intro idx_none) (auto simp: in_set_conv_nth)
  then have "balanced open_brace close_brace s = None" by (simp add: balanced_def range_braces_def)
  then show ?thesis by (subst parseCommaParts.simps) simp
qed

lemma signed_digits_no_comma: "signed_digits p \<Longrightarrow> comma \<notin> set p"
  by (cases p) (auto simp: signed_digits_def list_all_iff split: if_splits)

lemma one_letter_no_comma: "one_letter p \<Longrightarrow> comma \<notin> set p"
  by (auto simp: one_letter_def length_Suc_conv)

lemma comma_not_sequence:
  assumes "comma \<in> set s" "\<And>p. P p \<Longrightarrow> comma \<notin> set p"
  shows "\<not> is_sequence_of P s"
proof
  define n where "n = dots_split s"
  assume "is_sequence_of P s"
  then have seq: "length n = 2 \<or> length n = 3 \<and> signed_digits (n ! 2)" "P (n ! 0)" "P (n ! 1)"
    by (simp_all add: is_sequence_of_def Let_def n_def)
  have "comma \<notin> set p" if "p \<in> set n" for p
  proof -
    from that obtain k where k: "k < length n" "p = n ! k" by (auto simp: in_set_conv_nth)
    then consider "k = 0" | "k = 1" | "k = 2" "signed_digits (n ! 2)" using seq(1) by linarith
    then show ?thesis using k seq assms(2) signed_digits_no_comma by cases auto
  qed
  moreover have "s = join (lit ''..'') n" by (simp add: n_def dots_split_def)
  ultimately show False
    using assms(1) set_join_subset [of "lit ''..''" n] by (auto simp: lit_def)
qed

lemma mapO_plain: "list_all (\<lambda>p. open_brace \<notin> set p) ps \<Longrightarrow> mapO (\<lambda>el. expand t el isTop) ps = Some (map (\<lambda>p. [p]) ps)"
  by (induction ps) (simp_all add: expand_plain)

text \<open>
  A set of alternatives multiplies: \<open>{p1,...,pn}\<close> with at least two plain members, after a plain prefix and before any text, expands to the
  prefix with each member in turn followed by each expansion of the text after it; if that text does not expand, neither does the whole.
\<close>

theorem expand_alternatives:
  assumes "open_brace \<notin> set pre" "\<not> ends_dollar pre" "2 \<le> length ps"
    "list_all (\<lambda>p. open_brace \<notin> set p \<and> close_brace \<notin> set p \<and> comma \<notin> set p) ps"
  shows "expand t (pre @ [open_brace] @ join [comma] ps @ [close_brace] @ post) False =
    map_option (\<lambda>posts. concat (map (\<lambda>x. map (\<lambda>p. pre @ x @ p) posts) ps))
      (if post = [] then Some [[]] else expand t post False)"
proof -
  let ?body = "join [comma] ps"
  have free: "open_brace \<notin> set ?body" "close_brace \<notin> set ?body"
    using assms(4) set_join_subset [of "[comma]" ps] by (auto simp: list_all_iff)
  have m: "balanced open_brace close_brace (pre @ [open_brace] @ ?body @ [close_brace] @ post) =
      Some \<lparr>bm_start = length pre, bm_end = length pre + length ?body + 1, bm_pre = pre, bm_body = ?body, bm_post = post\<rparr>"
    using assms(1) free by (intro balanced_first) auto
  obtain p q qs where ps: "ps = p # q # qs" using assms(3) by (cases ps; cases "tl ps") auto
  have com: "comma \<in> set ?body" by (simp add: ps)
  have seq: "\<not> isNumericSequence ?body" "\<not> isAlphaSequence ?body"
    unfolding isNumericSequence_def isAlphaSequence_def
    using comma_not_sequence [OF com] signed_digits_no_comma one_letter_no_comma by blast+
  have parts: "parseCommaParts ?body = ps"
    unfolding parseCommaParts_plain [OF free(1)]
    using assms(4) ps by (intro split1_join) (auto simp: list_all_iff)
  have items: "mapO (\<lambda>el. expand t el False) ps = Some (map (\<lambda>p. [p]) ps)"
    using assms(4) by (intro mapO_plain) (auto simp: list_all_iff)
  have concat_id: "concat (map (\<lambda>p. [p]) xs) = xs" for xs :: "jstring list" by (induction xs) auto
  let ?posts = "if post = [] then Some [[]] else expand t post False"
  have "expand t (pre @ [open_brace] @ ?body @ [close_brace] @ post) False =
      Option.bind ?posts (\<lambda>posts. Some (concat (map (\<lambda>x. map (\<lambda>p. pre @ x @ p) posts) ps)))"
    using m assms(2,3) com
    by (subst expand.simps) (simp add: seq parts items concat_id combine_def)
  then show ?thesis by (cases ?posts) simp_all
qed

theorem expand_alternatives_witness:
  "expand \<lparr>r_slash = [], r_open = [], r_close = [], r_comma = [], r_period = []\<rparr>
     (lit ''x'' @ [open_brace] @ join [comma] [lit ''a'', lit ''b''] @ [close_brace] @ []) False =
   Some [lit ''xa'', lit ''xb'']"
  using expand_alternatives [of "lit ''x''" "[lit ''a'', lit ''b'']"
      "\<lparr>r_slash = [], r_open = [], r_close = [], r_comma = [], r_period = []\<rparr>" "[]"]
  by (simp add: lit_def ends_dollar_def)

end
