(* ===== verification/Minimatch.thy ===== *)
theory Minimatch
  imports JS_RegExp Brace_Expansion
begin

text \<open>
  The glob patterns of \<open>minimatch\<close>, as bundled in \<open>src/site/assets/javascripts/lunr/wordcut.js\<close> (module 20): a pattern is expanded,
  split at its slashes, and every portion is translated into the text of a regular expression; a path is matched
  portion by portion, \<open>**\<close> swallowing as many as it likes. \<open>path.sep\<close> is the slash of the bundled path module. The
  translation is a loop over the characters with the state of the source; it calls itself on the text of a bracket that
  turns out not to be a class. The lemmas show what simple patterns match, down to the matching of the expression, how
  paths are matched, and what negation and partial matching mean.
\<close>

section \<open>Options\<close>

record mm_options =
  o_nocomment :: bool
  o_nonegate :: bool
  o_nobrace :: bool
  o_noglobstar :: bool
  o_nocase :: bool
  o_noext :: bool
  o_dot :: bool
  o_matchBase :: bool
  o_flipNegate :: bool
  o_nonull :: bool

definition default_options :: mm_options where
  "default_options = \<lparr>o_nocomment = False, o_nonegate = False, o_nobrace = False, o_noglobstar = False, o_nocase = False,
     o_noext = False, o_dot = False, o_matchBase = False, o_flipNegate = False, o_nonull = False\<rparr>"

abbreviation bang :: code_unit where "bang \<equiv> 0x21"
abbreviation hash :: code_unit where "hash \<equiv> 0x23"
abbreviation lparen :: code_unit where "lparen \<equiv> 0x28"
abbreviation rparen :: code_unit where "rparen \<equiv> 0x29"
abbreviation asterisk :: code_unit where "asterisk \<equiv> 0x2A"
abbreviation plus_sign :: code_unit where "plus_sign \<equiv> 0x2B"
abbreviation full_stop :: code_unit where "full_stop \<equiv> 0x2E"
abbreviation question :: code_unit where "question \<equiv> 0x3F"
abbreviation at_sign :: code_unit where "at_sign \<equiv> 0x40"
abbreviation lbracket :: code_unit where "lbracket \<equiv> 0x5B"
abbreviation rbracket :: code_unit where "rbracket \<equiv> 0x5D"
abbreviation caret :: code_unit where "caret \<equiv> 0x5E"
abbreviation bar :: code_unit where "bar \<equiv> 0x7C"

section \<open>Translating a portion\<close>

definition qmark :: jstring where "qmark = lit ''[^/]''"

definition star :: jstring where "star = qmark @ lit ''*?''"

definition pl_open :: "code_unit \<Rightarrow> jstring" where
  "pl_open c = (if c = bang then lit ''(?:(?!(?:'' else lit ''(?:'')"

definition pl_close :: "code_unit \<Rightarrow> jstring" where
  "pl_close c =
     (if c = bang then lit ''))[^/]*?)'' else if c = question then lit '')?''
      else if c = plus_sign then lit '')+'' else if c = asterisk then lit '')*'' else lit '')'')"

definition reSpecials :: "jstring" where
  "reSpecials = lit ''().*{}+?[]^$'' @ [backslash, bang]"

record pattern_list =
  pl_type :: code_unit
  pl_start :: int
  pl_reStart :: nat
  pl_reEnd :: nat

record parse_state =
  re :: jstring
  hasMagic :: bool
  escaping :: bool
  patternListStack :: "pattern_list list"
  negativeLists :: "pattern_list list"
  stateChar :: "code_unit option"
  inClass :: bool
  reClassStart :: int
  classStart :: int

definition parse_init :: "mm_options \<Rightarrow> parse_state" where
  "parse_init opts = \<lparr>re = [], hasMagic = o_nocase opts, escaping = False, patternListStack = [], negativeLists = [],
     stateChar = None, inClass = False, reClassStart = -1, classStart = -1\<rparr>"

definition emit_re :: "jstring \<Rightarrow> parse_state \<Rightarrow> parse_state" where
  "emit_re t st = st\<lparr>re := re st @ t\<rparr>"

definition clearStateChar :: "parse_state \<Rightarrow> parse_state" where
  "clearStateChar st =
     (case stateChar st of
        None \<Rightarrow> st
      | Some c \<Rightarrow>
          (if c = asterisk then (emit_re star st)\<lparr>hasMagic := True, stateChar := None\<rparr>
           else if c = question then (emit_re qmark st)\<lparr>hasMagic := True, stateChar := None\<rparr>
           else (emit_re [backslash, c] st)\<lparr>stateChar := None\<rparr>))"

text \<open>
  The result of one character: \<open>return false\<close> at a slash, the next state, or a bracket that is not a valid class, with the text
  that has to be translated again.
\<close>

datatype step_result = Slash | Next parse_state | BadClass parse_state jstring

text \<open>The cases of the \<open>switch\<close>.\<close>

definition on_stateChar :: "mm_options \<Rightarrow> nat \<Rightarrow> code_unit \<Rightarrow> parse_state \<Rightarrow> parse_state" where
  "on_stateChar opts i c st =
     (if inClass st then emit_re [if c = bang \<and> int i = classStart st + 1 then caret else c] st
      else let st1 = (clearStateChar st)\<lparr>stateChar := Some c\<rparr>
           in if o_noext opts then clearStateChar st1 else st1)"

definition on_lparen :: "nat \<Rightarrow> parse_state \<Rightarrow> parse_state" where
  "on_lparen i st =
     (if inClass st then emit_re [lparen] st
      else case stateChar st of
             None \<Rightarrow> emit_re [backslash, lparen] st
           | Some c \<Rightarrow>
               (emit_re (pl_open c) st)
                 \<lparr>patternListStack :=
                    \<lparr>pl_type = c, pl_start = int i - 1, pl_reStart = length (re st), pl_reEnd = 0\<rparr> # patternListStack st,
                  stateChar := None\<rparr>)"

definition on_rparen :: "parse_state \<Rightarrow> parse_state" where
  "on_rparen st =
     (if inClass st \<or> patternListStack st = [] then emit_re [backslash, rparen] st
      else let st1 = clearStateChar st;
               pl = hd (patternListStack st1);
               st2 = emit_re (pl_close (pl_type pl)) st1;
               pl' = pl\<lparr>pl_reEnd := length (re st2)\<rparr>
           in st2\<lparr>hasMagic := True, patternListStack := tl (patternListStack st1),
                  negativeLists := negativeLists st @ (if pl_type pl = bang then [pl'] else [])\<rparr>)"

definition on_bar :: "parse_state \<Rightarrow> parse_state" where
  "on_bar st =
     (if inClass st \<or> patternListStack st = [] \<or> escaping st then (emit_re [backslash, bar] st)\<lparr>escaping := False\<rparr>
      else emit_re [bar] (clearStateChar st))"

definition on_lbracket :: "nat \<Rightarrow> parse_state \<Rightarrow> parse_state" where
  "on_lbracket i st =
     (let st1 = clearStateChar st
      in if inClass st1 then emit_re [backslash, lbracket] st1
         else (emit_re [lbracket] st1)\<lparr>inClass := True, classStart := int i, reClassStart := int (length (re st1))\<rparr>)"

definition on_rbracket :: "jstring \<Rightarrow> nat \<Rightarrow> parse_state \<Rightarrow> step_result" where
  "on_rbracket pattern i st =
     (if int i = classStart st + 1 \<or> \<not> inClass st
      then Next ((emit_re [backslash, rbracket] st)\<lparr>escaping := False\<rparr>)
      else let cs = drop (Suc (nat (classStart st))) (take i pattern)
           in if RegExp ([lbracket] @ cs @ [rbracket]) = None then BadClass st cs
              else Next ((emit_re [rbracket] st)\<lparr>hasMagic := True, inClass := False\<rparr>))"

definition on_other :: "code_unit \<Rightarrow> parse_state \<Rightarrow> parse_state" where
  "on_other c st =
     (let st1 = clearStateChar st
      in if escaping st1 then (emit_re [c] st1)\<lparr>escaping := False\<rparr>
         else if c \<in> set reSpecials \<and> \<not> (c = caret \<and> inClass st1) then emit_re [backslash, c] st1
         else emit_re [c] st1)"

definition step :: "mm_options \<Rightarrow> jstring \<Rightarrow> nat \<Rightarrow> code_unit \<Rightarrow> parse_state \<Rightarrow> step_result" where
  "step opts pattern i c st =
     (if escaping st \<and> c \<in> set reSpecials then Next ((emit_re [backslash, c] st)\<lparr>escaping := False\<rparr>)
      else if c = slash then Slash
      else if c = backslash then Next ((clearStateChar st)\<lparr>escaping := True\<rparr>)
      else if c \<in> {question, asterisk, plus_sign, at_sign, bang} then Next (on_stateChar opts i c st)
      else if c = lparen then Next (on_lparen i st)
      else if c = rparen then Next (on_rparen st)
      else if c = bar then Next (on_bar st)
      else if c = lbracket then Next (on_lbracket i st)
      else if c = rbracket then on_rbracket pattern i st
      else Next (on_other c st))"

text \<open>
  What \<open>parse(cs, SUBPARSE)\<close> returns, as its caller reads it: the text and the flag, or something
  whose elements 0 and 1 are \<open>undefined\<close> (the object \<open>GLOBSTAR\<close>, the empty string, or \<open>false\<close>).
\<close>

datatype sub_result = SubText jstring bool | SubUndefined

fun sub_text :: "sub_result \<Rightarrow> jstring" where
  "sub_text (SubText t m) = t"
| "sub_text SubUndefined = lit ''undefined''"

fun sub_magic :: "sub_result \<Rightarrow> bool" where
  "sub_magic (SubText t m) = m"
| "sub_magic SubUndefined = False"

definition reopen_class :: "sub_result \<Rightarrow> jstring \<Rightarrow> parse_state \<Rightarrow> parse_state" where
  "reopen_class sub closing st =
     st\<lparr>re := take (nat (reClassStart st)) (re st) @ [backslash, lbracket] @ sub_text sub @ closing,
        hasMagic := (hasMagic st \<or> sub_magic sub)\<rparr>"

text \<open>The bars of a list that is not closed are escaped, the pairs of backslashes before them doubled.\<close>

function escape_bars :: "jstring \<Rightarrow> jstring" where
  "escape_bars s =
     (if s = [] then []
      else let n = length (takeWhile (\<lambda>c. c = backslash) s); r = drop n s
           in if r \<noteq> [] \<and> hd r = bar \<and> n \<le> 129
              then replicate (4 * (n div 2)) backslash @ [backslash, bar] @ escape_bars (tl r)
              else hd s # escape_bars (tl s))"
  by pat_completeness auto

termination
  by (relation "measure length") (auto simp: Let_def)

declare escape_bars.simps [simp del]

fun close_lists :: "pattern_list list \<Rightarrow> parse_state \<Rightarrow> parse_state" where
  "close_lists [] st = st"
| "close_lists (pl # pls) st =
     (let tail = escape_bars (drop (pl_reStart pl + length (pl_open (pl_type pl))) (re st));
          t = (if pl_type pl = asterisk then star else if pl_type pl = question then qmark
               else [backslash, pl_type pl])
      in close_lists pls
           (st\<lparr>hasMagic := True, re := take (pl_reStart pl) (re st) @ t @ [backslash, lparen] @ tail\<rparr>))"

text \<open>\<open>cleanAfter.replace(/\)[+*?]?/, '')\<close>\<close>

fun drop_close :: "jstring \<Rightarrow> jstring" where
  "drop_close [] = []"
| "drop_close (c # s) =
     (if c = rparen then (if s \<noteq> [] \<and> hd s \<in> {plus_sign, asterisk, question} then tl s else s)
      else c # drop_close s)"

definition negative_list :: "bool \<Rightarrow> pattern_list \<Rightarrow> jstring \<Rightarrow> jstring" where
  "negative_list isSub nl src =
     (let nlBefore = take (pl_reStart nl) src;
          nlFirst = drop (pl_reStart nl) (take (pl_reEnd nl - 8) src);
          nlLast = drop (pl_reEnd nl - 8) (take (pl_reEnd nl) src);
          nlAfter = drop (pl_reEnd nl) src;
          cleanAfter = (drop_close ^^ length (filter (\<lambda>c. c = lparen) nlBefore)) nlAfter;
          dollar = (if cleanAfter = [] \<and> \<not> isSub then [0x24] else [])
      in nlBefore @ nlFirst @ cleanAfter @ dollar @ nlLast @ nlAfter)"

definition patternStart :: "mm_options \<Rightarrow> jstring \<Rightarrow> jstring" where
  "patternStart opts pattern =
     (if pattern \<noteq> [] \<and> hd pattern = full_stop then []
      else if o_dot opts
      then lit ''(?!(?:^|'' @ [backslash, slash] @ lit '')'' @ [backslash] @ lit ''.{1,2}(?:$|'' @ [backslash, slash] @ lit ''))''
      else lit ''(?!'' @ [backslash] @ lit ''.)'')"

text \<open>The part of \<open>parse\<close> after the loop and after an open class.\<close>

definition finish_parse :: "mm_options \<Rightarrow> bool \<Rightarrow> jstring \<Rightarrow> parse_state \<Rightarrow> jstring \<times> bool" where
  "finish_parse opts isSub pattern st =
     (let st1 = clearStateChar (close_lists (patternListStack st) st);
          src1 = (if escaping st1 then re st1 @ [backslash, backslash] else re st1);
          addPatternStart = (src1 \<noteq> [] \<and> hd src1 \<in> {full_stop, lbracket, lparen});
          src2 = foldr (negative_list isSub) (negativeLists st1) src1;
          src3 = (if src2 \<noteq> [] \<and> hasMagic st1 then lit ''(?=.)'' @ src2 else src2)
      in (if addPatternStart then patternStart opts pattern @ src3 else src3, hasMagic st1))"

lemma step_BadClass: "step opts pattern i c st = BadClass st' cs \<Longrightarrow> cs = [] \<or> length cs < length pattern"
  by (auto simp: step_def on_rbracket_def Let_def split: if_splits)

function parse_loop :: "mm_options \<Rightarrow> jstring \<Rightarrow> nat \<Rightarrow> jstring \<Rightarrow> parse_state \<Rightarrow> parse_state option"
  and subparse :: "mm_options \<Rightarrow> jstring \<Rightarrow> sub_result" where
  "parse_loop opts pattern i [] st =
     Some (if inClass st
           then reopen_class (subparse opts (drop (Suc (nat (classStart st))) pattern)) [] st
           else st)"
| "parse_loop opts pattern i (c # s) st =
     (case step opts pattern i c st of
        Slash \<Rightarrow> None
      | Next st' \<Rightarrow> parse_loop opts pattern (Suc i) s st'
      | BadClass st' cs \<Rightarrow>
          parse_loop opts pattern (Suc i) s
            ((reopen_class (subparse opts cs) [backslash, rbracket] st')\<lparr>inClass := False\<rparr>))"
| "subparse opts cs =
     (if \<not> o_noglobstar opts \<and> cs = lit ''**'' \<or> cs = [] then SubUndefined
      else case parse_loop opts cs 0 cs (parse_init opts) of
             None \<Rightarrow> SubUndefined
           | Some st \<Rightarrow> (case finish_parse opts True cs st of (t, m) \<Rightarrow> SubText t m))"
  by pat_completeness auto

termination
proof (relation "inv_image (less_than <*lex*> less_than) (\<lambda>x. case x of
      Inl (opts, pattern, i, s, st) \<Rightarrow> (length pattern, Suc (length s))
    | Inr (opts, cs) \<Rightarrow> (length cs, if cs = [] then 0 else Suc (Suc (length cs))))")
qed (auto split: if_splits dest: step_BadClass)

declare parse_loop.simps(2) [simp del] subparse.simps [simp del]

text \<open>\<open>s.replace(/\\(.)/g, '$1')\<close>\<close>

fun globUnescape :: "jstring \<Rightarrow> jstring" where
  "globUnescape (c # d # s) =
     (if c = backslash \<and> \<not> line_break d then d # globUnescape s else c # globUnescape (d # s))"
| "globUnescape s = s"

text \<open>A translated portion: \<open>GLOBSTAR\<close>, a string, or an expression with its \<open>_glob\<close> and \<open>_src\<close>, which the fallback \<open>/$./\<close> does not have.\<close>

datatype portion = Globstar | Plain jstring | Magic "(jstring \<times> jstring) option" regex

definition never :: regex where "never = Cat AtEnd (Cat Dot Eps)"

text \<open>\<open>parse(pattern)\<close>; the inner \<^term>\<open>None\<close> is \<open>false\<close>.\<close>

definition parse :: "mm_options \<Rightarrow> jstring \<Rightarrow> js_error + portion option" where
  "parse opts pattern =
     (if 65536 < length pattern then Inl TypeError
      else if \<not> o_noglobstar opts \<and> pattern = lit ''**'' then Inr (Some Globstar)
      else if pattern = [] then Inr (Some (Plain []))
      else case parse_loop opts pattern 0 pattern (parse_init opts) of
             None \<Rightarrow> Inr None
           | Some st \<Rightarrow>
               (let (src, magic) = finish_parse opts False pattern st
                in if \<not> magic then Inr (Some (Plain (globUnescape pattern)))
                   else case RegExp (caret # src @ [0x24]) of
                          None \<Rightarrow> Inr (Some (Magic None never))
                        | Some r \<Rightarrow> Inr (Some (Magic (Some (pattern, src)) r))))"

section \<open>The object\<close>

record minimatch_obj =
  m_options :: mm_options
  m_set :: "portion list list"
  m_globSet :: "jstring list"
  m_pattern :: jstring
  m_regexp :: "jstring option option"
  m_negate :: bool
  m_comment :: bool
  m_empty :: bool

text \<open>\<open>s.split(/\/+/)\<close>\<close>

function slash_split :: "jstring \<Rightarrow> jstring list" where
  "slash_split [] = [[]]"
| "slash_split (c # s) =
     (if c = slash then [] # slash_split (dropWhile (\<lambda>d. d = slash) s)
      else case slash_split s of [] \<Rightarrow> [[c]] | p # ps \<Rightarrow> (c # p) # ps)"
  by pat_completeness auto

termination
  by (relation "measure length") (auto simp: length_dropWhile_le le_imp_less_Suc)

definition parseNegate :: "mm_options \<Rightarrow> jstring \<Rightarrow> jstring \<times> bool" where
  "parseNegate opts pattern =
     (if o_nonegate opts then (pattern, False)
      else let negateOffset = length (takeWhile (\<lambda>c. c = bang) pattern)
           in (drop negateOffset pattern, odd negateOffset))"

text \<open>\<open>/\{.*\}/\<close>: an opening brace and, later on the same line, a closing one.\<close>

fun has_braces :: "jstring \<Rightarrow> bool" where
  "has_braces [] = False"
| "has_braces (c # s) =
     (c = open_brace \<and> close_brace \<in> set (takeWhile (\<lambda>d. \<not> line_end d) s) \<or> has_braces s)"

definition braceExpand :: "markers \<Rightarrow> mm_options \<Rightarrow> jstring \<Rightarrow> jstring list option" where
  "braceExpand t opts pattern =
     (if o_nobrace opts \<or> \<not> has_braces pattern then Some [pattern] else expandTop t pattern)"

text \<open>
  \<open>make\<close>; the outer \<^term>\<open>None\<close> is a call that does not return, which only the expansion of braces can cause. A set that holds
  a portion that did not translate is filtered out.
\<close>

definition make_mm :: "markers \<Rightarrow> minimatch_obj \<Rightarrow> (js_error + minimatch_obj) option" where
  "make_mm t m =
     (let opts = m_options m; pattern = m_pattern m
      in if \<not> o_nocomment opts \<and> pattern \<noteq> [] \<and> hd pattern = hash then Some (Inr (m\<lparr>m_comment := True\<rparr>))
         else if pattern = [] then Some (Inr (m\<lparr>m_empty := True\<rparr>))
         else let (pattern', neg) = parseNegate opts pattern
              in case braceExpand t opts pattern' of
                   None \<Rightarrow> None
                 | Some globSet \<Rightarrow>
                     Some (bindE (mapE (\<lambda>s. mapE (parse opts) (slash_split s)) globSet)
                       (\<lambda>set. Inr (m\<lparr>m_pattern := pattern', m_negate := neg,
                          m_set := map (map the) (filter (\<lambda>s. None \<notin> List.set s) set), m_globSet := globSet\<rparr>))))"

definition Minimatch :: "markers \<Rightarrow> mm_options \<Rightarrow> jstring \<Rightarrow> (js_error + minimatch_obj) option" where
  "Minimatch t opts pattern =
     make_mm t \<lparr>m_options = opts, m_set = [], m_globSet = [], m_pattern = trim pattern, m_regexp = None, m_negate = False,
       m_comment = False, m_empty = False\<rparr>"

section \<open>Matching a path\<close>

text \<open>What the engine knows of letters: \<open>toLowerCase\<close>, and the case folding of the flag \<open>i\<close>.\<close>

record letter_case =
  lower :: "jstring \<Rightarrow> jstring"
  fold_case :: "code_unit \<Rightarrow> code_unit"

definition flag_i :: "letter_case \<Rightarrow> mm_options \<Rightarrow> (code_unit \<Rightarrow> code_unit) option" where
  "flag_i lc opts = (if o_nocase opts then Some (fold_case lc) else None)"

text \<open>A segment that \<open>**\<close> does not swallow.\<close>

definition dotted :: "mm_options \<Rightarrow> jstring \<Rightarrow> bool" where
  "dotted opts f \<longleftrightarrow> f = lit ''.'' \<or> f = lit ''..'' \<or> \<not> o_dot opts \<and> f \<noteq> [] \<and> hd f = full_stop"

fun hit :: "letter_case \<Rightarrow> mm_options \<Rightarrow> portion \<Rightarrow> jstring \<Rightarrow> bool" where
  "hit lc opts Globstar f = True"
| "hit lc opts (Plain p) f = (if o_nocase opts then lower lc f = lower lc p else f = p)"
| "hit lc opts (Magic src r) f = matches (flag_i lc opts) r f"

function matchOne :: "letter_case \<Rightarrow> mm_options \<Rightarrow> jstring list \<Rightarrow> portion list \<Rightarrow> bool \<Rightarrow> bool"
  and swallow :: "letter_case \<Rightarrow> mm_options \<Rightarrow> jstring list \<Rightarrow> portion list \<Rightarrow> bool \<Rightarrow> bool" where
  "matchOne lc opts [] [] partial = True"
| "matchOne lc opts [] (p # ps) partial = partial"
| "matchOne lc opts (f # fs) [] partial = (fs = [] \<and> f = [])"
| "matchOne lc opts (f # fs) (p # ps) partial =
     (if p = Globstar
      then (if ps = [] then \<not> list_ex (dotted opts) (f # fs) else swallow lc opts (f # fs) ps partial)
      else hit lc opts p f \<and> matchOne lc opts fs ps partial)"
| "swallow lc opts [] ps partial = partial"
| "swallow lc opts (f # fs) ps partial =
     (matchOne lc opts (f # fs) ps partial \<or> \<not> dotted opts f \<and> swallow lc opts fs ps partial)"
  by pat_completeness auto

termination
  by (relation "inv_image (less_than <*lex*> less_than) (\<lambda>x. case x of
      Inl (lc, opts, file, pattern, partial) \<Rightarrow> (2 * length pattern, length file)
    | Inr (lc, opts, file, ps, partial) \<Rightarrow> (2 * length ps + 1, length file))") auto

text \<open>The last segment that is not empty.\<close>

definition base_of :: "jstring list \<Rightarrow> jstring" where
  "base_of f = (case filter (\<lambda>s. s \<noteq> []) f of [] \<Rightarrow> [] | fs \<Rightarrow> last fs)"

definition match_obj :: "letter_case \<Rightarrow> minimatch_obj \<Rightarrow> jstring \<Rightarrow> bool \<Rightarrow> bool" where
  "match_obj lc m f partial =
     (let opts = m_options m
      in if m_comment m then False
         else if m_empty m then f = []
         else if f = [slash] \<and> partial then True
         else let file = slash_split f;
                  found = list_ex (\<lambda>pattern. matchOne lc opts
                     (if o_matchBase opts \<and> length pattern = 1 then [base_of file] else file) pattern partial) (m_set m)
              in if o_flipNegate opts then found else found \<noteq> m_negate m)"

text \<open>\<open>minimatch(p, pattern, options)\<close>\<close>

definition minimatch ::
    "markers \<Rightarrow> letter_case \<Rightarrow> mm_options \<Rightarrow> jstring \<Rightarrow> jstring \<Rightarrow> (js_error + bool) option" where
  "minimatch t lc opts p pattern =
     (if \<not> o_nocomment opts \<and> pattern \<noteq> [] \<and> hd pattern = hash then Some (Inr False)
      else if trim pattern = [] then Some (Inr (p = []))
      else map_option (\<lambda>r. bindE r (\<lambda>m. Inr (match_obj lc m p False))) (Minimatch t opts pattern))"

text \<open>\<open>minimatch.match(list, pattern, options)\<close>\<close>

definition match_list ::
    "markers \<Rightarrow> letter_case \<Rightarrow> mm_options \<Rightarrow> jstring list \<Rightarrow> jstring \<Rightarrow> (js_error + jstring list) option" where
  "match_list t lc opts fs pattern =
     map_option (\<lambda>r. bindE r (\<lambda>m.
       let hits = filter (\<lambda>f. match_obj lc m f False) fs
       in Inr (if o_nonull (m_options m) \<and> hits = [] then [pattern] else hits))) (Minimatch t opts pattern)"

section \<open>One expression for the whole pattern\<close>

definition twoStarDot :: jstring where
  "twoStarDot = lit ''(?:(?!(?:'' @ [backslash, slash] @ lit ''|^)(?:'' @ [backslash] @ lit ''.{1,2})($|'' @
     [backslash, slash] @ lit '')).)*?''"

definition twoStarNoDot :: jstring where
  "twoStarNoDot = lit ''(?:(?!(?:'' @ [backslash, slash] @ lit ''|^)'' @ [backslash] @ lit ''.).)*?''"

definition regExpEscape :: "jstring \<Rightarrow> jstring" where
  "regExpEscape s =
     concat (map (\<lambda>c. if c \<in> set (lit ''-[]{}()*+?.,^$|#'') \<or> c = backslash \<or> js_white c then [backslash, c] else [c]) s)"

fun portion_src :: "mm_options \<Rightarrow> portion \<Rightarrow> jstring" where
  "portion_src opts Globstar =
     (if o_noglobstar opts then star else if o_dot opts then twoStarDot else twoStarNoDot)"
| "portion_src opts (Plain p) = regExpEscape p"
| "portion_src opts (Magic src r) = (case src of Some (g, s) \<Rightarrow> s | None \<Rightarrow> [])"

definition makeRe :: "minimatch_obj \<Rightarrow> minimatch_obj \<times> jstring option" where
  "makeRe m =
     (case m_regexp m of
        Some r \<Rightarrow> (m, r)
      | None \<Rightarrow>
          if m_set m = [] then (m\<lparr>m_regexp := Some None\<rparr>, None)
          else let src = lit ''^(?:'' @ join [bar] (map (\<lambda>pattern. join [backslash, slash]
                     (map (portion_src (m_options m)) pattern)) (m_set m)) @ lit '')$'';
                   src' = (if m_negate m then lit ''^(?!'' @ src @ lit '').*$'' else src);
                   r = (if RegExp src' = None then None else Some src')
               in (m\<lparr>m_regexp := Some r\<rparr>, r))"

section \<open>Paths\<close>

text \<open>
  What a list of portions matches, without a search: the segments one by one, \<open>**\<close> any number of segments that are not
  dotted, and a slash at the end of the path for nothing.
\<close>

inductive path_matches :: "letter_case \<Rightarrow> mm_options \<Rightarrow> jstring list \<Rightarrow> portion list \<Rightarrow> bool" for lc opts where
  nothing: "path_matches lc opts [] []"
| trailing_slash: "path_matches lc opts [[]] []"
| segment: "p \<noteq> Globstar \<Longrightarrow> hit lc opts p f \<Longrightarrow> path_matches lc opts fs ps \<Longrightarrow> path_matches lc opts (f # fs) (p # ps)"
| globstar_last: "fs \<noteq> [] \<Longrightarrow> \<not> list_ex (dotted opts) fs \<Longrightarrow> path_matches lc opts fs [Globstar]"
| globstar: "ps \<noteq> [] \<Longrightarrow> \<not> list_ex (dotted opts) us \<Longrightarrow> fs \<noteq> [] \<Longrightarrow> path_matches lc opts fs ps \<Longrightarrow>
    path_matches lc opts (us @ fs) (Globstar # ps)"

inductive_cases path_matches_Nil: "path_matches lc opts [] ps"
inductive_cases path_matches_Cons: "path_matches lc opts (f # fs) (p # ps)"
inductive_cases path_matches_end: "path_matches lc opts fs []"

lemma swallow_iff:
  assumes "ps \<noteq> []"
  shows "swallow lc opts fs ps partial \<longleftrightarrow>
    (\<exists>us vs. fs = us @ vs \<and> vs \<noteq> [] \<and> \<not> list_ex (dotted opts) us \<and> matchOne lc opts vs ps partial) \<or>
    partial \<and> \<not> list_ex (dotted opts) fs"
proof (induction fs)
  case (Cons f fs)
  show ?case (is "_ \<longleftrightarrow> ?R")
  proof
    assume "swallow lc opts (f # fs) ps partial"
    then consider "matchOne lc opts (f # fs) ps partial" | "\<not> dotted opts f" "swallow lc opts fs ps partial" by auto
    then show ?R
    proof cases
      case 1
      then have "f # fs = [] @ (f # fs) \<and> f # fs \<noteq> [] \<and> \<not> list_ex (dotted opts) [] \<and> matchOne lc opts (f # fs) ps partial"
        by simp
      then show ?thesis by blast
    next
      case 2
      from 2(2) Cons.IH consider us vs where "fs = us @ vs" "vs \<noteq> []" "\<not> list_ex (dotted opts) us" "matchOne lc opts vs ps partial"
        | "partial" "\<not> list_ex (dotted opts) fs" by blast
      then show ?thesis
      proof cases
        case 1
        then have "f # fs = (f # us) @ vs" "\<not> list_ex (dotted opts) (f # us)" using 2(1) by simp_all
        then show ?thesis using 1 by blast
      next
        case 3: 2
        then show ?thesis using 2(1) by simp
      qed
    qed
  next
    assume ?R
    then consider us vs where "f # fs = us @ vs" "vs \<noteq> []" "\<not> list_ex (dotted opts) us" "matchOne lc opts vs ps partial"
      | "partial" "\<not> list_ex (dotted opts) (f # fs)" by blast
    then show "swallow lc opts (f # fs) ps partial"
    proof cases
      case 1
      show ?thesis
      proof (cases us)
        case Nil
        with 1 have "matchOne lc opts (f # fs) ps partial" by simp
        then show ?thesis by simp
      next
        case (Cons u us')
        with 1 have "swallow lc opts fs ps partial" by (subst Cons.IH) auto
        with 1 Cons show ?thesis by simp
      qed
    next
      case 2
      then have "swallow lc opts fs ps partial" by (subst Cons.IH) auto
      with 2 show ?thesis by simp
    qed
  qed
qed simp

lemma matchOne_sound: "matchOne lc opts fs ps False \<Longrightarrow> path_matches lc opts fs ps"
proof (induction "length ps" arbitrary: fs ps rule: less_induct)
  case less
  show ?case
  proof (cases fs)
    case Nil
    with less.prems show ?thesis by (cases ps) (auto intro: path_matches.nothing)
  next
    case fs: (Cons f gs)
    show ?thesis
    proof (cases ps)
      case Nil
      with fs less.prems show ?thesis by (auto intro: path_matches.trailing_slash)
    next
      case ps: (Cons p qs)
      consider "p \<noteq> Globstar" | "p = Globstar" "qs = []" | "p = Globstar" "qs \<noteq> []" by blast
      then show ?thesis
      proof cases
        case 1
        with fs ps less show ?thesis by (auto intro: path_matches.segment)
      next
        case 2
        with fs ps less.prems show ?thesis by (auto intro: path_matches.globstar_last)
      next
        case 3
        with fs ps less.prems have "swallow lc opts fs qs False" by simp
        with 3 obtain us vs where "fs = us @ vs" "vs \<noteq> []" "\<not> list_ex (dotted opts) us" "matchOne lc opts vs qs False"
          using swallow_iff [of qs lc opts fs False] by blast
        with 3 ps less.hyps [of qs vs] show ?thesis by (auto intro: path_matches.globstar)
      qed
    qed
  qed
qed

lemma matchOne_complete: "path_matches lc opts fs ps \<Longrightarrow> matchOne lc opts fs ps False"
proof (induction rule: path_matches.induct)
  case (globstar_last fs)
  then show ?case by (cases fs) auto
next
  case (globstar ps us fs)
  then have "swallow lc opts (us @ fs) ps False" by (auto simp: swallow_iff)
  with globstar show ?case by (cases "us @ fs") auto
qed auto

text \<open>
  C21. A path matches a list of portions exactly when it can be divided among them: one segment for each ordinary portion, for
  \<open>**\<close> any number of segments of which none is dotted, and nothing left over but a slash at the end. The recursive search that the code
  calls awful finds such a division whenever there is one, and always ends.
\<close>

theorem matchOne_path_matches: "matchOne lc opts fs ps False \<longleftrightarrow> path_matches lc opts fs ps"
  using matchOne_sound matchOne_complete by blast

text \<open>
  C27. Partial matching never prunes too much: if a path matches a pattern, then every beginning of the path, cut at a
  slash, matches it partially. So a directory that does not match partially holds no file that matches.
\<close>

theorem matchOne_partial_prefix:
  assumes "matchOne lc opts (fs @ rest) ps False"
  shows "matchOne lc opts fs ps True"
proof -
  have "path_matches lc opts (fs @ rest) ps" using assms by (rule matchOne_sound)
  then show ?thesis
  proof (induction "fs @ rest" ps arbitrary: fs rest rule: path_matches.induct)
    case trailing_slash
    then show ?case by (cases fs) auto
  next
    case (segment p f gs ps)
    then show ?case by (cases fs) auto
  next
    case (globstar_last gs)
    then show ?case by (cases gs) auto
  next
    case (globstar ps us gs)
    show ?case
    proof (cases fs)
      case (Cons f fs')
      have "swallow lc opts fs ps True"
      proof (cases "length fs \<le> length us")
        case True
        then have "prefix fs us" using globstar.hyps(6) by (metis append_eq_append_conv_if prefixI append_take_drop_id)
        then have "\<not> list_ex (dotted opts) fs" using globstar.hyps(2) by (auto simp: prefix_def)
        then show ?thesis using globstar.hyps(1) by (simp add: swallow_iff)
      next
        case False
        then obtain vs where vs: "fs = us @ vs" "vs \<noteq> []" "gs = vs @ rest"
          using globstar.hyps(6) by (auto simp: append_eq_append_conv2)
        have "matchOne lc opts vs ps True" by (rule globstar.hyps(5)) (rule vs(3))
        then show ?thesis using globstar.hyps(1,2) vs by (auto simp: swallow_iff)
      qed
      with Cons globstar.hyps(1) show ?thesis by simp
    qed (simp)
  qed auto
qed

theorem matchOne_partial_prefix_witness:
  "matchOne \<lparr>lower = id, fold_case = id\<rparr> default_options [lit ''a'', lit ''b''] [Plain (lit ''a''), Globstar, Plain (lit ''c'')] True"
proof -
  have "matchOne \<lparr>lower = id, fold_case = id\<rparr> default_options ([lit ''a'', lit ''b''] @ [lit ''c''])
      [Plain (lit ''a''), Globstar, Plain (lit ''c'')] False"
    by (simp add: default_options_def dotted_def lit_def)
  then show ?thesis by (rule matchOne_partial_prefix)
qed

section \<open>Simple portions\<close>

text \<open>
  A portion made of ordinary characters, question marks and stars, and what it should match: the reading of a glob that
  people have in mind.
\<close>

datatype glob_item = GLit code_unit | GAny | GStar

fun item_text :: "glob_item \<Rightarrow> code_unit" where
  "item_text (GLit c) = c"
| "item_text GAny = question"
| "item_text GStar = asterisk"

fun is_magic :: "glob_item \<Rightarrow> bool" where
  "is_magic (GLit c) = False"
| "is_magic _ = True"

definition special_chars :: "code_unit set" where
  "special_chars = {slash, backslash, question, asterisk, plus_sign, at_sign, bang, lparen, rparen, bar, lbracket, rbracket}"

fun simple_item :: "glob_item \<Rightarrow> bool" where
  "simple_item (GLit c) = (c \<notin> special_chars)"
| "simple_item _ = True"

fun glob :: "glob_item list \<Rightarrow> jstring \<Rightarrow> bool" where
  "glob [] s = (s = [])"
| "glob (GLit c # g) s = (s \<noteq> [] \<and> hd s = c \<and> glob g (tl s))"
| "glob (GAny # g) s = (s \<noteq> [] \<and> glob g (tl s))"
| "glob (GStar # g) s = list_ex (\<lambda>n. glob g (drop n s)) [0..<Suc (length s)]"

text \<open>The pieces of the expression, as text, as tokens and as terms.\<close>

fun item_src :: "glob_item \<Rightarrow> jstring" where
  "item_src (GLit c) = (if c \<in> set reSpecials then [backslash, c] else [c])"
| "item_src GAny = qmark"
| "item_src GStar = star"

abbreviation no_slash :: regex where "no_slash \<equiv> Cls True [CRange slash slash]"

fun item_tokens :: "glob_item \<Rightarrow> token list" where
  "item_tokens (GLit c) = [TChr c]"
| "item_tokens GAny = [TCls True [CRange slash slash]]"
| "item_tokens GStar = [TCls True [CRange slash slash], TQuant 0 None]"

fun item_term :: "glob_item \<Rightarrow> regex \<times> bool" where
  "item_term (GLit c) = (Chr c, True)"
| "item_term GAny = (no_slash, True)"
| "item_term GStar = (Rep no_slash 0 None, False)"

definition item_re :: "glob_item \<Rightarrow> regex" where
  "item_re it = fst (item_term it)"

lemma item_re_simps [simp]: "item_re (GLit c) = Chr c" "item_re GAny = no_slash" "item_re GStar = Rep no_slash 0 None"
  by (simp_all add: item_re_def)

subsection \<open>The text\<close>

definition simple_state :: "parse_state \<Rightarrow> bool" where
  "simple_state st \<longleftrightarrow> \<not> escaping st \<and> \<not> inClass st \<and> patternListStack st = [] \<and> negativeLists st = []"

lemma clear_simps [simp]:
  "stateChar (clearStateChar st) = None"
  "escaping (clearStateChar st) = escaping st" "inClass (clearStateChar st) = inClass st"
  "patternListStack (clearStateChar st) = patternListStack st" "negativeLists (clearStateChar st) = negativeLists st"
  "clearStateChar (clearStateChar st) = clearStateChar st"
  "simple_state (clearStateChar st) = simple_state st"
  by (auto simp: clearStateChar_def emit_re_def simple_state_def split: option.split)

lemma step_item:
  assumes "simple_item it" "simple_state st" "\<not> o_noext opts"
  shows "\<exists>st'. step opts pattern i (item_text it) st = Next st' \<and> simple_state st' \<and>
    re (clearStateChar st') = re (clearStateChar st) @ item_src it \<and>
    hasMagic (clearStateChar st') = (hasMagic (clearStateChar st) \<or> is_magic it)"
proof (cases it)
  case (GLit c)
  have c: "c \<notin> {slash, backslash, question, asterisk, plus_sign, at_sign, bang, lparen, rparen, bar, lbracket, rbracket}"
    using assms(1) GLit by (simp add: special_chars_def)
  have "step opts pattern i c st = Next (on_other c st)"
    using assms(2) c by (simp add: step_def simple_state_def)
  moreover have "on_other c st = emit_re (item_src it) (clearStateChar st)"
    using assms(2) GLit by (auto simp: on_other_def Let_def simple_state_def)
  moreover have "clearStateChar (emit_re (item_src it) (clearStateChar st)) = emit_re (item_src it) (clearStateChar st)"
    by (simp add: clearStateChar_def [of "emit_re _ _"]) (simp add: emit_re_def)
  ultimately show ?thesis
    using assms(2) GLit clear_simps(7) [of st] by (auto simp: simple_state_def emit_re_def)
qed (use assms in \<open>auto simp: step_def on_stateChar_def Let_def simple_state_def clearStateChar_def emit_re_def
      reSpecials_def split: option.splits\<close>)

lemma walk_items:
  assumes "list_all simple_item g" "simple_state st" "\<not> o_noext opts"
  shows "\<exists>st'. parse_loop opts pattern i (map item_text g) st = Some st' \<and> simple_state st' \<and>
    re (clearStateChar st') = re (clearStateChar st) @ concat (map item_src g) \<and>
    hasMagic (clearStateChar st') = (hasMagic (clearStateChar st) \<or> list_ex is_magic g)"
  using assms(1,2)
proof (induction g arbitrary: i st)
  case Nil
  then show ?case by (auto simp: simple_state_def)
next
  case (Cons it g)
  then obtain st1 where st1: "step opts pattern i (item_text it) st = Next st1" "simple_state st1"
      "re (clearStateChar st1) = re (clearStateChar st) @ item_src it"
      "hasMagic (clearStateChar st1) = (hasMagic (clearStateChar st) \<or> is_magic it)"
    using step_item [of it st opts pattern i] assms(3) by auto
  with Cons.IH [of st1 "Suc i"] Cons.prems show ?case by (auto simp: parse_loop.simps(2))
qed

lemma item_src_hd:
  assumes "simple_item it"
  shows "item_src it \<noteq> []" "hd (item_src it) \<in> {full_stop, lbracket, lparen} \<longleftrightarrow> is_magic it"
  using assms by (cases it; auto simp: qmark_def star_def reSpecials_def special_chars_def lit_def)+

text \<open>The text of the expression for a simple portion.\<close>

definition simple_src :: "glob_item list \<Rightarrow> jstring" where
  "simple_src g = (if g \<noteq> [] \<and> is_magic (hd g) then lit ''(?!'' @ [backslash] @ lit ''.)'' else []) @
     lit ''(?=.)'' @ concat (map item_src g)"

lemma finish_simple:
  assumes "list_all simple_item g" "g \<noteq> []" "simple_state st" "\<not> o_dot opts"
    "re (clearStateChar st) = concat (map item_src g)" "hasMagic (clearStateChar st) = list_ex is_magic g"
  shows "finish_parse opts isSub (map item_text g) st =
    (if list_ex is_magic g then simple_src g else concat (map item_src g), list_ex is_magic g)"
proof -
  obtain it g' where g: "g = it # g'" using assms(2) by (cases g) auto
  let ?src = "concat (map item_src g)"
  have src: "?src \<noteq> []" "hd ?src = hd (item_src it)" using item_src_hd(1) [of it] assms(1) g by auto
  have start: "hd ?src \<in> {full_stop, lbracket, lparen} \<longleftrightarrow> is_magic it"
    using item_src_hd(2) [of it] assms(1) g src(2) by auto
  have "patternStart opts (map item_text g) = lit ''(?!'' @ [backslash] @ lit ''.)''" if "is_magic it"
    using that g assms(4) by (cases it) (auto simp: patternStart_def)
  then show ?thesis
    using assms(3,5,6) src(1) start g
    by (auto simp: finish_parse_def simple_state_def Let_def simple_src_def)
qed

subsection \<open>The tokens\<close>

lemma tokens_Cons: "next_token (c # s) = Some (t, r) \<Longrightarrow> tokens (c # s) = map_option ((#) t) (tokens r)"
  by (simp add: tokens.simps [of "c # s"])

lemma class_text_close [simp]: "class_text (rbracket # s) = Some ([], s)"
  by (cases s) simp_all

lemma class_items_slash: "class_items [slash] = Some [CRange slash slash]"
  by (simp add: class_items.simps [of "[_]"] class_items.simps [of "[]"])

lemma next_token_class: "next_token (qmark @ s) = Some (TCls True [CRange slash slash], s)"
proof -
  have "qmark @ s = lbracket # caret # slash # rbracket # s" by (simp add: qmark_def lit_def)
  then have eq: "next_token (qmark @ s) = next_token (lbracket # caret # slash # rbracket # s)" by (simp only:)
  have "read_class (caret # slash # rbracket # s) = Some ((True, [CRange slash slash]), s)"
    by (simp add: read_class_def class_items_slash)
  then show ?thesis unfolding eq by simp
qed

lemma qmark_Cons: "\<exists>c r. qmark @ s = c # r"
  by (simp add: qmark_def lit_def)

lemma tokens_item:
  assumes "simple_item it"
  shows "tokens (item_src it @ s) = map_option ((@) (item_tokens it)) (tokens s)"
proof (cases it)
  case (GLit c)
  show ?thesis
  proof (cases "c \<in> set reSpecials")
    case True
    with assms GLit have "c \<in> {full_stop, 0x7B, 0x7D, caret, 0x24}"
      by (auto simp: reSpecials_def special_chars_def lit_def)
    then have "next_token (backslash # c # s) = Some (TChr c, s)"
      by (auto simp: class_escape_def control_escape_def)
    from tokens_Cons [OF this] True GLit show ?thesis by (cases "tokens s") simp_all
  next
    case False
    with assms GLit have "next_token (c # s) = Some (TChr c, s)"
      by (auto simp: reSpecials_def special_chars_def lit_def)
    from tokens_Cons [OF this] False GLit show ?thesis by (cases "tokens s") simp_all
  qed
next
  case GAny
  have "tokens (qmark @ s) = map_option ((#) (TCls True [CRange slash slash])) (tokens s)"
    using next_token_class [of s] qmark_Cons [of s] by (metis tokens_Cons)
  with GAny show ?thesis by (cases "tokens s") simp_all
next
  case GStar
  have "next_token (asterisk # question # s) = Some (TQuant 0 None, s)" by simp
  then have "tokens (asterisk # question # s) = map_option ((#) (TQuant 0 None)) (tokens s)" by (rule tokens_Cons)
  moreover have "star @ s = qmark @ asterisk # question # s" by (simp add: star_def lit_def)
  moreover have "tokens (qmark @ asterisk # question # s) =
      map_option ((#) (TCls True [CRange slash slash])) (tokens (asterisk # question # s))"
    using next_token_class [of "asterisk # question # s"] qmark_Cons [of "asterisk # question # s"] by (metis tokens_Cons)
  ultimately have "tokens (star @ s) =
      map_option ((#) (TCls True [CRange slash slash])) (map_option ((#) (TQuant 0 None)) (tokens s))" by (simp only:)
  then show ?thesis using GStar by (cases "tokens s") simp_all
qed

lemma tokens_items:
  "list_all simple_item g \<Longrightarrow>
    tokens (concat (map item_src g) @ s) = map_option ((@) (concat (map item_tokens g))) (tokens s)"
proof (induction g)
  case Nil
  then show ?case by (cases "tokens s") simp_all
next
  case (Cons it g)
  then show ?case by (cases "tokens s") (simp_all add: tokens_item)
qed

subsection \<open>The expression\<close>

lemma assemble_items:
  "assemble (concat (map item_tokens g) @ ts) st f = assemble ts st (fst f, rev (map item_term g) @ snd f)"
proof (induction g arbitrary: f)
  case (Cons it g)
  then show ?case by (cases it) simp_all
qed simp

definition simple_regex :: "glob_item list \<Rightarrow> regex" where
  "simple_regex g = foldr Cat ([AtStart] @ (if g \<noteq> [] \<and> is_magic (hd g) then [Look False (Cat (Chr full_stop) Eps)] else []) @
     [Look True (Cat Dot Eps)] @ map item_re g @ [AtEnd]) Eps"

lemma tokens_Nil [simp]: "tokens [] = Some []"
  by (simp add: tokens.simps)

lemma RegExp_simple:
  assumes "list_all simple_item g"
  shows "RegExp (caret # simple_src g @ [0x24]) = Some (simple_regex g)"
proof -
  let ?items = "concat (map item_tokens g)"
  have last: "tokens [0x24] = Some [TAssert AtEnd]" by (simp add: tokens_Cons)
  have "tokens (lit ''(?=.)'' @ concat (map item_src g) @ [0x24]) =
      Some ([TOpen (Ahead True), TDot, TClose] @ ?items @ [TAssert AtEnd])"
    by (simp add: lit_def tokens_Cons tokens_items [OF assms] last)
  moreover have "tokens (caret # s) = map_option ((#) (TAssert AtStart)) (tokens s)" for s
    by (simp add: tokens_Cons)
  moreover have "tokens (lit ''(?!'' @ [backslash] @ lit ''.)'' @ s) =
      map_option ((@) [TOpen (Ahead False), TChr full_stop, TClose]) (tokens s)" for s
    by (cases "tokens s") (simp_all add: lit_def tokens_Cons class_escape_def control_escape_def)
  ultimately have "tokens (caret # simple_src g @ [0x24]) = Some ([TAssert AtStart] @
      (if g \<noteq> [] \<and> is_magic (hd g) then [TOpen (Ahead False), TChr full_stop, TClose] else []) @
      [TOpen (Ahead True), TDot, TClose] @ ?items @ [TAssert AtEnd])"
    by (cases "g \<noteq> [] \<and> is_magic (hd g)") (simp_all only: simple_src_def if_True if_False append_Nil append_assoc
      option.map append_Cons simp_thms)
  then show ?thesis by (simp add: RegExp_def assemble_items close_frame_def simple_regex_def rev_map item_re_def [abs_def] comp_def)
qed

lemma rounds_any:
  assumes "\<And>j k. j < n \<Longrightarrow> m j k = k (Suc j)" "i \<le> n"
  shows "rounds (n - i) m i k \<longleftrightarrow> (\<exists>j. i \<le> j \<and> j \<le> n \<and> k j)"
  using assms(2)
proof (induction "n - i" arbitrary: i)
  case (Suc d)
  then have "n - i = Suc (n - Suc i)" "i < n" by simp_all
  moreover have "rounds (n - Suc i) m (Suc i) k \<longleftrightarrow> (\<exists>j. Suc i \<le> j \<and> j \<le> n \<and> k j)"
    using Suc by (intro Suc.hyps(1)) simp_all
  ultimately have "rounds (n - i) m i k \<longleftrightarrow> k i \<or> (\<exists>j. Suc i \<le> j \<and> j \<le> n \<and> k j)"
    using assms(1) by simp
  then show ?case using Suc.prems by (metis Suc_leD le_antisym le_refl not_less_eq_eq)
qed auto

lemma run_no_slash:
  assumes "slash \<notin> set s" "i < length s"
  shows "run None s no_slash i k = k (Suc i)"
proof -
  have "s ! i \<noteq> slash" using assms nth_mem by metis
  then show ?thesis using assms(2) by (auto simp: class_has_def)
qed

lemma run_items:
  assumes "slash \<notin> set s" "i \<le> length s"
  shows "run None s (foldr Cat (map item_re g @ [AtEnd]) Eps) i (\<lambda>_. True) \<longleftrightarrow> glob g (drop i s)"
  using assms(2)
proof (induction g arbitrary: i)
  case (Cons it g)
  have hd: "drop i s \<noteq> [] \<longleftrightarrow> i < length s" "i < length s \<Longrightarrow> hd (drop i s) = s ! i" "tl (drop i s) = drop (Suc i) s"
    by (auto simp: hd_drop_conv_nth drop_Suc tl_drop)
  show ?case
  proof (cases it)
    case (GLit c)
    then show ?thesis using Cons hd by (auto simp: same_char_def)
  next
    case GAny
    then show ?thesis using Cons hd run_no_slash [OF assms(1)] by (cases "i < length s") auto
  next
    case GStar
    let ?K = "\<lambda>j. run None s (foldr Cat (map item_re g @ [AtEnd]) Eps) j (\<lambda>_. True)"
    have "rounds (length s - i) (run None s no_slash) i ?K \<longleftrightarrow> (\<exists>j. i \<le> j \<and> j \<le> length s \<and> ?K j)"
      using Cons.prems run_no_slash [OF assms(1)] by (intro rounds_any) auto
    also have "\<dots> \<longleftrightarrow> (\<exists>j. i \<le> j \<and> j \<le> length s \<and> glob g (drop j s))" using Cons.IH by metis
    also have "\<dots> \<longleftrightarrow> (\<exists>n. n \<le> length s - i \<and> glob g (drop n (drop i s)))"
    proof
      assume "\<exists>j. i \<le> j \<and> j \<le> length s \<and> glob g (drop j s)"
      then obtain j where "i \<le> j" "j \<le> length s" "glob g (drop j s)" by blast
      then show "\<exists>n. n \<le> length s - i \<and> glob g (drop n (drop i s))" by (intro exI [of _ "j - i"]) auto
    next
      assume "\<exists>n. n \<le> length s - i \<and> glob g (drop n (drop i s))"
      then obtain n where "n \<le> length s - i" "glob g (drop n (drop i s))" by blast
      then show "\<exists>j. i \<le> j \<and> j \<le> length s \<and> glob g (drop j s)"
        using Cons.prems by (intro exI [of _ "n + i"]) (auto simp: add.commute)
    qed
    also have "\<dots> \<longleftrightarrow> glob (it # g) (drop i s)"
      using GStar by (auto simp: list_ex_iff less_Suc_eq_le simp del: upt_Suc drop_drop)
    finally show ?thesis using GStar by simp
  qed
qed auto

text \<open>What a magic portion matches: the reading above, but not the empty name, a name that begins with a line break, or a hidden name that the pattern does not name with its dot.\<close>

definition name_matches :: "glob_item list \<Rightarrow> jstring \<Rightarrow> bool" where
  "name_matches g f \<longleftrightarrow> glob g f \<and>
     (list_ex is_magic g \<longrightarrow> f \<noteq> [] \<and> \<not> line_break (hd f)) \<and>
     (g \<noteq> [] \<and> is_magic (hd g) \<longrightarrow> f \<noteq> [] \<and> hd f \<noteq> full_stop)"

lemma matches_simple:
  assumes "slash \<notin> set f" "list_ex is_magic g"
  shows "matches None (simple_regex g) f \<longleftrightarrow> name_matches g f"
proof -
  have run0: "run None f (simple_regex g) i (\<lambda>_. True) \<longleftrightarrow> i = 0 \<and> name_matches g f" for i
    using run_items [OF assms(1), of 0 g] assms(2)
    by (cases f) (auto simp: simple_regex_def name_matches_def same_char_def)
  have "0 \<in> set [0..<Suc (length f)]" by simp
  then show ?thesis unfolding matches_def list_ex_iff using run0 by blast
qed

subsection \<open>Whole portions\<close>

lemma globUnescape_plain: "backslash \<notin> set s \<Longrightarrow> globUnescape s = s"
  by (induction s rule: globUnescape.induct) auto

lemma glob_literal: "\<not> list_ex is_magic g \<Longrightarrow> glob g f \<longleftrightarrow> f = map item_text g"
proof (induction g arbitrary: f)
  case (Cons it g)
  then show ?case by (cases it; cases f) auto
qed simp

definition opts_plain :: "mm_options \<Rightarrow> bool" where
  "opts_plain opts \<longleftrightarrow> \<not> o_nocase opts \<and> \<not> o_noext opts \<and> \<not> o_dot opts \<and> \<not> o_matchBase opts \<and> \<not> o_flipNegate opts"

definition simple_portion :: "mm_options \<Rightarrow> glob_item list \<Rightarrow> bool" where
  "simple_portion opts g \<longleftrightarrow> list_all simple_item g \<and> length g \<le> 65536 \<and>
     (o_noglobstar opts \<or> map item_text g \<noteq> lit ''**'')"

definition portion_of :: "glob_item list \<Rightarrow> portion" where
  "portion_of g = (if list_ex is_magic g then Magic (Some (map item_text g, simple_src g)) (simple_regex g) else Plain (map item_text g))"

lemma portion_of_not_Globstar [simp]: "portion_of g \<noteq> Globstar"
  by (simp add: portion_of_def)

lemma parse_simple:
  assumes "simple_portion opts g" "opts_plain opts"
  shows "parse opts (map item_text g) = Inr (Some (portion_of g))"
proof (cases "g = []")
  case True
  then show ?thesis by (simp add: parse_def portion_of_def)
next
  case False
  have items: "list_all simple_item g" and o: "\<not> o_noext opts" "\<not> o_dot opts" "\<not> o_nocase opts"
    using assms by (simp_all add: simple_portion_def opts_plain_def)
  have init: "simple_state (parse_init opts)" "re (clearStateChar (parse_init opts)) = []"
      "\<not> hasMagic (clearStateChar (parse_init opts))"
    using o(3) by (simp_all add: parse_init_def simple_state_def clearStateChar_def)
  obtain st where st: "parse_loop opts (map item_text g) 0 (map item_text g) (parse_init opts) = Some st" "simple_state st"
      "re (clearStateChar st) = concat (map item_src g)" "hasMagic (clearStateChar st) = list_ex is_magic g"
    using walk_items [OF items init(1) o(1), of "map item_text g" 0] init by auto
  have fin: "finish_parse opts False (map item_text g) st =
      (if list_ex is_magic g then simple_src g else concat (map item_src g), list_ex is_magic g)"
    by (rule finish_simple [OF items False st(2) o(2) st(3,4)])
  have "item_text it \<noteq> backslash" if "simple_item it" for it
    using that by (cases it) (auto simp: special_chars_def)
  then have "backslash \<notin> set (map item_text g)" using items by (fastforce simp: list_all_iff)
  then have "globUnescape (map item_text g) = map item_text g" by (rule globUnescape_plain)
  then show ?thesis
    using assms(1) False st(1) fin RegExp_simple [OF items] by (auto simp: parse_def simple_portion_def portion_of_def)
qed

lemma hit_simple:
  assumes "opts_plain opts" "slash \<notin> set f"
  shows "hit lc opts (portion_of g) f \<longleftrightarrow> name_matches g f"
proof (cases "list_ex is_magic g")
  case True
  then show ?thesis using matches_simple [OF assms(2) True] assms(1) by (simp add: portion_of_def flag_i_def opts_plain_def)
next
  case False
  then have "name_matches g f \<longleftrightarrow> f = map item_text g" by (cases g) (auto simp: name_matches_def glob_literal)
  with False show ?thesis using assms(1) by (simp add: portion_of_def opts_plain_def)
qed

text \<open>
  A portion of ordinary characters, question marks and stars matches the names it should: the translation of the pattern into the text of a
  regular expression, the reading of that text and the search of the engine together come to the plain reading of the glob, where \<open>?\<close> stands
  for one character and \<open>*\<close> for any number. A portion with magic matches neither the empty name nor a name that begins with a
  line break, and one that begins with magic matches no hidden name.
\<close>

theorem simple_portion_hits:
  assumes "simple_portion opts g" "opts_plain opts" "slash \<notin> set f"
  shows "\<exists>p. parse opts (map item_text g) = Inr (Some p) \<and> p \<noteq> Globstar \<and> (hit lc opts p f \<longleftrightarrow> name_matches g f)"
  using parse_simple [OF assms(1,2)] hit_simple [OF assms(2,3)] by simp

theorem simple_portion_hits_witness:
  "\<exists>p. parse default_options (lit ''*.js'') = Inr (Some p) \<and> p \<noteq> Globstar \<and>
     hit \<lparr>lower = id, fold_case = id\<rparr> default_options p (lit ''a.js'')"
proof -
  let ?g = "[GStar, GLit 0x2E, GLit 0x6A, GLit 0x73]"
  have "simple_portion default_options ?g" "opts_plain default_options" "slash \<notin> set (lit ''a.js'')"
    by (simp_all add: simple_portion_def special_chars_def lit_def opts_plain_def default_options_def)
  moreover have "name_matches ?g (lit ''a.js'')" by (simp add: name_matches_def lit_def upt_rec)
  moreover have "map item_text ?g = lit ''*.js''" by (simp add: lit_def)
  ultimately show ?thesis
    using simple_portion_hits [of default_options ?g "lit ''a.js''" "\<lparr>lower = id, fold_case = id\<rparr>"] by metis
qed

section \<open>Whole patterns\<close>

lemma slash_split_segment:
  assumes "slash \<notin> set p"
  shows "slash_split p = [p]" "slash_split (p @ slash # s) = p # slash_split (dropWhile (\<lambda>d. d = slash) s)"
  using assms by (induction p) auto

lemma slash_split_join:
  assumes "xs \<noteq> []" "\<forall>x \<in> set xs. slash \<notin> set x" "[] \<notin> set (tl xs)"
  shows "slash_split (join [slash] xs) = xs"
  using assms
proof (induction "[slash]" xs rule: join.induct)
  case (3 p q ps)
  obtain c q' where q: "q = c # q'" "c \<noteq> slash" using "3.prems" by (cases q) auto
  obtain s where s: "join [slash] (q # ps) = c # s" using q by (cases ps) auto
  have "slash_split (join [slash] (q # ps)) = q # ps" using "3.prems" by (intro "3.hyps") auto
  then show ?case using "3.prems" s q(2) by (simp add: slash_split_segment)
qed (simp_all add: slash_split_segment)

lemma slash_split_parts: "p \<in> set (slash_split s) \<Longrightarrow> slash \<notin> set p"
  by (induction s arbitrary: p rule: slash_split.induct) (auto split: if_splits list.splits)

lemma slash_split_not_Nil [simp]: "slash_split s \<noteq> []"
  by (cases s) (auto split: list.split)

lemma matchOne_plain:
  assumes "Globstar \<notin> set ps" "[] \<notin> set (tl fs)" "ps \<noteq> [] \<or> [] \<notin> set fs"
  shows "matchOne lc opts fs ps False \<longleftrightarrow> list_all2 (\<lambda>p f. hit lc opts p f) ps fs"
  using assms
proof (induction ps arbitrary: fs)
  case Nil
  then show ?case by (cases fs) auto
next
  case (Cons p ps)
  show ?case
  proof (cases fs)
    case fs: (Cons f gs)
    have "[] \<notin> set (tl gs)" using Cons.prems(2) fs by (cases gs) auto
    then show ?thesis using Cons fs by auto
  qed simp
qed

lemma mapE_parse_simple:
  assumes "list_all (simple_portion opts) gs" "opts_plain opts"
  shows "mapE (parse opts) (map (map item_text) gs) = Inr (map (\<lambda>g. Some (portion_of g)) gs)"
  using assms(1) by (induction gs) (simp_all add: parse_simple [OF _ assms(2)])

text \<open>A pattern of simple portions, and what the check for braces and the negation make of it.\<close>

definition pattern_text :: "glob_item list list \<Rightarrow> jstring" where
  "pattern_text gs = join [slash] (map (map item_text) gs)"

lemma item_text_simple: "simple_item it \<Longrightarrow> item_text it \<noteq> slash \<and> item_text it \<noteq> bang"
  by (cases it) (auto simp: special_chars_def)

lemma pattern_text_hd:
  assumes "list_all (simple_portion opts) gs" "pattern_text gs \<noteq> []"
  shows "hd (pattern_text gs) \<noteq> bang"
proof -
  have "bang \<notin> set (pattern_text gs)"
    using assms(1) item_text_simple set_join_subset [of "[slash]" "map (map item_text) gs"]
    by (fastforce simp: pattern_text_def list_all_iff simple_portion_def)
  then show ?thesis using assms(2) hd_in_set by metis
qed

lemma has_braces_open: "open_brace \<notin> set s \<Longrightarrow> \<not> has_braces s"
  by (induction s) auto

lemma Minimatch_simple:
  assumes "gs \<noteq> []" "list_all (simple_portion opts) gs" "[] \<notin> set (tl gs)" "opts_plain opts"
    "pattern_text gs \<noteq> []" "trim (pattern_text gs) = pattern_text gs" "open_brace \<notin> set (pattern_text gs)"
    "hd (pattern_text gs) \<noteq> hash"
  shows "Minimatch t opts (pattern_text gs) = Some (Inr \<lparr>m_options = opts, m_set = [map portion_of gs],
    m_globSet = [pattern_text gs], m_pattern = pattern_text gs, m_regexp = None, m_negate = False, m_comment = False, m_empty = False\<rparr>)"
proof -
  have neg: "parseNegate opts (pattern_text gs) = (pattern_text gs, False)"
    using pattern_text_hd [OF assms(2,5)] assms(5) by (cases "pattern_text gs") (auto simp: parseNegate_def)
  have split: "slash_split (pattern_text gs) = map (map item_text) gs"
    unfolding pattern_text_def
  proof (rule slash_split_join)
    show "\<forall>x \<in> set (map (map item_text) gs). slash \<notin> set x"
      using assms(2) item_text_simple by (fastforce simp: list_all_iff simple_portion_def)
    show "[] \<notin> set (tl (map (map item_text) gs))" using assms(3) by (auto simp: map_tl [symmetric])
  qed (use assms(1) in simp)
  have rows: "None \<notin> (\<lambda>g. Some (portion_of g)) ` set gs" by auto
  show ?thesis
    unfolding Minimatch_def make_mm_def assms(6)
    using assms(5,8) has_braces_open [OF assms(7)] rows
    by (simp add: Let_def neg braceExpand_def split mapE_parse_simple [OF assms(2,4)] comp_def)
qed

text \<open>
  C20. From the pattern to the answer: for a pattern of simple portions separated by single slashes, without braces, comment sign and white space
  around it, \<open>minimatch\<close> returns, and it returns true exactly for the paths with as many segments as the pattern has
  portions, each matching its portion in the plain reading.
\<close>

theorem minimatch_simple:
  assumes "gs \<noteq> []" "list_all (simple_portion opts) gs" "[] \<notin> set (tl gs)" "opts_plain opts"
    "pattern_text gs \<noteq> []" "trim (pattern_text gs) = pattern_text gs" "open_brace \<notin> set (pattern_text gs)"
    "hd (pattern_text gs) \<noteq> hash"
    "fs \<noteq> []" "list_all (\<lambda>f. slash \<notin> set f) fs" "[] \<notin> set (tl fs)"
  shows "minimatch t lc opts (join [slash] fs) (pattern_text gs) = Some (Inr (list_all2 name_matches gs fs))"
proof -
  have split: "slash_split (join [slash] fs) = fs"
    by (rule slash_split_join) (use assms(9-11) in \<open>auto simp: list_all_iff\<close>)
  have o: "\<not> o_matchBase opts" "\<not> o_flipNegate opts" using assms(4) by (simp_all add: opts_plain_def)
  have "list_all2 (\<lambda>p f. hit lc opts p f) (map portion_of gs) fs \<longleftrightarrow> list_all2 name_matches gs fs"
    unfolding list_all2_map1 using assms(10) hit_simple [OF assms(4)]
    by (auto simp: list_all2_conv_all_nth list_all_iff)
  moreover have "Globstar \<notin> set (map portion_of gs)" by (auto dest: sym)
  ultimately have "matchOne lc opts fs (map portion_of gs) False \<longleftrightarrow> list_all2 name_matches gs fs"
    using matchOne_plain [of "map portion_of gs" fs lc opts] assms(1,11) by simp
  then show ?thesis
    using assms(5,6,8) o Minimatch_simple [OF assms(1-8), of t]
    by (simp add: minimatch_def match_obj_def Let_def split)
qed

theorem minimatch_simple_witness:
  "minimatch \<lparr>r_slash = [], r_open = [], r_close = [], r_comma = [], r_period = []\<rparr> \<lparr>lower = id, fold_case = id\<rparr>
     default_options (lit ''src/a.js'') (lit ''src/?.js'') = Some (Inr True)"
proof -
  let ?t = "\<lparr>r_slash = [], r_open = [], r_close = [], r_comma = [], r_period = []\<rparr>"
  let ?lc = "\<lparr>lower = id, fold_case = id\<rparr>"
  let ?gs = "[map GLit (lit ''src''), GAny # map GLit (lit ''.js'')]"
  let ?fs = "[lit ''src'', lit ''a.js'']"
  have "pattern_text ?gs = lit ''src/?.js''" "join [slash] ?fs = lit ''src/a.js''"
    by (simp_all add: pattern_text_def lit_def)
  moreover have "list_all (simple_portion default_options) ?gs" "opts_plain default_options"
    by (simp_all add: simple_portion_def special_chars_def lit_def opts_plain_def default_options_def)
  moreover have "trim (lit ''src/?.js'') = lit ''src/?.js''" by (simp add: trim_def js_white_def lit_def)
  moreover have "list_all2 name_matches ?gs ?fs" by (simp add: name_matches_def lit_def)
  ultimately show ?thesis
    using minimatch_simple [of ?gs default_options ?fs ?t ?lc] by (simp add: lit_def)
qed

section \<open>Negation\<close>

lemma parseNegate_bang:
  "\<not> o_nonegate opts \<Longrightarrow>
    parseNegate opts (bang # p) = (fst (parseNegate opts p), \<not> snd (parseNegate opts p))"
  by (simp add: parseNegate_def Let_def)

lemma trim_bang:
  assumes "trim p = p" "p \<noteq> []"
  shows "trim (bang # p) = bang # p"
proof -
  have "length (trim p) \<le> length (dropWhile js_white p)"
    using length_dropWhile_le [of js_white "rev (dropWhile js_white p)"] by (simp add: trim_def)
  then have "length (takeWhile js_white p) = 0"
    using assms(1) by (metis add_le_same_cancel2 le_zero_eq length_append takeWhile_dropWhile_id)
  then have "dropWhile js_white p = p" by (metis append_Nil length_0_conv takeWhile_dropWhile_id)
  then have "dropWhile js_white (rev p) = rev p" using assms(1) by (metis rev_rev_ident trim_def)
  then have "\<not> js_white (hd (rev p @ [bang]))" using assms(2) by (simp add: dropWhile_eq_self_iff)
  then have "dropWhile js_white (rev p @ [bang]) = rev p @ [bang]" by (simp add: dropWhile_eq_self_iff)
  then show ?thesis by (simp add: trim_def js_white_def [of bang])
qed

text \<open>
  An exclamation mark in front turns the answer around: for every pattern that is not a comment and has no white space around
  it, and every path, \<open>!p\<close> matches exactly when \<open>p\<close> does not, and fails or runs for ever exactly when \<open>p\<close> does. Two of them cancel.
\<close>

theorem minimatch_negate:
  assumes "\<not> o_nonegate opts" "\<not> o_flipNegate opts" "trim p = p" "p \<noteq> []" "o_nocomment opts \<or> hd p \<noteq> hash"
  shows "minimatch t lc opts f (bang # p) = map_option (map_sum id Not) (minimatch t lc opts f p) \<and>
    minimatch t lc opts f (bang # bang # p) = minimatch t lc opts f p"
proof -
  have once: "minimatch t lc opts f (bang # q) = map_option (map_sum id Not) (minimatch t lc opts f q)"
    if "trim q = q" "q \<noteq> []" "o_nocomment opts \<or> hd q \<noteq> hash" for q
  proof -
    let ?run = "\<lambda>globs neg set. match_obj lc \<lparr>m_options = opts, m_set = set, m_globSet = globs, m_pattern = fst (parseNegate opts q), m_regexp = None,
        m_negate = neg, m_comment = False, m_empty = False\<rparr> f False"
    have flip: "?run globs (\<not> neg) set = (\<not> ?run globs neg set)" for globs neg set
      using assms(2) by (simp add: match_obj_def Let_def)
    show ?thesis
    proof (cases "braceExpand t opts (fst (parseNegate opts q))")
      case None
      then show ?thesis
        using that trim_bang [OF that(1,2)] parseNegate_bang [OF assms(1), of q]
        by (simp add: minimatch_def Minimatch_def make_mm_def Let_def case_prod_beta)
    next
      case (Some globSet)
      then show ?thesis
        using that trim_bang [OF that(1,2)] parseNegate_bang [OF assms(1), of q] flip
        by (cases "mapE (\<lambda>s. mapE (parse opts) (slash_split s)) globSet"; cases "o_nocomment opts")
          (simp_all add: minimatch_def Minimatch_def make_mm_def Let_def case_prod_beta)
    qed
  qed
  have "map_sum id Not (map_sum id Not r) = r" for r :: "js_error + bool" by (cases r) simp_all
  then show ?thesis
    using once [OF assms(3-5)] once [of "bang # p"] trim_bang [OF assms(3,4)]
    by (simp add: option.map_comp comp_def option.map_ident)
qed

theorem minimatch_negate_witness:
  "minimatch \<lparr>r_slash = [], r_open = [], r_close = [], r_comma = [], r_period = []\<rparr> \<lparr>lower = id, fold_case = id\<rparr>
     default_options (lit ''b'') (lit ''!a'') =
   map_option (map_sum id Not) (minimatch \<lparr>r_slash = [], r_open = [], r_close = [], r_comma = [], r_period = []\<rparr>
     \<lparr>lower = id, fold_case = id\<rparr> default_options (lit ''b'') (lit ''a''))"
  using minimatch_negate [of default_options "lit ''a''" "\<lparr>r_slash = [], r_open = [], r_close = [], r_comma = [], r_period = []\<rparr>"
      "\<lparr>lower = id, fold_case = id\<rparr>" "lit ''b''"]
  by (simp add: default_options_def trim_def js_white_def lit_def)

section \<open>Well-formed objects\<close>

definition good_portion :: "portion \<Rightarrow> bool" where
  "good_portion p \<longleftrightarrow>
     (case p of
        Globstar \<Rightarrow> True
      | Plain s \<Rightarrow> slash \<notin> set s
      | Magic (Some (g, src)) r \<Rightarrow> RegExp (caret # src @ [0x24]) = Some r
      | Magic None r \<Rightarrow> r = never)"

lemma set_globUnescape: "set (globUnescape s) \<subseteq> set s"
  by (induction s rule: globUnescape.induct) auto

lemma parse_good:
  assumes "parse opts s = Inr (Some p)" "slash \<notin> set s"
  shows "good_portion p"
  using assms set_globUnescape [of s]
  by (auto simp: parse_def good_portion_def split: if_splits option.splits prod.splits)

lemma mapE_mem: "mapE f xs = Inr ys \<Longrightarrow> y \<in> set ys \<Longrightarrow> \<exists>x \<in> set xs. f x = Inr y"
  by (induction xs arbitrary: ys) (auto simp: bindE_eq_Inr_iff)

lemma mapE_length: "mapE f xs = Inr ys \<Longrightarrow> length ys = length xs"
  by (induction xs arbitrary: ys) (auto simp: bindE_eq_Inr_iff)

text \<open>
  C28. What the constructor builds is well-formed: every row of the set has at least one portion, a portion that is a string contains no slash, one that is an
  expression is the expression its source text stands for or the one that never matches, and a comment or an empty pattern has no rows.
  So no search meets a portion that did not translate.
\<close>

theorem Minimatch_wellformed:
  assumes "Minimatch t opts pattern = Some (Inr m)"
  shows "list_all (\<lambda>row. row \<noteq> [] \<and> list_all good_portion row) (m_set m) \<and>
    (m_comment m \<or> m_empty m \<longrightarrow> m_set m = [])"
proof (cases "m_comment m \<or> m_empty m")
  case True
  then show ?thesis using assms
    by (auto simp: Minimatch_def make_mm_def Let_def bindE_eq_Inr_iff split: if_splits option.splits prod.splits)
next
  case False
  with assms obtain globSet rows where rows: "mapE (\<lambda>s. mapE (parse opts) (slash_split s)) globSet = Inr rows"
      "m_set m = map (map the) (filter (\<lambda>s. None \<notin> set s) rows)"
    by (auto simp: Minimatch_def make_mm_def Let_def bindE_eq_Inr_iff split: if_splits option.splits prod.splits)
  have "map the row \<noteq> [] \<and> list_all good_portion (map the row)" if row: "row \<in> set rows" "None \<notin> set row" for row
  proof -
    obtain s where s: "mapE (parse opts) (slash_split s) = Inr row" using mapE_mem [OF rows(1) row(1)] by blast
    have "good_portion (the p)" if p: "p \<in> set row" for p
    proof -
      obtain part where "part \<in> set (slash_split s)" "parse opts part = Inr p" using mapE_mem [OF s p] by blast
      moreover obtain q where "p = Some q" using row(2) p by (cases p) auto
      ultimately show ?thesis using parse_good slash_split_parts by auto
    qed
    moreover have "row \<noteq> []" using mapE_length [OF s] by auto
    ultimately show ?thesis by (simp add: list_all_iff)
  qed
  with rows(2) False show ?thesis by (auto simp: list_all_iff)
qed

theorem Minimatch_wellformed_witness:
  "\<exists>m. Minimatch \<lparr>r_slash = [], r_open = [], r_close = [], r_comma = [], r_period = []\<rparr> default_options (lit ''a?'') = Some (Inr m) \<and>
     list_all (\<lambda>row. row \<noteq> [] \<and> list_all good_portion row) (m_set m)"
proof -
  let ?gs = "[[GLit 0x61, GAny]]"
  let ?t = "\<lparr>r_slash = [], r_open = [], r_close = [], r_comma = [], r_period = []\<rparr>"
  have "pattern_text ?gs = lit ''a?''" by (simp add: pattern_text_def lit_def)
  moreover have "list_all (simple_portion default_options) ?gs" "opts_plain default_options"
    by (simp_all add: simple_portion_def special_chars_def lit_def opts_plain_def default_options_def)
  moreover have "trim (lit ''a?'') = lit ''a?''" by (simp add: trim_def js_white_def lit_def)
  ultimately obtain m where m: "Minimatch ?t default_options (lit ''a?'') = Some (Inr m)"
    using Minimatch_simple [of ?gs default_options ?t] by (simp add: lit_def)
  with Minimatch_wellformed [OF m] show ?thesis by blast
qed

section \<open>A bracket at the end\<close>

text \<open>The expression that \<open>*[\<close> is translated to.\<close>

definition star_bracket_src :: jstring where
  "star_bracket_src = lit ''(?!'' @ [backslash] @ lit ''.)(?=.)'' @ star @ [backslash] @ lit ''[undefined''"

definition star_bracket_items :: "glob_item list" where
  "star_bracket_items = GStar # map GLit (lit ''[undefined'')"

lemma RegExp_star_bracket: "RegExp (caret # star_bracket_src @ [0x24]) = Some (simple_regex star_bracket_items)"
proof -
  have rest: "tokens (backslash # lit ''[undefined'' @ [0x24]) = Some (map TChr (lit ''[undefined'') @ [TAssert AtEnd])"
    by (simp add: lit_def tokens_Cons class_escape_def control_escape_def)
  have "tokens (star @ backslash # lit ''[undefined'' @ [0x24]) =
      Some (item_tokens GStar @ map TChr (lit ''[undefined'') @ [TAssert AtEnd])"
    using tokens_item [of GStar "backslash # lit ''[undefined'' @ [0x24]"] rest by simp
  then have "tokens (caret # star_bracket_src @ [0x24]) = Some ([TAssert AtStart, TOpen (Ahead False), TChr full_stop, TClose,
      TOpen (Ahead True), TDot, TClose] @ item_tokens GStar @ map TChr (lit ''[undefined'') @ [TAssert AtEnd])"
    by (simp add: star_bracket_src_def lit_def tokens_Cons class_escape_def control_escape_def)
  then show ?thesis
    by (simp add: RegExp_def close_frame_def simple_regex_def star_bracket_items_def lit_def)
qed

lemma parse_star_bracket:
  "parse default_options (lit ''*['') = Inr (Some (Magic (Some (lit ''*['', star_bracket_src)) (simple_regex star_bracket_items)))"
proof -
  let ?st = "\<lparr>re = star @ [backslash, lbracket] @ lit ''undefined'', hasMagic = True, escaping = False, patternListStack = [],
    negativeLists = [], stateChar = None, inClass = True, reClassStart = int (length star), classStart = 1\<rparr>"
  have parse_loop: "parse_loop default_options (lit ''*['') 0 (lit ''*['') (parse_init default_options) = Some ?st"
    by (simp add: lit_def parse_loop.simps(2) subparse.simps step_def reSpecials_def on_stateChar_def on_lbracket_def
        parse_init_def default_options_def clearStateChar_def emit_re_def reopen_class_def star_def qmark_def Let_def)
  have "finish_parse default_options False (lit ''*['') ?st = (star_bracket_src, True)"
    by (simp add: finish_parse_def default_options_def clearStateChar_def patternStart_def star_bracket_src_def star_def
        qmark_def lit_def Let_def)
  then show ?thesis using parse_loop RegExp_star_bracket by (simp add: parse_def)
qed

text \<open>
  A bracket that is opened at the end of a pattern turns into the word \<open>undefined\<close>: the text after it, which is empty, is translated
  to a string and not to a pair, and its missing first element is put into the expression. So \<open>*[\<close> matches exactly the names that
  \<open>*\[undefined\<close> should match, and not the names that end in a bracket.
\<close>

theorem star_bracket_undefined:
  assumes "slash \<notin> set f"
  shows "\<exists>p. parse default_options (lit ''*['') = Inr (Some p) \<and>
    (hit lc default_options p f \<longleftrightarrow> name_matches (GStar # map GLit (lit ''[undefined'')) f)"
  using parse_star_bracket matches_simple [OF assms, of star_bracket_items]
  by (simp add: flag_i_def default_options_def) (simp add: star_bracket_items_def)

theorem star_bracket_undefined_witness:
  "\<exists>p. parse default_options (lit ''*['') = Inr (Some p) \<and>
    \<not> hit \<lparr>lower = id, fold_case = id\<rparr> default_options p (lit ''x['')"
proof -
  have "slash \<notin> set (lit ''x['')" by (simp add: lit_def)
  moreover have "\<not> name_matches (GStar # map GLit (lit ''[undefined'')) (lit ''x['')"
    by (simp add: name_matches_def lit_def upt_rec)
  ultimately show ?thesis using star_bracket_undefined [of "lit ''x[''" "\<lparr>lower = id, fold_case = id\<rparr>"] by blast
qed

end
