(* ===== verification/Minimatch_Defaults.thy ===== *)
theory Minimatch_Defaults
  imports Minimatch "HOL-Library.AList"
begin

text \<open>
  The options of \<open>minimatch\<close> as an object that may lack some of them, their merging with defaults, and the functions made from it
  (\<open>src/site/assets/javascripts/lunr/wordcut.js\<close>, module 20).
\<close>

type_synonym given_options = "(jstring \<times> bool) list"

definition is_set :: "given_options \<Rightarrow> string \<Rightarrow> bool" where
  "is_set ob name \<longleftrightarrow> map_of ob (lit name) = Some True"

definition options_of :: "given_options \<Rightarrow> mm_options" where
  "options_of ob =
     \<lparr>o_nocomment = is_set ob ''nocomment'', o_nonegate = is_set ob ''nonegate'', o_nobrace = is_set ob ''nobrace'',
      o_noglobstar = is_set ob ''noglobstar'', o_nocase = is_set ob ''nocase'', o_noext = is_set ob ''noext'', o_dot = is_set ob ''dot'',
      o_matchBase = is_set ob ''matchBase'', o_flipNegate = is_set ob ''flipNegate'', o_nonull = is_set ob ''nonull''\<rparr>"

definition ext :: "given_options \<Rightarrow> given_options \<Rightarrow> given_options" where
  "ext a b = fold (\<lambda>(k, v) t. AList.update k v t) a (fold (\<lambda>(k, v) t. AList.update k v t) b [])"

text \<open>\<open>minimatch.filter\<close>, \<open>minimatch.defaults\<close> and \<open>Minimatch.defaults\<close>\<close>

definition minimatch_filter :: "markers \<Rightarrow> letter_case \<Rightarrow> jstring \<Rightarrow> mm_options \<Rightarrow> jstring \<Rightarrow> (js_error + bool) option" where
  "minimatch_filter t lc pattern options = (\<lambda>p. minimatch t lc options p pattern)"

definition minimatch_defaults ::
    "markers \<Rightarrow> letter_case \<Rightarrow> given_options option \<Rightarrow> jstring \<Rightarrow> jstring \<Rightarrow> given_options \<Rightarrow> (js_error + bool) option" where
  "minimatch_defaults t lc def =
     (case def of
        None \<Rightarrow> (\<lambda>p pattern options. minimatch t lc (options_of options) p pattern)
      | Some d \<Rightarrow>
          if d = [] then (\<lambda>p pattern options. minimatch t lc (options_of options) p pattern)
          else (\<lambda>p pattern options. minimatch t lc (options_of (ext d options)) p pattern))"

definition Minimatch_defaults ::
    "markers \<Rightarrow> given_options option \<Rightarrow> jstring \<Rightarrow> given_options \<Rightarrow> (js_error + minimatch_obj) option" where
  "Minimatch_defaults t def =
     (case def of
        None \<Rightarrow> (\<lambda>pattern options. Minimatch t (options_of options) pattern)
      | Some d \<Rightarrow>
          if d = [] then (\<lambda>pattern options. Minimatch t (options_of options) pattern)
          else (\<lambda>pattern options. Minimatch t (options_of (ext d options)) pattern))"

lemma map_of_updates:
  "distinct (map fst xs) \<Longrightarrow> map_of (fold (\<lambda>(k, v) t. AList.update k v t) xs t) = map_of t ++ map_of xs"
proof (induction xs arbitrary: t)
  case (Cons x xs)
  obtain k v where x: "x = (k, v)" by force
  have "k \<notin> dom (map_of xs)" using Cons.prems by (simp add: x dom_map_of_conv_image_fst)
  then show ?case using Cons by (auto simp: x update_conv' map_add_def fun_eq_iff split: option.split)
qed simp

text \<open>Merged options: what the first object has, else what the second has.\<close>

lemma map_of_ext:
  assumes "distinct (map fst a)" "distinct (map fst b)"
  shows "map_of (ext a b) = map_of b ++ map_of a"
  using assms by (simp add: ext_def map_of_updates)

text \<open>
  The defaults are not defaults: a default that is given wins over the option of the call.
\<close>

theorem defaults_win:
  assumes "distinct (map fst def)" "distinct (map fst options)" "(lit name, v) \<in> set def"
  shows "is_set (ext def options) name = v"
  using assms by (simp add: is_set_def map_of_ext map_add_Some_iff)

theorem defaults_win_example:
  "options_of (ext [(lit ''nocase'', True)] [(lit ''nocase'', False)]) = default_options\<lparr>o_nocase := True\<rparr>"
  by (simp add: options_of_def is_set_def ext_def default_options_def lit_def)

end
