(* ===== verification/Underscore_Values.thy ===== *)
theory Underscore_Values
  imports JS_Value
begin

text \<open>
  The values that the collection functions of \<open>src/site/assets/javascripts/lunr/wordcut.js\<close>
  (bundled module 25, underscore 1.8.3) pass around, with the operators of the language that the
  module applies to them. A number is an integer, one of the two infinities or \<open>NaN\<close>. An array, an
  object or a function carries its identity, which is what \<open>===\<close> compares, beside the contents it has
  when the function reads it. The properties of an object are the own enumerable ones, in the order
  in which \<open>Object.keys\<close> lists them.
\<close>

section \<open>Numbers and values\<close>

datatype xnum = NaN | NegInf | Fin int | PosInf

fun num_less :: "xnum \<Rightarrow> xnum \<Rightarrow> bool" where
  "num_less (Fin a) (Fin b) = (a < b)"
| "num_less (Fin a) PosInf = True"
| "num_less NegInf (Fin b) = True"
| "num_less NegInf PosInf = True"
| "num_less _ _ = False"

datatype uval =
    UUndef
  | UNull
  | UBool bool
  | UNum xnum
  | UStr jstring
  | UArr nat "uval list"
  | UObj nat "(jstring \<times> uval) list"
  | UFun nat nat

text \<open>An integer, and an index, as a value. The second field of a function is its \<open>length\<close>.\<close>

abbreviation UInt :: "int \<Rightarrow> uval" where "UInt n \<equiv> UNum (Fin n)"
abbreviation UIdx :: "nat \<Rightarrow> uval" where "UIdx i \<equiv> UNum (Fin (int i))"

section \<open>Operators of the language\<close>

text \<open>\<open>===\<close>\<close>

fun strict_eq :: "uval \<Rightarrow> uval \<Rightarrow> bool" where
  "strict_eq UUndef UUndef = True"
| "strict_eq UNull UNull = True"
| "strict_eq (UBool a) (UBool b) = (a = b)"
| "strict_eq (UNum a) (UNum b) = (a = b \<and> a \<noteq> NaN)"
| "strict_eq (UStr a) (UStr b) = (a = b)"
| "strict_eq (UArr i _) (UArr j _) = (i = j)"
| "strict_eq (UObj i _) (UObj j _) = (i = j)"
| "strict_eq (UFun i _) (UFun j _) = (i = j)"
| "strict_eq _ _ = False"

text \<open>A value where the language expects a condition.\<close>

fun u_truthy :: "uval \<Rightarrow> bool" where
  "u_truthy UUndef = False"
| "u_truthy UNull = False"
| "u_truthy (UBool b) = b"
| "u_truthy (UNum n) = (n \<noteq> NaN \<and> n \<noteq> Fin 0)"
| "u_truthy (UStr s) = (s \<noteq> [])"
| "u_truthy _ = True"

text \<open>\<open>v == null\<close>\<close>

fun nullish :: "uval \<Rightarrow> bool" where
  "nullish UUndef = True"
| "nullish UNull = True"
| "nullish _ = False"

text \<open>
  The number of a primitive value. A string counts by its integer numeral; an object has no
  numeral as its string form.
\<close>

definition int_numeral :: "jstring \<Rightarrow> bool" where
  "int_numeral s \<longleftrightarrow> (let b = (if s \<noteq> [] \<and> (hd s = 0x2D \<or> hd s = 0x2B) then tl s else s)
     in b \<noteq> [] \<and> list_all dec_digit b)"

definition string_number :: "jstring \<Rightarrow> xnum" where
  "string_number s =
     (let t = rev (dropWhile js_white (rev (dropWhile js_white s)))
      in if t = [] then Fin 0
         else if int_numeral t then Fin (the (parse_int t))
         else if t = lit ''Infinity'' \<or> t = lit ''+Infinity'' then PosInf
         else if t = lit ''-Infinity'' then NegInf
         else NaN)"

fun to_number :: "uval \<Rightarrow> xnum" where
  "to_number UNull = Fin 0"
| "to_number (UBool b) = Fin (if b then 1 else 0)"
| "to_number (UNum n) = n"
| "to_number (UStr s) = string_number s"
| "to_number _ = NaN"

fun string_less :: "jstring \<Rightarrow> jstring \<Rightarrow> bool" where
  "string_less _ [] = False"
| "string_less [] (y # ys) = True"
| "string_less (x # xs) (y # ys) = (x < y \<or> x = y \<and> string_less xs ys)"

text \<open>\<open><\<close> on primitive values: two strings by code units, everything else by number.\<close>

fun js_less :: "uval \<Rightarrow> uval \<Rightarrow> bool" where
  "js_less (UStr a) (UStr b) = string_less a b"
| "js_less a b = num_less (to_number a) (to_number b)"

text \<open>The name under which a primitive value selects a property, \<open>'' + v\<close>.\<close>

fun num_string :: "xnum \<Rightarrow> jstring" where
  "num_string NaN = lit ''NaN''"
| "num_string NegInf = lit ''-Infinity''"
| "num_string PosInf = lit ''Infinity''"
| "num_string (Fin n) = int_string n"

fun u_string :: "uval \<Rightarrow> jstring" where
  "u_string UUndef = lit ''undefined''"
| "u_string UNull = lit ''null''"
| "u_string (UBool b) = (if b then lit ''true'' else lit ''false'')"
| "u_string (UNum n) = num_string n"
| "u_string (UStr s) = s"
| "u_string (UArr i xs) =
     join (lit '','') (map (\<lambda>x. if nullish x then [] else u_string x) xs)"
| "u_string (UObj i ps) = lit ''[object Object]''"
| "u_string (UFun i n) = lit ''function''"

section \<open>Reading properties\<close>

definition own_value :: "(jstring \<times> uval) list \<Rightarrow> jstring \<Rightarrow> uval" where
  "own_value ps k = (case map_of ps k of None \<Rightarrow> UUndef | Some v \<Rightarrow> v)"

definition index_value :: "uval list \<Rightarrow> jstring \<Rightarrow> uval option" where
  "index_value xs k = map_option (\<lambda>i. xs ! i) (find (\<lambda>i. nat_digits i = k) [0..<length xs])"

text \<open>\<open>v[k]\<close> for a value that is not \<open>null\<close>, over own properties.\<close>

fun u_get :: "uval \<Rightarrow> jstring \<Rightarrow> uval" where
  "u_get (UObj i ps) k = own_value ps k"
| "u_get (UArr i xs) k =
     (if k = lit ''length'' then UIdx (length xs)
      else case index_value xs k of None \<Rightarrow> UUndef | Some v \<Rightarrow> v)"
| "u_get (UStr s) k =
     (if k = lit ''length'' then UIdx (length s)
      else case index_value (map (\<lambda>c. UStr [c]) s) k of None \<Rightarrow> UUndef | Some v \<Rightarrow> v)"
| "u_get (UFun i n) k = (if k = lit ''length'' then UIdx n else UUndef)"
| "u_get _ k = UUndef"

text \<open>\<open>v[i]\<close> for an index.\<close>

fun u_at :: "uval \<Rightarrow> nat \<Rightarrow> uval" where
  "u_at (UArr j xs) i = (if i < length xs then xs ! i else UUndef)"
| "u_at (UStr s) i = (if i < length s then UStr [s ! i] else UUndef)"
| "u_at (UObj j ps) i = own_value ps (nat_digits i)"
| "u_at _ i = UUndef"

text \<open>\<open>_.isObject\<close>: objects, arrays and functions.\<close>

fun isObject :: "uval \<Rightarrow> bool" where
  "isObject (UArr i xs) = True"
| "isObject (UObj i ps) = True"
| "isObject (UFun i n) = True"
| "isObject _ = False"

fun us_isArray :: "uval \<Rightarrow> bool" where
  "us_isArray (UArr i xs) = True"
| "us_isArray _ = False"

fun us_isFunction :: "uval \<Rightarrow> bool" where
  "us_isFunction (UFun i n) = True"
| "us_isFunction _ = False"

fun us_isNaN :: "uval \<Rightarrow> bool" where
  "us_isNaN (UNum n) = (n = NaN)"
| "us_isNaN _ = False"

text \<open>\<open>property(key)\<close>: \<open>undefined\<close> on \<open>null\<close>, the property otherwise.\<close>

definition us_property :: "jstring \<Rightarrow> uval \<Rightarrow> uval" where
  "us_property key obj = (if nullish obj then UUndef else u_get obj key)"

definition getLength :: "uval \<Rightarrow> uval" where
  "getLength = us_property (lit ''length'')"

definition MAX_ARRAY_INDEX :: int where
  "MAX_ARRAY_INDEX = 2 ^ 53 - 1"

definition isArrayLike :: "uval \<Rightarrow> bool" where
  "isArrayLike c = (case getLength c of UNum (Fin n) \<Rightarrow> 0 \<le> n \<and> n \<le> MAX_ARRAY_INDEX | _ \<Rightarrow> False)"

text \<open>The bound of a loop \<open>i < getLength(v)\<close>, and the values such a loop reads.\<close>

definition len_of :: "uval \<Rightarrow> nat" where
  "len_of v = (case getLength v of UNum (Fin n) \<Rightarrow> nat n | _ \<Rightarrow> 0)"

definition elems :: "uval \<Rightarrow> uval list" where
  "elems v = map (u_at v) [0..<len_of v]"

text \<open>\<open>_.keys\<close>, by \<open>Object.keys\<close>.\<close>

fun us_keys :: "uval \<Rightarrow> jstring list" where
  "us_keys (UObj i ps) = map fst ps"
| "us_keys (UArr i xs) = map nat_digits [0..<length xs]"
| "us_keys _ = []"

text \<open>\<open>_.values\<close>\<close>

definition us_values :: "uval \<Rightarrow> uval list" where
  "us_values obj = map (u_get obj) (us_keys obj)"

text \<open>
  What an iteration visits, in order: the pairs \<open>(currentKey, obj[currentKey])\<close>, by index on an
  array-like value and by key otherwise.
\<close>

definition entries :: "uval \<Rightarrow> (uval \<times> uval) list" where
  "entries obj =
     (if isArrayLike obj then map (\<lambda>i. (UIdx i, u_at obj i)) [0..<len_of obj]
      else map (\<lambda>k. (UStr k, u_get obj k)) (us_keys obj))"

text \<open>\<open>slice\<close> of an array, with negative positions counted from the end.\<close>

definition slice_pos :: "nat \<Rightarrow> int \<Rightarrow> nat" where
  "slice_pos n i = (if i < 0 then nat (int n + i) else min (nat i) n)"

definition js_slice :: "'a list \<Rightarrow> int \<Rightarrow> int \<Rightarrow> 'a list" where
  "js_slice xs a b =
     (let i = slice_pos (length xs) a; j = slice_pos (length xs) b
      in take (j - i) (drop i xs))"

definition js_slice_from :: "'a list \<Rightarrow> int \<Rightarrow> 'a list" where
  "js_slice_from xs a = drop (slice_pos (length xs) a) xs"

section \<open>Lemmas\<close>

lemma len_of_simps [simp]:
  "len_of (UArr i xs) = length xs" "len_of (UStr s) = length s" "len_of UUndef = 0"
  "len_of UNull = 0" "len_of (UBool b) = 0" "len_of (UNum n) = 0"
  by (simp_all add: len_of_def getLength_def us_property_def)

lemma isArrayLike_UArr [simp]:
  "isArrayLike (UArr i xs) \<longleftrightarrow> int (length xs) \<le> MAX_ARRAY_INDEX"
  by (simp add: isArrayLike_def getLength_def us_property_def)

lemma isArrayLike_simps [simp]:
  "\<not> isArrayLike UUndef" "\<not> isArrayLike UNull" "\<not> isArrayLike (UBool b)" "\<not> isArrayLike (UNum n)"
  by (simp_all add: isArrayLike_def getLength_def us_property_def)

lemma elems_UArr [simp]: "elems (UArr i xs) = xs"
  by (intro nth_equalityI) (simp_all add: elems_def)

lemma length_elems [simp]: "length (elems v) = len_of v"
  by (simp add: elems_def)

lemma map_snd_entries_UArr [simp]:
  "int (length xs) \<le> MAX_ARRAY_INDEX \<Longrightarrow> map snd (entries (UArr i xs)) = xs"
  by (intro nth_equalityI) (simp_all add: entries_def)

lemma nat_digits_inject [simp]: "nat_digits m = nat_digits n \<longleftrightarrow> m = n"
  using int_string_inject [of "int m" "int n"] by (simp add: int_string_def)

lemma index_value_digits [simp]:
  "index_value xs (nat_digits i) = (if i < length xs then Some (xs ! i) else None)"
proof -
  have "find (\<lambda>j. j = i) [0..<n] = Some i" if "i < n" for n
    unfolding find_Some_iff using that by (intro exI [of _ i]) simp
  moreover have "find (\<lambda>j. j = i) [0..<n] = None" if "\<not> i < n" for n
    unfolding find_None_iff using that by simp
  ultimately show ?thesis by (simp add: index_value_def)
qed

lemma strict_eq_sym: "strict_eq a b \<longleftrightarrow> strict_eq b a"
  by (induction a b rule: strict_eq.induct) auto

lemma strict_eq_refl_iff: "strict_eq a a \<longleftrightarrow> \<not> us_isNaN a"
  by (cases a) auto

text \<open>The equality that \<open>_.contains\<close> decides: \<open>===\<close>, with \<open>NaN\<close> equal to itself.\<close>

definition same_value :: "uval \<Rightarrow> uval \<Rightarrow> bool" where
  "same_value a b \<longleftrightarrow> strict_eq a b \<or> us_isNaN a \<and> us_isNaN b"

lemma same_value_refl [simp]: "same_value a a"
  by (simp add: same_value_def strict_eq_refl_iff)

lemma same_value_sym: "same_value a b \<longleftrightarrow> same_value b a"
  by (auto simp: same_value_def strict_eq_sym)

lemma same_value_trans: "same_value a b \<Longrightarrow> same_value b c \<Longrightarrow> same_value a c"
  by (cases a; cases b; cases c) (auto simp: same_value_def)

lemma length_js_slice_all [simp]: "js_slice xs 0 (int (length xs)) = xs"
  by (simp add: js_slice_def slice_pos_def)

end
