(* ===== verification/Underscore_Arrays.thy ===== *)
theory Underscore_Arrays
  imports Underscore_Values "HOL-Library.Multiset"
begin

text \<open>
  The collection and array functions of underscore, as bundled in
  \<open>src/site/assets/javascripts/lunr/wordcut.js\<close>. A callback is a function of the value and the key
  it is called with; a callback that writes is a function on the state it writes. A function that
  the source makes from a direction (\<open>createReduce\<close>, \<open>createPredicateIndexFinder\<close>,
  \<open>createIndexFinder\<close>) takes the direction as an argument, as there. The lemmas compare the loops with the list
  functions they stand for: the folds, the binary search, set operations up to \<open>===\<close>, and the
  permutations made by shuffling and sorting.
\<close>

section \<open>Directions and loops\<close>

datatype dir = Forward | Backward

fun delta :: "dir \<Rightarrow> int" where
  "delta Forward = 1"
| "delta Backward = -1"

text \<open>The first index from which a loop starts.\<close>

fun start_of :: "dir \<Rightarrow> int \<Rightarrow> int" where
  "start_of Forward n = 0"
| "start_of Backward n = n - 1"

text \<open>The iterations a loop in a direction can still do; it bounds both kinds of loop below.\<close>

fun left_to_do :: "dir \<Rightarrow> int \<Rightarrow> int \<Rightarrow> nat" where
  "left_to_do Forward n i = nat (n - i)"
| "left_to_do Backward n i = nat (i + 1)"

section \<open>Iteration\<close>

definition us_each :: "uval \<Rightarrow> (uval \<Rightarrow> uval \<Rightarrow> 's \<Rightarrow> 's) \<Rightarrow> 's \<Rightarrow> 's" where
  "us_each obj iteratee s = fold (\<lambda>(k, x) s. iteratee x k s) (entries obj) s"

definition us_map :: "uval \<Rightarrow> (uval \<Rightarrow> uval \<Rightarrow> 'b) \<Rightarrow> 'b list" where
  "us_map obj iteratee = map (\<lambda>(k, x). iteratee x k) (entries obj)"

function reduce_loop ::
    "dir \<Rightarrow> ('m \<Rightarrow> uval \<Rightarrow> uval \<Rightarrow> 'm) \<Rightarrow> (uval \<times> uval) list \<Rightarrow> 'm \<Rightarrow> int \<Rightarrow> 'm" where
  "reduce_loop d iteratee es memo index =
     (if 0 \<le> index \<and> index < int (length es)
      then reduce_loop d iteratee es
             (iteratee memo (snd (es ! nat index)) (fst (es ! nat index))) (index + delta d)
      else memo)"
  by pat_completeness auto

termination
proof (relation "measure (\<lambda>(d, f, es, m, i). left_to_do d (int (length es)) i)")
  fix d f and es :: "(uval \<times> uval) list" and m :: 'm and i
  assume "0 \<le> i \<and> i < int (length es)"
  then show "((d, f, es, f m (snd (es ! nat i)) (fst (es ! nat i)), i + delta d), d, f, es, m, i)
      \<in> measure (\<lambda>(d, f, es, m, i). left_to_do d (int (length es)) i)"
    by (cases d) auto
qed simp

declare reduce_loop.simps [simp del]

text \<open>
  \<open>obj[keys ? keys[index] : index]\<close>, the value a reduction starts from when no other is given. On an
  empty collection the index is outside, and on \<open>null\<close> the access throws.
\<close>

definition first_memo :: "uval \<Rightarrow> int \<Rightarrow> js_error + uval" where
  "first_memo obj index =
     (if nullish obj then Inl TypeError
      else if isArrayLike obj
      then Inr (if index < 0 then u_get obj (int_string index) else u_at obj (nat index))
      else if 0 \<le> index \<and> index < int (length (us_keys obj))
      then Inr (u_get obj (us_keys obj ! nat index))
      else Inr (u_get obj (lit ''undefined'')))"

definition createReduce ::
    "dir \<Rightarrow> uval \<Rightarrow> (uval \<Rightarrow> uval \<Rightarrow> uval \<Rightarrow> uval) \<Rightarrow> uval option \<Rightarrow> js_error + uval" where
  "createReduce d obj iteratee memo =
     (let es = entries obj; index = start_of d (int (length es))
      in case memo of
           Some m \<Rightarrow> Inr (reduce_loop d iteratee es m index)
         | None \<Rightarrow> bindE (first_memo obj index)
             (\<lambda>m. Inr (reduce_loop d iteratee es m (index + delta d))))"

abbreviation us_reduce where "us_reduce \<equiv> createReduce Forward"
abbreviation us_reduceRight where "us_reduceRight \<equiv> createReduce Backward"

definition us_filter :: "uval \<Rightarrow> (uval \<Rightarrow> uval \<Rightarrow> bool) \<Rightarrow> uval list" where
  "us_filter obj predicate =
     us_each obj (\<lambda>x k results. if predicate x k then results @ [x] else results) []"

definition us_reject :: "uval \<Rightarrow> (uval \<Rightarrow> uval \<Rightarrow> bool) \<Rightarrow> uval list" where
  "us_reject obj predicate = us_filter obj (\<lambda>x k. \<not> predicate x k)"

fun every_loop :: "(uval \<Rightarrow> uval \<Rightarrow> bool) \<Rightarrow> (uval \<times> uval) list \<Rightarrow> bool" where
  "every_loop p [] = True"
| "every_loop p ((k, x) # es) = (if \<not> p x k then False else every_loop p es)"

definition us_every :: "uval \<Rightarrow> (uval \<Rightarrow> uval \<Rightarrow> bool) \<Rightarrow> bool" where
  "us_every obj predicate = every_loop predicate (entries obj)"

fun some_loop :: "(uval \<Rightarrow> uval \<Rightarrow> bool) \<Rightarrow> (uval \<times> uval) list \<Rightarrow> bool" where
  "some_loop p [] = False"
| "some_loop p ((k, x) # es) = (if p x k then True else some_loop p es)"

definition us_some :: "uval \<Rightarrow> (uval \<Rightarrow> uval \<Rightarrow> bool) \<Rightarrow> bool" where
  "us_some obj predicate = some_loop predicate (entries obj)"

definition us_pluck :: "uval \<Rightarrow> jstring \<Rightarrow> uval list" where
  "us_pluck obj key = us_map obj (\<lambda>x k. us_property key x)"

definition us_partition :: "uval \<Rightarrow> (uval \<Rightarrow> uval \<Rightarrow> bool) \<Rightarrow> uval list \<times> uval list" where
  "us_partition obj predicate =
     us_each obj (\<lambda>x k (pass, fail).
       if predicate x k then (pass @ [x], fail) else (pass, fail @ [x])) ([], [])"

definition us_toArray :: "uval \<Rightarrow> uval list" where
  "us_toArray obj =
     (if \<not> u_truthy obj then []
      else if us_isArray obj then js_slice_from (elems obj) 0
      else if isArrayLike obj then us_map obj (\<lambda>x k. x)
      else us_values obj)"

definition us_size :: "uval \<Rightarrow> uval" where
  "us_size obj =
     (if nullish obj then UInt 0
      else if isArrayLike obj then getLength obj
      else UIdx (length (us_keys obj)))"

section \<open>Searching\<close>

function find_loop :: "dir \<Rightarrow> (int \<Rightarrow> bool) \<Rightarrow> int \<Rightarrow> int \<Rightarrow> int" where
  "find_loop d p len index =
     (if 0 \<le> index \<and> index < len
      then if p index then index else find_loop d p len (index + delta d)
      else -1)"
  by pat_completeness auto

termination
proof (relation "measure (\<lambda>(d, p, n, i). left_to_do d n i)")
  fix d and p :: "int \<Rightarrow> bool" and n i :: int
  assume "0 \<le> i \<and> i < n"
  then show "((d, p, n, i + delta d), d, p, n, i) \<in> measure (\<lambda>(d, p, n, i). left_to_do d n i)"
    by (cases d) auto
qed simp

declare find_loop.simps [simp del]

definition createPredicateIndexFinder ::
    "dir \<Rightarrow> uval list \<Rightarrow> (uval \<Rightarrow> int \<Rightarrow> bool) \<Rightarrow> int" where
  "createPredicateIndexFinder d array predicate =
     (let n = int (length array)
      in find_loop d (\<lambda>i. predicate (array ! nat i) i) n (start_of d n))"

definition us_findIndex :: "uval list \<Rightarrow> (uval \<Rightarrow> int \<Rightarrow> bool) \<Rightarrow> int" where
  "us_findIndex = createPredicateIndexFinder Forward"

definition us_findLastIndex :: "uval list \<Rightarrow> (uval \<Rightarrow> int \<Rightarrow> bool) \<Rightarrow> int" where
  "us_findLastIndex = createPredicateIndexFinder Backward"

definition us_findKey :: "uval \<Rightarrow> (uval \<Rightarrow> uval \<Rightarrow> bool) \<Rightarrow> jstring option" where
  "us_findKey obj predicate = find (\<lambda>k. predicate (u_get obj k) (UStr k)) (us_keys obj)"

definition us_find :: "uval \<Rightarrow> (uval \<Rightarrow> uval \<Rightarrow> bool) \<Rightarrow> uval" where
  "us_find obj predicate =
     (if isArrayLike obj
      then let key = us_findIndex (elems obj) (\<lambda>x i. predicate x (UInt i))
           in if key \<noteq> -1 then u_at obj (nat key) else UUndef
      else case us_findKey obj predicate of Some key \<Rightarrow> u_get obj key | None \<Rightarrow> UUndef)"

text \<open>The binary search of \<open>_.sortedIndex\<close>.\<close>

function sortedIndex_loop :: "(uval \<Rightarrow> uval) \<Rightarrow> uval list \<Rightarrow> uval \<Rightarrow> nat \<Rightarrow> nat \<Rightarrow> nat" where
  "sortedIndex_loop iteratee array value low high =
     (if low < high
      then let mid = (low + high) div 2
           in if js_less (iteratee (array ! mid)) value
              then sortedIndex_loop iteratee array value (mid + 1) high
              else sortedIndex_loop iteratee array value low mid
      else low)"
  by pat_completeness auto

termination
  by (relation "measure (\<lambda>(f, xs, v, l, h). h - l)") auto

declare sortedIndex_loop.simps [simp del]

definition us_sortedIndex :: "uval list \<Rightarrow> uval \<Rightarrow> (uval \<Rightarrow> uval) \<Rightarrow> nat" where
  "us_sortedIndex array obj iteratee =
     sortedIndex_loop iteratee array (iteratee obj) 0 (length array)"

text \<open>\<open>array[i]\<close>\<close>

definition list_at :: "uval list \<Rightarrow> nat \<Rightarrow> uval" where
  "list_at xs i = (if i < length xs then xs ! i else UUndef)"

text \<open>The third argument of \<open>_.indexOf\<close>: absent, a number, or any other value by its truth.\<close>

datatype idx_arg = NoIdx | IdxNum int | IdxFlag bool

definition finder_bounds :: "dir \<Rightarrow> int \<Rightarrow> idx_arg \<Rightarrow> int \<times> int" where
  "finder_bounds d len idx =
     (case idx of
        IdxNum n \<Rightarrow>
          (case d of
             Forward \<Rightarrow> (if 0 \<le> n then n else max (n + len) 0, len)
           | Backward \<Rightarrow> (0, if 0 \<le> n then min (n + 1) len else n + len + 1))
      | _ \<Rightarrow> (0, len))"

definition createIndexFinder ::
    "dir \<Rightarrow> (uval list \<Rightarrow> (uval \<Rightarrow> int \<Rightarrow> bool) \<Rightarrow> int) \<Rightarrow> (uval list \<Rightarrow> uval \<Rightarrow> nat) option
      \<Rightarrow> uval list \<Rightarrow> uval \<Rightarrow> idx_arg \<Rightarrow> int" where
  "createIndexFinder d predicateFind sortedIndex array item idx =
     (let (i, len) = finder_bounds d (int (length array)) idx
      in case (sortedIndex, idx) of
           (Some search, IdxFlag True) \<Rightarrow>
             if array \<noteq> []
             then let k = search array item
                  in if strict_eq (list_at array k) item then int k else -1
             else -1
         | _ \<Rightarrow>
             if \<not> strict_eq item item
             then let k = predicateFind (js_slice array i len) (\<lambda>x _. us_isNaN x)
                  in if 0 \<le> k then k + i else -1
             else find_loop d (\<lambda>k. strict_eq (list_at array (nat k)) item) len
                    (case d of Forward \<Rightarrow> i | Backward \<Rightarrow> len - 1))"

definition us_indexOf :: "uval list \<Rightarrow> uval \<Rightarrow> idx_arg \<Rightarrow> int" where
  "us_indexOf = createIndexFinder Forward us_findIndex
     (Some (\<lambda>xs item. us_sortedIndex xs item (\<lambda>x. x)))"

definition us_lastIndexOf :: "uval list \<Rightarrow> uval \<Rightarrow> idx_arg \<Rightarrow> int" where
  "us_lastIndexOf = createIndexFinder Backward us_findLastIndex None"

definition us_contains :: "uval \<Rightarrow> uval \<Rightarrow> int option \<Rightarrow> bool" where
  "us_contains obj item fromIndex =
     (let xs = (if isArrayLike obj then elems obj else us_values obj)
      in 0 \<le> us_indexOf xs item (IdxNum (case fromIndex of None \<Rightarrow> 0 | Some n \<Rightarrow> n)))"

section \<open>Extremes\<close>

definition us_max :: "uval \<Rightarrow> (uval \<Rightarrow> uval \<Rightarrow> uval) option \<Rightarrow> uval" where
  "us_max obj iteratee =
     (if iteratee = None \<and> \<not> nullish obj
      then fold (\<lambda>value result. if js_less result value then value else result)
             (if isArrayLike obj then elems obj else us_values obj) (UNum NegInf)
      else let f = (case iteratee of None \<Rightarrow> (\<lambda>x k. x) | Some f \<Rightarrow> f)
           in fst (us_each obj (\<lambda>value index (result, lastComputed).
                let computed = f value index
                in if js_less lastComputed computed
                      \<or> strict_eq computed (UNum NegInf) \<and> strict_eq result (UNum NegInf)
                   then (value, computed) else (result, lastComputed))
              (UNum NegInf, UNum NegInf)))"

definition us_min :: "uval \<Rightarrow> (uval \<Rightarrow> uval \<Rightarrow> uval) option \<Rightarrow> uval" where
  "us_min obj iteratee =
     (if iteratee = None \<and> \<not> nullish obj
      then fold (\<lambda>value result. if js_less value result then value else result)
             (if isArrayLike obj then elems obj else us_values obj) (UNum PosInf)
      else let f = (case iteratee of None \<Rightarrow> (\<lambda>x k. x) | Some f \<Rightarrow> f)
           in fst (us_each obj (\<lambda>value index (result, lastComputed).
                let computed = f value index
                in if js_less computed lastComputed
                      \<or> strict_eq computed (UNum PosInf) \<and> strict_eq result (UNum PosInf)
                   then (value, computed) else (result, lastComputed))
              (UNum PosInf, UNum PosInf)))"

section \<open>Random order\<close>

text \<open>
  Numbers are doubles: the result of an operation is rounded to 53 significant bits, to the nearest and in the middle to the even
  one. An integer keeps its value below \<open>2 ^ 53\<close>. (Overflow to infinity does not occur with the arguments considered here.)
\<close>

function bit_length :: "nat \<Rightarrow> nat" where
  "bit_length n = (if n = 0 then 0 else Suc (bit_length (n div 2)))"
  by auto

termination
  by (relation "measure id") auto

declare bit_length.simps [simp del]

definition round_nat :: "nat \<Rightarrow> nat" where
  "round_nat n =
     (let k = bit_length n - 53; q = n div 2 ^ k; r = n mod 2 ^ k
      in if 2 ^ k < 2 * r \<or> 2 * r = 2 ^ k \<and> odd q then (q + 1) * 2 ^ k else q * 2 ^ k)"

definition dbl :: "int \<Rightarrow> int" where
  "dbl x = (if x < 0 then - int (round_nat (nat (- x))) else int (round_nat (nat x)))"

text \<open>What \<open>Math.random()\<close> returns, a double from 0 up to but not including 1, is \<open>m / 2 ^ e\<close>.\<close>

type_synonym draw = "nat \<times> nat"

definition is_draw :: "draw \<Rightarrow> bool" where
  "is_draw d \<longleftrightarrow> fst d < 2 ^ 53 \<and> 53 \<le> snd d"

text \<open>\<open>_.random(min, max)\<close> and \<open>_.random(max)\<close>; the product has the rounded numerator over the same power of two.\<close>

definition us_random :: "draw \<Rightarrow> int \<Rightarrow> int option \<Rightarrow> int" where
  "us_random d mn mx =
     (let (lo, hi) = (case mx of None \<Rightarrow> (0, mn) | Some m \<Rightarrow> (mn, m))
      in dbl (lo + dbl (int (fst d) * dbl (dbl (hi - lo) + 1)) div 2 ^ snd d))"

text \<open>One round of the shuffle; the draw of round \<open>index\<close> is \<open>draws index\<close>.\<close>

definition shuffle_step :: "(nat \<Rightarrow> draw) \<Rightarrow> uval list \<Rightarrow> nat \<Rightarrow> uval list \<Rightarrow> uval list" where
  "shuffle_step draws arr index shuffled =
     (let rand = nat (us_random (draws index) 0 (Some (int index)));
          shuffled1 = (if rand \<noteq> index then shuffled[index := shuffled ! rand] else shuffled)
      in shuffled1[rand := arr ! index])"

definition us_shuffle :: "(nat \<Rightarrow> draw) \<Rightarrow> uval \<Rightarrow> uval list" where
  "us_shuffle draws obj =
     (let arr = (if isArrayLike obj then elems obj else us_values obj)
      in fold (shuffle_step draws arr) [0..<length arr] (replicate (length arr) UUndef))"

text \<open>\<open>_.sample\<close>: one element, or the first \<open>n\<close> of a shuffled copy.\<close>

definition us_sample :: "(nat \<Rightarrow> draw) \<Rightarrow> uval \<Rightarrow> int option \<Rightarrow> uval + uval list" where
  "us_sample draws obj n =
     (case n of
        None \<Rightarrow>
          (let xs = (if isArrayLike obj then elems obj else us_values obj);
               i = us_random (draws 0) (int (length xs) - 1) None
           in Inl (if 0 \<le> i \<and> i < int (length xs) then xs ! nat i else UUndef))
      | Some m \<Rightarrow> Inr (js_slice (us_shuffle draws obj) 0 (max 0 m)))"

section \<open>Sorting and grouping\<close>

text \<open>
  \<open>Array.prototype.sort\<close> with a comparison function, as a stable insertion sort. When the comparison is
  a linear order every algorithm has the same result.
\<close>

fun sort_insert :: "('a \<Rightarrow> 'a \<Rightarrow> int) \<Rightarrow> 'a \<Rightarrow> 'a list \<Rightarrow> 'a list" where
  "sort_insert cmp x [] = [x]"
| "sort_insert cmp x (y # ys) = (if cmp x y \<le> 0 then x # y # ys else y # sort_insert cmp x ys)"

definition js_sort :: "('a \<Rightarrow> 'a \<Rightarrow> int) \<Rightarrow> 'a list \<Rightarrow> 'a list" where
  "js_sort cmp xs = foldr (sort_insert cmp) xs []"

record sort_item =
  item_value :: uval
  item_index :: uval
  item_criteria :: uval

definition index_order :: "uval \<Rightarrow> uval \<Rightarrow> int" where
  "index_order i j =
     (if num_less (to_number i) (to_number j) then -1
      else if num_less (to_number j) (to_number i) then 1 else 0)"

definition compare_items :: "sort_item \<Rightarrow> sort_item \<Rightarrow> int" where
  "compare_items left right =
     (let a = item_criteria left; b = item_criteria right
      in if \<not> strict_eq a b \<and> (js_less b a \<or> a = UUndef) then 1
         else if \<not> strict_eq a b \<and> (js_less a b \<or> b = UUndef) then -1
         else index_order (item_index left) (item_index right))"

definition us_sortBy :: "uval \<Rightarrow> (uval \<Rightarrow> uval \<Rightarrow> uval) \<Rightarrow> uval list" where
  "us_sortBy obj iteratee =
     map item_value (js_sort compare_items
       (us_map obj (\<lambda>x k. \<lparr>item_value = x, item_index = k, item_criteria = iteratee x k\<rparr>)))"

text \<open>
  Writing a property of a plain object: \<open>result['__proto__'] = v\<close> sets the prototype and makes no own
  property.
\<close>

definition own_set :: "(jstring \<rightharpoonup> 'v) \<Rightarrow> jstring \<Rightarrow> 'v \<Rightarrow> (jstring \<rightharpoonup> 'v)" where
  "own_set m k v = (if k = lit ''__proto__'' then m else m(k \<mapsto> v))"

definition us_group ::
    "((jstring \<rightharpoonup> 'v) \<Rightarrow> uval \<Rightarrow> jstring \<Rightarrow> (jstring \<rightharpoonup> 'v)) \<Rightarrow> uval \<Rightarrow> (uval \<Rightarrow> uval \<Rightarrow> uval)
      \<Rightarrow> (jstring \<rightharpoonup> 'v)" where
  "us_group behavior obj iteratee =
     us_each obj (\<lambda>x k result. behavior result x (u_string (iteratee x k))) Map.empty"

definition us_groupBy :: "uval \<Rightarrow> (uval \<Rightarrow> uval \<Rightarrow> uval) \<Rightarrow> (jstring \<rightharpoonup> uval list)" where
  "us_groupBy = us_group (\<lambda>result value key.
     case result key of Some xs \<Rightarrow> own_set result key (xs @ [value]) | None \<Rightarrow> own_set result key [value])"

definition us_indexBy :: "uval \<Rightarrow> (uval \<Rightarrow> uval \<Rightarrow> uval) \<Rightarrow> (jstring \<rightharpoonup> uval)" where
  "us_indexBy = us_group (\<lambda>result value key. own_set result key value)"

definition us_countBy :: "uval \<Rightarrow> (uval \<Rightarrow> uval \<Rightarrow> uval) \<Rightarrow> (jstring \<rightharpoonup> int)" where
  "us_countBy = us_group (\<lambda>result value key.
     case result key of Some n \<Rightarrow> own_set result key (n + 1) | None \<Rightarrow> own_set result key 1)"

section \<open>Parts of an array\<close>

definition us_initial :: "uval list \<Rightarrow> int option \<Rightarrow> uval list" where
  "us_initial array n =
     js_slice array 0 (max 0 (int (length array) - (case n of None \<Rightarrow> 1 | Some m \<Rightarrow> m)))"

definition us_rest :: "uval list \<Rightarrow> int option \<Rightarrow> uval list" where
  "us_rest array n = js_slice_from array (case n of None \<Rightarrow> 1 | Some m \<Rightarrow> m)"

text \<open>\<open>_.first\<close> and \<open>_.last\<close> return an element without \<open>n\<close> and a new array with it; \<open>null\<close> gives \<open>undefined\<close>.\<close>

definition us_first :: "uval list option \<Rightarrow> int option \<Rightarrow> uval + uval list" where
  "us_first array n =
     (case array of
        None \<Rightarrow> Inl UUndef
      | Some xs \<Rightarrow>
          (case n of
             None \<Rightarrow> Inl (if xs = [] then UUndef else xs ! 0)
           | Some m \<Rightarrow> Inr (us_initial xs (Some (int (length xs) - m)))))"

definition us_last :: "uval list option \<Rightarrow> int option \<Rightarrow> uval + uval list" where
  "us_last array n =
     (case array of
        None \<Rightarrow> Inl UUndef
      | Some xs \<Rightarrow>
          (case n of
             None \<Rightarrow> Inl (if xs = [] then UUndef else xs ! (length xs - 1))
           | Some m \<Rightarrow> Inr (us_rest xs (Some (max 0 (int (length xs) - m))))))"

definition us_compact :: "uval \<Rightarrow> uval list" where
  "us_compact array = us_filter array (\<lambda>x k. u_truthy x)"

fun flatten_loop :: "bool \<Rightarrow> bool \<Rightarrow> uval list \<Rightarrow> uval list" where
  "flatten_loop shallow strict [] = []"
| "flatten_loop shallow strict (UArr i ys # xs) =
     (if shallow then ys else flatten_loop shallow strict ys) @ flatten_loop shallow strict xs"
| "flatten_loop shallow strict (x # xs) =
     (if strict then [] else [x]) @ flatten_loop shallow strict xs"

definition us_flatten_from :: "uval \<Rightarrow> bool \<Rightarrow> bool \<Rightarrow> nat \<Rightarrow> uval list" where
  "us_flatten_from input shallow strict startIndex =
     flatten_loop shallow strict (drop startIndex (elems input))"

definition us_flatten :: "uval \<Rightarrow> bool \<Rightarrow> uval list" where
  "us_flatten array shallow = us_flatten_from array shallow False 0"

section \<open>Arrays as sets\<close>

definition member :: "uval list \<Rightarrow> uval \<Rightarrow> bool" where
  "member xs item \<longleftrightarrow> 0 \<le> us_indexOf xs item (IdxNum 0)"

text \<open>The loop of \<open>_.uniq\<close> over the rest of the array; the two variables called \<open>seen\<close> of the source.\<close>

fun uniq_loop ::
    "bool \<Rightarrow> (uval \<Rightarrow> uval \<Rightarrow> uval) option \<Rightarrow> nat \<Rightarrow> uval option \<Rightarrow> uval list \<Rightarrow> uval list
      \<Rightarrow> uval list \<Rightarrow> uval list" where
  "uniq_loop isSorted iteratee i last_seen seen result [] = result"
| "uniq_loop isSorted iteratee i last_seen seen result (value # rest) =
     (let computed = (case iteratee of None \<Rightarrow> value | Some f \<Rightarrow> f value (UIdx i))
      in if isSorted
         then uniq_loop isSorted iteratee (Suc i) (Some computed) seen
                (if last_seen = None \<or> \<not> strict_eq (the last_seen) computed
                 then result @ [value] else result) rest
         else if iteratee \<noteq> None
         then (if \<not> member seen computed
               then uniq_loop isSorted iteratee (Suc i) last_seen (seen @ [computed])
                      (result @ [value]) rest
               else uniq_loop isSorted iteratee (Suc i) last_seen seen result rest)
         else uniq_loop isSorted iteratee (Suc i) last_seen seen
                (if \<not> member result value then result @ [value] else result) rest)"

definition us_uniq :: "uval list \<Rightarrow> bool \<Rightarrow> (uval \<Rightarrow> uval \<Rightarrow> uval) option \<Rightarrow> uval list" where
  "us_uniq array isSorted iteratee = uniq_loop isSorted iteratee 0 None [] [] array"

text \<open>The functions of several arrays take them as the list of the arguments.\<close>

definition us_union :: "uval list \<Rightarrow> uval list" where
  "us_union args = us_uniq (flatten_loop True True args) False None"

fun all_contain :: "uval list \<Rightarrow> uval \<Rightarrow> bool" where
  "all_contain [] item = True"
| "all_contain (a # as) item = (if \<not> us_contains a item None then False else all_contain as item)"

fun intersection_loop :: "uval list \<Rightarrow> uval list \<Rightarrow> uval list \<Rightarrow> uval list" where
  "intersection_loop others result [] = result"
| "intersection_loop others result (item # rest) =
     (if member result item then intersection_loop others result rest
      else intersection_loop others
             (if all_contain others item then result @ [item] else result) rest)"

definition us_intersection :: "uval list \<Rightarrow> uval list \<Rightarrow> uval list" where
  "us_intersection array others = intersection_loop others [] array"

definition us_difference :: "uval \<Rightarrow> uval list \<Rightarrow> uval list" where
  "us_difference array others =
     (let rest = flatten_loop True True others
      in us_filter array (\<lambda>x k. \<not> member rest x))"

definition us_without :: "uval \<Rightarrow> uval list \<Rightarrow> uval list" where
  "us_without array excluded = us_difference array [UArr 0 excluded]"

section \<open>Tables\<close>

definition unzip_length :: "uval \<Rightarrow> nat" where
  "unzip_length array =
     (if u_truthy array
      then case u_get (us_max array (Some (\<lambda>x k. getLength x))) (lit ''length'') of
             UNum (Fin n) \<Rightarrow> nat n | _ \<Rightarrow> 0
      else 0)"

definition us_unzip :: "uval \<Rightarrow> uval list list" where
  "us_unzip array =
     map (\<lambda>index. us_map array (\<lambda>x k. if nullish x then UUndef else u_at x index))
       [0..<unzip_length array]"

definition us_zip :: "nat \<Rightarrow> uval list \<Rightarrow> uval list list" where
  "us_zip arguments_id args = us_unzip (UArr arguments_id args)"

text \<open>\<open>_.object\<close>; an element of the list that is \<open>null\<close> has no first component and throws.\<close>

fun object_loop ::
    "uval list option \<Rightarrow> nat \<Rightarrow> uval list \<Rightarrow> (jstring \<rightharpoonup> uval) \<Rightarrow> js_error + (jstring \<rightharpoonup> uval)" where
  "object_loop values i [] result = Inr result"
| "object_loop values i (x # xs) result =
     (case values of
        Some vs \<Rightarrow>
          object_loop values (Suc i) xs
            (own_set result (u_string x) (if i < length vs then vs ! i else UUndef))
      | None \<Rightarrow>
          if nullish x then Inl TypeError
          else object_loop values (Suc i) xs (own_set result (u_string (u_at x 0)) (u_at x 1)))"

definition us_object :: "uval list \<Rightarrow> uval list option \<Rightarrow> js_error + (jstring \<rightharpoonup> uval)" where
  "us_object list values = object_loop values 0 list Map.empty"

fun range_loop :: "nat \<Rightarrow> int \<Rightarrow> int \<Rightarrow> int list" where
  "range_loop 0 start step = []"
| "range_loop (Suc n) start step = start # range_loop n (start + step) step"

text \<open>\<open>Math.ceil(a / b)\<close>\<close>

definition ceil_div :: "int \<Rightarrow> int \<Rightarrow> int" where
  "ceil_div a b = - ((- a) div b)"

definition us_range :: "int \<Rightarrow> int option \<Rightarrow> int option \<Rightarrow> int list" where
  "us_range start stop step =
     (let (from, to) = (case stop of None \<Rightarrow> (0, start) | Some s \<Rightarrow> (start, s));
          d = (case step of Some s \<Rightarrow> if s = 0 then 1 else s | None \<Rightarrow> 1)
      in range_loop (nat (max (ceil_div (to - from) d) 0)) from d)"

section \<open>The loops\<close>

lemma reduce_loop_Forward:
  "i \<le> length es \<Longrightarrow>
    reduce_loop Forward f es m (int i) = foldl (\<lambda>m (k, x). f m x k) m (drop i es)"
proof (induction "length es - i" arbitrary: i m)
  case 0
  then show ?case by (subst reduce_loop.simps) simp
next
  case (Suc n)
  then have i: "i < length es" "n = length es - Suc i" by simp_all
  have "reduce_loop Forward f es m (int i) =
      reduce_loop Forward f es (f m (snd (es ! i)) (fst (es ! i))) (int (Suc i))"
    using i by (subst reduce_loop.simps) (simp add: add.commute)
  also have "\<dots> = foldl (\<lambda>m (k, x). f m x k) (f m (snd (es ! i)) (fst (es ! i))) (drop (Suc i) es)"
    using i by (intro Suc.hyps(1)) auto
  finally show ?case
    using i by (simp add: Cons_nth_drop_Suc [symmetric] case_prod_beta)
qed

lemma reduce_loop_Backward:
  "i \<le> length es \<Longrightarrow>
    reduce_loop Backward f es m (int i - 1) = foldr (\<lambda>(k, x) m. f m x k) (take i es) m"
proof (induction i arbitrary: m)
  case 0
  then show ?case by (subst reduce_loop.simps) simp
next
  case (Suc i)
  then show ?case
    by (cases "es ! i") (subst reduce_loop.simps, simp add: take_Suc_conv_app_nth)
qed

lemma find_loop_Forward:
  fixes n i :: int
  assumes "0 \<le> i"
  shows "(find_loop Forward p n i = -1 \<and> (\<forall>j. i \<le> j \<and> j < n \<longrightarrow> \<not> p j)) \<or>
    (i \<le> find_loop Forward p n i \<and> find_loop Forward p n i < n \<and> p (find_loop Forward p n i) \<and>
      (\<forall>j. i \<le> j \<and> j < find_loop Forward p n i \<longrightarrow> \<not> p j))"
  using assms
proof (induction "nat (n - i)" arbitrary: i rule: less_induct)
  case less
  show ?case
  proof (cases "i < n \<and> \<not> p i")
    case False
    then show ?thesis using less.prems by (subst (1 2 3 4 5) find_loop.simps) auto
  next
    case True
    then have step: "find_loop Forward p n i = find_loop Forward p n (i + 1)"
      using less.prems by (subst find_loop.simps) simp
    have split: "i \<le> j \<longleftrightarrow> j = i \<or> i + 1 \<le> j" for j by auto
    show ?thesis
      using less.hyps [of "i + 1"] less.prems True unfolding step split by auto
  qed
qed

lemma find_loop_Backward:
  fixes n i :: int
  assumes "i < n"
  shows "(find_loop Backward p n i = -1 \<and> (\<forall>j. 0 \<le> j \<and> j \<le> i \<longrightarrow> \<not> p j)) \<or>
    (0 \<le> find_loop Backward p n i \<and> find_loop Backward p n i \<le> i \<and> p (find_loop Backward p n i) \<and>
      (\<forall>j. find_loop Backward p n i < j \<and> j \<le> i \<longrightarrow> \<not> p j))"
  using assms
proof (induction "nat (i + 1)" arbitrary: i rule: less_induct)
  case less
  show ?case
  proof (cases "0 \<le> i \<and> \<not> p i")
    case False
    then show ?thesis using less.prems by (subst (1 2 3 4 5) find_loop.simps) auto
  next
    case True
    then have step: "find_loop Backward p n i = find_loop Backward p n (i - 1)"
      using less.prems by (subst find_loop.simps) simp
    have split: "j \<le> i \<longleftrightarrow> j = i \<or> j \<le> i - 1" for j by auto
    show ?thesis
      using less.hyps [of "i - 1"] less.prems True unfolding step split by auto
  qed
qed

lemma find_loop_nonneg:
  fixes n :: int
  shows "0 \<le> find_loop Forward p n 0 \<longleftrightarrow> (\<exists>j. 0 \<le> j \<and> j < n \<and> p j)"
  using find_loop_Forward [of 0 p n] by auto

lemma ex_int_index: "(\<exists>j. 0 \<le> j \<and> j < int n \<and> Q (nat j)) \<longleftrightarrow> (\<exists>k < n. Q k)"
proof
  assume "\<exists>k < n. Q k"
  then obtain k where "k < n" "Q k" by blast
  then show "\<exists>j. 0 \<le> j \<and> j < int n \<and> Q (nat j)" by (intro exI [of _ "int k"]) simp
next
  assume "\<exists>j. 0 \<le> j \<and> j < int n \<and> Q (nat j)"
  then obtain j where "0 \<le> j" "j < int n" "Q (nat j)" by blast
  then show "\<exists>k < n. Q k" by (intro exI [of _ "nat j"]) auto
qed

lemma ex_nth_iff: "(\<exists>k < length xs. P (xs ! k)) \<longleftrightarrow> (\<exists>x \<in> set xs. P x)"
  by (metis in_set_conv_nth)

lemma us_findIndex_nonneg: "0 \<le> us_findIndex xs (\<lambda>x _. P x) \<longleftrightarrow> (\<exists>x \<in> set xs. P x)"
  by (simp add: us_findIndex_def createPredicateIndexFinder_def find_loop_nonneg
      ex_int_index [of "length xs" "\<lambda>k. P (xs ! k)"] ex_nth_iff)

lemma member_iff: "member xs item \<longleftrightarrow> (\<exists>x \<in> set xs. same_value x item)"
proof (cases "strict_eq item item")
  case True
  have "(\<exists>j. 0 \<le> j \<and> j < int (length xs) \<and> strict_eq (list_at xs (nat j)) item)
      \<longleftrightarrow> (\<exists>x \<in> set xs. strict_eq x item)"
    unfolding ex_int_index [of "length xs" "\<lambda>k. strict_eq (list_at xs k) item"]
    by (simp add: list_at_def ex_nth_iff [of xs "\<lambda>x. strict_eq x item", symmetric] cong: conj_cong)
  with True show ?thesis
    by (simp add: member_def us_indexOf_def createIndexFinder_def finder_bounds_def
        find_loop_nonneg same_value_def strict_eq_refl_iff)
next
  case False
  then have nan: "us_isNaN item" by (simp add: strict_eq_refl_iff)
  then have "same_value x item \<longleftrightarrow> us_isNaN x" for x
    by (cases x; cases item) (auto simp: same_value_def)
  with False show ?thesis
    using us_findIndex_nonneg [of xs us_isNaN]
    by (auto simp: member_def us_indexOf_def createIndexFinder_def finder_bounds_def Let_def)
qed

lemma us_contains_elems:
  "isArrayLike obj \<Longrightarrow> us_contains obj item None \<longleftrightarrow> member (elems obj) item"
  by (simp add: us_contains_def member_def)

section \<open>The binary search\<close>

lemma sortedIndex_loop_spec:
  assumes mono: "\<And>j k. j \<le> k \<Longrightarrow> k < length xs \<Longrightarrow> js_less (f (xs ! k)) v \<Longrightarrow> js_less (f (xs ! j)) v"
    and "low \<le> high" "high \<le> length xs"
    and "\<And>j. j < low \<Longrightarrow> js_less (f (xs ! j)) v"
    and "\<And>j. high \<le> j \<Longrightarrow> j < length xs \<Longrightarrow> \<not> js_less (f (xs ! j)) v"
  shows "takeWhile (\<lambda>y. js_less (f y) v) xs = take (sortedIndex_loop f xs v low high) xs
    \<and> sortedIndex_loop f xs v low high \<le> length xs"
  using assms(2-)
proof (induction "high - low" arbitrary: low high rule: less_induct)
  case less
  let ?mid = "(low + high) div 2"
  show ?case
  proof (cases "low < high")
    case False
    with less.prems show ?thesis
      by (subst (1 2) sortedIndex_loop.simps) (auto intro: takeWhile_eq_take_P_nth)
  next
    case True
    then have mid: "low \<le> ?mid" "?mid < high" "?mid < length xs" using less.prems by auto
    show ?thesis
    proof (cases "js_less (f (xs ! ?mid)) v")
      case left: True
      then have "js_less (f (xs ! j)) v" if "j < Suc ?mid" for j
        using mono [of j ?mid] mid that by simp
      with less.hyps [of high "Suc ?mid"] less.prems mid left True show ?thesis
        by (subst (1 2) sortedIndex_loop.simps) (simp add: Let_def)
    next
      case right: False
      then have "\<not> js_less (f (xs ! j)) v" if "?mid \<le> j" "j < length xs" for j
        using mono [of ?mid j] that by blast
      with less.hyps [of ?mid low] less.prems mid right True show ?thesis
        by (subst (1 2) sortedIndex_loop.simps) (simp add: Let_def)
    qed
  qed
qed

text \<open>
  Binary search finds the first place where a value can go: on an array sorted by an integer
  criterion, \<open>_.sortedIndex\<close> returns the number of leading elements with a smaller criterion, the
  same index a linear scan from the left stops at, and inserting the value there keeps the array sorted.
\<close>

theorem us_sortedIndex_insertion_point:
  assumes "sorted (map g xs)"
  shows "us_sortedIndex xs x (\<lambda>v. UInt (g v)) = length (takeWhile (\<lambda>y. g y < g x) xs)
    \<and> sorted (map g (take (us_sortedIndex xs x (\<lambda>v. UInt (g v))) xs @ [x] @
        drop (us_sortedIndex xs x (\<lambda>v. UInt (g v))) xs))"
proof -
  let ?i = "us_sortedIndex xs x (\<lambda>v. UInt (g v))"
  have nth: "g (xs ! j) \<le> g (xs ! k)" if "j \<le> k" "k < length xs" for j k
    using sorted_nth_mono [OF assms, of j k] that by simp
  have tw: "takeWhile (\<lambda>y. g y < g x) xs = take ?i xs \<and> ?i \<le> length xs"
    using sortedIndex_loop_spec [of xs "\<lambda>v. UInt (g v)" "UInt (g x)" 0 "length xs"] nth
    by (fastforce simp: us_sortedIndex_def)
  then have i: "?i = length (takeWhile (\<lambda>y. g y < g x) xs)" by simp
  have dw: "dropWhile (\<lambda>y. g y < g x) xs = drop ?i xs"
    using i by (metis dropWhile_eq_drop)
  have "g y < g x" if "y \<in> set (take ?i xs)" for y
    using that tw by (metis set_takeWhileD)
  moreover have "g x \<le> g y" if y: "y \<in> set (drop ?i xs)" for y
  proof -
    from y obtain j where "j < length xs - ?i" "y = xs ! (?i + j)"
      by (auto simp: in_set_conv_nth)
    then obtain k where k: "?i \<le> k" "k < length xs" "y = xs ! k"
      by (intro that [of "?i + j"]) auto
    then have "\<not> g (xs ! ?i) < g x"
      using nth_length_takeWhile [of "\<lambda>y. g y < g x" xs] i by simp
    with nth [of ?i k] k show ?thesis by simp
  qed
  moreover have "sorted (map g (take ?i xs))" "sorted (map g (drop ?i xs))"
    using assms by (simp_all add: sorted_wrt_take sorted_wrt_drop take_map [symmetric] drop_map [symmetric])
  ultimately have "sorted (map g (take ?i xs @ [x] @ drop ?i xs))"
    by (fastforce simp: sorted_append intro: less_imp_le)
  with i show ?thesis by simp
qed

theorem us_sortedIndex_insertion_point_witness:
  "us_sortedIndex [UInt 1, UInt 3, UInt 3, UInt 8] (UInt 3)
     (\<lambda>v. UInt (case v of UNum (Fin n) \<Rightarrow> n | _ \<Rightarrow> 0)) = 1"
  using us_sortedIndex_insertion_point [of "\<lambda>v. case v of UNum (Fin n) \<Rightarrow> n | _ \<Rightarrow> 0"
      "[UInt 1, UInt 3, UInt 3, UInt 8]" "UInt 3"] by simp

section \<open>Random order\<close>

lemma bit_length_bounds: "0 < n \<Longrightarrow> 2 ^ (bit_length n - 1) \<le> n \<and> n < 2 ^ bit_length n"
proof (induction n rule: bit_length.induct)
  case (1 n)
  show ?case
  proof (cases "n div 2 = 0")
    case True
    then have "n = 1" using "1.prems" by (simp add: div_eq_0_iff)
    then show ?thesis by (simp add: bit_length.simps)
  next
    case False
    then have "2 ^ (bit_length (n div 2) - 1) \<le> n div 2" "n div 2 < 2 ^ bit_length (n div 2)" "bit_length (n div 2) \<noteq> 0"
      using 1 by (auto simp: bit_length.simps [of "n div 2"])
    moreover obtain b where "bit_length (n div 2) = Suc b" using calculation(3) not0_implies_Suc by blast
    ultimately have "2 ^ b \<le> n div 2" "n div 2 < 2 * 2 ^ b" "bit_length n = Suc (Suc b)"
      using "1.prems" by (simp_all add: bit_length.simps [of n])
    then show ?thesis by simp arith
  qed
qed

lemma bit_length_le: "n < 2 ^ b \<Longrightarrow> bit_length n \<le> b"
proof (cases "n = 0")
  case False
  assume "n < 2 ^ b"
  then have "(2::nat) ^ (bit_length n - 1) < 2 ^ b" using bit_length_bounds [of n] False by linarith
  then have "bit_length n - 1 < b" by simp
  then show ?thesis by linarith
qed (simp add: bit_length.simps)

text \<open>Rounding goes down to the multiple below or up, but not by more than half of the last place.\<close>

lemma round_nat_bounds:
  defines "k \<equiv> \<lambda>n. bit_length n - 53"
  shows "n div 2 ^ k n * 2 ^ k n \<le> round_nat n" "2 * round_nat n \<le> 2 * n + 2 ^ k n"
proof -
  let ?q = "n div 2 ^ k n" and ?r = "n mod 2 ^ k n"
  have n: "n = ?q * 2 ^ k n + ?r" by (rule div_mult_mod_eq [symmetric])
  have r: "round_nat n = (if 2 ^ k n < 2 * ?r \<or> 2 * ?r = 2 ^ k n \<and> odd ?q then (?q + 1) * 2 ^ k n else ?q * 2 ^ k n)"
    by (simp add: round_nat_def k_def Let_def)
  show "?q * 2 ^ k n \<le> round_nat n" by (simp add: r)
  show "2 * round_nat n \<le> 2 * n + 2 ^ k n"
    unfolding r using n by (simp add: distrib_right)
qed

lemma round_nat_small: "n \<le> 2 ^ 53 \<Longrightarrow> round_nat n = n"
proof (cases "n < 2 ^ 53")
  case True
  then show ?thesis using bit_length_le [of n 53] by (simp add: round_nat_def)
next
  case False
  assume "n \<le> 2 ^ 53"
  with False have n: "n = 2 ^ 53" by simp
  then have "bit_length n \<le> 54" by (intro bit_length_le) simp
  then consider "bit_length n - 53 = 0" | "bit_length n - 53 = 1" by linarith
  then show ?thesis by cases (simp_all add: round_nat_def n)
qed

lemma dbl_exact: "\<bar>x\<bar> \<le> 2 ^ 53 \<Longrightarrow> dbl x = x"
  by (auto simp: dbl_def round_nat_small nat_le_iff)

text \<open>
  The product of a number below 1 with an integer stays below the integer: what rounding can add is less than the distance.
\<close>

lemma round_product:
  assumes "m < 2 ^ 53" "0 < n" "n \<le> 2 ^ 53"
  shows "round_nat (m * n) < n * 2 ^ 53"
proof -
  let ?x = "m * n" and ?k = "bit_length (m * n) - 53"
  have le: "?x + n \<le> n * 2 ^ 53"
    using assms(1) mult_le_mono1 [of "Suc m" "2 ^ 53" n] by (simp add: algebra_simps)
  show ?thesis
  proof (cases ?k)
    case 0
    then have "2 * round_nat ?x \<le> 2 * ?x + 1" using round_nat_bounds(2) [of ?x] by simp
    then show ?thesis using le assms(2) by linarith
  next
    case (Suc j)
    have "bit_length 0 = 0" by (subst bit_length.simps) simp
    with Suc have "0 < ?x" by (metis diff_0_eq_0 gr0I nat.distinct(1))
    moreover have "bit_length ?x - 1 = j + 53" using Suc by linarith
    ultimately have "2 ^ (j + 53) \<le> ?x" using bit_length_bounds [of ?x] by metis
    then have "2 ^ j * 2 ^ 53 < n * 2 ^ 53" using le assms(2) by (simp only: power_add)
    then have "2 ^ j < n" by simp
    moreover have "2 * round_nat ?x \<le> 2 * ?x + 2 * 2 ^ j" using round_nat_bounds(2) [of ?x] Suc by simp
    ultimately show ?thesis using le by linarith
  qed
qed

lemma round_product_last:
  assumes "0 < n" "n \<le> 2 ^ 53"
  shows "(n - 1) * 2 ^ 53 \<le> round_nat ((2 ^ 53 - 1) * n)"
proof -
  define x k where "x = (2 ^ 53 - 1) * n" and "k = bit_length x - 53"
  have "x < 2 ^ 53 * 2 ^ 53" unfolding x_def using assms by (intro mult_less_le_imp_less) auto
  then have "k \<le> 53" using bit_length_le [of x 106] by (simp add: k_def)
  then have p: "(2::nat) ^ 53 = 2 ^ (53 - k) * 2 ^ k" by (simp only: power_add [symmetric] le_add_diff_inverse2)
  have "(n - 1) * 2 ^ 53 \<le> x" using assms by (simp add: x_def algebra_simps)
  then have "(n - 1) * 2 ^ (53 - k) * 2 ^ k \<le> x" by (simp only: p mult.assoc)
  then have "(n - 1) * 2 ^ (53 - k) \<le> x div 2 ^ k" by (subst less_eq_div_iff_mult_less_eq) simp_all
  then have "(n - 1) * 2 ^ (53 - k) * 2 ^ k \<le> x div 2 ^ k * 2 ^ k" by (rule mult_le_mono1)
  then have "(n - 1) * 2 ^ 53 \<le> x div 2 ^ k * 2 ^ k" by (simp only: p mult.assoc)
  with round_nat_bounds(1) [of x] show ?thesis unfolding x_def [symmetric] k_def by linarith
qed

lemma dbl_int: "dbl (int x) = int (round_nat x)"
  by (simp add: dbl_def)

text \<open>The number that is added to the lower bound.\<close>

lemma dbl_product:
  assumes "is_draw d" "0 < n" "n \<le> 2 ^ 53"
  shows "0 \<le> dbl (int (fst d) * n) div 2 ^ snd d" "dbl (int (fst d) * n) div 2 ^ snd d < n"
proof -
  obtain k where k: "n = int k" "0 < k" "k \<le> 2 ^ 53" using assms(2,3) by (cases n) auto
  have x: "dbl (int (fst d) * n) = int (round_nat (fst d * k))"
    by (simp only: k(1) of_nat_mult [symmetric] dbl_int)
  have "round_nat (fst d * k) < k * 2 ^ 53" using assms(1) k by (intro round_product) (auto simp: is_draw_def)
  also have "\<dots> \<le> k * 2 ^ snd d" using assms(1) by (intro mult_le_mono2 power_increasing) (auto simp: is_draw_def)
  finally have "round_nat (fst d * k) div 2 ^ snd d < k" by (simp add: div_less_iff_less_mult)
  moreover have "dbl (int (fst d) * n) div 2 ^ snd d = int (round_nat (fst d * k) div 2 ^ snd d)"
    by (simp add: x zdiv_int)
  ultimately show "0 \<le> dbl (int (fst d) * n) div 2 ^ snd d" "dbl (int (fst d) * n) div 2 ^ snd d < n"
    by (simp_all add: k(1))
qed

definition double_int :: "int \<Rightarrow> bool" where
  "double_int x \<longleftrightarrow> \<bar>x\<bar> \<le> 2 ^ 53"

lemma us_random_sum:
  assumes "is_draw d" "lo \<le> hi" "double_int lo" "double_int hi" "hi - lo < 2 ^ 53"
  shows "us_random d lo (Some hi) = lo + dbl (int (fst d) * (hi - lo + 1)) div 2 ^ snd d"
    "lo \<le> us_random d lo (Some hi)" "us_random d lo (Some hi) \<le> hi"
proof -
  let ?p = "dbl (int (fst d) * (hi - lo + 1)) div 2 ^ snd d"
  have n: "dbl (dbl (hi - lo) + 1) = hi - lo + 1" using assms(2,5) by (simp add: dbl_exact)
  have p: "0 \<le> ?p" "?p < hi - lo + 1" using dbl_product [OF assms(1), of "hi - lo + 1"] assms(2,5) by simp_all
  then have "dbl (lo + ?p) = lo + ?p" using assms(3,4) by (intro dbl_exact) (simp add: double_int_def)
  then show "us_random d lo (Some hi) = lo + ?p" by (simp only: us_random_def option.case prod.case Let_def n)
  then show "lo \<le> us_random d lo (Some hi)" "us_random d lo (Some hi) \<le> hi" using p by simp_all
qed

lemma us_random_one: "us_random d hi None = us_random d 0 (Some hi)"
  by (simp add: us_random_def)

text \<open>
  C40. The numbers drawn stay in their range, although the arithmetic rounds: for whatever \<open>Math.random()\<close> returns and integer bounds that
  doubles represent, not \<open>2 ^ 53\<close> or more apart, \<open>_.random(min, max)\<close> lies between its two bounds, and both are drawn; with one
  argument the lower bound is 0.
\<close>

theorem us_random_bounds:
  assumes "is_draw d" "lo \<le> hi" "double_int lo" "double_int hi" "hi - lo < 2 ^ 53"
  shows "lo \<le> us_random d lo (Some hi) \<and> us_random d lo (Some hi) \<le> hi \<and> us_random d hi None = us_random d 0 (Some hi) \<and>
    us_random (0, 53) lo (Some hi) = lo \<and> us_random (2 ^ 53 - 1, 53) lo (Some hi) = hi"
proof -
  have draws: "is_draw (0, 53)" "is_draw (2 ^ 53 - 1, 53)" by (simp_all add: is_draw_def)
  have "dbl (int (fst (0, 53::nat)) * (hi - lo + 1)) = 0" by (simp add: dbl_def round_nat_small)
  then have low: "us_random (0, 53) lo (Some hi) = lo" using us_random_sum(1) [OF draws(1) assms(2-5)] by simp
  obtain k where k: "hi - lo + 1 = int k" "0 < k" "k \<le> 2 ^ 53"
    using assms(2,5) by (intro that [of "nat (hi - lo + 1)"]) auto
  have "int ((k - 1) * 2 ^ 53) \<le> int (round_nat ((2 ^ 53 - 1) * k))" using round_product_last [OF k(2,3)] by (simp only: of_nat_le_iff)
  also have "\<dots> = dbl (int (fst (2 ^ 53 - 1 :: nat, 53 :: nat)) * (hi - lo + 1))"
    by (simp only: k(1) fst_conv of_nat_mult [symmetric] dbl_int)
  finally have "(hi - lo) * 2 ^ 53 \<le> dbl (int (fst (2 ^ 53 - 1 :: nat, 53 :: nat)) * (hi - lo + 1))" using k by simp
  then have "hi \<le> us_random (2 ^ 53 - 1, 53) lo (Some hi)"
    using us_random_sum(1) [OF draws(2) assms(2-5)] by simp
  with low us_random_sum(2,3) [OF assms] us_random_sum(3) [OF draws(2) assms(2-5)] us_random_one show ?thesis by simp
qed

theorem us_random_bounds_witness:
  "(10::int) \<le> us_random (2 ^ 53 - 1, 60) 10 (Some 19) \<and> us_random (2 ^ 53 - 1, 53) 10 (Some 19) = 19"
  using us_random_bounds [of "(2 ^ 53 - 1, 60)" 10 19] by (simp add: is_draw_def double_int_def)

lemma length_shuffle_step [simp]: "length (shuffle_step draws arr i sh) = length sh"
  by (simp add: shuffle_step_def Let_def)

lemma shuffle_step_prefix:
  assumes "i < length sh" "mset (take i sh) = mset (take i arr)" "length sh = length arr"
    "is_draw (draws i)" "int (length sh) \<le> MAX_ARRAY_INDEX"
  shows "mset (take (Suc i) (shuffle_step draws arr i sh)) = mset (take (Suc i) arr)"
proof -
  define r where "r = nat (us_random (draws i) 0 (Some (int i)))"
  have r: "r \<le> i"
    using us_random_sum(3) [of "draws i" 0 "int i"] assms(1,4,5) by (simp add: r_def nat_le_iff double_int_def MAX_ARRAY_INDEX_def)
  have arr: "mset (take (Suc i) arr) = add_mset (arr ! i) (mset (take i sh))"
    using assms by (simp add: take_Suc_conv_app_nth)
  show ?thesis
  proof (cases "r = i")
    case True
    then have "shuffle_step draws arr i sh = sh[i := arr ! i]"
      by (simp add: shuffle_step_def r_def [symmetric])
    with assms(1) arr show ?thesis by (simp add: take_Suc_conv_app_nth)
  next
    case False
    with r have lt: "r < i" by simp
    then have "shuffle_step draws arr i sh = sh[i := sh ! r, r := arr ! i]"
      by (simp add: shuffle_step_def r_def [symmetric] Let_def)
    moreover have "take (Suc i) (sh[i := sh ! r, r := arr ! i]) = (take i sh)[r := arr ! i] @ [sh ! r]"
      using assms(1) lt by (simp add: take_Suc_conv_app_nth take_update_swap list_update_append)
    moreover have "mset ((take i sh)[r := arr ! i]) = add_mset (arr ! i) (mset (take i sh) - {#sh ! r#})"
      using assms(1) lt by (simp add: mset_update)
    moreover have "sh ! r \<in># mset (take i sh)"
      using assms(1) lt by (metis in_set_conv_nth length_take min.absorb2 less_imp_le nth_take set_mset_mset)
    ultimately show ?thesis using arr by simp
  qed
qed

lemma shuffle_fold_prefix:
  assumes "n \<le> length arr" "\<And>i. is_draw (draws i)" "int (length arr) \<le> MAX_ARRAY_INDEX"
  shows "length (fold (shuffle_step draws arr) [0..<n] (replicate (length arr) UUndef)) = length arr \<and>
    mset (take n (fold (shuffle_step draws arr) [0..<n] (replicate (length arr) UUndef))) =
      mset (take n arr)"
  using assms(1)
proof (induction n)
  case (Suc n)
  then show ?case using shuffle_step_prefix [of n _ arr draws] assms(2) [of n] assms(3) by simp
qed simp

text \<open>
  Shuffling loses nothing and repeats nothing: whatever numbers are drawn, \<open>_.shuffle\<close> of an
  array holds every element exactly as often as the array does, although it fills a fresh array
  of \<open>undefined\<close> by overwriting slots.
\<close>

theorem us_shuffle_permutes:
  assumes "\<And>i. is_draw (draws i)" "int (length xs) \<le> MAX_ARRAY_INDEX"
  shows "mset (us_shuffle draws (UArr a xs)) = mset xs"
proof -
  let ?F = "fold (shuffle_step draws xs) [0..<length xs] (replicate (length xs) UUndef)"
  have *: "length ?F = length xs" "mset (take (length xs) ?F) = mset (take (length xs) xs)"
    using shuffle_fold_prefix [of "length xs" xs draws] assms by auto
  have "take (length xs) ?F = ?F" using *(1) by simp
  with *(2) have "mset ?F = mset xs" by simp
  then show ?thesis using assms(2) by (simp add: us_shuffle_def)
qed

theorem us_shuffle_permutes_witness:
  "mset (us_shuffle (\<lambda>i. (2 ^ 52, 53)) (UArr 7 [UInt 1, UInt 2, UInt 2])) = {#UInt 1, UInt 2, UInt 2#}"
  using us_shuffle_permutes [of "\<lambda>i. (2 ^ 52, 53)" "[UInt 1, UInt 2, UInt 2]" 7]
  by (simp add: MAX_ARRAY_INDEX_def is_draw_def)

section \<open>Reductions\<close>

text \<open>
  The one loop behind \<open>_.reduce\<close> and \<open>_.reduceRight\<close> is the left fold in one direction and the
  right fold in the other, over what the collection holds in order, whether it is an array or an
  object; and it always ends.
\<close>

theorem createReduce_folds:
  "us_reduce obj f (Some m) = Inr (foldl (\<lambda>m (k, x). f m x k) m (entries obj)) \<and>
   us_reduceRight obj f (Some m) = Inr (foldr (\<lambda>(k, x) m. f m x k) (entries obj) m)"
  using reduce_loop_Forward [of 0 "entries obj" f m]
    reduce_loop_Backward [of "length (entries obj)" "entries obj" f m]
  by (simp add: createReduce_def)

lemma reduce_loop_Nil [simp]: "reduce_loop d f [] m i = m"
  by (subst reduce_loop.simps) auto

text \<open>
  Reducing nothing without a start value: \<open>_.reduce\<close> of \<open>null\<close> throws, while an empty array gives
  \<open>undefined\<close> and never calls the function.
\<close>

theorem createReduce_no_memo:
  "createReduce d UNull f None = Inl TypeError \<and> createReduce d UUndef f None = Inl TypeError \<and>
   createReduce d (UArr a []) f None = Inr UUndef"
  by (cases d) (simp_all add: createReduce_def first_memo_def entries_def MAX_ARRAY_INDEX_def
      int_string_def nat_digits.simps index_value_def lit_def)

section \<open>Sorting\<close>

lemma sort_insert_sort_key:
  assumes "list_all (\<lambda>y. item_criteria y = UInt (g (item_value y)) \<and>
      (\<exists>j. item_index y = UIdx j \<and> i < j)) ys"
  shows "map item_value (sort_insert compare_items
      \<lparr>item_value = x, item_index = UIdx i, item_criteria = UInt (g x)\<rparr> ys) =
    insort_key g x (map item_value ys)"
  using assms
proof (induction ys)
  case (Cons y ys)
  have "compare_items \<lparr>item_value = x, item_index = UIdx i, item_criteria = UInt (g x)\<rparr> y \<le> 0
      \<longleftrightarrow> g x \<le> g (item_value y)"
    using Cons.prems by (auto simp: compare_items_def index_order_def Let_def)
  with Cons show ?case by simp
qed simp

lemma set_sort_insert: "set (sort_insert cmp x ys) = insert x (set ys)"
  by (induction ys) auto

lemma set_js_sort [simp]: "set (js_sort cmp xs) = set xs"
  by (induction xs) (simp_all add: js_sort_def set_sort_insert)

definition sort_items :: "(uval \<Rightarrow> int) \<Rightarrow> nat \<Rightarrow> uval list \<Rightarrow> sort_item list" where
  "sort_items g i xs =
     map (\<lambda>(j, x). \<lparr>item_value = x, item_index = UIdx j, item_criteria = UInt (g x)\<rparr>)
       (zip [i..<i + length xs] xs)"

lemma js_sort_items: "map item_value (js_sort compare_items (sort_items g i xs)) = sort_key g xs"
proof (induction xs arbitrary: i)
  case Nil
  then show ?case by (simp add: js_sort_def sort_items_def)
next
  case (Cons x xs)
  let ?x = "\<lparr>item_value = x, item_index = UIdx i, item_criteria = UInt (g x)\<rparr>"
  have upt: "[i..<i + length (x # xs)] = i # [Suc i..<Suc i + length xs]"
    by (simp add: upt_conv_Cons del: upt_Suc)
  then have items: "sort_items g i (x # xs) = ?x # sort_items g (Suc i) xs"
    by (simp add: sort_items_def)
  have "list_all (\<lambda>y. item_criteria y = UInt (g (item_value y)) \<and> (\<exists>j. item_index y = UIdx j \<and> i < j))
      (js_sort compare_items (sort_items g (Suc i) xs))"
    by (auto simp: list_all_iff sort_items_def dest!: set_zip_leftD)
  from sort_insert_sort_key [OF this, of x] Cons [of "Suc i"] show ?case
    by (simp add: items js_sort_def)
qed

text \<open>
  Sorting by a criterion is stable: \<open>_.sortBy\<close> on an array with an integer criterion is the stable
  sort of the array, elements with equal criteria keeping their order.
\<close>

theorem us_sortBy_stable:
  assumes "int (length xs) \<le> MAX_ARRAY_INDEX"
  shows "us_sortBy (UArr a xs) (\<lambda>x k. UInt (g x)) = sort_key g xs"
proof -
  have "us_map (UArr a xs) (\<lambda>x k. \<lparr>item_value = x, item_index = k, item_criteria = UInt (g x)\<rparr>) =
      sort_items g 0 xs"
    using assms by (intro nth_equalityI) (simp_all add: us_map_def entries_def sort_items_def)
  then show ?thesis by (simp add: us_sortBy_def js_sort_items)
qed

theorem us_sortBy_stable_witness:
  "us_sortBy (UArr 0 [UStr (lit ''pear''), UStr (lit ''fig''), UStr (lit ''kiwi'')])
     (\<lambda>x k. UInt (case x of UStr s \<Rightarrow> int (length s) | _ \<Rightarrow> 0)) =
   [UStr (lit ''fig''), UStr (lit ''pear''), UStr (lit ''kiwi'')]"
  using us_sortBy_stable [of "[UStr (lit ''pear''), UStr (lit ''fig''), UStr (lit ''kiwi'')]" 0
      "\<lambda>x. case x of UStr s \<Rightarrow> int (length s) | _ \<Rightarrow> 0"]
  by (simp add: MAX_ARRAY_INDEX_def)

section \<open>Grouping\<close>

lemma own_set_apply [simp]:
  "own_set m k v key = (if key = k \<and> k \<noteq> lit ''__proto__'' then Some v else m key)"
  by (simp add: own_set_def)

text \<open>The elements whose criterion has a name, in order.\<close>

definition with_key :: "(uval \<Rightarrow> uval \<Rightarrow> uval) \<Rightarrow> jstring \<Rightarrow> (uval \<times> uval) list \<Rightarrow> uval list" where
  "with_key f key es = map snd (filter (\<lambda>(k, x). u_string (f x k) = key) es)"

lemma with_key_simps [simp]:
  "with_key f key [] = []"
  "with_key f key (es @ [(k, x)]) = with_key f key es @ (if u_string (f x k) = key then [x] else [])"
  by (simp_all add: with_key_def)

lemma groupBy_fold:
  "fold (\<lambda>(k, x) r. case r (u_string (f x k)) of
       Some xs \<Rightarrow> own_set r (u_string (f x k)) (xs @ [x]) | None \<Rightarrow> own_set r (u_string (f x k)) [x])
     es Map.empty key =
   (if key = lit ''__proto__'' \<or> with_key f key es = [] then None else Some (with_key f key es))"
  by (induction es rule: rev_induct) (auto split: option.split if_splits)

lemma countBy_fold:
  "fold (\<lambda>(k, x) r. case r (u_string (f x k)) of
       Some n \<Rightarrow> own_set r (u_string (f x k)) (n + 1) | None \<Rightarrow> own_set r (u_string (f x k)) 1)
     es Map.empty key =
   (if key = lit ''__proto__'' \<or> with_key f key es = [] then None
    else Some (int (length (with_key f key es))))"
  by (induction es rule: rev_induct) (auto split: option.split if_splits)

lemma indexBy_fold:
  "fold (\<lambda>(k, x) r. own_set r (u_string (f x k)) x) es Map.empty key =
   (if key = lit ''__proto__'' \<or> with_key f key es = [] then None
    else Some (last (with_key f key es)))"
  by (induction es rule: rev_induct) auto

text \<open>
  The three groupings agree on what belongs to a key: \<open>_.groupBy\<close> collects exactly the elements whose
  criterion has that name, in order, \<open>_.countBy\<close> counts them and \<open>_.indexBy\<close> keeps the last of them. A
  key without elements is absent, and so is the key \<open>__proto__\<close>, whose elements all three drop.
\<close>

theorem grouping_functions_agree:
  "us_groupBy obj f key =
     (if key = lit ''__proto__'' \<or> with_key f key (entries obj) = [] then None
      else Some (with_key f key (entries obj))) \<and>
   us_countBy obj f key = map_option (\<lambda>xs. int (length xs)) (us_groupBy obj f key) \<and>
   us_indexBy obj f key = map_option last (us_groupBy obj f key)"
  by (simp add: us_groupBy_def us_countBy_def us_indexBy_def us_group_def us_each_def
      groupBy_fold countBy_fold indexBy_fold)

section \<open>Arrays as sets\<close>

lemma us_each_UArr:
  assumes "int (length xs) \<le> MAX_ARRAY_INDEX"
  shows "us_each (UArr a xs) (\<lambda>x k. f x) s = fold f xs s"
proof -
  have "fold (\<lambda>(k, x). f x) es s = fold f (map snd es) s" for es :: "(uval \<times> uval) list"
    by (induction es arbitrary: s) auto
  with assms show ?thesis by (simp add: us_each_def)
qed

lemma us_map_UArr:
  "int (length xs) \<le> MAX_ARRAY_INDEX \<Longrightarrow> us_map (UArr a xs) (\<lambda>x k. f x) = map f xs"
  by (intro nth_equalityI) (simp_all add: us_map_def entries_def)

lemma us_filter_UArr:
  assumes "int (length xs) \<le> MAX_ARRAY_INDEX"
  shows "us_filter (UArr a xs) (\<lambda>x k. P x) = filter P xs"
proof -
  have "fold (\<lambda>x r. if P x then r @ [x] else r) xs r = r @ filter P xs" for r
    by (induction xs arbitrary: r) auto
  with assms show ?thesis by (simp add: us_filter_def us_each_UArr)
qed

lemma member_append [simp]: "member (xs @ ys) v \<longleftrightarrow> member xs v \<or> member ys v"
  by (auto simp: member_iff)

lemma member_Nil [simp]: "\<not> member [] v"
  by (simp add: member_iff)

lemma member_Cons: "member (x # xs) v \<longleftrightarrow> same_value x v \<or> member xs v"
  by (auto simp: member_iff)

lemma member_same: "same_value v w \<Longrightarrow> member xs v \<Longrightarrow> member xs w"
  using same_value_trans by (auto simp: member_iff)

lemma member_filter: "(\<And>x y. same_value x y \<Longrightarrow> P x = P y) \<Longrightarrow> member (filter P xs) v \<longleftrightarrow> member xs v \<and> P v"
  by (auto simp: member_iff)

abbreviation no_repeats :: "uval list \<Rightarrow> bool" where
  "no_repeats xs \<equiv> sorted_wrt (\<lambda>x y. \<not> same_value x y) xs"

lemma no_repeats_snoc: "no_repeats (xs @ [x]) \<longleftrightarrow> no_repeats xs \<and> \<not> member xs x"
  by (auto simp: sorted_wrt_append member_iff)

lemma uniq_loop_plain:
  assumes "no_repeats result"
  shows "no_repeats (uniq_loop False None i l seen result xs) \<and>
    (\<exists>ys. uniq_loop False None i l seen result xs = result @ ys \<and> subseq ys xs) \<and>
    (\<forall>v. member (uniq_loop False None i l seen result xs) v \<longleftrightarrow> member result v \<or> member xs v)"
  using assms
proof (induction xs arbitrary: i result)
  case (Cons x xs)
  show ?case
  proof (cases "member result x")
    case True
    have "member result v \<or> member xs v \<longleftrightarrow> member result v \<or> member (x # xs) v" for v
      using member_same [of x v result] True by (auto simp: member_Cons)
    with True Cons.IH [OF Cons.prems, of "Suc i"] show ?thesis
      by (auto simp: Let_def intro: list_emb.intros)
  next
    case False
    then have nr: "no_repeats (result @ [x])" using Cons.prems by (simp add: no_repeats_snoc)
    from Cons.IH [OF nr, of "Suc i"] False show ?thesis
      by (auto simp: Let_def member_Cons)
  qed
qed simp

text \<open>
  \<open>_.uniq\<close> keeps one of each: the result is a part of the array in the same order, no two of its
  elements are equal (\<open>===\<close>, with \<open>NaN\<close> equal to itself), and a value is in it exactly when it is in
  the array.
\<close>

theorem us_uniq_one_of_each:
  "subseq (us_uniq xs False None) xs \<and> no_repeats (us_uniq xs False None) \<and>
   (member (us_uniq xs False None) v \<longleftrightarrow> member xs v)"
  using uniq_loop_plain [of "[]" 0 None "[]" xs] by (auto simp: us_uniq_def)

lemma uniq_loop_sorted:
  "uniq_loop True None i (Some (UInt n)) seen result (map UInt ns) =
    result @ map UInt (tl (remdups_adj (n # ns)))"
proof (induction ns arbitrary: i n result)
  case (Cons m ns)
  then show ?case by (cases "n = m") (simp_all add: Let_def remdups_adj_Cons split: list.split)
qed simp

lemma member_UInt: "member (map UInt ns) (UInt m) \<longleftrightarrow> m \<in> set ns"
  by (auto simp: member_iff same_value_def)

lemma uniq_loop_unsorted:
  assumes "sorted (rs @ n # ns)"
  shows "uniq_loop False None i l seen (map UInt (rs @ [n])) (map UInt ns) =
    map UInt (rs @ [n]) @ map UInt (tl (remdups_adj (n # ns)))"
  using assms
proof (induction ns arbitrary: i n rs)
  case (Cons m ns)
  have mem: "member (map UInt (rs @ [n])) (UInt m) \<longleftrightarrow> m = n"
    using Cons.prems unfolding member_UInt by (auto simp: sorted_append)
  show ?case
  proof (cases "m = n")
    case True
    with Cons.prems have "sorted (rs @ n # ns)" by (auto simp: sorted_append)
    with True mem Cons.IH [of rs n "Suc i"] show ?thesis by (simp add: Let_def)
  next
    case False
    with mem Cons.IH [of "rs @ [n]" m "Suc i"] Cons.prems show ?thesis
      by (simp add: Let_def remdups_adj_Cons split: list.split)
  qed
qed simp

text \<open>
  The fast path agrees with the slow one: on a sorted array of integers, comparing every element
  with the one before it (\<open>isSorted\<close>) gives what the search through the result gives.
\<close>

theorem us_uniq_sorted_fast_path:
  assumes "sorted ns"
  shows "us_uniq (map UInt ns) True None = us_uniq (map UInt ns) False None"
proof (cases ns)
  case (Cons n ms)
  with assms uniq_loop_unsorted [of "[]" n ms 1 None "[]"] uniq_loop_sorted [of 1 n "[]" "[UInt n]" ms]
  show ?thesis by (simp add: us_uniq_def Let_def)
qed (simp add: us_uniq_def)

theorem us_uniq_sorted_fast_path_witness:
  "us_uniq [UInt 1, UInt 2, UInt 2, UInt 5] True None = us_uniq [UInt 1, UInt 2, UInt 2, UInt 5] False None"
  using us_uniq_sorted_fast_path [of "[1, 2, 2, 5]"] by simp

text \<open>The values an argument holds, as \<open>_.contains\<close> looks at them.\<close>

definition held :: "uval \<Rightarrow> uval list" where
  "held a = (if isArrayLike a then elems a else us_values a)"

lemma us_contains_held: "us_contains a v None \<longleftrightarrow> member (held a) v"
  by (simp add: us_contains_def held_def member_def)

lemma all_contain_iff: "all_contain as v \<longleftrightarrow> (\<forall>a \<in> set as. member (held a) v)"
  by (induction as) (auto simp: us_contains_held)

lemma intersection_loop_spec:
  assumes "no_repeats result"
  shows "no_repeats (intersection_loop others result xs) \<and>
    (member (intersection_loop others result xs) v \<longleftrightarrow>
       member result v \<or> member xs v \<and> all_contain others v)"
  using assms
proof (induction xs arbitrary: result)
  case (Cons x xs)
  have same: "same_value x v \<Longrightarrow> all_contain others x = all_contain others v"
    using member_same same_value_sym unfolding all_contain_iff by blast
  show ?case
  proof (cases "member result x")
    case True
    with Cons.IH [OF Cons.prems] member_same [of x v result] show ?thesis
      by (auto simp: member_Cons)
  next
    case False
    then have "no_repeats (if all_contain others x then result @ [x] else result)"
      using Cons.prems by (simp add: no_repeats_snoc)
    from Cons.IH [OF this] False same show ?thesis by (auto simp: member_Cons)
  qed
qed simp

lemma member_flatten_strict:
  "member (flatten_loop True True args) v \<longleftrightarrow> (\<exists>a \<in> set args. us_isArray a \<and> member (elems a) v)"
  by (induction "True" "True" args rule: flatten_loop.induct) auto

lemma array_set_laws:
  assumes "int (length xs) \<le> MAX_ARRAY_INDEX"
  shows "member (us_union args) v \<longleftrightarrow> (\<exists>a \<in> set args. us_isArray a \<and> member (elems a) v)"
    and "member (us_intersection xs args) v \<longleftrightarrow> member xs v \<and> (\<forall>a \<in> set args. member (held a) v)"
    and "member (us_difference (UArr i xs) args) v \<longleftrightarrow>
      member xs v \<and> \<not> (\<exists>a \<in> set args. us_isArray a \<and> member (elems a) v)"
    and "no_repeats (us_union args) \<and> no_repeats (us_intersection xs args)"
proof -
  show "member (us_union args) v \<longleftrightarrow> (\<exists>a \<in> set args. us_isArray a \<and> member (elems a) v)"
    using uniq_loop_plain [of "[]" 0 None "[]" "flatten_loop True True args"]
    by (simp add: us_union_def us_uniq_def member_flatten_strict)
  show "member (us_intersection xs args) v \<longleftrightarrow> member xs v \<and> (\<forall>a \<in> set args. member (held a) v)"
    using intersection_loop_spec [of "[]" args xs v] by (simp add: us_intersection_def all_contain_iff)
  have "us_difference (UArr i xs) args = filter (\<lambda>x. \<not> member (flatten_loop True True args) x) xs"
    using assms by (simp add: us_difference_def Let_def us_filter_UArr)
  moreover have "member (flatten_loop True True args) x = member (flatten_loop True True args) y"
    if "same_value x y" for x y
    using that member_same same_value_sym by blast
  ultimately show "member (us_difference (UArr i xs) args) v \<longleftrightarrow>
      member xs v \<and> \<not> (\<exists>a \<in> set args. us_isArray a \<and> member (elems a) v)"
    using member_filter [of "\<lambda>x. \<not> member (flatten_loop True True args) x" xs v]
    by (simp add: member_flatten_strict)
  show "no_repeats (us_union args) \<and> no_repeats (us_intersection xs args)"
    using uniq_loop_plain [of "[]" 0 None "[]" "flatten_loop True True args"]
      intersection_loop_spec [of "[]" args xs v]
    by (simp add: us_union_def us_uniq_def us_intersection_def)
qed

text \<open>
  The operations on several arrays are the operations on sets they are named after, for the
  equality of \<open>_.contains\<close>: the union holds what some array argument holds, the intersection what the
  first and all the others hold, the difference what the first holds and no other does; union and
  intersection list nothing twice.
\<close>

theorem array_set_operations:
  assumes "int (length xs) \<le> MAX_ARRAY_INDEX"
  shows "(member (us_union args) v \<longleftrightarrow> (\<exists>a \<in> set args. us_isArray a \<and> member (elems a) v)) \<and>
    (member (us_intersection xs args) v \<longleftrightarrow> member xs v \<and> (\<forall>a \<in> set args. member (held a) v)) \<and>
    (member (us_difference (UArr i xs) args) v \<longleftrightarrow>
      member xs v \<and> \<not> (\<exists>a \<in> set args. us_isArray a \<and> member (elems a) v)) \<and>
    no_repeats (us_union args) \<and> no_repeats (us_intersection xs args)"
  using array_set_laws [OF assms] by blast

theorem array_set_operations_witness:
  "member (us_union [UArr 1 [UInt 1], UArr 2 [UNum NaN]]) (UNum NaN) \<and>
   \<not> member (us_difference (UArr 0 [UInt 1, UNum NaN]) [UArr 2 [UNum NaN]]) (UNum NaN)"
  using array_set_operations [of "[UInt 1, UNum NaN]" "[UArr 1 [UInt 1], UArr 2 [UNum NaN]]" "UNum NaN" 0]
    array_set_operations [of "[UInt 1, UNum NaN]" "[UArr 2 [UNum NaN]]" "UNum NaN" 0]
  by (simp add: MAX_ARRAY_INDEX_def member_Cons same_value_def)

section \<open>Nested arrays and tables\<close>

text \<open>The values at the leaves of a nested array, from left to right.\<close>

fun leaves :: "uval \<Rightarrow> uval list" where
  "leaves (UArr i xs) = concat (map leaves xs)"
| "leaves v = [v]"

lemma flatten_loop_leaves: "flatten_loop False False xs = concat (map leaves xs)"
  by (induction "False" "False" xs rule: flatten_loop.induct) auto

lemma concat_map_singletons: "(\<And>x. x \<in> set xs \<Longrightarrow> f x = [x]) \<Longrightarrow> concat (map f xs) = xs"
  by (induction xs) auto

lemma leaves_no_array: "x \<in> set (leaves v) \<Longrightarrow> \<not> us_isArray x \<and> leaves x = [x]"
  by (induction v rule: leaves.induct) auto

text \<open>
  Flattening an array to the bottom lists its leaves from left to right: no array is left, at any
  depth, nothing else is lost, and flattening again changes nothing. One level only
  (\<open>shallow\<close>) removes exactly the outermost brackets.
\<close>

theorem us_flatten_leaves:
  "us_flatten (UArr a xs) False = leaves (UArr a xs) \<and>
   filter us_isArray (us_flatten (UArr a xs) False) = [] \<and>
   us_flatten (UArr b (us_flatten (UArr a xs) False)) False = us_flatten (UArr a xs) False \<and>
   us_flatten (UArr a xs) True = concat (map (\<lambda>x. if us_isArray x then elems x else [x]) xs)"
proof -
  have deep: "us_flatten (UArr a xs) False = concat (map leaves xs)"
    by (simp add: us_flatten_def us_flatten_from_def flatten_loop_leaves)
  have flat: "\<not> us_isArray x \<and> leaves x = [x]" if "x \<in> set (concat (map leaves xs))" for x
    using that leaves_no_array by auto
  have "filter us_isArray (concat (map leaves xs)) = []"
    using flat by (simp only: filter_empty_conv) blast
  moreover have "concat (map leaves (concat (map leaves xs))) = concat (map leaves xs)"
    using flat by (intro concat_map_singletons) blast
  moreover have "flatten_loop True False xs = concat (map (\<lambda>x. if us_isArray x then elems x else [x]) xs)"
    by (induction "True" "False" xs rule: flatten_loop.induct) auto
  ultimately show ?thesis
    by (simp add: deep us_flatten_def us_flatten_from_def flatten_loop_leaves)
qed

lemma unzip_length_table:
  assumes "rows \<noteq> []" "n \<noteq> 0" "list_all (\<lambda>r. length r = n) rows" "int (length rows) \<le> MAX_ARRAY_INDEX"
  shows "unzip_length (UArr a (map (UArr b) rows)) = n"
proof -
  let ?step = "\<lambda>value (result, lastComputed).
    let computed = getLength value
    in if js_less lastComputed computed \<or> strict_eq computed (UNum NegInf) \<and> strict_eq result (UNum NegInf)
       then (value, computed) else (result, lastComputed)"
  have len: "getLength (UArr b r) = UIdx (length r)" for r
    by (simp add: getLength_def us_property_def)
  have stay: "list_all (\<lambda>r. length r = n) rs \<Longrightarrow> fold ?step (map (UArr b) rs) (x, UIdx n) = (x, UIdx n)"
    for rs x
    by (induction rs) (simp_all add: len)
  obtain r rs where rows: "rows = r # rs" using assms(1) by (cases rows) auto
  have "fold ?step (map (UArr b) rows) (UNum NegInf, UNum NegInf) = (UArr b r, UIdx n)"
    using assms(3) stay [of rs "UArr b r"] by (simp add: rows len)
  then have "us_max (UArr a (map (UArr b) rows)) (Some (\<lambda>x k. getLength x)) = UArr b r"
    using assms(4) us_each_UArr [of "map (UArr b) rows" a ?step "(UNum NegInf, UNum NegInf)"]
    by (simp add: us_max_def)
  with assms(3) show ?thesis by (simp add: unzip_length_def rows)
qed

lemma us_unzip_columns:
  assumes "rows \<noteq> []" "n \<noteq> 0" "list_all (\<lambda>r. length r = n) rows" "int (length rows) \<le> MAX_ARRAY_INDEX"
  shows "us_unzip (UArr a (map (UArr b) rows)) = map (\<lambda>i. map (\<lambda>r. r ! i) rows) [0..<n]"
  using assms
  by (auto simp: us_unzip_def unzip_length_table us_map_UArr list_all_iff intro!: map_cong)

text \<open>
  Zipping back and forth: for a table of \<open>m\<close> rows of \<open>n\<close> entries, neither of them zero, \<open>_.unzip\<close> makes the
  table of columns, and applied to its own result it gives the rows back.
\<close>

theorem us_unzip_involution:
  assumes "rows \<noteq> []" "n \<noteq> 0" "list_all (\<lambda>r. length r = n) rows"
    "int (length rows) \<le> MAX_ARRAY_INDEX" "int n \<le> MAX_ARRAY_INDEX"
  shows "us_unzip (UArr a (map (UArr b) rows)) = map (\<lambda>i. map (\<lambda>r. r ! i) rows) [0..<n] \<and>
    us_unzip (UArr c (map (UArr d) (us_unzip (UArr a (map (UArr b) rows))))) = rows"
proof -
  let ?cols = "map (\<lambda>i. map (\<lambda>r. r ! i) rows) [0..<n]"
  have "us_unzip (UArr c (map (UArr d) ?cols)) =
      map (\<lambda>j. map (\<lambda>col. col ! j) ?cols) [0..<length rows]"
    using assms(1,2,5) by (intro us_unzip_columns) (auto simp: list_all_iff)
  also have "\<dots> = rows"
    using assms(3) by (intro nth_equalityI) (auto simp: list_all_length intro!: nth_equalityI)
  finally show ?thesis using us_unzip_columns [OF assms(1-4), of a b] by simp
qed

theorem us_unzip_involution_witness:
  "us_unzip (UArr 9 (map (UArr 8) (us_unzip (UArr 1 (map (UArr 2) [[UInt 1, UInt 2], [UInt 3, UInt 4]]))))) =
    [[UInt 1, UInt 2], [UInt 3, UInt 4]]"
  by (rule us_unzip_involution [of "[[UInt 1, UInt 2], [UInt 3, UInt 4]]" 2 1 2 9 8, THEN conjunct2])
    (simp_all add: MAX_ARRAY_INDEX_def)

section \<open>Progressions\<close>

lemma set_range_loop: "set (range_loop n a d) = {x. \<exists>k < n. x = a + int k * d}"
proof (induction n arbitrary: a)
  case (Suc n)
  have "(\<exists>k < Suc n. x = a + int k * d) \<longleftrightarrow> x = a \<or> (\<exists>k < n. x = a + d + int k * d)" for x
    by (auto simp: Ex_less_Suc2 algebra_simps)
  with Suc show ?case by auto
qed simp

lemma less_ceil_div:
  assumes "0 < d"
  shows "int k < ceil_div m d \<longleftrightarrow> int k * d < m"
proof -
  define q where "q = (- m) div d"
  have m: "- m = q * d + (- m) mod d" "0 \<le> (- m) mod d" "(- m) mod d < d"
    using assms by (simp_all add: q_def)
  have "q < - int k \<longleftrightarrow> int k * d < m"
  proof (cases "q < - int k")
    case True
    then have "(q + 1) * d \<le> (- int k) * d" using assms by (intro mult_right_mono) auto
    with True m show ?thesis by (simp add: algebra_simps)
  next
    case False
    then have "(- int k) * d \<le> q * d" using assms by (intro mult_right_mono) auto
    with False m show ?thesis by (simp add: algebra_simps)
  qed
  then show ?thesis by (simp add: ceil_div_def q_def [symmetric]) linarith
qed

text \<open>
  \<open>_.range\<close> with a positive step lists exactly the numbers of the progression from the start below
  the stop, and a stop that is not above the start gives nothing.
\<close>

theorem us_range_progression:
  assumes "0 < d"
  shows "set (us_range a (Some b) (Some d)) = {x. \<exists>k. x = a + int k * d \<and> x < b}"
proof -
  have "k < nat (max (ceil_div (b - a) d) 0) \<longleftrightarrow> a + int k * d < b" for k
    using less_ceil_div [OF assms, of k "b - a"] by (simp add: zless_nat_eq_int_zless) linarith
  then show ?thesis using assms by (auto simp: us_range_def set_range_loop)
qed

theorem us_range_progression_witness: "set (us_range 0 (Some 10) (Some 4)) = {x. \<exists>k. x = int k * 4 \<and> x < 10}"
  using us_range_progression [of 4 0 10] by simp

section \<open>Looking from the end\<close>

text \<open>
  A start far before the beginning finds nothing, except \<open>NaN\<close>: \<open>_.lastIndexOf\<close> with a negative start that
  reaches beyond the front of the array returns \<open>-1\<close> for an ordinary value, but the branch for \<open>NaN\<close> hands the
  negative length to \<open>slice\<close>, which counts it from the end, and finds a \<open>NaN\<close> it should not see.
\<close>

theorem us_lastIndexOf_before_front:
  "us_lastIndexOf [UInt 7, UInt 1, UInt 2] (UInt 7) (IdxNum (-5)) = -1 \<and>
   us_lastIndexOf [UNum NaN, UInt 1, UInt 2] (UNum NaN) (IdxNum (-5)) = 0"
  by (simp add: us_lastIndexOf_def createIndexFinder_def finder_bounds_def find_loop.simps
      us_findLastIndex_def createPredicateIndexFinder_def js_slice_def slice_pos_def Let_def)

end
