(* ===== verification/Underscore_Functions.thy ===== *)
theory Underscore_Functions
  imports Underscore_Arrays
begin

text \<open>
  The functions on functions of underscore, as bundled in
  \<open>src/site/assets/javascripts/lunr/wordcut.js\<close>: partial application, composition, the counters, the
  memo table and the two rate limiters. A closure with variables is a record of those variables and
  one operation per function that reads or writes them. For \<open>throttle\<close> and \<open>debounce\<close> the clock and the
  timers are part of a transition system: a call may come at any moment, a timer runs at some moment
  at or after the one it was set for, and the log keeps what happened. The limited function is any
  function that does not call its own wrapper.
\<close>

section \<open>Arguments\<close>

text \<open>A bound argument of \<open>_.partial\<close>: a value, or the placeholder \<open>_\<close>.\<close>

datatype 'a bound_arg = Hole | Given 'a

text \<open>The loop over the bound arguments; a missing argument of the call is \<open>undefined\<close>.\<close>

fun fill_args :: "'a \<Rightarrow> 'a bound_arg list \<Rightarrow> 'a list \<Rightarrow> 'a list" where
  "fill_args undef [] args = args"
| "fill_args undef (Given v # bs) args = v # fill_args undef bs args"
| "fill_args undef (Hole # bs) [] = undef # fill_args undef bs []"
| "fill_args undef (Hole # bs) (a # args) = a # fill_args undef bs args"

definition us_partial :: "'a \<Rightarrow> ('a list \<Rightarrow> 'b) \<Rightarrow> 'a bound_arg list \<Rightarrow> 'a list \<Rightarrow> 'b" where
  "us_partial undef func boundArgs args = func (fill_args undef boundArgs args)"

definition us_wrap :: "'a \<Rightarrow> 'a \<Rightarrow> ('a list \<Rightarrow> 'b) \<Rightarrow> 'a list \<Rightarrow> 'b" where
  "us_wrap undef func wrapper = us_partial undef wrapper [Given func]"

definition us_negate :: "('a list \<Rightarrow> uval) \<Rightarrow> 'a list \<Rightarrow> bool" where
  "us_negate predicate args = (\<not> u_truthy (predicate args))"

text \<open>The loop \<open>while (i--)\<close> of \<open>_.compose\<close>, from the last function but one down to the first.\<close>

fun compose_loop :: "('a \<Rightarrow> 'a) list \<Rightarrow> nat \<Rightarrow> 'a \<Rightarrow> 'a" where
  "compose_loop fs 0 result = result"
| "compose_loop fs (Suc i) result = compose_loop fs i ((fs ! i) result)"

definition us_compose :: "('a \<Rightarrow> 'a) list \<Rightarrow> 'a \<Rightarrow> 'a" where
  "us_compose args x =
     (let start = length args - 1 in compose_loop args start ((args ! start) x))"

section \<open>Counters\<close>

text \<open>\<open>_.after\<close>: the new count, and whether the function runs.\<close>

definition us_after :: "int \<Rightarrow> int \<times> bool" where
  "us_after n = (n - 1, n - 1 < 1)"

record 'r before_state =
  times_left :: int
  memo :: "'r option"
  func_dropped :: bool
  runs :: nat

definition us_before :: "int \<Rightarrow> 'r before_state" where
  "us_before n = \<lparr>times_left = n, memo = None, func_dropped = False, runs = 0\<rparr>"

text \<open>One call of the wrapper; \<open>r\<close> is what the function returns if it runs now.\<close>

definition before_call :: "'r \<Rightarrow> 'r before_state \<Rightarrow> 'r before_state \<times> 'r option" where
  "before_call r s =
     (let n = times_left s - 1;
          s1 = s\<lparr>times_left := n\<rparr>;
          s2 = (if 0 < n then s1\<lparr>memo := Some r, runs := runs s1 + 1\<rparr> else s1);
          s3 = (if n \<le> 1 then s2\<lparr>func_dropped := True\<rparr> else s2)
      in (s3, memo s3))"

fun before_calls :: "'r list \<Rightarrow> 'r before_state \<Rightarrow> 'r before_state \<times> 'r option list" where
  "before_calls [] s = (s, [])"
| "before_calls (r # rs) s =
     (let (s1, out) = before_call r s; (s2, outs) = before_calls rs s1 in (s2, out # outs))"

definition us_once :: "'r before_state" where
  "us_once = us_before 2"

section \<open>The memo table\<close>

record ('k, 'v) memo_table =
  cache :: "jstring \<rightharpoonup> 'v"
  computed :: "'k list"

definition us_memoize :: "('k, 'v) memo_table" where
  "us_memoize = \<lparr>cache = Map.empty, computed = []\<rparr>"

text \<open>
  One call. The result is \<^term>\<open>None\<close> when the address is not an own property of the cache even after the
  assignment; then the code returns what it finds on the prototype chain.
\<close>

definition memoize_call ::
    "('k \<Rightarrow> 'v) \<Rightarrow> ('k \<Rightarrow> jstring) \<Rightarrow> 'k \<Rightarrow> ('k, 'v) memo_table \<Rightarrow> ('k, 'v) memo_table \<times> 'v option" where
  "memoize_call func address key s =
     (let s1 = (if cache s (address key) = None
                then s\<lparr>cache := own_set (cache s) (address key) (func key),
                       computed := computed s @ [key]\<rparr>
                else s)
      in (s1, cache s1 (address key)))"

fun memoize_calls ::
    "('k \<Rightarrow> 'v) \<Rightarrow> ('k \<Rightarrow> jstring) \<Rightarrow> 'k list \<Rightarrow> ('k, 'v) memo_table
      \<Rightarrow> ('k, 'v) memo_table \<times> 'v option list" where
  "memoize_calls func address [] s = (s, [])"
| "memoize_calls func address (k # ks) s =
     (let (s1, out) = memoize_call func address k s;
          (s2, outs) = memoize_calls func address ks s1
      in (s2, out # outs))"

section \<open>Rate limiters\<close>

datatype 'a event = Called int 'a | Ran int 'a

fun ev_time :: "'a event \<Rightarrow> int" where
  "ev_time (Called t a) = t"
| "ev_time (Ran t a) = t"

text \<open>The latest call and the latest run of a log, whose newest entry comes first.\<close>

fun last_call :: "'a event list \<Rightarrow> (int \<times> 'a) option" where
  "last_call [] = None"
| "last_call (Called t a # l) = Some (t, a)"
| "last_call (Ran t a # l) = last_call l"

fun last_run :: "'a event list \<Rightarrow> int option" where
  "last_run [] = None"
| "last_run (Ran t a # l) = Some t"
| "last_run (Called t a # l) = last_run l"

record throttle_options =
  wait :: int
  leading :: bool
  trailing :: bool

record 'a throttle_state =
  previous :: int
  timeout :: "int option"
  args :: "'a option"
  clock :: int
  log :: "'a event list"

definition us_throttle :: "int \<Rightarrow> 'a throttle_state" where
  "us_throttle now = \<lparr>previous = 0, timeout = None, args = None, clock = now, log = []\<rparr>"

text \<open>The timer function \<open>later\<close> of \<open>_.throttle\<close>.\<close>

definition throttle_later :: "throttle_options \<Rightarrow> int \<Rightarrow> 'a throttle_state \<Rightarrow> 'a throttle_state" where
  "throttle_later opt now s =
     s\<lparr>previous := (if leading opt then now else 0), timeout := None, args := None, clock := now,
       log := (case args s of Some a \<Rightarrow> [Ran now a] | None \<Rightarrow> []) @ log s\<rparr>"

text \<open>The function that \<open>_.throttle\<close> returns.\<close>

definition throttle_call :: "throttle_options \<Rightarrow> int \<Rightarrow> 'a \<Rightarrow> 'a throttle_state \<Rightarrow> 'a throttle_state" where
  "throttle_call opt now a s =
     (let prev = (if previous s = 0 \<and> \<not> leading opt then now else previous s);
          remaining = wait opt - (now - prev);
          s1 = s\<lparr>previous := prev, args := Some a, clock := now, log := Called now a # log s\<rparr>
      in if remaining \<le> 0 \<or> wait opt < remaining
         then s1\<lparr>timeout := None, previous := now, args := None, log := Ran now a # log s1\<rparr>
         else if timeout s1 = None \<and> trailing opt
         then s1\<lparr>timeout := Some (now + remaining)\<rparr>
         else s1)"

inductive throttle_step :: "throttle_options \<Rightarrow> 'a throttle_state \<Rightarrow> 'a throttle_state \<Rightarrow> bool"
  for opt where
  call: "clock s \<le> now \<Longrightarrow> throttle_step opt s (throttle_call opt now a s)"
| fire: "timeout s = Some due \<Longrightarrow> due \<le> now \<Longrightarrow> clock s \<le> now \<Longrightarrow>
    throttle_step opt s (throttle_later opt now s)"

record 'a debounce_state =
  d_timeout :: "int option"
  d_args :: "'a option"
  timestamp :: int
  d_clock :: int
  d_log :: "'a event list"

definition us_debounce :: "int \<Rightarrow> 'a debounce_state" where
  "us_debounce now = \<lparr>d_timeout = None, d_args = None, timestamp = 0, d_clock = now, d_log = []\<rparr>"

text \<open>The timer function \<open>later\<close> of \<open>_.debounce\<close>.\<close>

definition debounce_later :: "int \<Rightarrow> bool \<Rightarrow> int \<Rightarrow> 'a debounce_state \<Rightarrow> 'a debounce_state" where
  "debounce_later w immediate now s =
     (let elapsed = now - timestamp s; s1 = s\<lparr>d_clock := now\<rparr>
      in if elapsed < w \<and> 0 \<le> elapsed
         then s1\<lparr>d_timeout := Some (now + (w - elapsed))\<rparr>
         else if \<not> immediate
         then s1\<lparr>d_timeout := None, d_args := None,
                 d_log := (case d_args s of Some a \<Rightarrow> [Ran now a] | None \<Rightarrow> []) @ d_log s\<rparr>
         else s1\<lparr>d_timeout := None\<rparr>)"

text \<open>The function that \<open>_.debounce\<close> returns.\<close>

definition debounce_call :: "int \<Rightarrow> bool \<Rightarrow> int \<Rightarrow> 'a \<Rightarrow> 'a debounce_state \<Rightarrow> 'a debounce_state" where
  "debounce_call w immediate now a s =
     (let callNow = (immediate \<and> d_timeout s = None);
          s1 = s\<lparr>d_args := Some a, timestamp := now, d_clock := now, d_log := Called now a # d_log s,
                 d_timeout := (case d_timeout s of None \<Rightarrow> Some (now + w) | Some t \<Rightarrow> Some t)\<rparr>
      in if callNow then s1\<lparr>d_args := None, d_log := Ran now a # d_log s1\<rparr> else s1)"

inductive debounce_step :: "int \<Rightarrow> bool \<Rightarrow> 'a debounce_state \<Rightarrow> 'a debounce_state \<Rightarrow> bool"
  for w immediate where
  call: "d_clock s \<le> now \<Longrightarrow> debounce_step w immediate s (debounce_call w immediate now a s)"
| fire: "d_timeout s = Some due \<Longrightarrow> due \<le> now \<Longrightarrow> d_clock s \<le> now \<Longrightarrow>
    debounce_step w immediate s (debounce_later w immediate now s)"

section \<open>Arguments and counters\<close>

text \<open>
  Binding arguments one after the other is binding them together: applying a partial application of
  a partial application, with no placeholder left in the first, passes the arguments in the
  order written; and a placeholder takes the next argument of the call.
\<close>

theorem us_partial_partial:
  "us_partial undef (us_partial undef func (map Given xs)) (map Given ys) rest = func (xs @ ys @ rest) \<and>
   us_partial undef func (map Given xs @ Hole # map Given ys) (a # rest) = func (xs @ a # ys @ rest)"
proof -
  have given: "fill_args undef (map Given vs @ bs) as = vs @ fill_args undef bs as" for vs bs as
    by (induction vs) simp_all
  show ?thesis using given [of _ "[]"] by (simp add: us_partial_def given)
qed

lemma compose_loop_foldr: "i \<le> length fs \<Longrightarrow> compose_loop fs i x = foldr (\<lambda>f y. f y) (take i fs) x"
  by (induction i arbitrary: x) (simp_all add: take_Suc_conv_app_nth)

theorem us_compose_foldr:
  "fs \<noteq> [] \<Longrightarrow> us_compose fs x = foldr (\<lambda>f y. f y) fs x"
proof (induction fs rule: rev_induct)
  case (snoc f fs)
  then show ?case by (simp add: us_compose_def compose_loop_foldr)
qed simp

lemma before_calls_spec:
  assumes "before_calls rs s = (t, outs)"
  shows "runs t = runs s + min (length rs) (nat (times_left s - 1)) \<and> length outs = length rs"
  using assms
proof (induction rs arbitrary: s t outs)
  case (Cons r rs)
  obtain s1 o1 where s1: "before_call r s = (s1, o1)" by fastforce
  obtain s2 os where s2: "before_calls rs s1 = (s2, os)" by fastforce
  have "times_left s1 = times_left s - 1" "runs s1 = runs s + (if 0 < times_left s - 1 then 1 else 0)"
    using s1 by (auto simp: before_call_def Let_def)
  with Cons.IH [OF s2] Cons.prems s1 s2 show ?case by auto
qed simp

text \<open>
  \<open>_.before(n, f)\<close> runs the function on the first \<open>n - 1\<close> calls and never again, however often the wrapper is
  called; \<open>_.once\<close> therefore runs it exactly once, on the first of at least one calls.
\<close>

theorem before_runs:
  "runs (fst (before_calls rs (us_before n))) = min (length rs) (nat (n - 1)) \<and>
   runs (fst (before_calls (r # rs) us_once)) = 1"
proof -
  have "runs (fst (before_calls rs s)) = runs s + min (length rs) (nat (times_left s - 1))"
    for rs :: "'a list" and s
    using before_calls_spec [of rs s] by (cases "before_calls rs s") simp
  from this [of rs "us_before n"] this [of "r # rs" us_once] show ?thesis
    by (simp add: us_before_def us_once_def)
qed

section \<open>The memo table\<close>

definition memo_inv :: "('k \<Rightarrow> 'v) \<Rightarrow> ('k \<Rightarrow> jstring) \<Rightarrow> ('k, 'v) memo_table \<Rightarrow> bool" where
  "memo_inv func address s \<longleftrightarrow>
     (\<forall>k. case cache s (address k) of Some v \<Rightarrow> v = func k | None \<Rightarrow> True) \<and>
     cache s (lit ''__proto__'') = None \<and>
     set (filter (\<lambda>a. a \<noteq> lit ''__proto__'') (map address (computed s))) = dom (cache s) \<and>
     distinct (filter (\<lambda>a. a \<noteq> lit ''__proto__'') (map address (computed s)))"

lemma memoize_call_correct:
  assumes "\<And>k k'. address k = address k' \<Longrightarrow> func k = func k'" "memo_inv func address s"
  shows "memo_inv func address (fst (memoize_call func address k s)) \<and>
    snd (memoize_call func address k s) = (if address k = lit ''__proto__'' then None else Some (func k))"
proof (cases "cache s (address k)")
  case None
  let ?s = "fst (memoize_call func address k s)"
  have s: "?s = s\<lparr>cache := own_set (cache s) (address k) (func k), computed := computed s @ [k]\<rparr>"
    using None by (simp add: memoize_call_def)
  have vals: "case (if address j = address k \<and> address k \<noteq> lit ''__proto__'' then Some (func k)
      else cache s (address j)) of Some v \<Rightarrow> v = func j | None \<Rightarrow> True" for j
    using assms(2) assms(1) [of k j] by (auto simp: memo_inv_def)
  have "dom (own_set (cache s) (address k) (func k)) =
      (if address k = lit ''__proto__'' then dom (cache s) else insert (address k) (dom (cache s)))"
    by (auto simp: own_set_def)
  then have "memo_inv func address ?s"
    using assms(2) None vals unfolding s by (auto simp: memo_inv_def)
  with None show ?thesis by (auto simp: memoize_call_def)
next
  case (Some v)
  with assms(2) have "v = func k" by (auto simp: memo_inv_def split: option.splits dest: spec [of _ k])
  moreover have "address k \<noteq> lit ''__proto__''" using Some assms(2) by (auto simp: memo_inv_def)
  ultimately show ?thesis using Some assms(2) by (simp add: memoize_call_def)
qed

lemma memoize_calls_correct:
  assumes "\<And>k k'. address k = address k' \<Longrightarrow> func k = func k'" "memo_inv func address s"
  shows "memo_inv func address (fst (memoize_calls func address ks s)) \<and>
    snd (memoize_calls func address ks s) =
      map (\<lambda>k. if address k = lit ''__proto__'' then None else Some (func k)) ks"
  using assms(2)
proof (induction ks arbitrary: s)
  case (Cons k ks)
  obtain s1 o1 where s1: "memoize_call func address k s = (s1, o1)" by fastforce
  with memoize_call_correct [of address func, OF assms(1) Cons.prems, of k] Cons.IH [of s1] show ?case
    by (auto simp: case_prod_beta Let_def)
qed simp

text \<open>
  Memoizing changes how often a function runs and not what it returns: when arguments with the same
  address have the same value, every call of \<open>_.memoize\<close> returns the value of the function, and the function runs at most once
  for each address. The one exception is the address \<open>__proto__\<close>, which is never stored.
\<close>

theorem memoize_transparent:
  assumes "\<And>k k'. address k = address k' \<Longrightarrow> func k = func k'"
  shows "snd (memoize_calls func address ks us_memoize) =
      map (\<lambda>k. if address k = lit ''__proto__'' then None else Some (func k)) ks \<and>
    distinct (filter (\<lambda>a. a \<noteq> lit ''__proto__'')
      (map address (computed (fst (memoize_calls func address ks us_memoize)))))"
proof -
  have "memo_inv func address us_memoize" by (simp add: memo_inv_def us_memoize_def)
  from memoize_calls_correct [OF assms this, of ks] show ?thesis by (simp add: memo_inv_def)
qed

lemma int_string_not_proto: "int_string n \<noteq> lit ''__proto__''"
proof
  assume *: "int_string n = lit ''__proto__''"
  have "hd (nat_digits m) \<le> 0x39" for m
    using nat_digits_dec [of m] by simp
  then have "hd (int_string n) \<le> 0x39" by (simp add: int_string_def)
  then show False by (simp add: * lit_def)
qed

theorem memoize_transparent_witness:
  "snd (memoize_calls (\<lambda>n::int. n * n) int_string [3, 4, 3] us_memoize) = [Some 9, Some 16, Some 9]"
  using memoize_transparent [of int_string "\<lambda>n. n * n" "[3, 4, 3]"]
  by (simp add: int_string_not_proto)

section \<open>Throttling\<close>

text \<open>Runs are at least \<open>w\<close> apart.\<close>

fun spaced :: "int \<Rightarrow> 'a event list \<Rightarrow> bool" where
  "spaced w [] = True"
| "spaced w (Called t a # l) = spaced w l"
| "spaced w (Ran t a # l) = ((case last_run l of None \<Rightarrow> True | Some u \<Rightarrow> u + w \<le> t) \<and> spaced w l)"

definition throttle_inv :: "throttle_options \<Rightarrow> 'a throttle_state \<Rightarrow> bool" where
  "throttle_inv opt s \<longleftrightarrow>
     0 \<le> previous s \<and> previous s \<le> clock s \<and> 1 \<le> clock s \<and> spaced (wait opt) (log s) \<and>
     (case last_run (log s) of
        None \<Rightarrow> True
      | Some u \<Rightarrow> u \<le> clock s \<and> (previous s \<noteq> 0 \<longrightarrow> u \<le> previous s) \<and> (leading opt \<longrightarrow> previous s \<noteq> 0)) \<and>
     (case timeout s of
        None \<Rightarrow> True
      | Some due \<Rightarrow> due = previous s + wait opt \<and> (leading opt \<or> previous s \<noteq> 0) \<and>
          args s = map_option snd (last_call (log s)) \<and> args s \<noteq> None)"

lemma throttle_call_inv:
  assumes "0 < wait opt" "throttle_inv opt s" "clock s \<le> now"
  shows "throttle_inv opt (throttle_call opt now a s)"
  using assms
  by (auto simp: throttle_inv_def throttle_call_def Let_def split: option.splits if_splits)

lemma throttle_later_inv:
  assumes "0 < wait opt" "throttle_inv opt s" "timeout s = Some due" "due \<le> now" "clock s \<le> now"
  shows "throttle_inv opt (throttle_later opt now s)"
  using assms
  by (auto simp: throttle_inv_def throttle_later_def Let_def split: option.splits if_splits)

interpretation throttle_sys: invariant_system
  "\<lambda>s. 0 < wait opt \<and> (\<exists>t \<ge> 1. s = us_throttle t)"
  "\<lambda>s t. 0 < wait opt \<and> throttle_step opt s t" "throttle_inv opt" for opt
proof
  show "throttle_inv opt s" if "0 < wait opt \<and> (\<exists>t \<ge> 1. s = us_throttle t)" for s :: "'a throttle_state"
    using that by (auto simp: throttle_inv_def us_throttle_def)
  show "throttle_inv opt t" if "0 < wait opt \<and> throttle_step opt s t" "throttle_inv opt s"
    for s t :: "'a throttle_state"
    using that by (auto elim!: throttle_step.cases intro: throttle_call_inv throttle_later_inv)
qed

definition throttle_reachable :: "throttle_options \<Rightarrow> int \<Rightarrow> 'a throttle_state \<Rightarrow> bool" where
  "throttle_reachable opt t0 s \<longleftrightarrow> (throttle_step opt)\<^sup>*\<^sup>* (us_throttle t0) s"

lemma throttle_reachable_inv:
  assumes "0 < wait opt" "1 \<le> t0" "throttle_reachable opt t0 s"
  shows "throttle_inv opt s"
proof -
  have "(\<lambda>s t. 0 < wait opt \<and> throttle_step opt s t)\<^sup>*\<^sup>* (us_throttle t0) s"
    using assms by (simp add: throttle_reachable_def)
  then show ?thesis using throttle_sys.reachable_inv assms(1,2) by blast
qed

text \<open>
  C29. A throttled function never runs twice within \<open>wait\<close> milliseconds: in every state that calls and timers can
  lead to, whatever the options \<open>leading\<close> and \<open>trailing\<close> and however late the timers are, any two runs in succession are at least
  \<open>wait\<close> apart.
\<close>

theorem throttle_spacing:
  assumes "0 < wait opt" "1 \<le> t0" "throttle_reachable opt t0 s"
  shows "spaced (wait opt) (log s)"
  using throttle_reachable_inv [OF assms] by (simp add: throttle_inv_def)

theorem throttle_spacing_witness:
  "spaced 100 (log (throttle_call \<lparr>wait = 100, leading = True, trailing = True\<rparr> 1000 ''x'' (us_throttle 1)))"
proof -
  let ?opt = "\<lparr>wait = 100, leading = True, trailing = True\<rparr>"
  have "throttle_reachable ?opt 1 (throttle_call ?opt 1000 ''x'' (us_throttle 1))"
    unfolding throttle_reachable_def
    by (intro r_into_rtranclp throttle_step.call) (simp add: us_throttle_def)
  from throttle_spacing [OF _ _ this] show ?thesis by simp
qed

text \<open>
  C30. No call is lost when the trailing edge is on: after any call, either the function has run with its
  argument at once, or a timer is pending, at most \<open>wait\<close> away, and when it runs it runs the function with
  the argument of this call unless a later call replaces it.
\<close>

theorem throttle_no_call_lost:
  assumes "0 < wait opt" "1 \<le> t0" "throttle_reachable opt t0 s" "trailing opt" "clock s \<le> now"
  shows "log (throttle_call opt now a s) = Ran now a # Called now a # log s \<or>
    (\<exists>due \<le> now + wait opt. timeout (throttle_call opt now a s) = Some due \<and>
      log (throttle_later opt due (throttle_call opt now a s)) = Ran due a # Called now a # log s)"
  using throttle_reachable_inv [OF assms(1-3)] assms(1,4,5)
  by (auto simp: throttle_inv_def throttle_call_def throttle_later_def Let_def split: option.splits)

theorem throttle_no_call_lost_witness:
  "log (throttle_call \<lparr>wait = 100, leading = True, trailing = True\<rparr> 1000 ''x'' (us_throttle 1)) =
    [Ran 1000 ''x'', Called 1000 ''x'']"
  using throttle_no_call_lost [of "\<lparr>wait = 100, leading = True, trailing = True\<rparr>" 1 "us_throttle 1" 1000 "''x''"]
  by (simp add: throttle_reachable_def us_throttle_def throttle_call_def)

section \<open>Debouncing\<close>

text \<open>
  What a debounced function may do. On the trailing edge a run comes at least \<open>w\<close> after the latest call and
  has its argument. On the leading edge a run belongs to a call that follows \<open>w\<close> of silence.
\<close>

fun trailing_edge :: "int \<Rightarrow> 'a event list \<Rightarrow> bool" where
  "trailing_edge w [] = True"
| "trailing_edge w (Called t a # l) = trailing_edge w l"
| "trailing_edge w (Ran t a # l) =
     ((case last_call l of None \<Rightarrow> False | Some (tc, b) \<Rightarrow> b = a \<and> tc + w \<le> t) \<and> trailing_edge w l)"

fun leading_edge :: "int \<Rightarrow> 'a event list \<Rightarrow> bool" where
  "leading_edge w [] = True"
| "leading_edge w (Called t a # l) = leading_edge w l"
| "leading_edge w (Ran t a # l) =
     ((case l of Called tc b # l' \<Rightarrow> tc = t \<and> b = a \<and>
          (case last_call l' of None \<Rightarrow> True | Some (tp, _) \<Rightarrow> tp + w \<le> t)
        | _ \<Rightarrow> False) \<and> leading_edge w l)"

definition debounce_inv :: "int \<Rightarrow> bool \<Rightarrow> 'a debounce_state \<Rightarrow> bool" where
  "debounce_inv w immediate s \<longleftrightarrow>
     (if immediate then leading_edge w (d_log s) else trailing_edge w (d_log s)) \<and>
     (case last_call (d_log s) of
        None \<Rightarrow> d_timeout s = None
      | Some (t, a) \<Rightarrow> t = timestamp s \<and> t \<le> d_clock s \<and>
          (case d_timeout s of
             None \<Rightarrow> t + w \<le> d_clock s
           | Some due \<Rightarrow> due \<le> t + w \<and> (\<not> immediate \<longrightarrow> d_args s = Some a)))"

lemma debounce_call_inv:
  assumes "0 \<le> w" "debounce_inv w immediate s" "d_clock s \<le> now"
  shows "debounce_inv w immediate (debounce_call w immediate now a s)"
  using assms
  by (auto simp: debounce_inv_def debounce_call_def Let_def split: option.splits if_splits)

lemma debounce_later_inv:
  assumes "0 \<le> w" "debounce_inv w immediate s" "d_timeout s = Some due" "due \<le> now" "d_clock s \<le> now"
  shows "debounce_inv w immediate (debounce_later w immediate now s)"
  using assms
  by (auto simp: debounce_inv_def debounce_later_def Let_def split: option.splits if_splits)

interpretation debounce_sys: invariant_system
  "\<lambda>s. 0 \<le> w \<and> (\<exists>t. s = us_debounce t)"
  "\<lambda>s t. 0 \<le> w \<and> debounce_step w immediate s t" "debounce_inv w immediate" for w immediate
proof
  show "debounce_inv w immediate s" if "0 \<le> w \<and> (\<exists>t. s = us_debounce t)" for s :: "'a debounce_state"
    using that by (auto simp: debounce_inv_def us_debounce_def)
  show "debounce_inv w immediate t" if "0 \<le> w \<and> debounce_step w immediate s t" "debounce_inv w immediate s"
    for s t :: "'a debounce_state"
    using that by (auto elim!: debounce_step.cases intro: debounce_call_inv debounce_later_inv)
qed

definition debounce_reachable :: "int \<Rightarrow> bool \<Rightarrow> int \<Rightarrow> 'a debounce_state \<Rightarrow> bool" where
  "debounce_reachable w immediate t0 s \<longleftrightarrow> (debounce_step w immediate)\<^sup>*\<^sup>* (us_debounce t0) s"

lemma debounce_reachable_inv:
  assumes "0 \<le> w" "debounce_reachable w immediate t0 s"
  shows "debounce_inv w immediate s"
proof -
  have "(\<lambda>s t. 0 \<le> w \<and> debounce_step w immediate s t)\<^sup>*\<^sup>* (us_debounce t0) s"
    using assms by (simp add: debounce_reachable_def)
  then show ?thesis using debounce_sys.reachable_inv assms(1) by blast
qed

text \<open>
  A debounced function waits for silence: on the trailing edge every run comes at least \<open>wait\<close> after the
  latest call and with the argument of that call; with \<open>immediate\<close> every run belongs to a call before which there
  was no other for at least \<open>wait\<close>.
\<close>

theorem debounce_waits_for_silence:
  assumes "0 \<le> w" "debounce_reachable w immediate t0 s"
  shows "if immediate then leading_edge w (d_log s) else trailing_edge w (d_log s)"
  using debounce_reachable_inv [OF assms] by (simp add: debounce_inv_def split: if_splits)

theorem debounce_waits_for_silence_witness:
  "trailing_edge 50 (d_log (debounce_call 50 False 7 ''x'' (us_debounce 0)))"
proof -
  have "debounce_reachable 50 False 0 (debounce_call 50 False 7 ''x'' (us_debounce 0))"
    unfolding debounce_reachable_def
    by (intro r_into_rtranclp debounce_step.call) (simp add: us_debounce_def)
  from debounce_waits_for_silence [OF _ this] show ?thesis by simp
qed

text \<open>
  C31. And it does run: after the last call on the trailing edge a timer is pending; if it runs before the silence is
  long enough it sets itself exactly to the end of the silence, and there it runs the function
  with the argument of the last call.
\<close>

theorem debounce_runs_after_silence:
  assumes "0 \<le> w" "debounce_reachable w False t0 s" "d_clock s \<le> now"
  shows "\<exists>due \<le> now + w. d_timeout (debounce_call w False now a s) = Some due \<and>
    (let s1 = debounce_call w False now a s; t = max due now; s2 = debounce_later w False t s1
     in if t < now + w
        then d_timeout s2 = Some (now + w) \<and>
          d_log (debounce_later w False (now + w) s2) = Ran (now + w) a # Called now a # d_log s
        else d_log s2 = Ran (now + w) a # Called now a # d_log s)"
proof -
  have s1: "d_args (debounce_call w False now a s) = Some a" "timestamp (debounce_call w False now a s) = now"
    "d_log (debounce_call w False now a s) = Called now a # d_log s"
    by (simp_all add: debounce_call_def)
  have "\<exists>due \<le> now + w. d_timeout (debounce_call w False now a s) = Some due"
    using debounce_call_inv [OF assms(1) debounce_reachable_inv [OF assms(1,2)] assms(3), of a]
    by (auto simp: debounce_inv_def s1 debounce_call_def split: option.splits)
  then obtain due where due: "due \<le> now + w" "d_timeout (debounce_call w False now a s) = Some due" by blast
  show ?thesis
    using due assms(1) by (intro exI [of _ due]) (auto simp: debounce_later_def s1 Let_def max_def)
qed

theorem debounce_runs_after_silence_witness:
  "d_timeout (debounce_call 50 False 7 ''x'' (us_debounce 0)) = Some 57"
  using debounce_runs_after_silence [of 50 0 "us_debounce 0" 7 "''x''"]
  by (auto simp: debounce_reachable_def us_debounce_def debounce_call_def)

end
