(* ===== verification/Underscore_Objects.thy ===== *)
theory Underscore_Objects
  imports Underscore_Arrays
begin

text \<open>
  The object functions of underscore, as bundled in \<open>src/site/assets/javascripts/lunr/wordcut.js\<close>: keys and values, the
  assigners, matching, and the HTML escaping (the deep comparison is in \<open>Underscore_Equal\<close>). An object that a function builds is the map of
  its own properties. The lemmas show what the assigners and selections keep, and that escaping can be undone.
\<close>

section \<open>Keys, pairs and inversion\<close>

definition us_has :: "uval \<Rightarrow> jstring \<Rightarrow> bool" where
  "us_has obj key = (\<not> nullish obj \<and> key \<in> set (us_keys obj))"

definition us_mapObject :: "uval \<Rightarrow> (uval \<Rightarrow> jstring \<Rightarrow> uval) \<Rightarrow> (jstring \<rightharpoonup> uval)" where
  "us_mapObject obj iteratee =
     fold (\<lambda>k results. own_set results k (iteratee (u_get obj k) k)) (us_keys obj) Map.empty"

definition us_pairs :: "uval \<Rightarrow> (jstring \<times> uval) list" where
  "us_pairs obj = map (\<lambda>k. (k, u_get obj k)) (us_keys obj)"

definition us_invert :: "uval \<Rightarrow> (jstring \<rightharpoonup> jstring)" where
  "us_invert obj =
     fold (\<lambda>k result. own_set result (u_string (u_get obj k)) k) (us_keys obj) Map.empty"

section \<open>Assigners\<close>

text \<open>
  \<open>obj[key] === void 0\<close> on an object that is being filled: a name that plain objects inherit
  is never \<open>undefined\<close>.
\<close>

definition proto_names :: "jstring list" where
  "proto_names = map lit [''constructor'', ''__defineGetter__'', ''__defineSetter__'', ''hasOwnProperty'',
     ''__lookupGetter__'', ''__lookupSetter__'', ''isPrototypeOf'', ''propertyIsEnumerable'',
     ''toString'', ''valueOf'', ''__proto__'', ''toLocaleString'']"

definition reads_undefined :: "(jstring \<rightharpoonup> uval) \<Rightarrow> jstring \<Rightarrow> bool" where
  "reads_undefined obj key =
     (case obj key of Some v \<Rightarrow> v = UUndef | None \<Rightarrow> key \<notin> set proto_names)"

definition assign_key :: "bool \<Rightarrow> uval \<Rightarrow> jstring \<Rightarrow> (jstring \<rightharpoonup> uval) \<Rightarrow> (jstring \<rightharpoonup> uval)" where
  "assign_key undefinedOnly source key obj =
     (if \<not> undefinedOnly \<or> reads_undefined obj key then own_set obj key (u_get source key) else obj)"

definition createAssigner ::
    "(uval \<Rightarrow> jstring list) \<Rightarrow> bool \<Rightarrow> (jstring \<rightharpoonup> uval) \<Rightarrow> uval list \<Rightarrow> (jstring \<rightharpoonup> uval)" where
  "createAssigner keysFunc undefinedOnly obj sources =
     fold (\<lambda>source obj. fold (assign_key undefinedOnly source) (keysFunc source) obj) sources obj"

text \<open>The values of the model inherit nothing enumerable, so \<open>_.allKeys\<close> lists the own keys.\<close>

definition us_allKeys :: "uval \<Rightarrow> jstring list" where
  "us_allKeys obj = (if isObject obj then us_keys obj else [])"

definition us_extend :: "(jstring \<rightharpoonup> uval) \<Rightarrow> uval list \<Rightarrow> (jstring \<rightharpoonup> uval)" where
  "us_extend = createAssigner us_allKeys False"

definition us_extendOwn :: "(jstring \<rightharpoonup> uval) \<Rightarrow> uval list \<Rightarrow> (jstring \<rightharpoonup> uval)" where
  "us_extendOwn = createAssigner us_keys False"

definition us_defaults :: "(jstring \<rightharpoonup> uval) \<Rightarrow> uval list \<Rightarrow> (jstring \<rightharpoonup> uval)" where
  "us_defaults = createAssigner us_allKeys True"

text \<open>\<open>_.pick\<close> with a predicate, and \<open>_.omit\<close>, which negates one or builds one from names.\<close>

definition us_pick_by :: "uval \<Rightarrow> (uval \<Rightarrow> jstring \<Rightarrow> bool) \<Rightarrow> (jstring \<rightharpoonup> uval)" where
  "us_pick_by obj iteratee =
     (if nullish obj then Map.empty
      else fold (\<lambda>k result. if iteratee (u_get obj k) k then own_set result k (u_get obj k) else result)
             (us_allKeys obj) Map.empty)"

definition us_omit_by :: "uval \<Rightarrow> (uval \<Rightarrow> jstring \<Rightarrow> bool) \<Rightarrow> (jstring \<rightharpoonup> uval)" where
  "us_omit_by obj iteratee = us_pick_by obj (\<lambda>v k. \<not> iteratee v k)"

definition us_omit_names :: "uval \<Rightarrow> uval list \<Rightarrow> (jstring \<rightharpoonup> uval)" where
  "us_omit_names obj names =
     (let keys = map (\<lambda>n. UStr (u_string n)) (flatten_loop False False names)
      in us_pick_by obj (\<lambda>v k. \<not> member keys (UStr k)))"

section \<open>Matching\<close>

fun isMatch_loop :: "(jstring \<times> uval) list \<Rightarrow> uval \<Rightarrow> bool" where
  "isMatch_loop [] obj = True"
| "isMatch_loop ((k, v) # attrs) obj =
     (if \<not> strict_eq v (u_get obj k) \<or> k \<notin> set (us_keys obj) then False else isMatch_loop attrs obj)"

definition us_isMatch :: "uval \<Rightarrow> (jstring \<times> uval) list \<Rightarrow> bool" where
  "us_isMatch object attrs = (if nullish object then attrs = [] else isMatch_loop attrs object)"

text \<open>\<open>_.matcher\<close>, \<open>_.where\<close>, \<open>_.findWhere\<close>\<close>

definition us_where :: "uval \<Rightarrow> (jstring \<times> uval) list \<Rightarrow> uval list" where
  "us_where obj attrs = us_filter obj (\<lambda>x k. us_isMatch x attrs)"

definition us_findWhere :: "uval \<Rightarrow> (jstring \<times> uval) list \<Rightarrow> uval" where
  "us_findWhere obj attrs = us_find obj (\<lambda>x k. us_isMatch x attrs)"

fun us_isEmpty :: "uval \<Rightarrow> bool" where
  "us_isEmpty (UArr i xs) = (xs = [])"
| "us_isEmpty (UStr s) = (s = [])"
| "us_isEmpty (UObj i ps) = (ps = [])"
| "us_isEmpty _ = True"

section \<open>Utilities\<close>

definition us_times :: "int \<Rightarrow> (int \<Rightarrow> 'a) \<Rightarrow> 'a list" where
  "us_times n iteratee = map (\<lambda>i. iteratee (int i)) [0..<nat n]"

text \<open>\<open>_.uniqueId\<close>: the counter of the module, and the id.\<close>

definition us_uniqueId :: "jstring \<Rightarrow> int \<Rightarrow> int \<times> jstring" where
  "us_uniqueId pre idCounter =
     (let n = idCounter + 1; i = int_string n in (n, if pre \<noteq> [] then pre @ i else i))"

definition escapeMap :: "(jstring \<times> jstring) list" where
  "escapeMap = [(lit ''&'', lit ''&amp;''), (lit ''<'', lit ''&lt;''), (lit ''>'', lit ''&gt;''),
     ([0x22], lit ''&quot;''), ([0x27], lit ''&#x27;''), ([0x60], lit ''&#x60;'')]"

definition unescapeMap :: "(jstring \<times> jstring) list" where
  "unescapeMap = map (\<lambda>(k, v). (v, k)) escapeMap"

text \<open>
  \<open>string.replace(replaceRegexp, escaper)\<close>: from left to right, the first alternative that matches is
  replaced. No alternative is empty.
\<close>

function escape_loop :: "(jstring \<times> jstring) list \<Rightarrow> jstring \<Rightarrow> jstring" where
  "escape_loop tbl [] = []"
| "escape_loop tbl (c # s) =
     (case find (\<lambda>(k, v). k \<noteq> [] \<and> prefix k (c # s)) tbl of
        Some (k, v) \<Rightarrow> v @ escape_loop tbl (drop (length k) (c # s))
      | None \<Rightarrow> c # escape_loop tbl s)"
  by pat_completeness auto

termination
proof (relation "measure (\<lambda>(tbl, s). length s)")
  fix tbl :: "(jstring \<times> jstring) list" and c s kv k v
  assume "find (\<lambda>(k, v). k \<noteq> [] \<and> prefix k (c # s)) tbl = Some kv" "(k, v) = kv"
  then have "k \<noteq> []" by (auto simp: find_Some_iff)
  then show "((tbl, drop (length k) (c # s)), tbl, c # s) \<in> measure (\<lambda>(tbl, s). length s)"
    by (cases k) auto
qed auto

definition us_escape :: "jstring \<Rightarrow> jstring" where
  "us_escape = escape_loop escapeMap"

definition us_unescape :: "jstring \<Rightarrow> jstring" where
  "us_unescape = escape_loop unescapeMap"

section \<open>Assigners and selections\<close>

lemma assign_keys_extend:
  "fold (assign_key False src) ks m k =
    (if k \<in> set ks \<and> k \<noteq> lit ''__proto__'' then Some (u_get src k) else m k)"
  by (induction ks arbitrary: m) (auto simp: assign_key_def)

lemma assign_key_True:
  "assign_key True src j m k =
    (if k = j \<and> j \<noteq> lit ''__proto__'' \<and> reads_undefined m j then Some (u_get src j) else m k)"
  by (simp add: assign_key_def)

lemma reads_undefined_cong: "m k = m' k \<Longrightarrow> reads_undefined m k = reads_undefined m' k"
  by (simp add: reads_undefined_def)

lemma assign_keys_defaults:
  "fold (assign_key True src) ks m k =
    (if k \<in> set ks \<and> reads_undefined m k \<and> k \<noteq> lit ''__proto__'' then Some (u_get src k) else m k)"
proof (induction ks arbitrary: m)
  case (Cons j ks)
  let ?m = "assign_key True src j m"
  show ?case
  proof (cases "k = j \<and> j \<noteq> lit ''__proto__'' \<and> reads_undefined m j")
    case True
    then have "?m k = Some (u_get src k)" by (simp add: assign_key_True)
    with True Cons [of ?m] show ?thesis by simp
  next
    case False
    then have "?m k = m k" by (simp only: assign_key_True if_False)
    with False Cons [of ?m] reads_undefined_cong [of ?m k m] show ?thesis by auto
  qed
qed simp

text \<open>
  The two ways of filling an object are opposite in what wins. \<open>_.extend\<close> lets a later source overwrite: a
  key of the source has the value of the source, any other key what it had. \<open>_.defaults\<close> keeps what is there: only a key
  that reads as \<open>undefined\<close> is filled, which no name inherited by plain objects does. Neither ever writes
  the key \<open>__proto__\<close>.
\<close>

theorem extend_and_defaults:
  "us_extend obj (sources @ [src]) k =
     (if k \<in> set (us_allKeys src) \<and> k \<noteq> lit ''__proto__'' then Some (u_get src k)
      else us_extend obj sources k) \<and>
   us_defaults obj (sources @ [src]) k =
     (if k \<in> set (us_allKeys src) \<and> k \<noteq> lit ''__proto__'' \<and> reads_undefined (us_defaults obj sources) k
      then Some (u_get src k) else us_defaults obj sources k)"
  by (simp add: us_extend_def us_defaults_def createAssigner_def assign_keys_extend assign_keys_defaults)

lemma us_pick_by_apply:
  assumes "\<not> nullish obj"
  shows "us_pick_by obj f k =
    (if k \<in> set (us_allKeys obj) \<and> k \<noteq> lit ''__proto__'' \<and> f (u_get obj k) k then Some (u_get obj k) else None)"
proof -
  have "fold (\<lambda>k result. if f (u_get obj k) k then own_set result k (u_get obj k) else result) ks m k =
      (if k \<in> set ks \<and> k \<noteq> lit ''__proto__'' \<and> f (u_get obj k) k then Some (u_get obj k) else m k)" for ks m
    by (induction ks arbitrary: m) auto
  with assms show ?thesis by (simp add: us_pick_by_def)
qed

text \<open>
  Picking and omitting by the same predicate split an object: every own key but \<open>__proto__\<close> is in exactly one of
  the two results, with its value.
\<close>

theorem pick_omit_split:
  assumes "\<not> nullish obj" "k \<in> set (us_allKeys obj)" "k \<noteq> lit ''__proto__''"
  shows "us_pick_by obj f k = (if f (u_get obj k) k then Some (u_get obj k) else None) \<and>
    us_omit_by obj f k = (if f (u_get obj k) k then None else Some (u_get obj k))"
  using assms by (simp add: us_omit_by_def us_pick_by_apply)

theorem pick_omit_split_witness:
  "us_omit_by (UObj 0 [(lit ''a'', UInt 1), (lit ''b'', UInt 2)]) (\<lambda>v k. v = UInt 1) (lit ''b'') = Some (UInt 2)"
  using pick_omit_split [of "UObj 0 [(lit ''a'', UInt 1), (lit ''b'', UInt 2)]" "lit ''b''" "\<lambda>v k. v = UInt 1"]
  by (simp add: us_allKeys_def own_value_def)

section \<open>Escaping\<close>

lemma escape_one:
  "us_escape (c # s) = (case map_of escapeMap [c] of Some e \<Rightarrow> e | None \<Rightarrow> [c]) @ us_escape s"
  by (simp add: us_escape_def escapeMap_def lit_def)

lemma unescape_entity:
  "(k, e) \<in> set escapeMap \<Longrightarrow> us_unescape (e @ s) = k @ us_unescape s"
  by (auto simp: us_unescape_def unescapeMap_def escapeMap_def lit_def)

lemma unescape_other: "c \<noteq> 0x26 \<Longrightarrow> us_unescape (c # s) = c # us_unescape s"
  by (simp add: us_unescape_def unescapeMap_def escapeMap_def lit_def)

lemma unescape_escape: "us_unescape (us_escape s) = s"
proof (induction s)
  case Nil
  then show ?case by (simp add: us_escape_def us_unescape_def)
next
  case (Cons c s)
  show ?case
  proof (cases "map_of escapeMap [c]")
    case None
    then have "c \<noteq> 0x26" by (auto simp: escapeMap_def lit_def split: if_splits)
    with None Cons show ?thesis by (simp add: escape_one unescape_other)
  next
    case (Some e)
    from unescape_entity [OF map_of_SomeD [OF Some]] Some Cons show ?thesis
      by (simp add: escape_one)
  qed
qed

interpretation html: codec "\<lambda>_. True" us_escape us_unescape
  by unfold_locales (rule unescape_escape)

text \<open>
  Escaping for HTML can be undone and leaves no markup: \<open>_.unescape\<close> after \<open>_.escape\<close> gives every string back,
  different strings have different escaped forms, and an escaped string contains no angle bracket and no quote.
\<close>

theorem escape_roundtrip:
  "us_unescape (us_escape s) = s \<and> inj us_escape \<and>
   set (us_escape s) \<inter> {0x3C, 0x3E, 0x22, 0x27, 0x60} = {}"
proof -
  have "set (us_escape s) \<inter> {0x3C, 0x3E, 0x22, 0x27, 0x60} = {}"
  proof (induction s)
    case (Cons c s)
    then show ?case by (auto simp: escape_one) (auto simp: escapeMap_def lit_def split: if_splits option.splits)
  qed (simp add: us_escape_def)
  then show ?thesis using unescape_escape html.enc_inj by (simp add: inj_def inj_on_def)
qed

end
