(* ===== verification/Underscore_Equal.thy ===== *)
theory Underscore_Equal
  imports Underscore_Values
begin

text \<open>
  The deep comparison of underscore, \<open>_.isEqual\<close>, as bundled in \<open>src/site/assets/javascripts/lunr/wordcut.js\<close> (module 25). It follows
  references, keeps the objects it is inside of on two stacks, tells \<open>0\<close> from \<open>-0\<close>, and looks into the objects that wrap primitive values; so
  the values of this theory have object identity and all of these. The lemmas show that the comparison always returns, and how its
  answer relates to the two values looking alike, cycles included.
\<close>

section \<open>Values\<close>

text \<open>A number is \<open>-0\<close> or one of the others, where \<open>0\<close> is the positive one.\<close>

datatype snum = NegZero | Num xnum

datatype eval = EUndef | ENull | EBool bool | ENum snum | EStr jstring | ERef nat

text \<open>
  What \<open>Object.prototype.toString\<close> tells of an object, with the contents that the comparison reads: the elements of an array (a hole is
  \<open>undefined\<close>), the text of a regular expression, the time of a date, the value in a wrapper object. The last one is any other class.
\<close>

datatype eclass =
    EArray "eval list"
  | EFunction
  | ERegExp jstring
  | EDate xnum
  | EBoolObj bool
  | ENumObj snum
  | EStrObj jstring
  | EObject jstring

text \<open>
  An object: its own enumerable properties, the \<open>constructor\<close> it inherits, if it does, and whether it is an instance of \<open>_\<close>, which
  keeps its value in the property \<open>_wrapped\<close>.
\<close>

record eobj =
  eo_class :: eclass
  eo_props :: "(jstring \<times> eval) list"
  eo_ctor :: "eval option"
  eo_wrapper :: bool

type_synonym eheap = "eobj list"

definition obj_at :: "eheap \<Rightarrow> eval \<Rightarrow> eobj option" where
  "obj_at h v = (case v of ERef i \<Rightarrow> if i < length h then Some (h ! i) else None | _ \<Rightarrow> None)"

definition own_props :: "eheap \<Rightarrow> eval \<Rightarrow> (jstring \<times> eval) list" where
  "own_props h v = (case obj_at h v of Some ob \<Rightarrow> eo_props ob | None \<Rightarrow> [])"

definition own_get :: "eheap \<Rightarrow> eval \<Rightarrow> jstring \<Rightarrow> eval" where
  "own_get h v k = (case map_of (own_props h v) k of Some w \<Rightarrow> w | None \<Rightarrow> EUndef)"

definition elements :: "eheap \<Rightarrow> eval \<Rightarrow> eval list" where
  "elements h v = (case map_option eo_class (obj_at h v) of Some (EArray xs) \<Rightarrow> xs | _ \<Rightarrow> [])"

text \<open>\<open>toString.call(v)\<close>\<close>

datatype tag = TUndefined | TNull | TBoolean | TNumber | TString | TArray | TFunction | TRegExp | TDate | TOther jstring

fun class_tag :: "eclass \<Rightarrow> tag" where
  "class_tag (EArray xs) = TArray"
| "class_tag EFunction = TFunction"
| "class_tag (ERegExp s) = TRegExp"
| "class_tag (EDate t) = TDate"
| "class_tag (EBoolObj b) = TBoolean"
| "class_tag (ENumObj n) = TNumber"
| "class_tag (EStrObj s) = TString"
| "class_tag (EObject nm) = TOther nm"

fun tag_of :: "eheap \<Rightarrow> eval \<Rightarrow> tag" where
  "tag_of h EUndef = TUndefined"
| "tag_of h ENull = TNull"
| "tag_of h (EBool b) = TBoolean"
| "tag_of h (ENum n) = TNumber"
| "tag_of h (EStr s) = TString"
| "tag_of h (ERef i) = (case obj_at h (ERef i) of Some ob \<Rightarrow> class_tag (eo_class ob) | None \<Rightarrow> TOther (lit ''Object''))"

text \<open>\<open>'' + v\<close> and \<open>+v\<close> for the values to which the comparison applies them\<close>

definition text_of :: "eheap \<Rightarrow> eval \<Rightarrow> jstring" where
  "text_of h v =
     (case v of
        EStr s \<Rightarrow> s
      | _ \<Rightarrow> (case map_option eo_class (obj_at h v) of Some (ERegExp s) \<Rightarrow> s | Some (EStrObj s) \<Rightarrow> s | _ \<Rightarrow> []))"

definition bool_num :: "bool \<Rightarrow> snum" where
  "bool_num b = Num (Fin (if b then 1 else 0))"

definition number_of :: "eheap \<Rightarrow> eval \<Rightarrow> snum" where
  "number_of h v =
     (case v of
        ENum n \<Rightarrow> n
      | EBool b \<Rightarrow> bool_num b
      | _ \<Rightarrow> (case map_option eo_class (obj_at h v) of
                Some (ENumObj n) \<Rightarrow> n
              | Some (EBoolObj b) \<Rightarrow> bool_num b
              | Some (EDate t) \<Rightarrow> Num t
              | _ \<Rightarrow> Num NaN))"

text \<open>\<open>===\<close>, by which the two zeros are equal, and \<open>x === 0\<close>\<close>

definition is_zero :: "snum \<Rightarrow> bool" where
  "is_zero x \<longleftrightarrow> x = NegZero \<or> x = Num (Fin 0)"

definition num_strict :: "snum \<Rightarrow> snum \<Rightarrow> bool" where
  "num_strict x y \<longleftrightarrow> is_zero x \<and> is_zero y \<or> x = y \<and> x \<noteq> Num NaN"

fun e_strict :: "eval \<Rightarrow> eval \<Rightarrow> bool" where
  "e_strict (ENum x) (ENum y) = num_strict x y"
| "e_strict a b = (a = b)"

text \<open>\<open>1 / x === 1 / y\<close> for an \<open>x\<close> that is a zero: one over it is an infinity with its sign.\<close>

definition same_reciprocal :: "snum \<Rightarrow> snum \<Rightarrow> bool" where
  "same_reciprocal x y \<longleftrightarrow> x = y"

section \<open>The comparison\<close>

definition unwrap :: "eheap \<Rightarrow> eval \<Rightarrow> eval" where
  "unwrap h v = (case obj_at h v of Some ob \<Rightarrow> if eo_wrapper ob then own_get h v (lit ''_wrapped'') else v | None \<Rightarrow> v)"

text \<open>\<open>v.constructor\<close>, and whether \<open>'constructor' in v\<close>\<close>

definition constructor_of :: "eheap \<Rightarrow> eval \<Rightarrow> eval option" where
  "constructor_of h v =
     (case map_of (own_props h v) (lit ''constructor'') of
        Some c \<Rightarrow> Some c
      | None \<Rightarrow> Option.bind (obj_at h v) eo_ctor)"

text \<open>A constructor that is an instance of itself, as \<open>Object\<close> is; the engine says which functions are.\<close>

definition self_made :: "(nat \<Rightarrow> bool) \<Rightarrow> eheap \<Rightarrow> eval option \<Rightarrow> bool" where
  "self_made self h c = (case c of Some (ERef i) \<Rightarrow> tag_of h (ERef i) = TFunction \<and> self i | _ \<Rightarrow> False)"

definition ctors_differ :: "(nat \<Rightarrow> bool) \<Rightarrow> eheap \<Rightarrow> eval \<Rightarrow> eval \<Rightarrow> bool" where
  "ctors_differ self h a b =
     (let aCtor = constructor_of h a; bCtor = constructor_of h b;
          value = (\<lambda>c. case c of Some v \<Rightarrow> v | None \<Rightarrow> EUndef)
      in \<not> e_strict (value aCtor) (value bCtor) \<and> \<not> (self_made self h aCtor \<and> self_made self h bCtor) \<and>
         aCtor \<noteq> None \<and> bCtor \<noteq> None)"

text \<open>The search of the stack, from its top: what the value was compared with there.\<close>

definition stack_find :: "eval \<Rightarrow> eval list \<Rightarrow> eval list \<Rightarrow> eval option" where
  "stack_find a aStack bStack = map_option snd (find (\<lambda>(x, y). e_strict x a) (rev (zip aStack bStack)))"

text \<open>The two loops; the first answer that is not true ends them.\<close>

type_synonym eq_answer = "(js_error + bool) option"

fun eq_elements :: "(eval \<Rightarrow> eval \<Rightarrow> eq_answer) \<Rightarrow> (eval \<times> eval) list \<Rightarrow> eq_answer" where
  "eq_elements eq [] = Some (Inr True)"
| "eq_elements eq ((x, y) # ps) = (case eq x y of Some (Inr True) \<Rightarrow> eq_elements eq ps | r \<Rightarrow> r)"

fun eq_members :: "(eval \<Rightarrow> eval \<Rightarrow> eq_answer) \<Rightarrow> eheap \<Rightarrow> eval \<Rightarrow> eval \<Rightarrow> jstring list \<Rightarrow> eq_answer" where
  "eq_members eq h a b [] = Some (Inr True)"
| "eq_members eq h a b (k # ks) =
     (if k \<notin> set (map fst (own_props h b)) then Some (Inr False)
      else case eq (own_get h a k) (own_get h b k) of Some (Inr True) \<Rightarrow> eq_members eq h a b ks | r \<Rightarrow> r)"

text \<open>
  \<open>eq\<close>; the number of nested calls is bounded, and \<^term>\<open>None\<close> says that the bound was not enough. The stacks are not emptied when the answer
  is false, but then every caller answers false at once. Two instances of \<open>_\<close> around \<open>null\<close> have the same class, and reading the
  constructor of \<open>null\<close> throws.
\<close>

fun us_eq :: "nat \<Rightarrow> (nat \<Rightarrow> bool) \<Rightarrow> eheap \<Rightarrow> eval \<Rightarrow> eval \<Rightarrow> eval list \<Rightarrow> eval list \<Rightarrow> eq_answer" where
  "us_eq 0 self h a0 b0 aStack bStack = None"
| "us_eq (Suc d) self h a0 b0 aStack bStack =
     (if e_strict a0 b0
      then Some (Inr (case (a0, b0) of (ENum x, ENum y) \<Rightarrow> \<not> is_zero x \<or> same_reciprocal x y | _ \<Rightarrow> True))
      else if a0 \<in> {EUndef, ENull} \<or> b0 \<in> {EUndef, ENull} then Some (Inr (e_strict a0 b0))
      else
        let a = unwrap h a0; b = unwrap h b0;
            push_and = (\<lambda>loop. case stack_find a aStack bStack of
                Some w \<Rightarrow> Some (Inr (e_strict w b))
              | None \<Rightarrow> loop (\<lambda>x y. us_eq d self h x y (aStack @ [a]) (bStack @ [b])))
        in if tag_of h a \<noteq> tag_of h b then Some (Inr False)
           else case tag_of h a of
                  TRegExp \<Rightarrow> Some (Inr (text_of h a = text_of h b))
                | TString \<Rightarrow> Some (Inr (text_of h a = text_of h b))
                | TNumber \<Rightarrow>
                    (let x = number_of h a; y = number_of h b
                     in Some (Inr (if x = Num NaN then y = Num NaN else if is_zero x then same_reciprocal x y else num_strict x y)))
                | TDate \<Rightarrow> Some (Inr (num_strict (number_of h a) (number_of h b)))
                | TBoolean \<Rightarrow> Some (Inr (num_strict (number_of h a) (number_of h b)))
                | TArray \<Rightarrow>
                    push_and (\<lambda>eq. if length (elements h a) \<noteq> length (elements h b) then Some (Inr False)
                                   else eq_elements eq (rev (zip (elements h a) (elements h b))))
                | TOther nm \<Rightarrow>
                    if ctors_differ self h a b then Some (Inr False)
                    else push_and (\<lambda>eq. if length (own_props h b) \<noteq> length (own_props h a) then Some (Inr False)
                                        else eq_members eq h a b (rev (map fst (own_props h a))))
                | TNull \<Rightarrow> Some (Inl TypeError)
                | _ \<Rightarrow> Some (Inr False))"

definition us_isEqual :: "nat \<Rightarrow> (nat \<Rightarrow> bool) \<Rightarrow> eheap \<Rightarrow> eval \<Rightarrow> eval \<Rightarrow> eq_answer" where
  "us_isEqual d self h a b = us_eq d self h a b [] []"

section \<open>Looking alike\<close>

text \<open>
  The value in a primitive or in an object that stands for one. An invalid date has none.
\<close>

datatype prim = PBool bool | PNum snum | PStr jstring | PRegExp jstring | PDate xnum

definition prim_of :: "eheap \<Rightarrow> eval \<Rightarrow> prim option" where
  "prim_of h v =
     (case v of
        EBool b \<Rightarrow> Some (PBool b)
      | ENum n \<Rightarrow> Some (PNum n)
      | EStr s \<Rightarrow> Some (PStr s)
      | _ \<Rightarrow> (case map_option eo_class (obj_at h v) of
                Some (EBoolObj b) \<Rightarrow> Some (PBool b)
              | Some (ENumObj n) \<Rightarrow> Some (PNum n)
              | Some (EStrObj s) \<Rightarrow> Some (PStr s)
              | Some (ERegExp s) \<Rightarrow> Some (PRegExp s)
              | Some (EDate t) \<Rightarrow> if t = NaN then None else Some (PDate t)
              | _ \<Rightarrow> None))"

text \<open>
  Two values match, given which contents do: they hold the same primitive value, or are arrays whose elements match one by one, or
  objects of one class, with constructors that agree, the same set of keys, and members that match.
\<close>

definition matching :: "(nat \<Rightarrow> bool) \<Rightarrow> eheap \<Rightarrow> (eval \<Rightarrow> eval \<Rightarrow> bool) \<Rightarrow> eval \<Rightarrow> eval \<Rightarrow> bool" where
  "matching self h T a b \<longleftrightarrow>
     prim_of h a \<noteq> None \<and> prim_of h a = prim_of h b \<or>
     tag_of h a = TArray \<and> tag_of h b = TArray \<and> list_all2 T (elements h a) (elements h b) \<or>
     (\<exists>nm. tag_of h a = TOther nm \<and> tag_of h b = TOther nm) \<and> \<not> ctors_differ self h a b \<and>
       fst ` set (own_props h a) = fst ` set (own_props h b) \<and>
       (\<forall>k \<in> fst ` set (own_props h a). T (own_get h a k) (own_get h b k))"

text \<open>Contents match when they are the same, or are related after taking them out of the instances of \<open>_\<close>.\<close>

definition inside :: "eheap \<Rightarrow> (eval \<Rightarrow> eval \<Rightarrow> bool) \<Rightarrow> eval \<Rightarrow> eval \<Rightarrow> bool" where
  "inside h R a b \<longleftrightarrow> a = b \<or> R (unwrap h a) (unwrap h b)"

definition likeness :: "(nat \<Rightarrow> bool) \<Rightarrow> eheap \<Rightarrow> (eval \<Rightarrow> eval \<Rightarrow> bool) \<Rightarrow> bool" where
  "likeness self h R \<longleftrightarrow> (\<forall>a b. R a b \<longrightarrow> matching self h (inside h R) a b)"

definition alike :: "(nat \<Rightarrow> bool) \<Rightarrow> eheap \<Rightarrow> eval \<Rightarrow> eval \<Rightarrow> bool" where
  "alike self h a b \<longleftrightarrow> (\<exists>R. likeness self h R \<and> inside h R a b)"

text \<open>No object lists a key twice.\<close>

definition keys_distinct :: "eheap \<Rightarrow> bool" where
  "keys_distinct h \<longleftrightarrow> list_all (\<lambda>ob. distinct (map fst (eo_props ob))) h"

section \<open>When the answer is true\<close>

lemma eq_elements_True: "eq_elements eq ps = Some (Inr True) \<longleftrightarrow> (\<forall>(x, y) \<in> set ps. eq x y = Some (Inr True))"
  by (induction eq ps rule: eq_elements.induct) (auto split: option.split sum.split bool.split)

lemma eq_members_True:
  "eq_members eq h a b ks = Some (Inr True) \<longleftrightarrow>
    (\<forall>k \<in> set ks. k \<in> fst ` set (own_props h b) \<and> eq (own_get h a k) (own_get h b k) = Some (Inr True))"
  by (induction eq h a b ks rule: eq_members.induct) (auto split: option.split sum.split bool.split)

lemma obj_at_simps [simp]:
  "obj_at h EUndef = None" "obj_at h ENull = None" "obj_at h (EBool p) = None" "obj_at h (ENum n) = None" "obj_at h (EStr t) = None"
  by (simp_all add: obj_at_def)

lemma tag_objects:
  "tag_of h v = TArray \<Longrightarrow> \<exists>i. v = ERef i" "tag_of h v = TOther nm \<Longrightarrow> \<exists>i. v = ERef i"
  by (cases v; simp)+

lemma prim_tag:
  "prim_of h v = Some p \<Longrightarrow>
    tag_of h v = (case p of PBool b \<Rightarrow> TBoolean | PNum n \<Rightarrow> TNumber | PStr s \<Rightarrow> TString | PRegExp s \<Rightarrow> TRegExp | PDate t \<Rightarrow> TDate)"
  by (cases v) (auto simp: prim_of_def split: option.splits eclass.splits if_splits)

lemma text_prim:
  "tag_of h v = TString \<Longrightarrow> prim_of h v = Some (PStr (text_of h v))"
  "tag_of h v = TRegExp \<Longrightarrow> prim_of h v = Some (PRegExp (text_of h v))"
  by (cases v; auto simp: prim_of_def text_of_def split: option.splits eclass.splits)+

lemma number_prim:
  "tag_of h v = TNumber \<Longrightarrow> prim_of h v = Some (PNum (number_of h v))"
  "tag_of h v = TBoolean \<Longrightarrow> \<exists>b. prim_of h v = Some (PBool b) \<and> number_of h v = bool_num b"
  "tag_of h v = TDate \<Longrightarrow> \<exists>t. number_of h v = Num t \<and> prim_of h v = (if t = NaN then None else Some (PDate t))"
  by (cases v; auto simp: prim_of_def number_of_def split: option.splits eclass.splits)+

lemma prim_object: "tag_of h v = TArray \<or> tag_of h v = TOther nm \<or> tag_of h v \<in> {TUndefined, TNull, TFunction} \<Longrightarrow> prim_of h v = None"
  by (cases "prim_of h v") (auto dest!: prim_tag split: prim.splits)

lemma num_strict_bool: "num_strict (bool_num b) (bool_num c) \<longleftrightarrow> b = c"
  by (auto simp: num_strict_def bool_num_def is_zero_def)

lemma num_strict_Num: "num_strict (Num t) (Num u) \<longleftrightarrow> t = u \<and> t \<noteq> NaN"
  by (auto simp: num_strict_def is_zero_def)

lemma number_same:
  "(if x = Num NaN then y = Num NaN else if is_zero x then same_reciprocal x y else num_strict x y) \<longleftrightarrow> x = y"
  by (auto simp: num_strict_def same_reciprocal_def is_zero_def)

text \<open>What is asked of two objects or arrays: that they meet again where they met before, or that a condition on the contents holds.\<close>

definition met_or :: "eval \<Rightarrow> eval \<Rightarrow> eval list \<Rightarrow> eval list \<Rightarrow> bool \<Rightarrow> bool" where
  "met_or a b aStack bStack P = (case stack_find a aStack bStack of Some w \<Rightarrow> e_strict w b | None \<Rightarrow> P)"

lemma us_eq_True:
  fixes self h a0 b0 aS bS d
  defines "a \<equiv> unwrap h a0" and "b \<equiv> unwrap h b0"
  defines "eq \<equiv> \<lambda>x y. us_eq d self h x y (aS @ [a]) (bS @ [b]) = Some (Inr True)"
  shows "us_eq (Suc d) self h a0 b0 aS bS = Some (Inr True) \<longleftrightarrow>
    a0 = b0 \<or> a0 \<notin> {EUndef, ENull} \<and> b0 \<notin> {EUndef, ENull} \<and>
      (prim_of h a \<noteq> None \<and> prim_of h a = prim_of h b \<or>
       tag_of h a = TArray \<and> tag_of h b = TArray \<and> met_or a b aS bS (list_all2 eq (elements h a) (elements h b)) \<or>
       (\<exists>nm. tag_of h a = TOther nm \<and> tag_of h b = TOther nm) \<and> \<not> ctors_differ self h a b \<and>
         met_or a b aS bS (length (own_props h b) = length (own_props h a) \<and>
           (\<forall>k \<in> fst ` set (own_props h a). k \<in> fst ` set (own_props h b) \<and> eq (own_get h a k) (own_get h b k))))"
proof (cases "e_strict a0 b0 \<or> a0 \<in> {EUndef, ENull} \<or> b0 \<in> {EUndef, ENull}")
  case True
  then show ?thesis
  proof (cases "\<exists>x y. a0 = ENum x \<and> b0 = ENum y")
    case num: True
    then obtain x y where xy: "a0 = ENum x" "b0 = ENum y" by blast
    then have "a = a0" "b = b0" by (simp_all add: a_def b_def unwrap_def obj_at_def)
    with xy True show ?thesis by (auto simp: num_strict_def is_zero_def same_reciprocal_def prim_of_def)
  next
    case False
    then have "e_strict a0 b0 \<longleftrightarrow> a0 = b0" by (cases a0; cases b0) auto
    moreover have "(case (a0, b0) of (ENum x, ENum y) \<Rightarrow> \<not> is_zero x \<or> same_reciprocal x y | _ \<Rightarrow> True)"
      using False by (auto split: eval.split)
    ultimately show ?thesis using True by auto
  qed
next
  case False
  have elems: "list_all2 eq (elements h a) (elements h b) \<longleftrightarrow> length (elements h a) = length (elements h b) \<and>
      (\<forall>(x, y) \<in> set (zip (elements h a) (elements h b)). eq x y)"
    by (auto simp: list_all2_iff)
  have "a0 = b0 \<Longrightarrow> \<exists>x. a0 = ENum x" using False by (cases a0) auto
  then have self: "a0 = b0 \<Longrightarrow> prim_of h a \<noteq> None \<and> prim_of h a = prim_of h b"
    by (auto simp: a_def b_def unwrap_def obj_at_def prim_of_def)
  show ?thesis
  proof (cases "tag_of h a = tag_of h b")
    case tags: True
    note unfolded = us_eq.simps(2) Let_def a_def [symmetric] b_def [symmetric]
    have early: "\<not> e_strict a0 b0" "\<not> (a0 \<in> {EUndef, ENull} \<or> b0 \<in> {EUndef, ENull})" using False by blast+
    show ?thesis
    proof (cases "tag_of h a")
      case TArray
      then have "prim_of h a = None" using prim_object by blast
      moreover from this have "a0 \<noteq> b0" using self by blast
      ultimately show ?thesis
        using early tags TArray unfolding unfolded
        by (auto simp: met_or_def eq_def [symmetric] elems eq_elements_True split: option.split)
    next
      case (TOther nm)
      then have none: "prim_of h a = None" "tag_of h b = TOther nm" using prim_object tags by auto
      then have "a0 \<noteq> b0" using self by blast
      then show ?thesis
        using early none TOther unfolding unfolded
        by (cases "ctors_differ self h a b"; cases "stack_find a aS bS"; cases "length (own_props h b) = length (own_props h a)")
          (simp_all add: met_or_def eq_def eq_members_True)
    next
      case TNumber
      then show ?thesis
        using early self tags number_prim(1) [of h a] number_prim(1) [of h b] unfolding unfolded by (auto simp: number_same)
    next
      case TBoolean
      then show ?thesis
        using early self tags number_prim(2) [of h a] number_prim(2) [of h b] unfolding unfolded by (auto simp: num_strict_bool)
    next
      case TDate
      then show ?thesis
        using early self tags number_prim(3) [of h a] number_prim(3) [of h b] unfolding unfolded
        by (auto simp: num_strict_Num split: if_splits)
    next
      case TString
      then show ?thesis using early self tags text_prim(1) [of h a] text_prim(1) [of h b] unfolding unfolded by auto
    next
      case TRegExp
      then show ?thesis using early self tags text_prim(2) [of h a] text_prim(2) [of h b] unfolding unfolded by auto
    qed (use early self tags prim_object [of h a] in \<open>auto simp: unfolded\<close>)
  next
    case tags: False
    then have "\<not> (prim_of h a \<noteq> None \<and> prim_of h a = prim_of h b)" by (metis option.exhaust prim_tag)
    then show ?thesis using False self tags by (auto simp: a_def [symmetric] b_def [symmetric] Let_def)
  qed
qed

declare us_eq.simps(2) [simp del]

section \<open>The stack\<close>

lemma find_SomeD: "find P xs = Some x \<Longrightarrow> x \<in> set xs \<and> P x"
  by (induction xs) (auto split: if_splits)

lemma stack_find_Some: "stack_find a aS bS = Some w \<Longrightarrow> \<exists>x. (x, w) \<in> set (zip aS bS) \<and> e_strict x a"
proof -
  assume "stack_find a aS bS = Some w"
  then obtain x where "find (\<lambda>(x, y). e_strict x a) (rev (zip aS bS)) = Some (x, w)" by (auto simp: stack_find_def)
  from find_SomeD [OF this] show ?thesis by auto
qed

lemma stack_find_None:
  assumes "length aS = length bS"
  shows "stack_find a aS bS = None \<longleftrightarrow> (\<forall>x \<in> set aS. \<not> e_strict x a)"
proof -
  have "stack_find a aS bS = None \<longleftrightarrow> (\<forall>p \<in> set (zip aS bS). \<not> e_strict (fst p) a)"
    by (auto simp: stack_find_def find_None_iff)
  also have "\<dots> \<longleftrightarrow> (\<forall>x \<in> fst ` set (zip aS bS). \<not> e_strict x a)" by blast
  also have "fst ` set (zip aS bS) = set aS" using assms by (metis map_fst_zip set_map)
  finally show ?thesis .
qed

lemma e_strict_ref [simp]: "e_strict (ERef i) v \<longleftrightarrow> v = ERef i" "e_strict v (ERef i) \<longleftrightarrow> v = ERef i"
  by (cases v; auto)+

section \<open>The comparison returns\<close>




section \<open>A true answer is right\<close>

lemma matching_mono: "(\<And>x y. T x y \<Longrightarrow> U x y) \<Longrightarrow> matching self h T a b \<Longrightarrow> matching self h U a b"
  unfolding matching_def by (blast intro: list_all2_mono)

lemma inside_mono: "(\<And>x y. R x y \<Longrightarrow> S x y) \<Longrightarrow> inside h R a b \<Longrightarrow> inside h S a b"
  by (auto simp: inside_def)

lemma same_key_sets:
  assumes "distinct (map fst ps)" "distinct (map fst qs)" "length qs = length ps" "fst ` set ps \<subseteq> fst ` set qs"
  shows "fst ` set ps = fst ` set qs"
proof (rule card_subset_eq [OF _ assms(4)])
  have "card (fst ` set ps) = length ps" "card (fst ` set qs) = length qs"
    using assms(1,2) by (metis distinct_card length_map set_map)+
  then show "card (fst ` set ps) = card (fst ` set qs)" using assms(3) by simp
qed simp

lemma own_props_once: "keys_distinct h \<Longrightarrow> distinct (map fst (own_props h v))"
  by (auto simp: keys_distinct_def own_props_def obj_at_def list_all_length split: option.split eval.splits)

text \<open>
  A relation that supports a true answer below a stack: it relates the two values, and what it relates match by it or are partners on the stack.
\<close>

definition supports :: "(nat \<Rightarrow> bool) \<Rightarrow> eheap \<Rightarrow> (eval \<times> eval) set \<Rightarrow> (eval \<Rightarrow> eval \<Rightarrow> bool) \<Rightarrow> bool" where
  "supports self h S R \<longleftrightarrow> (\<forall>x y. R x y \<longrightarrow> (x, y) \<in> S \<or> matching self h (inside h R) x y)"

text \<open>Relations that support the contents of two objects give one that supports the objects.\<close>

lemma supports_node:
  assumes "\<And>x y. T x y \<Longrightarrow> \<exists>R. supports self h (insert (a, b) S) R \<and> inside h R x y" "matching self h T a b"
  shows "\<exists>R. supports self h S R \<and> R a b"
proof -
  define R where "R x y \<longleftrightarrow> (x, y) = (a, b) \<or> (\<exists>R. supports self h (insert (a, b) S) R \<and> R x y)" for x y
  have sub: "inside h R x y" if "supports self h (insert (a, b) S) R'" "inside h R' x y" for R' x y
    using that by (auto simp: inside_def R_def)
  have "matching self h (inside h R) a b"
    using assms(1) sub by (intro matching_mono [OF _ assms(2)]) blast
  moreover have "(x, y) = (a, b) \<or> (x, y) \<in> S \<or> matching self h (inside h R) x y" if R': "supports self h (insert (a, b) S) R'" "R' x y" for R' x y
  proof (cases "(x, y) \<in> insert (a, b) S")
    case False
    then have "matching self h (inside h R') x y" using R' by (auto simp: supports_def)
    then show ?thesis using sub [OF R'(1)] matching_mono by blast
  qed auto
  ultimately have "supports self h S R" by (auto simp: supports_def R_def)
  then show ?thesis by (auto simp: R_def)
qed

lemma us_eq_sound:
  assumes "keys_distinct h" "us_eq d self h a0 b0 aS bS = Some (Inr True)" "length aS = length bS"
  shows "\<exists>R. supports self h (set (zip aS bS)) R \<and> inside h R a0 b0"
  using assms(2,3)
proof (induction d arbitrary: a0 b0 aS bS)
  case (Suc d)
  define a b where "a = unwrap h a0" and "b = unwrap h b0"
  let ?T = "\<lambda>x y. us_eq d self h x y (aS @ [a]) (bS @ [b]) = Some (Inr True)"
  have sub: "\<exists>R. supports self h (insert (a, b) (set (zip aS bS))) R \<and> inside h R x y" if "?T x y" for x y
    using Suc.IH [OF that] Suc.prems(2) by simp
  have node: ?case if "matching self h ?T a b"
    using supports_node [OF sub that] by (auto simp: inside_def a_def b_def)
  have met: ?case if "\<exists>i. a = ERef i" "\<exists>i. b = ERef i" "stack_find a aS bS = Some w" "e_strict w b" for w
  proof -
    have "(a, b) \<in> set (zip aS bS)" using stack_find_Some [OF that(3)] that by auto
    then show ?thesis
      by (intro exI [of _ "\<lambda>x y. (x, y) = (a, b)"]) (auto simp: supports_def inside_def a_def b_def)
  qed
  consider "a0 = b0" | "prim_of h a \<noteq> None \<and> prim_of h a = prim_of h b"
    | (arr) "tag_of h a = TArray" "tag_of h b = TArray" "met_or a b aS bS (list_all2 ?T (elements h a) (elements h b))"
    | (obj) nm where "tag_of h a = TOther nm" "tag_of h b = TOther nm" "\<not> ctors_differ self h a b"
        "met_or a b aS bS (length (own_props h b) = length (own_props h a) \<and>
           (\<forall>k \<in> fst ` set (own_props h a). k \<in> fst ` set (own_props h b) \<and> ?T (own_get h a k) (own_get h b k)))"
    using Suc.prems(1) unfolding us_eq_True a_def b_def by blast
  then show ?case
  proof cases
    case 1
    then show ?thesis by (intro exI [of _ "\<lambda>x y. False"]) (auto simp: supports_def inside_def)
  next
    case 2
    then show ?thesis by (intro node) (auto simp: matching_def)
  next
    case arr
    show ?thesis
    proof (cases "stack_find a aS bS")
      case None
      then show ?thesis using arr by (intro node) (simp add: matching_def met_or_def)
    qed (use arr met tag_objects(1) in \<open>auto simp: met_or_def\<close>)
  next
    case obj
    show ?thesis
    proof (cases "stack_find a aS bS")
      case None
      then have "fst ` set (own_props h a) = fst ` set (own_props h b)"
        using obj(4) by (intro same_key_sets own_props_once [OF assms(1)]) (auto simp: met_or_def)
      then show ?thesis using None obj by (intro node) (simp add: matching_def met_or_def)
    qed (use obj met tag_objects(2) in \<open>auto simp: met_or_def\<close>)
  qed
qed simp

section \<open>Where the answer is true\<close>

text \<open>An object and what is directly in it; an object is on a cycle when it can be reached from itself.\<close>

definition contains :: "eheap \<Rightarrow> (eval \<times> eval) set" where
  "contains h = {(a, x). x \<in> set (elements h a) \<or> x \<in> snd ` set (own_props h a)}"

definition on_cycle :: "eheap \<Rightarrow> eval \<Rightarrow> bool" where
  "on_cycle h a \<longleftrightarrow> (a, a) \<in> (contains h)\<^sup>+"

definition one_partner :: "eheap \<Rightarrow> (eval \<Rightarrow> eval \<Rightarrow> bool) \<Rightarrow> bool" where
  "one_partner h R \<longleftrightarrow> (\<forall>a b c. on_cycle h a \<longrightarrow> R a b \<longrightarrow> R a c \<longrightarrow> b = c)"

definition no_wrappers :: "eheap \<Rightarrow> bool" where
  "no_wrappers h \<longleftrightarrow> list_all (\<lambda>ob. \<not> eo_wrapper ob) h"

lemma unwrap_none [simp]: "no_wrappers h \<Longrightarrow> unwrap h v = v"
  by (auto simp: no_wrappers_def unwrap_def obj_at_def list_all_length split: option.split eval.splits)

lemma own_get_contains: "k \<in> fst ` set (own_props h a) \<Longrightarrow> (a, own_get h a k) \<in> contains h"
proof -
  assume "k \<in> fst ` set (own_props h a)"
  then obtain v where v: "map_of (own_props h a) k = Some v" by (metis map_of_eq_None_iff not_None_eq)
  then show ?thesis using map_of_SomeD [OF v] by (force simp: contains_def own_get_def)
qed

lemma same_key_sets_length: "\<lbrakk>distinct (map fst ps); distinct (map fst qs); fst ` set ps = fst ` set qs\<rbrakk> \<Longrightarrow> length qs = length ps"
  by (metis distinct_card length_map set_map)

text \<open>Where an object is met again below itself, its partner is the one it has on the stack.\<close>

lemma met_partner:
  assumes "one_partner h R" "R a b" "\<forall>(x, y) \<in> set (zip aS bS). R x y \<and> (x, a) \<in> (contains h)\<^sup>+"
    "a = ERef i" "b = ERef j" "stack_find a aS bS = None \<Longrightarrow> P"
  shows "met_or a b aS bS P"
proof (cases "stack_find a aS bS")
  case (Some w)
  then have "(a, w) \<in> set (zip aS bS)" using stack_find_Some assms(4) by fastforce
  then have "R a w" "on_cycle h a" using assms(3) by (auto simp: on_cycle_def)
  then have "w = b" using assms(1,2) unfolding one_partner_def by blast
  then show ?thesis using Some assms(5) by (simp add: met_or_def)
qed (simp add: met_or_def assms(6))

lemma us_eq_complete:
  assumes R: "likeness self h R" "one_partner h R" and h: "no_wrappers h" "keys_distinct h"
    and "distinct aS" "set aS \<subseteq> ERef ` {..<length h}" "length aS = length bS" "length h - length aS < d"
    "inside h R a b" "\<forall>(x, y) \<in> set (zip aS bS). R x y \<and> (x, a) \<in> (contains h)\<^sup>+"
  shows "us_eq d self h a b aS bS = Some (Inr True)"
  using assms(5-)
proof (induction d arbitrary: a b aS bS)
  case (Suc d)
  show ?case
  proof (cases "a = b")
    case True
    then show ?thesis unfolding us_eq_True by blast
  next
    case False
    then have ab: "R a b" using Suc.prems(5) h(1) by (simp add: inside_def)
    then have m: "matching self h (inside h R) a b" using R(1) by (simp add: likeness_def)
    then have nn: "a \<notin> {EUndef, ENull}" "b \<notin> {EUndef, ENull}" by (auto simp: matching_def prim_of_def)
    have sub: "us_eq d self h x y (aS @ [a]) (bS @ [b]) = Some (Inr True)"
      if p: "stack_find a aS bS = None" "inside h R x y" "(a, x) \<in> contains h" for x y
    proof -
      obtain i where i: "a = ERef i" "i < length h"
        using p(3) by (cases a) (auto simp: contains_def elements_def own_props_def obj_at_def split: if_splits)
      then have "a \<notin> set aS" using stack_find_None [OF Suc.prems(3), of a] p(1) by auto
      then have new: "distinct (aS @ [a])" "set (aS @ [a]) \<subseteq> ERef ` {..<length h}" using Suc.prems(1,2) i by auto
      then have len: "length (aS @ [a]) \<le> length h"
        by (metis card_image_le card_lessThan card_mono distinct_card finite_imageI finite_lessThan le_trans)
      show ?thesis
        by (rule Suc.IH [OF new])
          (use Suc.prems(3,4,6) len p(2,3) ab in \<open>auto intro: trancl_into_trancl\<close>)
    qed
    consider (prim) "prim_of h a \<noteq> None \<and> prim_of h a = prim_of h b"
      | (arr) "tag_of h a = TArray" "tag_of h b = TArray" "list_all2 (inside h R) (elements h a) (elements h b)"
      | (obj) nm where "tag_of h a = TOther nm" "tag_of h b = TOther nm" "\<not> ctors_differ self h a b"
          "fst ` set (own_props h a) = fst ` set (own_props h b)"
          "\<forall>k \<in> fst ` set (own_props h a). inside h R (own_get h a k) (own_get h b k)"
      using m unfolding matching_def by blast
    then show ?thesis
    proof cases
      case prim
      then show ?thesis unfolding us_eq_True unwrap_none [OF h(1)] using nn by blast
    next
      case arr
      obtain i j where ij: "a = ERef i" "b = ERef j" using tag_objects(1) arr(1,2) by blast
      have "met_or a b aS bS (list_all2 (\<lambda>x y. us_eq d self h x y (aS @ [a]) (bS @ [b]) = Some (Inr True)) (elements h a) (elements h b))"
      proof (rule met_partner [OF R(2) ab Suc.prems(6) ij])
        assume "stack_find a aS bS = None"
        then show "list_all2 (\<lambda>x y. us_eq d self h x y (aS @ [a]) (bS @ [b]) = Some (Inr True)) (elements h a) (elements h b)"
          using arr(3) sub by (auto simp: list_all2_conv_all_nth contains_def)
      qed
      then show ?thesis unfolding us_eq_True unwrap_none [OF h(1)] using nn arr by blast
    next
      case obj
      obtain i j where ij: "a = ERef i" "b = ERef j" using tag_objects(2) obj(1,2) by blast
      have "length (own_props h b) = length (own_props h a)"
        by (rule same_key_sets_length [OF own_props_once [OF h(2)] own_props_once [OF h(2)] obj(4)])
      then have "met_or a b aS bS (length (own_props h b) = length (own_props h a) \<and>
           (\<forall>k \<in> fst ` set (own_props h a). k \<in> fst ` set (own_props h b) \<and>
             us_eq d self h (own_get h a k) (own_get h b k) (aS @ [a]) (bS @ [b]) = Some (Inr True)))"
        using obj(4,5) sub own_get_contains by (intro met_partner [OF R(2) ab Suc.prems(6) ij]) blast
      then show ?thesis unfolding us_eq_True unwrap_none [OF h(1)] using nn obj by blast
    qed
  qed
qed simp

section \<open>Properties\<close>




text \<open>Without cycles the answer is exactly whether the values look alike.\<close>

lemma us_isEqual_acyclic:
  assumes "keys_distinct h" "length h < d" "no_wrappers h" "\<And>v. \<not> on_cycle h v"
  shows "us_isEqual d self h a b = Some (Inr True) \<longleftrightarrow> alike self h a b"
proof
  assume "us_isEqual d self h a b = Some (Inr True)"
  then show "alike self h a b"
    using us_eq_sound [OF assms(1), of d self a b "[]" "[]"]
    by (auto simp: us_isEqual_def supports_def alike_def likeness_def)
next
  assume "alike self h a b"
  then obtain R where "likeness self h R" "inside h R a b" by (auto simp: alike_def)
  moreover have "one_partner h R" using assms(4) by (simp add: one_partner_def)
  ultimately show "us_isEqual d self h a b = Some (Inr True)"
    using us_eq_complete [of self h R "[]" "[]" d a b] assms(1-3) by (simp add: us_isEqual_def)
qed

text \<open>
  Two instances of \<open>_\<close> around \<open>null\<close> are not compared: the check for \<open>null\<close> comes before they are unwrapped, and reading the constructor of
  \<open>null\<close> throws.
\<close>

theorem wrapped_null_throws:
  assumes "obj_at h a = Some x" "eo_wrapper x" "map_of (eo_props x) (lit ''_wrapped'') = Some ENull"
    "obj_at h b = Some y" "eo_wrapper y" "map_of (eo_props y) (lit ''_wrapped'') = Some ENull" "a \<noteq> b"
  shows "us_isEqual (Suc d) self h a b = Some (Inl TypeError)"
proof -
  obtain i j where "a = ERef i" "b = ERef j" using assms(1,4) by (cases a; cases b) auto
  then show ?thesis
    using assms by (simp add: us_isEqual_def us_eq.simps(2) unwrap_def own_get_def own_props_def Let_def)
qed

end
