(* ===== verification/Glob_Sync.thy ===== *)
theory Glob_Sync
  imports Minimatch Path_Module Underscore_Arrays
begin

text \<open>
  The synchronous walk of the \<open>glob\<close> package, as bundled in \<open>src/site/assets/javascripts/lunr/wordcut.js\<close> (module 17, with
  the functions of module 15 that it shares with the asynchronous one). A pattern becomes rows of portions; each row is
  processed from left to right, names found in directories taking the place of portions, and what was learnt of the
  file system is kept in two caches. The file system is a parameter and does not change during a walk. A walk below
  \<open>**\<close> goes as deep as the file system does; the number of nested calls is bounded by an argument, and \<^term>\<open>None\<close> says that
  the bound was not enough. The platform is the one of the bundled process shim, not Windows.
\<close>

section \<open>The file system\<close>

datatype fkind = FileK | DirK | LinkK

datatype fs_code = ENOTSUP | ENOTDIR | ENOENT | ELOOP | ENAMETOOLONG | UNKNOWN | Unusual js_error

datatype realpath_error = StatFailed | RealpathFailed js_error

text \<open>\<^term>\<open>None\<close> stands for an exception of \<open>lstatSync\<close> or \<open>statSync\<close>, which the callers drop.\<close>

record file_system =
  fs_lstat :: "jstring \<Rightarrow> fkind option"
  fs_stat :: "jstring \<Rightarrow> fkind option"
  fs_readdir :: "jstring \<Rightarrow> fs_code + jstring list"
  fs_realpath :: "jstring \<Rightarrow> realpath_error + jstring"
  fs_cwd :: jstring

section \<open>The object\<close>

datatype cache_entry = CFalse | CTrue | CFile | CDir | CEntries "jstring list"

record glob_options =
  go_mm :: mm_options
  go_nonegate :: "bool option"
  go_nocomment :: "bool option"
  go_silent :: bool
  go_strict :: "bool option"
  go_realpath :: bool
  go_follow :: bool
  go_mark :: bool
  go_nodir :: bool
  go_nounique :: bool
  go_nosort :: bool
  go_stat :: bool
  go_noprocess :: bool
  go_nomount :: bool
  go_maxLength :: "nat option"
  go_ignore :: "jstring list"
  go_cwd :: "jstring option"
  go_root :: "jstring option"
  go_cache :: "jstring \<rightharpoonup> cache_entry"
  go_statCache :: "jstring \<rightharpoonup> fkind"
  go_symlinks :: "jstring \<rightharpoonup> bool"

record glob_obj =
  g_strict :: bool
  g_realpath :: bool
  g_follow :: bool
  g_dot :: bool
  g_mark :: bool
  g_nodir :: bool
  g_nounique :: bool
  g_nonull :: bool
  g_nosort :: bool
  g_nocase :: bool
  g_stat :: bool
  g_noprocess :: bool
  g_nomount :: bool
  g_maxLength :: "nat option"
  g_cwd :: jstring
  g_changedCwd :: bool
  g_root :: jstring
  g_ignore :: "(minimatch_obj \<times> minimatch_obj option) list"
  g_minimatch :: minimatch_obj
  g_cache :: "jstring \<rightharpoonup> cache_entry"
  g_statCache :: "jstring \<rightharpoonup> fkind"
  g_symlinks :: "jstring \<rightharpoonup> bool"
  g_matches :: "jstring list option list"
  g_found :: "jstring list"

text \<open>A call that may throw, and may not return.\<close>

type_synonym 'a call = "(js_error + 'a) option"

definition bindC :: "'a call \<Rightarrow> ('a \<Rightarrow> 'b call) \<Rightarrow> 'b call" where
  "bindC m f = (case m of None \<Rightarrow> None | Some (Inl e) \<Rightarrow> Some (Inl e) | Some (Inr x) \<Rightarrow> f x)"

fun foldC :: "('x \<Rightarrow> 'a \<Rightarrow> 'a call) \<Rightarrow> 'x list \<Rightarrow> 'a \<Rightarrow> 'a call" where
  "foldC f [] a = Some (Inr a)"
| "foldC f (x # xs) a = bindC (f x a) (foldC f xs)"

section \<open>Options\<close>

text \<open>\<open>pattern.replace(/(\/\*\*)+$/, '')\<close>\<close>

fun strip_rev :: "jstring \<Rightarrow> jstring" where
  "strip_rev (a # b # c # s) = (if a = asterisk \<and> b = asterisk \<and> c = slash then strip_rev s else a # b # c # s)"
| "strip_rev s = s"

definition ignoreMap :: "markers \<Rightarrow> jstring \<Rightarrow> (minimatch_obj \<times> minimatch_obj option) call" where
  "ignoreMap t pattern =
     bindC (if suffix (lit ''/**'') pattern
            then bindC (Minimatch t default_options (rev (strip_rev (rev pattern)))) (\<lambda>m. Some (Inr (Some m)))
            else Some (Inr None))
       (\<lambda>gmatcher. bindC (Minimatch t default_options pattern) (\<lambda>matcher. Some (Inr (matcher, gmatcher))))"

definition setupIgnores :: "markers \<Rightarrow> jstring list \<Rightarrow> (minimatch_obj \<times> minimatch_obj option) list call" where
  "setupIgnores t ignore = foldC (\<lambda>p igs. bindC (ignoreMap t p) (\<lambda>ig. Some (Inr (igs @ [ig])))) ignore []"

definition setopts :: "markers \<Rightarrow> file_system \<Rightarrow> jstring \<Rightarrow> glob_options \<Rightarrow> glob_obj call" where
  "setopts t fs pattern options =
     (let mm = go_mm options;
          base = o_matchBase mm \<and> slash \<notin> set pattern
      in if base \<and> o_noglobstar mm then Some (Inl (Thrown (lit ''base matching requires globstar'')))
         else
           let pattern' = (if base then lit ''**/'' @ pattern else pattern);
               cwd = (case go_cwd options of None \<Rightarrow> fs_cwd fs | Some c \<Rightarrow> c);
               changed = (case go_cwd options of None \<Rightarrow> False | Some c \<Rightarrow> resolve (fs_cwd fs) [c] \<noteq> fs_cwd fs);
               root = (case go_root options of Some r \<Rightarrow> if r \<noteq> [] then r else resolve (fs_cwd fs) [cwd, [slash]]
                       | None \<Rightarrow> resolve (fs_cwd fs) [cwd, [slash]]);
               mm' = mm\<lparr>o_nonegate := (go_nonegate options \<noteq> Some False), o_nocomment := (go_nocomment options \<noteq> Some False)\<rparr>
           in bindC (setupIgnores t (go_ignore options))
                (\<lambda>igs. bindC (Minimatch t mm' pattern') (\<lambda>m. Some (Inr
                   \<lparr>g_strict = (go_strict options \<noteq> Some False), g_realpath = go_realpath options, g_follow = go_follow options,
                    g_dot = o_dot mm, g_mark = (go_mark options \<or> go_nodir options), g_nodir = go_nodir options,
                    g_nounique = go_nounique options, g_nonull = o_nonull mm, g_nosort = go_nosort options, g_nocase = o_nocase mm,
                    g_stat = go_stat options, g_noprocess = go_noprocess options, g_nomount = go_nomount options,
                    g_maxLength = (if go_maxLength options = Some 0 then None else go_maxLength options),
                    g_cwd = cwd, g_changedCwd = changed, g_root = resolve (fs_cwd fs) [root], g_ignore = igs, g_minimatch = m,
                    g_cache = go_cache options, g_statCache = go_statCache options, g_symlinks = go_symlinks options,
                    g_matches = [], g_found = []\<rparr>))))"

definition makeAbs :: "file_system \<Rightarrow> glob_obj \<Rightarrow> jstring \<Rightarrow> jstring" where
  "makeAbs fs g f =
     (if f \<noteq> [] \<and> hd f = slash then path_join [g_root g, f]
      else if f = [] then f
      else if g_changedCwd g then resolve (fs_cwd fs) [g_cwd g, f]
      else resolve (fs_cwd fs) [f])"

definition isIgnored :: "letter_case \<Rightarrow> glob_obj \<Rightarrow> jstring \<Rightarrow> bool" where
  "isIgnored lc g path =
     list_ex (\<lambda>(matcher, gmatcher). match_obj lc matcher path False \<or>
       (case gmatcher of Some m \<Rightarrow> match_obj lc m path False | None \<Rightarrow> False)) (g_ignore g)"

definition childrenIgnored :: "letter_case \<Rightarrow> glob_obj \<Rightarrow> jstring \<Rightarrow> bool" where
  "childrenIgnored lc g path =
     list_ex (\<lambda>(matcher, gmatcher). case gmatcher of Some m \<Rightarrow> match_obj lc m path False | None \<Rightarrow> False) (g_ignore g)"

section \<open>Looking at the file system\<close>

fun is_dir_entry :: "cache_entry \<Rightarrow> bool" where
  "is_dir_entry CDir = True"
| "is_dir_entry (CEntries es) = True"
| "is_dir_entry _ = False"

abbreviation ends_slash :: "jstring \<Rightarrow> bool" where "ends_slash f \<equiv> f \<noteq> [] \<and> last f = slash"

text \<open>The part of \<open>_stat\<close> that asks the file system.\<close>

definition stat_fresh :: "file_system \<Rightarrow> jstring \<Rightarrow> bool \<Rightarrow> glob_obj \<Rightarrow> glob_obj \<times> cache_entry" where
  "stat_fresh fs absp needDir g =
     (case (case g_statCache g absp of
              Some k \<Rightarrow> Some k
            | None \<Rightarrow>
                (case fs_lstat fs absp of
                   None \<Rightarrow> None
                 | Some LinkK \<Rightarrow> Some (case fs_stat fs absp of Some k \<Rightarrow> k | None \<Rightarrow> LinkK)
                 | Some k \<Rightarrow> Some k)) of
        None \<Rightarrow> (g, CFalse)
      | Some k \<Rightarrow>
          (let c = (if k = DirK then CDir else CFile);
               g' = g\<lparr>g_statCache := (g_statCache g)(absp \<mapsto> k),
                      g_cache := (g_cache g)(absp \<mapsto> (case g_cache g absp of None \<Rightarrow> c | Some CFalse \<Rightarrow> c | Some old \<Rightarrow> old))\<rparr>
           in (g', if needDir \<and> c \<noteq> CDir then CFalse else c)))"

definition glob_stat :: "file_system \<Rightarrow> jstring \<Rightarrow> glob_obj \<Rightarrow> glob_obj \<times> cache_entry" where
  "glob_stat fs f g =
     (let absp = makeAbs fs g f; needDir = ends_slash f
      in if (case g_maxLength g of Some n \<Rightarrow> n < length f | None \<Rightarrow> False) then (g, CFalse)
         else case (if g_stat g then None else g_cache g absp) of
                None \<Rightarrow> stat_fresh fs absp needDir g
              | Some c \<Rightarrow>
                  (let c' = (if is_dir_entry c then CDir else c)
                   in if \<not> needDir \<or> c' = CDir then (g, c')
                      else if c' = CFile then (g, CFalse)
                      else stat_fresh fs absp needDir g))"

definition child_path :: "jstring \<Rightarrow> jstring \<Rightarrow> jstring" where
  "child_path absp e = (if absp = [slash] then absp @ e else absp @ [slash] @ e)"

definition readdirEntries :: "jstring \<Rightarrow> jstring list \<Rightarrow> glob_obj \<Rightarrow> glob_obj" where
  "readdirEntries absp names g =
     (let c = (if \<not> g_mark g \<and> \<not> g_stat g then fold (\<lambda>e c. c(child_path absp e \<mapsto> CTrue)) names (g_cache g) else g_cache g)
      in g\<lparr>g_cache := c(absp \<mapsto> CEntries names)\<rparr>)"

definition readdirError :: "file_system \<Rightarrow> jstring \<Rightarrow> fs_code \<Rightarrow> glob_obj \<Rightarrow> js_error + glob_obj" where
  "readdirError fs f er g =
     (let put = (\<lambda>c. g\<lparr>g_cache := (g_cache g)(makeAbs fs g f \<mapsto> c)\<rparr>)
      in case er of
           ENOTSUP \<Rightarrow> Inr (put CFile)
         | ENOTDIR \<Rightarrow> Inr (put CFile)
         | Unusual e \<Rightarrow> if g_strict g then Inl e else Inr (put CFalse)
         | _ \<Rightarrow> Inr (put CFalse))"

definition readdir_plain :: "file_system \<Rightarrow> jstring \<Rightarrow> glob_obj \<Rightarrow> js_error + glob_obj \<times> jstring list option" where
  "readdir_plain fs absp g =
     (case g_cache g absp of
        Some CFalse \<Rightarrow> Inr (g, None)
      | Some CFile \<Rightarrow> Inr (g, None)
      | Some (CEntries es) \<Rightarrow> Inr (g, Some es)
      | _ \<Rightarrow>
          (case fs_readdir fs absp of
             Inr names \<Rightarrow> Inr (readdirEntries absp names g, Some names)
           | Inl er \<Rightarrow> bindE (readdirError fs absp er g) (\<lambda>g'. Inr (g', None))))"

definition readdirInGlobStar :: "file_system \<Rightarrow> jstring \<Rightarrow> glob_obj \<Rightarrow> js_error + glob_obj \<times> jstring list option" where
  "readdirInGlobStar fs absp g =
     (if g_follow g then readdir_plain fs absp g
      else case fs_lstat fs absp of
             None \<Rightarrow> Inr (g, None)
           | Some k \<Rightarrow>
               (let g' = g\<lparr>g_symlinks := (g_symlinks g)(absp \<mapsto> k = LinkK)\<rparr>
                in if k = FileK then Inr (g'\<lparr>g_cache := (g_cache g')(absp \<mapsto> CFile)\<rparr>, None)
                   else readdir_plain fs absp g'))"

definition glob_readdir :: "file_system \<Rightarrow> jstring \<Rightarrow> bool \<Rightarrow> glob_obj \<Rightarrow> js_error + glob_obj \<times> jstring list option" where
  "glob_readdir fs absp inGlobStar g =
     (if inGlobStar \<and> g_symlinks g absp = None then readdirInGlobStar fs absp g else readdir_plain fs absp g)"

section \<open>Objects as sets of names\<close>

text \<open>
  The keys of an object that is filled in the given order: array indices come first, in ascending order, then the other
  names in the order in which they were added.
\<close>

definition array_index :: "jstring \<Rightarrow> nat option" where
  "array_index s =
     (let n = nat (digits_value s)
      in if s \<noteq> [] \<and> list_all dec_digit s \<and> nat_digits n = s \<and> n < 2 ^ 32 - 1 then Some n else None)"

definition own_keys :: "jstring list \<Rightarrow> jstring list" where
  "own_keys ks =
     (let ds = foldl (\<lambda>ds k. if k \<in> set ds then ds else ds @ [k]) [] ks
      in sort_key (\<lambda>k. the (array_index k)) (filter (\<lambda>k. array_index k \<noteq> None) ds) @ filter (\<lambda>k. array_index k = None) ds)"

section \<open>Processing a row\<close>

definition add_match :: "nat \<Rightarrow> jstring \<Rightarrow> glob_obj \<Rightarrow> glob_obj" where
  "add_match index e g =
     g\<lparr>g_matches := (g_matches g)[index := Some (let old = (case g_matches g ! index of Some l \<Rightarrow> l | None \<Rightarrow> [])
        in if e \<in> set old then old else old @ [e])]\<rparr>"

definition no_match :: "nat \<Rightarrow> glob_obj \<Rightarrow> glob_obj" where
  "no_match index g =
     g\<lparr>g_matches := (g_matches g)[index := Some (case g_matches g ! index of Some l \<Rightarrow> l | None \<Rightarrow> [])]\<rparr>"

definition processSimple :: "file_system \<Rightarrow> nat \<Rightarrow> jstring \<Rightarrow> glob_obj \<Rightarrow> glob_obj" where
  "processSimple fs index pre g =
     (let (g1, exists) = glob_stat fs pre g; g2 = no_match index g1
      in if exists = CFalse then g2
         else add_match index (if isAbsolute pre \<and> \<not> g_nomount g then path_join [g_root g, pre] else pre) g2)"

fun is_plain :: "portion \<Rightarrow> bool" where
  "is_plain (Plain s) = True"
| "is_plain _ = False"

fun plain_text :: "portion \<Rightarrow> jstring" where
  "plain_text (Plain s) = s"
| "plain_text _ = []"

text \<open>The strings a pattern begins with, joined; none when it begins with something else.\<close>

definition prefix_of :: "portion list \<Rightarrow> jstring option" where
  "prefix_of pattern =
     (let strings = map plain_text (takeWhile is_plain pattern)
      in if strings = [] then None
         else let pre = join [slash] strings
              in Some (if isAbsolute (pre @ [slash]) \<and> \<not> isAbsolute pre then [slash] @ pre else pre))"

text \<open>\<open>dotOk\<close>; an expression that did not compile has no \<open>_glob\<close>, and reading its first character throws.\<close>

definition dotOk :: "glob_obj \<Rightarrow> portion \<Rightarrow> js_error + bool" where
  "dotOk g pn =
     (if g_dot g then Inr True
      else case pn of
             Magic (Some (raw, src)) r \<Rightarrow> Inr (raw \<noteq> [] \<and> hd raw = full_stop)
           | _ \<Rightarrow> Inl TypeError)"

definition entry_matches :: "letter_case \<Rightarrow> glob_obj \<Rightarrow> bool \<Rightarrow> portion \<Rightarrow> jstring option \<Rightarrow> jstring \<Rightarrow> bool" where
  "entry_matches lc g dots pn pre e =
     (((e = [] \<or> hd e \<noteq> full_stop) \<or> dots) \<and>
      (if m_negate (g_minimatch g) \<and> (pre = None \<or> pre = Some []) then \<not> hit lc (m_options (g_minimatch g)) pn e
       else hit lc (m_options (g_minimatch g)) pn e))"

definition with_prefix :: "jstring option \<Rightarrow> jstring \<Rightarrow> jstring" where
  "with_prefix pre e =
     (case pre of None \<Rightarrow> e | Some p \<Rightarrow> if p = [] then e else if last p = slash then p @ e else p @ [slash] @ e)"

definition full_match :: "glob_obj \<Rightarrow> jstring option \<Rightarrow> jstring \<Rightarrow> jstring" where
  "full_match g pre e =
     (let e' = with_prefix pre e
      in if e' \<noteq> [] \<and> hd e' = slash \<and> \<not> g_nomount g then path_join [g_root g, e'] else e')"

definition prefix_portion :: "jstring option \<Rightarrow> portion list" where
  "prefix_portion pre = (case pre of None \<Rightarrow> [] | Some p \<Rightarrow> if p = [] then [] else [Plain p])"

text \<open>\<open>_processReaddir\<close> and \<open>_processGlobStar\<close>; \<open>rec\<close> is \<open>_process\<close> with the index of the row.\<close>

definition processReaddir ::
    "letter_case \<Rightarrow> file_system \<Rightarrow> (portion list \<Rightarrow> bool \<Rightarrow> glob_obj \<Rightarrow> glob_obj call) \<Rightarrow> nat \<Rightarrow>
     jstring option \<Rightarrow> jstring \<Rightarrow> portion list \<Rightarrow> bool \<Rightarrow> glob_obj \<Rightarrow> glob_obj call" where
  "processReaddir lc fs rec index pre absp remain inGlobStar g =
     bindC (Some (glob_readdir fs absp inGlobStar g)) (\<lambda>(g1, found).
       case found of
         None \<Rightarrow> Some (Inr g1)
       | Some names \<Rightarrow>
           bindC (Some (dotOk g1 (hd remain))) (\<lambda>dots.
             let matched = filter (entry_matches lc g1 dots (hd remain) pre) names
             in if matched = [] then Some (Inr g1)
                else if length remain = 1 \<and> \<not> g_mark g1 \<and> \<not> g_stat g1
                then Some (Inr (fold (\<lambda>e. add_match index (full_match g1 pre e)) matched (no_match index g1)))
                else foldC (\<lambda>e. rec (prefix_portion pre @ Plain e # tl remain) inGlobStar) matched g1))"

definition processGlobStar ::
    "file_system \<Rightarrow> (portion list \<Rightarrow> bool \<Rightarrow> glob_obj \<Rightarrow> glob_obj call) \<Rightarrow>
     jstring option \<Rightarrow> jstring \<Rightarrow> portion list \<Rightarrow> bool \<Rightarrow> glob_obj \<Rightarrow> glob_obj call" where
  "processGlobStar fs rec pre absp remain inGlobStar g =
     bindC (Some (glob_readdir fs absp inGlobStar g)) (\<lambda>(g1, found).
       case found of
         None \<Rightarrow> Some (Inr g1)
       | Some names \<Rightarrow>
           bindC (rec (prefix_portion pre @ tl remain) False g1) (\<lambda>g2.
             if g_symlinks g2 absp = Some True \<and> inGlobStar then Some (Inr g2)
             else foldC (\<lambda>e g3.
                    if e \<noteq> [] \<and> hd e = full_stop \<and> \<not> g_dot g3 then Some (Inr g3)
                    else bindC (rec (prefix_portion pre @ Plain e # tl remain) True g3)
                           (rec (prefix_portion pre @ Plain e # remain) True))
                  names g2))"

fun glob_process :: "letter_case \<Rightarrow> file_system \<Rightarrow> nat \<Rightarrow> nat \<Rightarrow> portion list \<Rightarrow> bool \<Rightarrow> glob_obj \<Rightarrow> glob_obj call" where
  "glob_process lc fs 0 index pattern inGlobStar g = None"
| "glob_process lc fs (Suc d) index pattern inGlobStar g =
     (if list_all is_plain pattern then Some (Inr (processSimple fs index (join [slash] (map plain_text pattern)) g))
      else
        let pre = prefix_of pattern;
            read = (case pre of None \<Rightarrow> lit ''.'' | Some p \<Rightarrow> p);
            absp = makeAbs fs g read;
            remain = dropWhile is_plain pattern
        in if childrenIgnored lc g read then Some (Inr g)
           else if hd remain = Globstar
           then processGlobStar fs (glob_process lc fs d index) pre absp remain inGlobStar g
           else processReaddir lc fs (glob_process lc fs d index) index pre absp remain inGlobStar g)"

section \<open>Collecting the results\<close>

definition mark :: "file_system \<Rightarrow> jstring \<Rightarrow> glob_obj \<Rightarrow> glob_obj \<times> jstring" where
  "mark fs p g =
     (let absp = makeAbs fs g p
      in case g_cache g absp of
           None \<Rightarrow> (g, p)
         | Some CFalse \<Rightarrow> (g, p)
         | Some c \<Rightarrow>
             (let m = (if is_dir_entry c \<and> \<not> ends_slash p then p @ [slash]
                       else if \<not> is_dir_entry c \<and> ends_slash p then butlast p else p)
              in if m = p then (g, p)
                 else (let mabs = makeAbs fs g m
                       in (g\<lparr>g_statCache := (g_statCache g)(mabs := g_statCache g absp),
                             g_cache := (g_cache g)(mabs := g_cache g absp)\<rparr>, m))))"

fun mark_all :: "file_system \<Rightarrow> jstring list \<Rightarrow> glob_obj \<Rightarrow> glob_obj \<times> jstring list" where
  "mark_all fs [] g = (g, [])"
| "mark_all fs (p # ps) g =
     (let (g1, m) = mark fs p g; (g2, ms) = mark_all fs ps g1 in (g2, m # ms))"

text \<open>\<open>_emitMatch\<close>; a row that has no object yet makes it throw. Nothing in the module calls it.\<close>

definition emitMatch :: "file_system \<Rightarrow> nat \<Rightarrow> jstring \<Rightarrow> glob_obj \<Rightarrow> js_error + glob_obj" where
  "emitMatch fs index e g =
     (let (g1, e1) = (if g_mark g then mark fs e g else (g, e))
      in case g_matches g1 ! index of
           None \<Rightarrow> Inl TypeError
         | Some old \<Rightarrow>
             if e1 \<in> set old then Inr g1
             else if g_nodir g1 \<and> (case g_cache g1 (makeAbs fs g1 e1) of Some c \<Rightarrow> is_dir_entry c | None \<Rightarrow> False) then Inr g1
             else let g2 = add_match index e1 g1 in Inr (if g_stat g2 then fst (glob_stat fs e1 g2) else g2))"

text \<open>\<open>finish\<close> of the shared functions; \<open>collate\<close> is \<open>localeCompare\<close>.\<close>

definition finish_common :: "letter_case \<Rightarrow> (jstring \<Rightarrow> jstring \<Rightarrow> int) \<Rightarrow> file_system \<Rightarrow> glob_obj \<Rightarrow> glob_obj" where
  "finish_common lc collate fs g =
     (let per_row = map (\<lambda>(i, ms). case ms of
              Some (m # rest) \<Rightarrow> own_keys (m # rest)
            | _ \<Rightarrow> if g_nonull g then [m_globSet (g_minimatch g) ! i] else []) (enumerate 0 (g_matches g));
          all = (if g_nounique g then concat per_row else own_keys (concat per_row));
          sorted = (if g_nosort g then all
                    else js_sort (if g_nocase g then (\<lambda>a b. collate (lower lc a) (lower lc b)) else collate) all);
          (g1, marked) = (if g_mark g then mark_all fs sorted g else (g, sorted));
          files = (if g_mark g \<and> g_nodir g then filter (\<lambda>e. \<not> ends_slash e) marked else marked)
      in g1\<lparr>g_found := filter (\<lambda>m. \<not> isIgnored lc g1 m) files\<rparr>)"

text \<open>The replacement of the matches by their real paths.\<close>

fun real_row :: "file_system \<Rightarrow> glob_obj \<Rightarrow> jstring list \<Rightarrow> js_error + jstring list" where
  "real_row fs g [] = Inr []"
| "real_row fs g (p # ps) =
     (let absp = makeAbs fs g p
      in case fs_realpath fs absp of
           Inr real \<Rightarrow> bindE (real_row fs g ps) (\<lambda>rs. Inr (real # rs))
         | Inl StatFailed \<Rightarrow> bindE (real_row fs g ps) (\<lambda>rs. Inr (makeAbs fs g absp # rs))
         | Inl (RealpathFailed e) \<Rightarrow> Inl e)"

definition finish_sync ::
    "letter_case \<Rightarrow> (jstring \<Rightarrow> jstring \<Rightarrow> int) \<Rightarrow> file_system \<Rightarrow> glob_obj \<Rightarrow> js_error + glob_obj" where
  "finish_sync lc collate fs g =
     bindE (if g_realpath g
            then mapE (\<lambda>ms. case ms of None \<Rightarrow> Inr None
                   | Some ps \<Rightarrow> bindE (real_row fs g (own_keys ps)) (\<lambda>rs. Inr (Some (own_keys rs)))) (g_matches g)
            else Inr (g_matches g))
       (\<lambda>rows. Inr (finish_common lc collate fs (g\<lparr>g_matches := rows\<rparr>)))"

text \<open>\<open>new GlobSync(pattern, options)\<close>; the first argument bounds the nested calls.\<close>

definition GlobSync ::
    "nat \<Rightarrow> markers \<Rightarrow> letter_case \<Rightarrow> (jstring \<Rightarrow> jstring \<Rightarrow> int) \<Rightarrow> file_system \<Rightarrow> jstring \<Rightarrow> glob_options \<Rightarrow> glob_obj call" where
  "GlobSync d t lc collate fs pattern options =
     (if pattern = [] then Some (Inl (Thrown (lit ''must provide pattern'')))
      else bindC (setopts t fs pattern options) (\<lambda>g.
        if g_noprocess g then Some (Inr g)
        else let rows = m_set (g_minimatch g)
             in bindC (foldC (\<lambda>(i, row). glob_process lc fs d i row False) (enumerate 0 rows)
                        (g\<lparr>g_matches := replicate (length rows) None\<rparr>))
                  (\<lambda>g'. Some (finish_sync lc collate fs g'))))"

definition globSync ::
    "nat \<Rightarrow> markers \<Rightarrow> letter_case \<Rightarrow> (jstring \<Rightarrow> jstring \<Rightarrow> int) \<Rightarrow> file_system \<Rightarrow> jstring \<Rightarrow> glob_options \<Rightarrow> jstring list call" where
  "globSync d t lc collate fs pattern options =
     bindC (GlobSync d t lc collate fs pattern options) (\<lambda>g. Some (Inr (g_found g)))"

end
