(* ===== verification/Glob_Caches.thy ===== *)
theory Glob_Caches
  imports Glob_Sync
begin

text \<open>
  What the synchronous walk knows of the file system. Paths are taken apart into lists of names; calls are judged by a
  total-correctness predicate; a well-behaved file system is described; and the two caches of the walk, with the functions
  that fill and ask them, are shown to stay true to it.
\<close>

section \<open>Addresses\<close>

text \<open>A name that a directory can list, and the absolute path of a list of names.\<close>

definition good_name :: "jstring \<Rightarrow> bool" where
  "good_name e \<longleftrightarrow> e \<noteq> [] \<and> slash \<notin> set e \<and> e \<noteq> dot \<and> e \<noteq> dotdot"

definition addr :: "jstring list \<Rightarrow> jstring" where
  "addr cs = slash # join [slash] cs"

lemma good_clean: "list_all good_name cs \<Longrightarrow> \<forall>s \<in> set cs. s \<noteq> [] \<and> slash \<notin> set s"
  by (auto simp: list_all_iff good_name_def)

lemma segments_addr: "list_all good_name cs \<Longrightarrow> segments (addr cs) = cs"
  by (simp add: addr_def segments_join good_clean)

lemma addr_inject: "list_all good_name cs \<Longrightarrow> list_all good_name ds \<Longrightarrow> addr cs = addr ds \<longleftrightarrow> cs = ds"
  by (metis segments_addr)

lemma addr_not_Nil [simp]: "addr cs \<noteq> []" "[] \<noteq> addr cs"
  by (simp_all add: addr_def)

lemma addr_root: "list_all good_name cs \<Longrightarrow> addr cs = [slash] \<longleftrightarrow> cs = []"
  using addr_inject [of cs "[]"] by (simp add: addr_def)

lemma child_addr: "list_all good_name cs \<Longrightarrow> child_path (addr cs) e = addr (cs @ [e])"
  by (cases "cs = []") (auto simp: child_path_def addr_root, auto simp: addr_def join_append)

lemma isAbsolute_addr [simp]: "isAbsolute (addr cs)"
  by (simp add: addr_def isAbsolute_hd)

lemma named_good: "list_all good_name cs \<Longrightarrow> \<forall>p \<in> set cs. named p"
  by (auto simp: list_all_iff good_name_def)

lemma join_root_addr:
  assumes "list_all good_name cs"
  shows "path_join [[slash], addr cs] = addr cs"
proof -
  let ?p = "slash # slash # addr cs"
  have "walk cs = (0, cs)" using walk_normal [OF named_good [OF assms], of 0] by simp
  then have parts: "normal_parts ?p = cs"
    by (simp add: normal_parts_def isAbsolute_hd segments_addr [OF assms] normalizeArray_walk)
  have last: "last (addr cs) \<noteq> slash" if "cs \<noteq> []"
    using join_head [OF that good_clean [OF assms]] by (simp add: addr_def)
  have "normalize ?p = [slash] @ join [slash] cs"
    using last unfolding normalize_parts parts by (auto simp: isAbsolute_hd)
  then have "normalize ?p = addr cs" by (simp add: addr_def)
  then show ?thesis by (simp add: path_join_def)
qed

lemma resolve_loop_acc:
  "resolve_loop ps acc = (fst (resolve_loop ps []) @ acc, snd (resolve_loop ps []))"
proof (induction ps arbitrary: acc)
  case (Cons p ps)
  from Cons [of acc] Cons [of "p @ slash # acc"] Cons [of "p @ [slash]"] show ?case
    by simp
qed simp

lemma resolve_loop_ends: "fst (resolve_loop ps []) = [] \<or> (\<exists>q. fst (resolve_loop ps []) = q @ [slash])"
proof (induction ps)
  case (Cons p ps)
  then show ?case using resolve_loop_acc [of ps "p @ [slash]"] by auto
qed simp

lemma resolve_loop_absolute: "isAbsolute cwd \<Longrightarrow> snd (resolve_loop (ps @ [cwd]) acc)"
  by (induction ps arbitrary: acc) (auto simp: isAbsolute_hd)

lemma segments_resolve_loop: "segments (fst (resolve_loop ps []) @ s) = segments (fst (resolve_loop ps [])) @ segments s"
proof (cases "fst (resolve_loop ps []) = []")
  case False
  with resolve_loop_ends obtain q where q: "fst (resolve_loop ps []) = q @ [slash]" by blast
  have e: "segments [] = []" by (simp add: segments_def)
  show ?thesis using segments_append_slash [of q s] segments_append_slash [of q "[]"] by (simp add: q e)
qed (simp add: segments_def)

lemma walk_good: "list_all good_name (snd (walk (segments p)))"
  using walk_parts [of "segments p" "fst (walk (segments p))" "snd (walk (segments p))"] segments_clean [of _ p]
  by (fastforce simp: list_all_iff good_name_def)

text \<open>Where a relative path leads from a working directory.\<close>

lemma resolve_from:
  fixes args :: "jstring list"
  assumes "isAbsolute cwd" "f \<noteq> []" "\<not> isAbsolute f"
  defines "p \<equiv> fst (resolve_loop (rev args @ [cwd]) [])"
  shows "resolve cwd (args @ [f]) = addr (snd (walk (segments p @ segments f)))" "resolve cwd args = addr (snd (walk (segments p)))"
proof -
  let ?ps = "rev args @ [cwd]"
  have a: "snd (resolve_loop ?ps [])" using assms(1) by (rule resolve_loop_absolute)
  have "resolve_loop (rev (args @ [f]) @ [cwd]) [] = resolve_loop ?ps (f @ [slash])"
    using assms(2,3) by simp
  also have "\<dots> = (p @ f @ [slash], True)"
    using a resolve_loop_acc [of ?ps "f @ [slash]"] by (simp add: p_def)
  finally show "resolve cwd (args @ [f]) = addr (snd (walk (segments p @ segments f)))"
    using segments_resolve_loop [of ?ps "f @ [slash]"]
    by (simp add: resolve_def normalizeArray_walk addr_def p_def split_beta)
  show "resolve cwd args = addr (snd (walk (segments p)))"
    using a by (simp add: resolve_def normalizeArray_walk addr_def p_def split_beta)
qed

lemma resolve_relative:
  assumes "isAbsolute cwd" "resolve cwd args = addr home" "list_all good_name home" "f \<noteq> []" "\<not> isAbsolute f"
  shows "list_all good_name (segments f) \<Longrightarrow> resolve cwd (args @ [f]) = addr (home @ segments f)"
    and "segments f = [dot] \<Longrightarrow> resolve cwd (args @ [f]) = addr home"
proof -
  note r = resolve_from [OF assms(1,4,5), of args]
  obtain u st where w: "walk (segments (fst (resolve_loop (rev args @ [cwd]) []))) = (u, st)" by force
  have "list_all good_name st" using walk_good w by (metis snd_conv)
  with r(2) w assms(2,3) have st: "st = home" by (simp add: addr_inject)
  show "resolve cwd (args @ [f]) = addr (home @ segments f)" if "list_all good_name (segments f)"
    using r(1) w walk_from_named [OF named_good [OF that]] by (simp add: walk_def st)
  show "resolve cwd (args @ [f]) = addr home" if "segments f = [dot]"
    using r(1) w by (simp add: walk_def st that walk_step_def)
qed

section \<open>Calls that return\<close>

text \<open>The call returns, without an exception, a value that satisfies the predicate.\<close>

definition returns :: "'a call \<Rightarrow> ('a \<Rightarrow> bool) \<Rightarrow> bool" where
  "returns m Q \<longleftrightarrow> (\<exists>x. m = Some (Inr x) \<and> Q x)"

lemma returns_value [simp]: "returns (Some (Inr x)) Q \<longleftrightarrow> Q x"
  by (simp add: returns_def)

lemma bindC_simps [simp]:
  "bindC (Some (Inr x)) f = f x" "bindC (Some (Inl e)) f = Some (Inl e)" "bindC None f = None"
  by (simp_all add: bindC_def)

lemma returns_bind: "returns m P \<Longrightarrow> (\<And>x. P x \<Longrightarrow> returns (f x) Q) \<Longrightarrow> returns (bindC m f) Q"
  by (auto simp: returns_def bindC_def)

lemma returns_weaken: "returns m P \<Longrightarrow> (\<And>x. P x \<Longrightarrow> Q x) \<Longrightarrow> returns m Q"
  by (auto simp: returns_def)

text \<open>A loop, with what holds of the elements it has passed and the state.\<close>

lemma returns_fold:
  assumes "\<And>ds x a. x \<in> set xs \<Longrightarrow> I ds a \<Longrightarrow> returns (f x a) (I (ds @ [x]))" "I ds a"
  shows "returns (foldC f xs a) (I (ds @ xs))"
  using assms
proof (induction xs arbitrary: ds a)
  case (Cons x xs)
  have "returns (f x a) (I (ds @ [x]))" using Cons.prems by simp
  moreover have "returns (foldC f xs b) (I (ds @ x # xs))" if "I (ds @ [x]) b" for b
    using Cons.IH [of "ds @ [x]" b] Cons.prems(1) that by simp
  ultimately show ?case by (auto intro: returns_bind)
qed simp

section \<open>A well-behaved file system\<close>

text \<open>
  What the walk relies on, at the directory of a list of names: a missing path answers \<open>ENOENT\<close>, or \<open>ENOTDIR\<close> when a regular
  file is on the way; a file answers \<open>ENOTDIR\<close>; a directory lists names, and exactly those are there. There are no symbolic
  links, and no directory is more than a given number of names deep.
\<close>

definition tidy_at :: "file_system \<Rightarrow> nat \<Rightarrow> jstring list \<Rightarrow> bool" where
  "tidy_at fs N cs \<longleftrightarrow>
     (case fs_lstat fs (addr cs) of
        None \<Rightarrow> fs_readdir fs (addr cs) = Inl ENOENT \<or> fs_readdir fs (addr cs) = Inl ENOTDIR
      | Some FileK \<Rightarrow> fs_readdir fs (addr cs) = Inl ENOTDIR
      | Some DirK \<Rightarrow> length cs \<le> N \<and> (\<exists>es. fs_readdir fs (addr cs) = Inr es \<and> list_all good_name es)
      | Some LinkK \<Rightarrow> False) \<and>
     (\<forall>e. good_name e \<longrightarrow>
        (fs_lstat fs (addr (cs @ [e])) \<noteq> None \<longleftrightarrow> (\<exists>es. fs_readdir fs (addr cs) = Inr es \<and> e \<in> set es)))"

definition tidy_fs :: "file_system \<Rightarrow> nat \<Rightarrow> bool" where
  "tidy_fs fs N \<longleftrightarrow> isAbsolute (fs_cwd fs) \<and> fs_lstat fs [] = None \<and> (\<forall>cs. list_all good_name cs \<longrightarrow> tidy_at fs N cs)"

text \<open>A path that is missing because a regular file is on the way.\<close>

definition phantom :: "file_system \<Rightarrow> jstring list \<Rightarrow> bool" where
  "phantom fs cs \<longleftrightarrow> fs_lstat fs (addr cs) = None \<and> fs_readdir fs (addr cs) = Inl ENOTDIR"

lemma tidy_dir:
  assumes "tidy_fs fs N" "list_all good_name cs"
  shows "fs_lstat fs (addr cs) = Some DirK \<longleftrightarrow> (\<exists>es. fs_readdir fs (addr cs) = Inr es)"
    and "fs_readdir fs (addr cs) = Inr es \<Longrightarrow> list_all good_name es \<and> length cs \<le> N"
    and "fs_lstat fs (addr cs) \<noteq> Some LinkK"
    and "fs_readdir fs (addr cs) = Inl er \<Longrightarrow>
      er = ENOENT \<and> fs_lstat fs (addr cs) = None \<or> er = ENOTDIR \<and> (fs_lstat fs (addr cs) = Some FileK \<or> phantom fs cs)"
proof -
  have "tidy_at fs N cs" using assms by (simp add: tidy_fs_def)
  then have at: "case fs_lstat fs (addr cs) of
        None \<Rightarrow> fs_readdir fs (addr cs) = Inl ENOENT \<or> fs_readdir fs (addr cs) = Inl ENOTDIR
      | Some FileK \<Rightarrow> fs_readdir fs (addr cs) = Inl ENOTDIR
      | Some DirK \<Rightarrow> length cs \<le> N \<and> (\<exists>es. fs_readdir fs (addr cs) = Inr es \<and> list_all good_name es)
      | Some LinkK \<Rightarrow> False" unfolding tidy_at_def by blast
  show "fs_lstat fs (addr cs) = Some DirK \<longleftrightarrow> (\<exists>es. fs_readdir fs (addr cs) = Inr es)"
    "fs_readdir fs (addr cs) = Inr es \<Longrightarrow> list_all good_name es \<and> length cs \<le> N"
    "fs_lstat fs (addr cs) \<noteq> Some LinkK"
    "fs_readdir fs (addr cs) = Inl er \<Longrightarrow>
      er = ENOENT \<and> fs_lstat fs (addr cs) = None \<or> er = ENOTDIR \<and> (fs_lstat fs (addr cs) = Some FileK \<or> phantom fs cs)"
    using at by (auto simp: phantom_def split: option.splits fkind.splits)
qed

lemma tidy_child:
  assumes "tidy_fs fs N" "list_all good_name cs" "good_name e"
  shows "fs_lstat fs (addr (cs @ [e])) \<noteq> None \<longleftrightarrow> (\<exists>es. fs_readdir fs (addr cs) = Inr es \<and> e \<in> set es)"
  using assms unfolding tidy_fs_def tidy_at_def by blast

text \<open>What is there lies in directories that are there.\<close>

lemma tidy_above:
  assumes "tidy_fs fs N" "list_all good_name (cs @ e # ds)" "fs_lstat fs (addr (cs @ e # ds)) \<noteq> None"
  shows "\<exists>es. fs_readdir fs (addr cs) = Inr es \<and> e \<in> set es"
  using assms(2,3)
proof (induction ds rule: rev_induct)
  case Nil
  then show ?case using tidy_child [OF assms(1), of cs e] by simp
next
  case (snoc d ds)
  have "fs_lstat fs (addr (cs @ e # ds)) = Some DirK"
    using tidy_child [OF assms(1), of "cs @ e # ds" d] tidy_dir(1) [OF assms(1), of "cs @ e # ds"] snoc.prems by auto
  then show ?case using snoc.IH snoc.prems by simp
qed

section \<open>The caches tell the truth\<close>

definition cache_ok :: "file_system \<Rightarrow> glob_obj \<Rightarrow> jstring list \<Rightarrow> bool" where
  "cache_ok fs g cs \<longleftrightarrow>
     (case g_cache g (addr cs) of
        None \<Rightarrow> True
      | Some CFalse \<Rightarrow> fs_lstat fs (addr cs) = None
      | Some CTrue \<Rightarrow> fs_lstat fs (addr cs) \<noteq> None
      | Some CFile \<Rightarrow> fs_lstat fs (addr cs) = Some FileK \<or> phantom fs cs
      | Some CDir \<Rightarrow> fs_lstat fs (addr cs) = Some DirK
      | Some (CEntries es) \<Rightarrow> fs_readdir fs (addr cs) = Inr es) \<and>
     (case g_statCache g (addr cs) of None \<Rightarrow> True | Some k \<Rightarrow> fs_lstat fs (addr cs) = Some k) \<and>
     g_symlinks g (addr cs) \<noteq> Some True"

definition caches_true :: "file_system \<Rightarrow> glob_obj \<Rightarrow> bool" where
  "caches_true fs g \<longleftrightarrow> g_cache g [] = None \<and> g_statCache g [] = None \<and> (\<forall>cs. list_all good_name cs \<longrightarrow> cache_ok fs g cs)"

lemma caches_trueD: "caches_true fs g \<Longrightarrow> list_all good_name cs \<Longrightarrow> cache_ok fs g cs"
  by (simp add: caches_true_def)

lemma caches_true_update:
  assumes "caches_true fs g" "list_all good_name cs" "cache_ok fs g' cs" "g_cache g' [] = None" "g_statCache g' [] = None"
    "\<And>ds. list_all good_name ds \<Longrightarrow> ds \<noteq> cs \<Longrightarrow> g_cache g' (addr ds) = g_cache g (addr ds)"
    "\<And>ds. list_all good_name ds \<Longrightarrow> ds \<noteq> cs \<Longrightarrow> g_statCache g' (addr ds) = g_statCache g (addr ds)"
    "\<And>ds. list_all good_name ds \<Longrightarrow> ds \<noteq> cs \<Longrightarrow> g_symlinks g' (addr ds) = g_symlinks g (addr ds)"
  shows "caches_true fs g'"
proof -
  have "cache_ok fs g' ds" if "list_all good_name ds" for ds
  proof (cases "ds = cs")
    case False
    then show ?thesis using caches_trueD [OF assms(1) that] assms(6-8) [OF that] by (simp add: cache_ok_def)
  qed (simp add: assms(3))
  then show ?thesis using assms(4,5) by (simp add: caches_true_def)
qed

text \<open>All that the walk never changes.\<close>

definition rest_of :: "glob_obj \<Rightarrow> glob_obj" where
  "rest_of g = g\<lparr>g_cache := Map.empty, g_statCache := Map.empty, g_symlinks := Map.empty, g_matches := []\<rparr>"

lemma rest_of_update [simp]:
  "rest_of (g\<lparr>g_cache := c\<rparr>) = rest_of g" "rest_of (g\<lparr>g_statCache := s\<rparr>) = rest_of g"
  "rest_of (g\<lparr>g_symlinks := l\<rparr>) = rest_of g" "rest_of (g\<lparr>g_matches := m\<rparr>) = rest_of g"
  by (simp_all add: rest_of_def)

lemma rest_of_sel:
  "g_root (rest_of g) = g_root g" "g_maxLength (rest_of g) = g_maxLength g" "g_ignore (rest_of g) = g_ignore g" "g_minimatch (rest_of g) = g_minimatch g"
  "g_dot (rest_of g) = g_dot g" "g_changedCwd (rest_of g) = g_changedCwd g" "g_cwd (rest_of g) = g_cwd g" "g_mark (rest_of g) = g_mark g"
  "g_stat (rest_of g) = g_stat g" "g_nomount (rest_of g) = g_nomount g" "g_follow (rest_of g) = g_follow g" "g_strict (rest_of g) = g_strict g"
  "g_realpath (rest_of g) = g_realpath g" "g_nounique (rest_of g) = g_nounique g" "g_nonull (rest_of g) = g_nonull g" "g_nosort (rest_of g) = g_nosort g"
  "g_nocase (rest_of g) = g_nocase g" "g_nodir (rest_of g) = g_nodir g" "g_noprocess (rest_of g) = g_noprocess g"
  by (simp_all add: rest_of_def)

lemma rest_of_eqD:
  assumes "rest_of g' = rest_of g"
  shows "g_root g' = g_root g" "g_maxLength g' = g_maxLength g" "g_ignore g' = g_ignore g" "g_minimatch g' = g_minimatch g"
    "g_dot g' = g_dot g" "g_changedCwd g' = g_changedCwd g" "g_cwd g' = g_cwd g" "g_mark g' = g_mark g" "g_stat g' = g_stat g"
    "g_nomount g' = g_nomount g" "g_follow g' = g_follow g" "g_strict g' = g_strict g"
    "g_realpath g' = g_realpath g" "g_nounique g' = g_nounique g" "g_nonull g' = g_nonull g" "g_nosort g' = g_nosort g"
    "g_nocase g' = g_nocase g" "g_nodir g' = g_nodir g" "g_noprocess g' = g_noprocess g"
  by (simp_all only: rest_of_sel [symmetric, of g] rest_of_sel [symmetric, of g'] assms)

text \<open>The configuration of the walks that are considered: from a directory, with the root \<open>/\<close>, nothing ignored and no bound on lengths.\<close>

definition glob_conf :: "file_system \<Rightarrow> jstring list \<Rightarrow> glob_obj \<Rightarrow> bool" where
  "glob_conf fs home g \<longleftrightarrow>
     list_all good_name home \<and> resolve (fs_cwd fs) (if g_changedCwd g then [g_cwd g] else []) = addr home \<and>
     g_root g = [slash] \<and> g_maxLength g = None \<and> g_ignore g = [] \<and> \<not> m_negate (g_minimatch g) \<and>
     g_dot g = o_dot (m_options (g_minimatch g))"

lemma glob_conf_cong:
  assumes "rest_of g' = rest_of g"
  shows "glob_conf fs home g' = glob_conf fs home g"
  by (simp add: glob_conf_def rest_of_eqD [OF assms])

text \<open>A relative path of proper names, with or without a slash at its end.\<close>

definition tidy_path :: "jstring \<Rightarrow> bool" where
  "tidy_path f \<longleftrightarrow> f \<noteq> [] \<and> \<not> isAbsolute f \<and> list_all good_name (segments f)"

lemma makeAbs_tidy:
  assumes "tidy_fs fs N" "glob_conf fs home g"
  shows "tidy_path f \<Longrightarrow> makeAbs fs g f = addr (home @ segments f)" "makeAbs fs g (lit ''.'') = addr home"
    "list_all good_name cs \<Longrightarrow> makeAbs fs g (addr cs) = addr cs"
proof -
  let ?args = "if g_changedCwd g then [g_cwd g] else []"
  have cwd: "isAbsolute (fs_cwd fs)" using assms(1) by (simp add: tidy_fs_def)
  have home: "resolve (fs_cwd fs) ?args = addr home" "list_all good_name home" using assms(2) by (simp_all add: glob_conf_def)
  have rel: "makeAbs fs g p = resolve (fs_cwd fs) (?args @ [p])" if "p \<noteq> []" "\<not> isAbsolute p" for p
    using that by (simp add: makeAbs_def isAbsolute_hd)
  show "makeAbs fs g f = addr (home @ segments f)" if "tidy_path f"
    using that rel resolve_relative(1) [OF cwd home] by (simp add: tidy_path_def)
  have d: "dot \<noteq> []" "\<not> isAbsolute dot" "segments dot = [dot]"
    by (simp_all add: isAbsolute_hd segments_def split1_free lit_def)
  then show "makeAbs fs g (lit ''.'') = addr home"
    using rel [OF d(1,2)] resolve_relative(2) [OF cwd home d] by simp
  show "makeAbs fs g (addr cs) = addr cs" if "list_all good_name cs"
    using assms(2) join_root_addr [OF that] by (simp add: makeAbs_def glob_conf_def, simp add: addr_def)
qed

section \<open>Asking the file system\<close>

text \<open>A path as the walk sees it: there, and a directory when it ends in a slash.\<close>

definition present :: "file_system \<Rightarrow> jstring list \<Rightarrow> jstring \<Rightarrow> bool" where
  "present fs home m \<longleftrightarrow> tidy_path m \<and>
     (if ends_slash m then fs_lstat fs (addr (home @ segments m)) = Some DirK else fs_lstat fs (addr (home @ segments m)) \<noteq> None)"

definition believed :: "file_system \<Rightarrow> jstring list \<Rightarrow> jstring \<Rightarrow> bool" where
  "believed fs home m \<longleftrightarrow> tidy_path m \<and> \<not> ends_slash m \<and> phantom fs (home @ segments m)"

text \<open>A step that only learns: what it leaves of the object, and that it learns the truth.\<close>

definition learns :: "file_system \<Rightarrow> glob_obj \<Rightarrow> glob_obj \<Rightarrow> bool" where
  "learns fs g g' \<longleftrightarrow> caches_true fs g' \<and> rest_of g' = rest_of g \<and> g_matches g' = g_matches g"

lemma learns_refl: "caches_true fs g \<Longrightarrow> learns fs g g"
  by (simp add: learns_def)

lemma stat_fresh_true:
  assumes "tidy_fs fs N" "caches_true fs g" "list_all good_name cs"
  shows "learns fs g (fst (stat_fresh fs (addr cs) nd g))"
    and "snd (stat_fresh fs (addr cs) nd g) \<noteq> CFalse \<longleftrightarrow>
      (if nd then fs_lstat fs (addr cs) = Some DirK else fs_lstat fs (addr cs) \<noteq> None)"
proof -
  have ok: "cache_ok fs g cs" using assms(2,3) by (rule caches_trueD)
  have link: "fs_lstat fs (addr cs) \<noteq> Some LinkK" using tidy_dir(3) [OF assms(1,3)] .
  let ?k = "fs_lstat fs (addr cs)"
  let ?c = "case ?k of Some DirK \<Rightarrow> CDir | _ \<Rightarrow> CFile"
  let ?new = "case g_cache g (addr cs) of None \<Rightarrow> ?c | Some CFalse \<Rightarrow> ?c | Some old \<Rightarrow> old"
  have known: "(case g_statCache g (addr cs) of
      Some k \<Rightarrow> Some k
    | None \<Rightarrow> (case ?k of None \<Rightarrow> None | Some LinkK \<Rightarrow> Some (case fs_stat fs (addr cs) of Some k \<Rightarrow> k | None \<Rightarrow> LinkK)
        | Some k \<Rightarrow> Some k)) = ?k"
    using ok link by (auto simp: cache_ok_def split: option.splits fkind.splits)
  have fresh: "stat_fresh fs (addr cs) nd g =
    (case ?k of None \<Rightarrow> (g, CFalse)
     | Some k \<Rightarrow> (g\<lparr>g_statCache := (g_statCache g)(addr cs \<mapsto> k), g_cache := (g_cache g)(addr cs \<mapsto> ?new)\<rparr>,
         if nd \<and> ?c \<noteq> CDir then CFalse else ?c))"
    unfolding stat_fresh_def known using link by (simp add: Let_def split: option.split fkind.split)
  show "snd (stat_fresh fs (addr cs) nd g) \<noteq> CFalse \<longleftrightarrow>
      (if nd then fs_lstat fs (addr cs) = Some DirK else fs_lstat fs (addr cs) \<noteq> None)"
    using link by (auto simp: fresh split: option.splits fkind.splits)
  show "learns fs g (fst (stat_fresh fs (addr cs) nd g))"
  proof (cases ?k)
    case None
    then show ?thesis using assms(2) by (simp add: fresh learns_refl)
  next
    case (Some k)
    let ?g = "g\<lparr>g_statCache := (g_statCache g)(addr cs \<mapsto> k), g_cache := (g_cache g)(addr cs \<mapsto> ?new)\<rparr>"
    have "cache_ok fs ?g cs"
      using ok Some link by (auto simp: cache_ok_def split: option.splits fkind.splits cache_entry.splits)
    moreover have "g_cache g [] = None" "g_statCache g [] = None" using assms(2) by (simp_all add: caches_true_def)
    ultimately have "caches_true fs ?g"
      using addr_inject [OF _ assms(3)] by (intro caches_true_update [OF assms(2,3)]) auto
    with Some show ?thesis by (simp add: fresh learns_def)
  qed
qed

lemma glob_stat_true:
  assumes "tidy_fs fs N" "glob_conf fs home g" "caches_true fs g" "tidy_path f"
  shows "learns fs g (fst (glob_stat fs f g))"
    and "present fs home f \<Longrightarrow> snd (glob_stat fs f g) \<noteq> CFalse"
    and "snd (glob_stat fs f g) \<noteq> CFalse \<Longrightarrow> present fs home f \<or> believed fs home f"
proof -
  let ?cs = "home @ segments f"
  have good: "list_all good_name ?cs" using assms(2,4) by (simp add: glob_conf_def tidy_path_def)
  have ab: "makeAbs fs g f = addr ?cs" using assms(1,2,4) by (simp add: makeAbs_tidy)
  have ml: "g_maxLength g = None" using assms(2) by (simp add: glob_conf_def)
  note fresh = stat_fresh_true [OF assms(1,3) good, of "ends_slash f"]
  have fr: "present fs home f \<longleftrightarrow> snd (stat_fresh fs (addr ?cs) (ends_slash f) g) \<noteq> CFalse"
    using assms(4) fresh(2) by (simp add: present_def)
  have ok: "cache_ok fs g ?cs" using assms(3) good by (rule caches_trueD)
  have isdir: "fs_lstat fs (addr ?cs) = Some DirK" if "fs_readdir fs (addr ?cs) = Inr es" for es
    using tidy_dir(1) [OF assms(1) good] that by blast
  let ?c = "if g_stat g then None else g_cache g (addr ?cs)"
  consider (fresh) "glob_stat fs f g = stat_fresh fs (addr ?cs) (ends_slash f) g"
    | (dir) "glob_stat fs f g = (g, CDir)" "fs_lstat fs (addr ?cs) = Some DirK"
    | (missing) "glob_stat fs f g = (g, CFalse)" "fs_lstat fs (addr ?cs) = None" "\<not> ends_slash f"
    | (exists) "glob_stat fs f g = (g, CTrue)" "fs_lstat fs (addr ?cs) \<noteq> None" "\<not> ends_slash f"
    | (regular) "glob_stat fs f g = (g, if ends_slash f then CFalse else CFile)" "fs_lstat fs (addr ?cs) = Some FileK \<or> phantom fs ?cs"
  proof (cases ?c)
    case None
    then show ?thesis using that(1) by (simp add: glob_stat_def ab ml Let_def)
  next
    case (Some c)
    then have st: "\<not> g_stat g" "g_cache g (addr ?cs) = Some c" by (simp_all split: if_splits)
    then have gs: "glob_stat fs f g = (let c' = (if is_dir_entry c then CDir else c)
        in if \<not> ends_slash f \<or> c' = CDir then (g, c') else if c' = CFile then (g, CFalse)
           else stat_fresh fs (addr ?cs) (ends_slash f) g)"
      by (simp add: glob_stat_def ab ml st)
    show ?thesis
    proof (cases c)
      case CFalse
      then show ?thesis using that(1,3) ok st by (cases "ends_slash f") (simp_all add: gs cache_ok_def)
    next
      case CTrue
      then show ?thesis using that(1,4) ok st by (cases "ends_slash f") (simp_all add: gs cache_ok_def)
    next
      case CFile
      then show ?thesis using that(5) ok st by (cases "ends_slash f") (simp_all add: gs cache_ok_def)
    next
      case CDir
      then show ?thesis using that(2) ok st by (simp add: gs cache_ok_def)
    next
      case (CEntries es)
      then show ?thesis using that(2) ok st isdir [of es] by (simp add: gs cache_ok_def)
    qed
  qed
  note cases = this
  show "learns fs g (fst (glob_stat fs f g))"
    by (cases rule: cases) (simp_all add: fresh(1) learns_refl assms(3))
  show "snd (glob_stat fs f g) \<noteq> CFalse" if "present fs home f"
  proof (cases rule: cases)
    case fresh
    then show ?thesis using that fr by simp
  qed (use that in \<open>auto simp: present_def phantom_def split: if_splits\<close>)
  show "present fs home f \<or> believed fs home f" if "snd (glob_stat fs f g) \<noteq> CFalse"
  proof (cases rule: cases)
    case fresh
    then show ?thesis using that fr by simp
  qed (use that assms(4) in \<open>auto simp: present_def believed_def split: if_splits\<close>)
qed

lemma readdirEntries_true:
  assumes "tidy_fs fs N" "caches_true fs g" "list_all good_name cs" "fs_readdir fs (addr cs) = Inr es"
  shows "learns fs g (readdirEntries (addr cs) es g)"
proof -
  let ?add = "\<lambda>e c. c(child_path (addr cs) e \<mapsto> CTrue)"
  have fold: "fold ?add xs c p = (if p \<in> child_path (addr cs) ` set xs then Some CTrue else c p)" for xs c p
    by (induction xs arbitrary: c) auto
  let ?g = "readdirEntries (addr cs) es g"
  have names: "list_all good_name es" using tidy_dir(2) [OF assms(1,3,4)] by simp
  have "cache_ok fs ?g ds" if ds: "list_all good_name ds" for ds
  proof -
    have ok: "cache_ok fs g ds" using assms(2) ds by (rule caches_trueD)
    have child: "fs_lstat fs (addr ds) \<noteq> None" if "addr ds \<in> child_path (addr cs) ` set es"
    proof -
      from that obtain e where e: "e \<in> set es" "addr ds = addr (cs @ [e])" by (auto simp: child_addr [OF assms(3)])
      then have "good_name e" using names by (simp add: list_all_iff)
      then show ?thesis using tidy_child [OF assms(1,3)] assms(4) e by auto
    qed
    show ?thesis
    proof (cases "addr ds = addr cs")
      case True
      then show ?thesis using assms(4) ok by (simp add: cache_ok_def readdirEntries_def Let_def)
    next
      case False
      then show ?thesis using ok child by (simp add: cache_ok_def readdirEntries_def Let_def fold)
    qed
  qed
  moreover have "[] \<notin> child_path (addr cs) ` set es" by (auto simp: child_path_def split: if_splits)
  then have "g_cache ?g [] = None" "g_statCache ?g [] = None"
    using assms(2) by (simp_all add: caches_true_def readdirEntries_def Let_def fold)
  ultimately show ?thesis by (simp add: learns_def caches_true_def, simp add: readdirEntries_def Let_def)
qed

lemma cache_put_true:
  assumes "caches_true fs g" "list_all good_name cs" "cache_ok fs (g\<lparr>g_cache := (g_cache g)(addr cs \<mapsto> c)\<rparr>) cs"
  shows "learns fs g (g\<lparr>g_cache := (g_cache g)(addr cs \<mapsto> c)\<rparr>)"
proof -
  have "g_cache g [] = None" "g_statCache g [] = None" using assms(1) by (simp_all add: caches_true_def)
  then have "caches_true fs (g\<lparr>g_cache := (g_cache g)(addr cs \<mapsto> c)\<rparr>)"
    using addr_inject [OF _ assms(2)] by (intro caches_true_update [OF assms]) auto
  then show ?thesis by (simp add: learns_def)
qed

definition listing :: "file_system \<Rightarrow> jstring list \<Rightarrow> jstring list option" where
  "listing fs cs = (case fs_readdir fs (addr cs) of Inr es \<Rightarrow> Some es | Inl er \<Rightarrow> None)"

lemma readdir_plain_true:
  assumes "tidy_fs fs N" "glob_conf fs home g" "caches_true fs g" "list_all good_name cs"
  shows "\<exists>g'. readdir_plain fs (addr cs) g = Inr (g', listing fs cs) \<and> learns fs g g'"
proof -
  have ok: "cache_ok fs g cs" using assms(3,4) by (rule caches_trueD)
  have ab: "makeAbs fs g (addr cs) = addr cs" using assms(1,2,4) by (simp add: makeAbs_tidy)
  note dir = tidy_dir [OF assms(1,4)]
  note refl = learns_refl [OF assms(3)]
  consider (no) "g_cache g (addr cs) = Some CFalse \<or> g_cache g (addr cs) = Some CFile"
    | (known) es where "g_cache g (addr cs) = Some (CEntries es)"
    | (ask) "g_cache g (addr cs) = None \<or> g_cache g (addr cs) = Some CTrue \<or> g_cache g (addr cs) = Some CDir"
    by (metis cache_entry.exhaust option.exhaust)
  then show ?thesis
  proof cases
    case no
    then have "listing fs cs = None"
      using ok dir(1) by (auto simp: cache_ok_def listing_def phantom_def split: sum.splits)
    then show ?thesis using no refl by (auto simp: readdir_plain_def)
  next
    case known
    then show ?thesis using ok refl by (auto simp: readdir_plain_def cache_ok_def listing_def)
  next
    case ask
    then have read: "readdir_plain fs (addr cs) g = (case fs_readdir fs (addr cs) of
        Inr names \<Rightarrow> Inr (readdirEntries (addr cs) names g, Some names)
      | Inl er \<Rightarrow> bindE (readdirError fs (addr cs) er g) (\<lambda>g'. Inr (g', None)))" by (auto simp: readdir_plain_def)
    show ?thesis
    proof (cases "fs_readdir fs (addr cs)")
      case (Inr es)
      then show ?thesis using readdirEntries_true [OF assms(1,3,4)] by (simp add: read listing_def)
    next
      case (Inl er)
      let ?put = "\<lambda>c. g\<lparr>g_cache := (g_cache g)(addr cs \<mapsto> c)\<rparr>"
      from dir(4) [OF Inl] consider "er = ENOENT" "fs_lstat fs (addr cs) = None"
        | "er = ENOTDIR" "fs_lstat fs (addr cs) = Some FileK \<or> phantom fs cs" by metis
      then show ?thesis
      proof cases
        case 1
        then have "cache_ok fs (?put CFalse) cs" using ok by (simp add: cache_ok_def)
        from cache_put_true [OF assms(3,4) this] 1 Inl show ?thesis by (simp add: read readdirError_def listing_def ab)
      next
        case 2
        then have "cache_ok fs (?put CFile) cs" using ok by (simp add: cache_ok_def)
        from cache_put_true [OF assms(3,4) this] 2 Inl show ?thesis by (simp add: read readdirError_def listing_def ab)
      qed
    qed
  qed
qed

lemma learns_trans: "learns fs g1 g2 \<Longrightarrow> learns fs g2 g3 \<Longrightarrow> learns fs g1 g3"
  by (simp add: learns_def)

lemma glob_readdir_true:
  assumes "tidy_fs fs N" "glob_conf fs home g" "caches_true fs g" "list_all good_name cs"
  shows "\<exists>g'. glob_readdir fs (addr cs) b g = Inr (g', listing fs cs) \<and> learns fs g g'"
proof (cases "b \<and> g_symlinks g (addr cs) = None \<and> \<not> g_follow g")
  case False
  then have "glob_readdir fs (addr cs) b g = readdir_plain fs (addr cs) g"
    by (auto simp: glob_readdir_def readdirInGlobStar_def)
  with readdir_plain_true [OF assms] show ?thesis by simp
next
  case True
  then have star: "glob_readdir fs (addr cs) b g = readdirInGlobStar fs (addr cs) g" by (simp add: glob_readdir_def)
  have ok: "cache_ok fs g cs" using assms(3,4) by (rule caches_trueD)
  note dir = tidy_dir [OF assms(1,4)]
  show ?thesis
  proof (cases "fs_lstat fs (addr cs)")
    case None
    then have "listing fs cs = None" using dir(1) by (auto simp: listing_def split: sum.splits)
    with None True show ?thesis using learns_refl [OF assms(3)] unfolding star by (simp add: readdirInGlobStar_def)
  next
    case (Some k)
    let ?g = "g\<lparr>g_symlinks := (g_symlinks g)(addr cs \<mapsto> False)\<rparr>"
    have k: "k \<noteq> LinkK" using dir(3) Some by auto
    have "caches_true fs ?g"
      using assms(3) by (auto simp: caches_true_def cache_ok_def)
    then have l: "learns fs g ?g" by (simp add: learns_def)
    have c: "glob_conf fs home ?g" using assms(2) glob_conf_cong [of ?g g] by simp
    show ?thesis
    proof (cases "k = FileK")
      case False
      then have "readdirInGlobStar fs (addr cs) g = readdir_plain fs (addr cs) ?g"
        using Some k True by (simp add: readdirInGlobStar_def Let_def)
      moreover obtain g' where "readdir_plain fs (addr cs) ?g = Inr (g', listing fs cs)" "learns fs ?g g'"
        using readdir_plain_true [OF assms(1) c _ assms(4)] l by (auto simp: learns_def)
      ultimately show ?thesis using l unfolding star by (auto intro: learns_trans)
    next
      case True
      have "cache_ok fs (?g\<lparr>g_cache := (g_cache ?g)(addr cs \<mapsto> CFile)\<rparr>) cs"
        using ok Some True by (simp add: cache_ok_def)
      with cache_put_true [of fs ?g cs CFile] assms(4) l
      have "learns fs ?g (?g\<lparr>g_cache := (g_cache ?g)(addr cs \<mapsto> CFile)\<rparr>)" by (simp add: learns_def)
      moreover have "listing fs cs = None" using dir(1) Some True by (auto simp: listing_def split: sum.splits)
      ultimately show ?thesis
        using l Some True \<open>b \<and> g_symlinks g (addr cs) = None \<and> \<not> g_follow g\<close>
        unfolding star by (auto simp: readdirInGlobStar_def Let_def intro: learns_trans)
    qed
  qed
qed

end
