(* ===== verification/Glob_Walk.thy ===== *)
theory Glob_Walk
  imports Glob_Caches
begin

text \<open>
  What a row of portions yields, described without a search by a relation that takes the portions one by one, and the proof
  that the walk over a row finds it: it returns, finds every path of the row that is there, and nothing else but paths that a
  cached error makes it believe in.
\<close>

section \<open>What a row yields\<close>

abbreviation admitted :: "mm_options \<Rightarrow> jstring \<Rightarrow> bool" where
  "admitted opts v \<equiv> v = [] \<or> hd v \<noteq> full_stop \<or> o_dot opts"

text \<open>
  The pieces a path is joined from, portion by portion. The last argument says that the last pieces come from a \<open>**\<close> that
  stands for nothing, which only a directory can end with.
\<close>

inductive walk_yields :: "letter_case \<Rightarrow> mm_options \<Rightarrow> jstring list \<Rightarrow> portion list \<Rightarrow> bool \<Rightarrow> bool" for lc opts where
  yields_end: "walk_yields lc opts [] [] False"
| yields_plain: "walk_yields lc opts vs ps d \<Longrightarrow> walk_yields lc opts (s # vs) (Plain s # ps) d"
| yields_magic: "good_name v \<Longrightarrow> hit lc opts (Magic (Some (raw, src)) r) v \<Longrightarrow> admitted opts v \<or> raw \<noteq> [] \<and> hd raw = full_stop \<Longrightarrow>
    walk_yields lc opts vs ps d \<Longrightarrow> walk_yields lc opts (v # vs) (Magic (Some (raw, src)) r # ps) d"
| yields_nothing: "walk_yields lc opts vs ps d \<Longrightarrow> walk_yields lc opts vs (Globstar # ps) (d \<or> vs = [])"
| yields_instead: "good_name v \<Longrightarrow> admitted opts v \<Longrightarrow> walk_yields lc opts vs ps d \<Longrightarrow>
    walk_yields lc opts (v # vs) (Globstar # ps) d"
| yields_below: "good_name v \<Longrightarrow> admitted opts v \<Longrightarrow> walk_yields lc opts vs (Globstar # ps) d \<Longrightarrow>
    walk_yields lc opts (v # vs) (Globstar # ps) d"

inductive_simps yields_Nil_iff: "walk_yields lc opts vs [] d"
inductive_simps yields_Plain_iff: "walk_yields lc opts vs (Plain s # ps) d"
inductive_simps yields_Magic_iff: "walk_yields lc opts vs (Magic k r # ps) d"
inductive_simps yields_Globstar_iff: "walk_yields lc opts vs (Globstar # ps) d"

lemma yields_strings:
  "walk_yields lc opts vs (map Plain ss @ ps) d \<longleftrightarrow> (\<exists>ws. vs = ss @ ws \<and> walk_yields lc opts ws ps d)"
  by (induction ss arbitrary: vs) (auto simp: yields_Plain_iff)

lemma yields_no_pieces: "walk_yields lc opts [] ps d \<Longrightarrow> ps \<noteq> [] \<Longrightarrow> d"
  by (induction "[] :: jstring list" ps d rule: walk_yields.induct) auto

definition answers ::
    "letter_case \<Rightarrow> mm_options \<Rightarrow> file_system \<Rightarrow> jstring list \<Rightarrow> (jstring \<Rightarrow> bool) \<Rightarrow> portion list \<Rightarrow> jstring set" where
  "answers lc opts fs home E P =
     {m. \<exists>vs d. m = join [slash] vs \<and> walk_yields lc opts vs P d \<and> E m \<and>
        (d \<longrightarrow> fs_lstat fs (addr (home @ segments m)) = Some DirK)}"

lemma answersI:
  "walk_yields lc opts vs P d \<Longrightarrow> E (join [slash] vs) \<Longrightarrow>
   (d \<Longrightarrow> fs_lstat fs (addr (home @ segments (join [slash] vs))) = Some DirK) \<Longrightarrow>
   join [slash] vs \<in> answers lc opts fs home E P"
  unfolding answers_def by blast

lemma join_first: "ss \<noteq> [] \<Longrightarrow> join d (join d ss # ws) = join d (ss @ ws)"
  by (cases "ws = []") (simp_all add: join_append join_Cons)

lemma answers_prefix:
  "answers lc opts fs home E (map Plain ss @ ps) =
     {m. \<exists>ws d. m = join [slash] (ss @ ws) \<and> walk_yields lc opts ws ps d \<and> E m \<and>
        (d \<longrightarrow> fs_lstat fs (addr (home @ segments m)) = Some DirK)}"
  unfolding answers_def yields_strings by (intro Collect_cong) blast

lemma answers_strings:
  assumes "ss \<noteq> []"
  shows "answers lc opts fs home E (map Plain ss @ ps) = answers lc opts fs home E (Plain (join [slash] ss) # ps)"
  using answers_prefix [of lc opts fs home E ss ps] answers_prefix [of lc opts fs home E "[join [slash] ss]" ps]
  by (simp add: join_first [OF assms])

lemma segments_join_all: "segments (join [slash] vs) = concat (map segments vs)"
proof (induction vs)
  case Nil
  show ?case by (simp add: segments_def)
next
  case (Cons v vs)
  then show ?case by (cases "vs = []") (simp_all add: join_Cons segments_append_slash)
qed

lemma segments_good [simp]: "good_name v \<Longrightarrow> segments v = [v]"
  by (simp add: good_name_def segments_def split1_free)

lemma tidy_path_good: "good_name v \<Longrightarrow> tidy_path v \<and> \<not> ends_slash v"
  by (auto simp: tidy_path_def isAbsolute_hd good_name_def segments_def split1_free dest: hd_in_set last_in_set)

section \<open>Tidy rows\<close>

text \<open>
  Rows of proper names, expressions that compiled and \<open>**\<close>, with at most an empty string at the end; the first string may
  already be a path.
\<close>

fun tidy_tail :: "portion list \<Rightarrow> bool" where
  "tidy_tail [] = True"
| "tidy_tail (Globstar # ps) = tidy_tail ps"
| "tidy_tail (Magic k r # ps) = (k \<noteq> None \<and> tidy_tail ps)"
| "tidy_tail (Plain s # ps) = (good_name s \<and> tidy_tail ps \<or> s = [] \<and> ps = [])"

definition tidy_row :: "portion list \<Rightarrow> bool" where
  "tidy_row P \<longleftrightarrow> tidy_tail P \<or> (\<exists>s ps. P = Plain s # ps \<and> tidy_path s \<and> \<not> ends_slash s \<and> tidy_tail ps)"

lemma tidy_tail_split:
  "tidy_tail (map Plain ss @ p # ps) \<longleftrightarrow> list_all good_name ss \<and> tidy_tail (p # ps)"
  by (induction ss) auto

lemma tidy_tail_plain:
  "tidy_tail (map Plain ss) \<longleftrightarrow> list_all good_name ss \<or> ss \<noteq> [] \<and> last ss = [] \<and> list_all good_name (butlast ss)"
  by (induction ss) (auto simp: good_name_def)

lemma tidy_path_join:
  assumes "tidy_path s" "\<not> ends_slash s" "list_all good_name ss"
  shows "tidy_path (join [slash] (s # ss)) \<and> \<not> ends_slash (join [slash] (s # ss))"
proof (cases "ss = []")
  case False
  note j = join_head [OF False good_clean [OF assms(3)]]
  have "concat (map segments ss) = ss"
    using assms(3) by (induction ss) (simp_all)
  then have "segments (join [slash] (s # ss)) = segments s @ ss" by (simp add: segments_join_all)
  then show ?thesis
    using assms j by (auto simp: tidy_path_def join_Cons [OF False] isAbsolute_hd hd_append)
qed (use assms in simp)

lemma tidy_path_slash: "tidy_path p \<Longrightarrow> tidy_path (p @ [slash])"
  by (auto simp: tidy_path_def isAbsolute_hd hd_append)

text \<open>The strings a tidy row begins with, and what follows.\<close>

lemma tidy_row_strings:
  assumes "tidy_row (map Plain ss)"
  shows "join [slash] ss = [] \<or> tidy_path (join [slash] ss)"
proof -
  have snoc: "join [slash] (s # rs @ [[]]) = join [slash] (s # rs) @ [slash]" for s :: jstring and rs
    using join_append [of "s # rs" "[[]]" "[slash]"] by simp
  have go: "tidy_path (join [slash] (s # rs))" if "tidy_path s" "\<not> ends_slash s" "tidy_tail (map Plain rs)" for s rs
  proof (cases "list_all good_name rs")
    case False
    with that(3) have "rs = butlast rs @ [[]]" "list_all good_name (butlast rs)"
      by (auto simp: tidy_tail_plain) (metis append_butlast_last_id)
    then show ?thesis using tidy_path_join [OF that(1,2)] tidy_path_slash snoc by metis
  qed (use tidy_path_join [OF that(1,2)] in blast)
  show ?thesis
  proof (cases ss)
    case (Cons s rs)
    then show ?thesis using assms go [of s rs] tidy_path_good [of s] by (auto simp: tidy_row_def)
  qed simp
qed

lemma tidy_row_split:
  assumes "tidy_row (map Plain ss @ p # ps)" "\<not> is_plain p"
  shows "tidy_tail (p # ps)" "ss \<noteq> [] \<Longrightarrow> tidy_path (join [slash] ss) \<and> \<not> ends_slash (join [slash] ss)"
proof -
  have np: "p \<noteq> Plain s" for s using assms(2) by auto
  consider "tidy_tail (map Plain ss @ p # ps)"
    | s rs where "ss = s # rs" "tidy_path s" "\<not> ends_slash s" "tidy_tail (map Plain rs @ p # ps)"
    using assms(1) np by (cases ss) (auto simp: tidy_row_def)
  note cases = this
  show "tidy_tail (p # ps)"
    by (cases rule: cases) (auto simp: tidy_tail_split)
  show "tidy_path (join [slash] ss) \<and> \<not> ends_slash (join [slash] ss)" if "ss \<noteq> []"
  proof (cases rule: cases)
    case 1
    then have "list_all good_name ss" by (simp add: tidy_tail_split)
    with that obtain s rs where "ss = s # rs" "good_name s" "list_all good_name rs" by (cases ss) auto
    then show ?thesis using tidy_path_join tidy_path_good by blast
  next
    case 2
    then show ?thesis using tidy_path_join by (simp add: tidy_tail_split)
  qed
qed

lemma row_cases:
  obtains (strings) ss where "P = map Plain ss" | (portions) ss p ps where "P = map Plain ss @ p # ps" "\<not> is_plain p"
proof (cases "list_all is_plain P")
  case True
  then have "P = map Plain (map plain_text P)"
    by (induction P) (auto elim: is_plain.elims)
  then show ?thesis using strings by blast
next
  case False
  then obtain p ps where d: "dropWhile is_plain P = p # ps"
    by (cases "dropWhile is_plain P") (auto simp: dropWhile_eq_Nil_conv list_all_iff)
  have "takeWhile is_plain P = map Plain (map plain_text (takeWhile is_plain P))"
    by (rule sym) (simp add: map_idI, auto simp: map_idI dest!: set_takeWhileD elim: is_plain.elims intro!: map_idI)
  moreover have "\<not> is_plain p" using d by (metis dropWhile_eq_Cons_conv)
  ultimately show ?thesis using portions d takeWhile_dropWhile_id [of is_plain P] by metis
qed

section \<open>What a step adds to a row of matches\<close>

definition row_set :: "glob_obj \<Rightarrow> nat \<Rightarrow> jstring set" where
  "row_set g i = (case g_matches g ! i of None \<Rightarrow> {} | Some l \<Rightarrow> set l)"

text \<open>The caches stay true, nothing else changes but the row, and that grows by at least the one and at most the other set.\<close>

definition extends :: "file_system \<Rightarrow> nat \<Rightarrow> jstring set \<Rightarrow> jstring set \<Rightarrow> glob_obj \<Rightarrow> glob_obj \<Rightarrow> bool" where
  "extends fs i lo hi g g' \<longleftrightarrow>
     caches_true fs g' \<and> rest_of g' = rest_of g \<and> length (g_matches g') = length (g_matches g) \<and>
     (\<forall>j. j \<noteq> i \<longrightarrow> g_matches g' ! j = g_matches g ! j) \<and>
     row_set g i \<union> lo \<subseteq> row_set g' i \<and> row_set g' i \<subseteq> row_set g i \<union> hi"

lemma extends_trans: "extends fs i lo hi g g1 \<Longrightarrow> extends fs i lo' hi' g1 g2 \<Longrightarrow> extends fs i (lo \<union> lo') (hi \<union> hi') g g2"
  unfolding extends_def by (elim conjE, intro conjI) (simp_all, blast+)

lemma extends_mono: "extends fs i lo hi g g' \<Longrightarrow> lo' \<subseteq> lo \<Longrightarrow> hi \<subseteq> hi' \<Longrightarrow> extends fs i lo' hi' g g'"
  unfolding extends_def by blast

lemma extends_learns: "learns fs g g' \<Longrightarrow> extends fs i {} {} g g'"
  by (simp add: extends_def learns_def row_set_def)

lemma extends_refl: "caches_true fs g \<Longrightarrow> extends fs i {} {} g g"
  by (simp add: extends_def)

lemma caches_true_matches [simp]: "caches_true fs (g\<lparr>g_matches := ms\<rparr>) = caches_true fs g"
  by (simp add: caches_true_def cache_ok_def)

lemma extends_add: "caches_true fs g \<Longrightarrow> i < length (g_matches g) \<Longrightarrow> extends fs i {e} {e} g (add_match i e g)"
  by (auto simp: extends_def add_match_def row_set_def Let_def split: option.splits)

lemma extends_no_match: "caches_true fs g \<Longrightarrow> i < length (g_matches g) \<Longrightarrow> extends fs i {} {} g (no_match i g)"
  by (auto simp: extends_def no_match_def row_set_def split: option.splits)

lemma extends_keeps:
  assumes "extends fs i lo hi g g'"
  shows "caches_true fs g'" "rest_of g' = rest_of g" "length (g_matches g') = length (g_matches g)"
  using assms by (simp_all add: extends_def)

lemma extends_loop:
  assumes "\<And>v g'. v \<in> set xs \<Longrightarrow> caches_true fs g' \<Longrightarrow> rest_of g' = rest_of g \<Longrightarrow> length (g_matches g') = length (g_matches g) \<Longrightarrow>
      returns (f v g') (extends fs i (lo v) (hi v) g')"
    and "caches_true fs g"
  shows "returns (foldC f xs g) (extends fs i (\<Union>v \<in> set xs. lo v) (\<Union>v \<in> set xs. hi v) g)"
proof -
  let ?I = "\<lambda>ds. extends fs i (\<Union>v \<in> set ds. lo v) (\<Union>v \<in> set ds. hi v) g"
  have step: "returns (f v g') (?I (ds @ [v]))" if "v \<in> set xs" "?I ds g'" for ds v g'
    using assms(1) [OF that(1) extends_keeps [OF that(2)]]
    by (rule returns_weaken) (use extends_trans [OF that(2)] in \<open>simp add: Un_commute\<close>)
  have "?I [] g" using assms(2) by (simp add: extends_refl)
  from returns_fold [of xs ?I f, OF step this] show ?thesis by simp
qed

lemma extends_adds:
  assumes "caches_true fs g" "i < length (g_matches g)"
  shows "extends fs i (h ` set xs) (h ` set xs) g (fold (\<lambda>e. add_match i (h e)) xs g)"
  using assms
proof (induction xs arbitrary: g)
  case (Cons x xs)
  note a = extends_add [OF Cons.prems, of "h x"]
  from extends_trans [OF a Cons.IH] extends_keeps [OF a] Cons.prems show ?case by simp
qed (simp add: extends_refl)

lemma processSimple_extends:
  assumes "tidy_fs fs N" "glob_conf fs home g" "caches_true fs g" "i < length (g_matches g)" "m = [] \<or> tidy_path m"
  shows "extends fs i {x. x = m \<and> present fs home x} {x. x = m \<and> (present fs home x \<or> believed fs home x)} g (processSimple fs i m g)"
proof (cases "m = []")
  case True
  have "glob_stat fs m g = (g, CFalse)"
    using assms(1-3) True by (simp add: glob_stat_def makeAbs_def glob_conf_def caches_true_def tidy_fs_def stat_fresh_def)
  then have "processSimple fs i m g = no_match i g" by (simp add: processSimple_def)
  moreover have "\<not> present fs home m" "\<not> believed fs home m"
    using True by (simp_all add: present_def believed_def tidy_path_def)
  ultimately show ?thesis by (auto intro!: extends_mono [OF extends_no_match [OF assms(3,4)]])
next
  case False
  then have m: "tidy_path m" "\<not> isAbsolute m" using assms(5) by (simp_all add: tidy_path_def)
  obtain g1 c where s: "glob_stat fs m g = (g1, c)" by force
  note st = glob_stat_true [OF assms(1-3) m(1), unfolded s fst_conv snd_conv]
  have e1: "extends fs i {} {} g g1" using st(1) by (rule extends_learns)
  note k1 = extends_keeps [OF e1]
  have "i < length (g_matches g1)" using k1 assms(4) by simp
  from extends_trans [OF e1 extends_no_match [OF k1(1) this]]
  have e2: "extends fs i {} {} g (no_match i g1)" by simp
  note k2 = extends_keeps [OF e2]
  have "i < length (g_matches (no_match i g1))" using k2 assms(4) by simp
  from extends_trans [OF e2 extends_add [OF k2(1) this, of m]]
  have e3: "extends fs i {m} {m} g (add_match i m (no_match i g1))" by simp
  show ?thesis
  proof (cases "c = CFalse")
    case True
    then have "processSimple fs i m g = no_match i g1" by (simp add: processSimple_def s)
    moreover have "\<not> present fs home m" using st(2) True by blast
    ultimately show ?thesis by (auto intro!: extends_mono [OF e2])
  next
    case False
    then have "processSimple fs i m g = add_match i m (no_match i g1)" using m(2) by (simp add: processSimple_def s)
    moreover have "present fs home m \<or> believed fs home m" using st(3) False by blast
    ultimately show ?thesis by (auto intro!: extends_mono [OF e3])
  qed
qed

section \<open>The sets a row divides into\<close>

lemma answers_nothing:
  assumes "fs_lstat fs (addr (home @ segments (join [slash] ss))) = Some DirK"
  shows "answers lc opts fs home E (map Plain ss @ ps) \<subseteq> answers lc opts fs home E (map Plain ss @ Globstar # ps)"
proof
  fix m assume "m \<in> answers lc opts fs home E (map Plain ss @ ps)"
  then obtain ws d where m: "m = join [slash] (ss @ ws)" "walk_yields lc opts ws ps d" "E m"
      "d \<longrightarrow> fs_lstat fs (addr (home @ segments m)) = Some DirK"
    unfolding answers_prefix by blast
  have "walk_yields lc opts (ss @ ws) (map Plain ss @ Globstar # ps) (d \<or> ws = [])"
    using yields_nothing [OF m(2)] by (auto simp: yields_strings)
  then show "m \<in> answers lc opts fs home E (map Plain ss @ Globstar # ps)"
    using answersI m assms by fastforce
qed

lemma answers_piece:
  assumes "good_name v" "\<And>ws d. walk_yields lc opts ws ps d \<Longrightarrow> walk_yields lc opts (v # ws) qs d"
  shows "answers lc opts fs home E (map Plain ss @ Plain v # ps) \<subseteq> answers lc opts fs home E (map Plain ss @ qs)"
proof
  fix m assume "m \<in> answers lc opts fs home E (map Plain ss @ Plain v # ps)"
  then have "m \<in> answers lc opts fs home E (map Plain (ss @ [v]) @ ps)" by simp
  then obtain ws d where m: "m = join [slash] (ss @ v # ws)" "walk_yields lc opts ws ps d" "E m"
      "d \<longrightarrow> fs_lstat fs (addr (home @ segments m)) = Some DirK"
    unfolding answers_prefix by auto
  then show "m \<in> answers lc opts fs home E (map Plain ss @ qs)"
    using assms(2) [OF m(2)] unfolding answers_prefix by blast
qed

text \<open>The first piece after the strings is a name that their directory lists.\<close>

lemma present_listed:
  assumes "tidy_fs fs N" "list_all good_name home" "good_name v" "present fs home (join [slash] (ss @ v # ws))"
  shows "\<exists>es. listing fs (home @ segments (join [slash] ss)) = Some es \<and> v \<in> set es"
proof -
  let ?m = "join [slash] (ss @ v # ws)"
  have seg: "segments ?m = segments (join [slash] ss) @ v # concat (map segments ws)"
    using assms(3) by (simp add: segments_join_all)
  have "list_all good_name (segments ?m)" "fs_lstat fs (addr (home @ segments ?m)) \<noteq> None"
    using assms(4) by (auto simp: present_def tidy_path_def split: if_splits)
  with tidy_above [OF assms(1), of "home @ segments (join [slash] ss)" v "concat (map segments ws)"] assms(2) seg
  show ?thesis by (auto simp: listing_def)
qed

lemma no_segments:
  assumes "segments t = []"
  shows "t = [] \<or> hd t = slash \<and> last t = slash"
proof -
  have e: "\<Union> (set ` set (split1 slash t)) = {}" using assms by (simp add: segments_def filter_empty_conv)
  from set_join_subset [of "[slash]" "split1 slash t", unfolded e join_split1] have "set t \<subseteq> {slash}" by simp
  then show ?thesis by (cases "t = []") (auto dest: hd_in_set last_in_set)
qed

lemma sure_listed:
  assumes "tidy_fs fs N" "list_all good_name home" "\<not> is_plain p"
    and "m \<in> answers lc opts fs home (present fs home) (map Plain ss @ p # ps)"
  shows "\<exists>es. listing fs (home @ segments (join [slash] ss)) = Some es"
proof -
  from assms(4) obtain ws d where m: "m = join [slash] (ss @ ws)" "walk_yields lc opts ws (p # ps) d" "present fs home m"
      "d \<longrightarrow> fs_lstat fs (addr (home @ segments m)) = Some DirK"
    unfolding answers_prefix by blast
  show ?thesis
  proof (cases ws)
    case Nil
    with m yields_no_pieces [of lc opts "p # ps" d] have "fs_lstat fs (addr (home @ segments (join [slash] ss))) = Some DirK" by simp
    moreover have "list_all good_name (segments (join [slash] ss))"
      using m(1,3) Nil by (simp add: present_def tidy_path_def)
    ultimately show ?thesis using tidy_dir(1) [OF assms(1)] assms(2) by (auto simp: listing_def)
  next
    case (Cons v vs)
    have good: "list_all good_name (segments m)" using m(3) by (simp add: present_def tidy_path_def)
    let ?cs = "home @ segments (join [slash] ss)"
    have seg: "home @ segments m = ?cs @ segments (join [slash] ws)" by (simp add: m(1) segments_join_all)
    show ?thesis
    proof (cases "segments (join [slash] ws)")
      case Nil
      with no_segments m(3) Cons have "ends_slash m"
        by (cases "ss = []") (auto simp: m(1) join_append present_def tidy_path_def isAbsolute_hd)
      with m(3) seg Nil have "fs_lstat fs (addr ?cs) = Some DirK" by (simp add: present_def)
      then show ?thesis using tidy_dir(1) [OF assms(1), of ?cs] assms(2) good seg Nil by (auto simp: listing_def)
    next
      case (Cons e ds)
      have "fs_lstat fs (addr (home @ segments m)) \<noteq> None" using m(3) by (auto simp: present_def split: if_splits)
      then show ?thesis using tidy_above [OF assms(1), of ?cs e ds] assms(2) good seg Cons by (auto simp: listing_def)
    qed
  qed
qed

lemma sure_globstar:
  fixes lc :: letter_case and opts :: mm_options
  assumes "tidy_fs fs N" "list_all good_name home" "listing fs (home @ segments (join [slash] ss)) = Some es"
  defines "A \<equiv> answers lc opts fs home (present fs home)"
  shows "A (map Plain ss @ Globstar # ps) \<subseteq> A (map Plain ss @ ps) \<union>
    (\<Union>v \<in> {v \<in> set es. admitted opts v}. A (map Plain ss @ Plain v # ps) \<union> A (map Plain ss @ Plain v # Globstar # ps))"
proof
  fix m assume "m \<in> A (map Plain ss @ Globstar # ps)"
  then obtain ws d where m: "m = join [slash] (ss @ ws)" "walk_yields lc opts ws (Globstar # ps) d" "present fs home m"
      "d \<longrightarrow> fs_lstat fs (addr (home @ segments m)) = Some DirK"
    unfolding A_def answers_prefix by blast
  have inside: "m \<in> A (map Plain ss @ Plain v # qs) \<and> v \<in> set es"
    if "ws = v # vs" "good_name v" "walk_yields lc opts vs qs d" for v vs qs
  proof -
    have "m \<in> A (map Plain (ss @ [v]) @ qs)"
      using that m unfolding A_def answers_prefix by auto
    then show ?thesis using present_listed [OF assms(1,2) that(2)] m(1,3) that(1) assms(3) by fastforce
  qed
  from m(2) [unfolded yields_Globstar_iff [of lc opts ws]] consider d' where "walk_yields lc opts ws ps d'" "d' \<longrightarrow> d"
    | v vs where "ws = v # vs" "good_name v" "admitted opts v" "walk_yields lc opts vs ps d"
    | v vs where "ws = v # vs" "good_name v" "admitted opts v" "walk_yields lc opts vs (Globstar # ps) d"
    by blast
  then show "m \<in> A (map Plain ss @ ps) \<union>
    (\<Union>v \<in> {v \<in> set es. admitted opts v}. A (map Plain ss @ Plain v # ps) \<union> A (map Plain ss @ Plain v # Globstar # ps))"
  proof cases
    case 1
    then show ?thesis using m unfolding A_def answers_prefix by blast
  next
    case 2
    then show ?thesis using inside by blast
  next
    case 3
    then show ?thesis using inside by blast
  qed
qed

lemma sure_magic:
  fixes lc :: letter_case and opts :: mm_options
  assumes "tidy_fs fs N" "list_all good_name home" "listing fs (home @ segments (join [slash] ss)) = Some es"
  defines "A \<equiv> answers lc opts fs home (present fs home)"
  shows "A (map Plain ss @ Magic (Some (raw, src)) r # ps) \<subseteq>
    (\<Union>v \<in> {v \<in> set es. hit lc opts (Magic (Some (raw, src)) r) v \<and> (admitted opts v \<or> raw \<noteq> [] \<and> hd raw = full_stop)}.
       A (map Plain ss @ Plain v # ps))"
proof
  fix m assume "m \<in> A (map Plain ss @ Magic (Some (raw, src)) r # ps)"
  then obtain v vs d where m: "m = join [slash] (ss @ v # vs)" "walk_yields lc opts vs ps d" "present fs home m"
      "d \<longrightarrow> fs_lstat fs (addr (home @ segments m)) = Some DirK"
      "good_name v" "hit lc opts (Magic (Some (raw, src)) r) v" "admitted opts v \<or> raw \<noteq> [] \<and> hd raw = full_stop"
    unfolding A_def answers_prefix by (auto simp: yields_Magic_iff)
  then have "m \<in> A (map Plain (ss @ [v]) @ ps)"
    unfolding A_def answers_prefix by auto
  moreover have "v \<in> set es" using present_listed [OF assms(1,2) m(5)] m(1,3) assms(3) by fastforce
  ultimately show "m \<in> (\<Union>v \<in> {v \<in> set es. hit lc opts (Magic (Some (raw, src)) r) v \<and> (admitted opts v \<or> raw \<noteq> [] \<and> hd raw = full_stop)}.
       A (map Plain ss @ Plain v # ps))"
    using m(6,7) by auto
qed

lemma answers_plain: "answers lc opts fs home E (map Plain ss) = {m. m = join [slash] ss \<and> E m}"
  using answers_prefix [of lc opts fs home E ss "[]"] by (auto simp: yields_Nil_iff)

section \<open>The walk\<close>

text \<open>
  How deeply the calls nest: every portion that is not a string starts over, and below \<open>**\<close> the directories that are left
  count, which are no deeper than the file system.
\<close>

definition need :: "nat \<Rightarrow> jstring list \<Rightarrow> portion list \<Rightarrow> nat" where
  "need N home P =
     length (filter (\<lambda>p. \<not> is_plain p) P) * (N + 3) +
     (N + 1 - length (home @ segments (join [slash] (map plain_text (takeWhile is_plain P)))))"

lemma need_fewer:
  assumes "length (filter (\<lambda>p. \<not> is_plain p) Q) < length (filter (\<lambda>p. \<not> is_plain p) P)"
  shows "need N home Q < need N home P"
proof -
  let ?k = "\<lambda>P. length (filter (\<lambda>p. \<not> is_plain p) P)"
  have "Suc (?k Q) * (N + 3) \<le> ?k P * (N + 3)" using assms by (intro mult_le_mono1) simp
  moreover have "need N home Q \<le> ?k Q * (N + 3) + (N + 1)" by (simp add: need_def)
  moreover have "?k P * (N + 3) \<le> need N home P" by (simp add: need_def)
  ultimately show ?thesis by simp
qed

lemma filter_strings [simp]: "filter (\<lambda>p. \<not> is_plain p) (map Plain ss) = []"
  by (induction ss) auto

lemma takeWhile_strings [simp]:
  "\<not> is_plain p \<Longrightarrow> takeWhile is_plain (map Plain ss @ p # ps) = map Plain ss"
  "\<not> is_plain p \<Longrightarrow> dropWhile is_plain (map Plain ss @ p # ps) = p # ps"
  by (induction ss) auto

lemma plain_text_strings [simp]: "map (plain_text \<circ> Plain) ss = ss"
  by (induction ss) auto

lemma need_below:
  assumes "good_name e" "length (home @ segments (join [slash] ss)) \<le> N"
  shows "need N home (map Plain ss @ Plain e # Globstar # ps) < need N home (map Plain ss @ Globstar # ps)"
proof -
  have "takeWhile is_plain (map Plain ss @ Plain e # Globstar # ps) = map Plain (ss @ [e])"
    using takeWhile_strings(1) [of Globstar "ss @ [e]" ps] by simp
  then show ?thesis using assms by (simp add: need_def segments_join_all)
qed

text \<open>At most one string, as the walk passes it on.\<close>

definition one_string :: "jstring list \<Rightarrow> bool" where
  "one_string ts \<longleftrightarrow> ts = [] \<or> (\<exists>p. ts = [p] \<and> tidy_path p \<and> \<not> ends_slash p)"

lemma one_string_row: "one_string ts \<Longrightarrow> tidy_tail Q \<Longrightarrow> tidy_row (map Plain ts @ Q)"
  by (auto simp: one_string_def tidy_row_def)

lemma one_string_good: "one_string ts \<Longrightarrow> list_all good_name (segments (join [slash] ts))"
  by (auto simp: one_string_def tidy_path_def segments_def)

text \<open>What the recursive calls are relied on for.\<close>

definition finds ::
    "letter_case \<Rightarrow> file_system \<Rightarrow> jstring list \<Rightarrow> nat \<Rightarrow> (portion list \<Rightarrow> bool \<Rightarrow> glob_obj \<Rightarrow> glob_obj call) \<Rightarrow> portion list \<Rightarrow> bool" where
  "finds lc fs home i rec Q \<longleftrightarrow>
     (\<forall>b g. glob_conf fs home g \<longrightarrow> caches_true fs g \<longrightarrow> i < length (g_matches g) \<longrightarrow>
        returns (rec Q b g) (extends fs i (answers lc (m_options (g_minimatch g)) fs home (present fs home) Q)
          (answers lc (m_options (g_minimatch g)) fs home (\<lambda>m. present fs home m \<or> believed fs home m) Q) g))"

lemma findsD:
  assumes "finds lc fs home i rec Q" "glob_conf fs home g" "rest_of g' = rest_of g" "caches_true fs g'" "i < length (g_matches g')"
  shows "returns (rec Q b g') (extends fs i (answers lc (m_options (g_minimatch g)) fs home (present fs home) Q)
          (answers lc (m_options (g_minimatch g)) fs home (\<lambda>m. present fs home m \<or> believed fs home m) Q) g')"
proof -
  have "glob_conf fs home g'" using assms(2) glob_conf_cong [OF assms(3)] by simp
  moreover have "g_minimatch g' = g_minimatch g" using rest_of_eqD(4) [OF assms(3)] .
  ultimately show ?thesis using assms(1,4,5) unfolding finds_def by fastforce
qed

lemma globstar_branch:
  fixes lc fs home g
  defines "S \<equiv> answers lc (m_options (g_minimatch g)) fs home (present fs home)"
    and "L \<equiv> answers lc (m_options (g_minimatch g)) fs home (\<lambda>m. present fs home m \<or> believed fs home m)"
  assumes tidy: "tidy_fs fs N" and conf: "glob_conf fs home g" and true: "caches_true fs g" and i: "i < length (g_matches g)"
    and ts: "one_string ts" and es: "listing fs (home @ segments (join [slash] ts)) = Some es"
    and rec: "finds lc fs home i rec (map Plain ts @ ps)"
      "\<And>e. e \<in> set es \<Longrightarrow> finds lc fs home i rec (map Plain ts @ Plain e # ps)"
      "\<And>e. e \<in> set es \<Longrightarrow> finds lc fs home i rec (map Plain ts @ Plain e # Globstar # ps)"
  shows "returns (bindC (rec (map Plain ts @ ps) False g) (\<lambda>g2.
      if g_symlinks g2 (addr (home @ segments (join [slash] ts))) = Some True \<and> b then Some (Inr g2)
      else foldC (\<lambda>e g3. if e \<noteq> [] \<and> hd e = full_stop \<and> \<not> g_dot g3 then Some (Inr g3)
             else bindC (rec (map Plain ts @ Plain e # ps) True g3) (rec (map Plain ts @ Plain e # Globstar # ps) True)) es g2))
    (extends fs i (S (map Plain ts @ Globstar # ps)) (L (map Plain ts @ Globstar # ps)) g)"
proof (rule returns_bind)
  let ?cs = "home @ segments (join [slash] ts)" and ?opts = "m_options (g_minimatch g)"
  let ?P = "map Plain ts @ Globstar # ps"
  have home: "list_all good_name home" using conf by (simp add: glob_conf_def)
  have good: "list_all good_name ?cs" using home one_string_good [OF ts] by simp
  have read: "fs_readdir fs (addr ?cs) = Inr es" using es by (auto simp: listing_def split: sum.splits)
  have names: "good_name e" if "e \<in> set es" for e
    using tidy_dir(2) [OF tidy good read] that by (simp add: list_all_iff)
  have dir: "fs_lstat fs (addr ?cs) = Some DirK" using tidy_dir(1) [OF tidy good] read by simp
  show "returns (rec (map Plain ts @ ps) False g) (extends fs i (S (map Plain ts @ ps)) (L (map Plain ts @ ps)) g)"
    unfolding S_def L_def using findsD [OF rec(1) conf refl true i] .
  fix g2 assume e2: "extends fs i (S (map Plain ts @ ps)) (L (map Plain ts @ ps)) g g2"
  note k2 = extends_keeps [OF e2]
  have sym: "g_symlinks g2 (addr ?cs) \<noteq> Some True" using caches_trueD [OF k2(1) good] by (simp add: cache_ok_def)
  let ?lo = "\<lambda>e. if admitted ?opts e then S (map Plain ts @ Plain e # ps) \<union> S (map Plain ts @ Plain e # Globstar # ps) else {}"
  let ?hi = "\<lambda>e. if admitted ?opts e then L (map Plain ts @ Plain e # ps) \<union> L (map Plain ts @ Plain e # Globstar # ps) else {}"
  let ?body = "\<lambda>e g3. if e \<noteq> [] \<and> hd e = full_stop \<and> \<not> g_dot g3 then Some (Inr g3)
             else bindC (rec (map Plain ts @ Plain e # ps) True g3) (rec (map Plain ts @ Plain e # Globstar # ps) True)"
  have body: "returns (?body e g3) (extends fs i (?lo e) (?hi e) g3)"
    if e: "e \<in> set es" and g3: "caches_true fs g3" "rest_of g3 = rest_of g2" "length (g_matches g3) = length (g_matches g2)" for e g3
  proof (cases "admitted ?opts e")
    case False
    then have "e \<noteq> [] \<and> hd e = full_stop \<and> \<not> g_dot g3"
      using conf rest_of_eqD [of g3 g] g3(2) k2(2) by (simp add: glob_conf_def)
    then show ?thesis using False g3(1) by (simp add: extends_refl)
  next
    case True
    then have a: "\<not> (e \<noteq> [] \<and> hd e = full_stop \<and> \<not> g_dot g3)"
      using conf rest_of_eqD [of g3 g] g3(2) k2(2) by (auto simp: glob_conf_def)
    have r3: "rest_of g3 = rest_of g" "i < length (g_matches g3)" using g3 k2 i by simp_all
    note one = findsD [OF rec(2) [OF e] conf r3(1) g3(1) r3(2), of True, folded S_def L_def]
    have "returns (bindC (rec (map Plain ts @ Plain e # ps) True g3) (rec (map Plain ts @ Plain e # Globstar # ps) True))
        (extends fs i (?lo e) (?hi e) g3)"
    proof (rule returns_bind [OF one])
      fix g4 assume e4: "extends fs i (S (map Plain ts @ Plain e # ps)) (L (map Plain ts @ Plain e # ps)) g3 g4"
      note k4 = extends_keeps [OF e4]
      have r4: "rest_of g4 = rest_of g" "i < length (g_matches g4)" using r3 k4 by simp_all
      show "returns (rec (map Plain ts @ Plain e # Globstar # ps) True g4) (extends fs i (?lo e) (?hi e) g3)"
        using findsD [OF rec(3) [OF e] conf r4(1) k4(1) r4(2), of True, folded S_def L_def]
        by (rule returns_weaken) (use extends_trans [OF e4] True in auto)
    qed
    then show ?thesis unfolding if_not_P [OF a] .
  qed
  have lower: "S ?P \<subseteq> S (map Plain ts @ ps) \<union> (\<Union>e \<in> set es. ?lo e)"
    using sure_globstar [OF tidy home es, of lc ?opts ps] unfolding S_def by fastforce
  have part: "L (map Plain ts @ Plain e # ps) \<subseteq> L ?P" "L (map Plain ts @ Plain e # Globstar # ps) \<subseteq> L ?P"
    if "e \<in> set es" "admitted ?opts e" for e
  proof -
    note n = names [OF that(1)]
    show "L (map Plain ts @ Plain e # ps) \<subseteq> L ?P" unfolding L_def by (rule answers_piece [OF n yields_instead [OF n that(2)]])
    show "L (map Plain ts @ Plain e # Globstar # ps) \<subseteq> L ?P" unfolding L_def by (rule answers_piece [OF n yields_below [OF n that(2)]])
  qed
  have upper: "L (map Plain ts @ ps) \<union> (\<Union>e \<in> set es. ?hi e) \<subseteq> L ?P"
    using part answers_nothing [OF dir, of lc ?opts "\<lambda>m. present fs home m \<or> believed fs home m" ps, folded L_def]
    by (auto split: if_splits)
  have "returns (foldC ?body es g2) (extends fs i (\<Union>e \<in> set es. ?lo e) (\<Union>e \<in> set es. ?hi e) g2)"
    by (rule extends_loop [OF _ k2(1)]) (rule body)
  then have "returns (foldC ?body es g2) (extends fs i (S ?P) (L ?P) g)"
    by (rule returns_weaken) (rule extends_mono [OF extends_trans [OF e2] lower upper])
  with sym show "returns (if g_symlinks g2 (addr ?cs) = Some True \<and> b then Some (Inr g2) else foldC ?body es g2)
      (extends fs i (S ?P) (L ?P) g)" by simp
qed

lemma present_child:
  assumes "tidy_fs fs N" "list_all good_name home" "one_string ts" "listing fs (home @ segments (join [slash] ts)) = Some es" "e \<in> set es"
  shows "present fs home (join [slash] (ts @ [e]))"
proof -
  let ?cs = "home @ segments (join [slash] ts)"
  have good: "list_all good_name ?cs" using assms(2) one_string_good [OF assms(3)] by simp
  have read: "fs_readdir fs (addr ?cs) = Inr es" using assms(4) by (auto simp: listing_def split: sum.splits)
  have e: "good_name e" using tidy_dir(2) [OF assms(1) good read] assms(5) by (simp add: list_all_iff)
  have "tidy_path (join [slash] (ts @ [e])) \<and> \<not> ends_slash (join [slash] (ts @ [e]))"
  proof (cases "ts = []")
    case False
    then obtain p where p: "ts = [p]" "tidy_path p" "\<not> ends_slash p" using assms(3) by (auto simp: one_string_def)
    then show ?thesis using tidy_path_join [OF p(2,3), of "[e]"] e by simp
  qed (use tidy_path_good [OF e] in simp)
  moreover have "home @ segments (join [slash] (ts @ [e])) = ?cs @ [e]" using e by (simp add: segments_join_all)
  ultimately show ?thesis
    using tidy_child [OF assms(1) good e] read assms(5) by (auto simp: present_def)
qed

lemma full_match_join:
  assumes "one_string ts" "good_name e"
  shows "full_match g (if ts = [] then None else Some (hd ts)) e = join [slash] (ts @ [e])"
  using assms tidy_path_good [OF assms(2)]
  by (auto simp: one_string_def full_match_def with_prefix_def tidy_path_def isAbsolute_hd hd_append good_name_def)

lemma magic_branch:
  fixes lc fs home g raw src r
  defines "S \<equiv> answers lc (m_options (g_minimatch g)) fs home (present fs home)"
    and "L \<equiv> answers lc (m_options (g_minimatch g)) fs home (\<lambda>m. present fs home m \<or> believed fs home m)"
  assumes tidy: "tidy_fs fs N" and conf: "glob_conf fs home g" and true: "caches_true fs g" and i: "i < length (g_matches g)"
    and ts: "one_string ts" and es: "listing fs (home @ segments (join [slash] ts)) = Some es"
    and rec: "\<And>e. e \<in> set es \<Longrightarrow> finds lc fs home i rec (map Plain ts @ Plain e # ps)"
  defines "pn \<equiv> Magic (Some (raw, src)) r"
  defines "pre \<equiv> if ts = [] then None else Some (hd ts)"
  shows "returns (bindC (Some (dotOk g pn)) (\<lambda>dots.
      let matched = filter (entry_matches lc g dots pn pre) es
      in if matched = [] then Some (Inr g)
         else if ps = [] \<and> \<not> g_mark g \<and> \<not> g_stat g
         then Some (Inr (fold (\<lambda>e. add_match i (full_match g pre e)) matched (no_match i g)))
         else foldC (\<lambda>e. rec (map Plain ts @ Plain e # ps) b) matched g))
    (extends fs i (S (map Plain ts @ pn # ps)) (L (map Plain ts @ pn # ps)) g)"
proof -
  let ?cs = "home @ segments (join [slash] ts)" and ?opts = "m_options (g_minimatch g)"
  let ?P = "map Plain ts @ pn # ps"
  let ?ok = "\<lambda>v. hit lc ?opts pn v \<and> (admitted ?opts v \<or> raw \<noteq> [] \<and> hd raw = full_stop)"
  have home: "list_all good_name home" using conf by (simp add: glob_conf_def)
  have good: "list_all good_name ?cs" using home one_string_good [OF ts] by simp
  have read: "fs_readdir fs (addr ?cs) = Inr es" using es by (auto simp: listing_def split: sum.splits)
  have names: "good_name e" if "e \<in> set es" for e
    using tidy_dir(2) [OF tidy good read] that by (simp add: list_all_iff)
  obtain dots where dots: "dotOk g pn = Inr dots" "dots \<longleftrightarrow> o_dot ?opts \<or> raw \<noteq> [] \<and> hd raw = full_stop"
    using conf by (auto simp: dotOk_def pn_def glob_conf_def)
  have matched: "filter (entry_matches lc g dots pn pre) es = filter ?ok es"
    using conf dots(2) by (intro filter_cong refl) (auto simp: entry_matches_def glob_conf_def)
  let ?M = "filter ?ok es"
  have lower: "S ?P \<subseteq> (\<Union>e \<in> set ?M. S (map Plain ts @ Plain e # ps))"
    using sure_magic [OF tidy home es, of lc ?opts raw src r ps] unfolding S_def pn_def by simp
  have upper: "(\<Union>e \<in> set ?M. L (map Plain ts @ Plain e # ps)) \<subseteq> L ?P"
  proof (rule UN_least)
    fix e assume "e \<in> set ?M"
    then have e: "e \<in> set es" "hit lc ?opts pn e" "admitted ?opts e \<or> raw \<noteq> [] \<and> hd raw = full_stop" by auto
    show "L (map Plain ts @ Plain e # ps) \<subseteq> L ?P"
      unfolding L_def pn_def
      by (rule answers_piece [OF names [OF e(1)] yields_magic [OF names [OF e(1)] e(2) [unfolded pn_def] e(3)]])
  qed
  consider (none) "?M = []" | (leaf) "?M \<noteq> []" "ps = []" "\<not> g_mark g" "\<not> g_stat g"
    | (more) "?M \<noteq> []" "\<not> (ps = [] \<and> \<not> g_mark g \<and> \<not> g_stat g)" by blast
  then show ?thesis
  proof cases
    case none
    then show ?thesis
      using lower extends_mono [OF extends_refl [OF true], of "S ?P" "L ?P"] by (simp add: bindC_def dots(1) matched)
  next
    case more
    have "returns (foldC (\<lambda>e. rec (map Plain ts @ Plain e # ps) b) ?M g) (extends fs i
        (\<Union>e \<in> set ?M. S (map Plain ts @ Plain e # ps)) (\<Union>e \<in> set ?M. L (map Plain ts @ Plain e # ps)) g)"
    proof (rule extends_loop)
      fix e g' assume e: "e \<in> set ?M" "caches_true fs g'" "rest_of g' = rest_of g" "length (g_matches g') = length (g_matches g)"
      then show "returns (rec (map Plain ts @ Plain e # ps) b g')
          (extends fs i (S (map Plain ts @ Plain e # ps)) (L (map Plain ts @ Plain e # ps)) g')"
        using findsD [OF rec conf e(3,2), of e b] i unfolding S_def L_def by simp
    qed (rule true)
    then have "returns (foldC (\<lambda>e. rec (map Plain ts @ Plain e # ps) b) ?M g) (extends fs i (S ?P) (L ?P) g)"
      by (rule returns_weaken) (use extends_mono [OF _ lower upper] in blast)
    then show ?thesis using more by (simp only: bindC_def dots(1) matched Let_def if_not_P if_False option.case sum.case)
  next
    case leaf
    let ?h = "full_match g pre"
    have h: "?h e = join [slash] (ts @ [e])" if "e \<in> set es" for e
      using full_match_join [OF ts names [OF that]] unfolding pre_def .
    have S: "S (map Plain ts @ [Plain e]) \<subseteq> {?h e}" "?h e \<in> L (map Plain ts @ [Plain e])" if "e \<in> set es" for e
      using present_child [OF tidy home ts es that] answers_plain [of lc ?opts fs home _ "ts @ [e]"] h [OF that]
      unfolding S_def L_def by auto
    have lo: "S ?P \<subseteq> ?h ` set ?M" using lower S(1) leaf(2) by fastforce
    have hi: "?h ` set ?M \<subseteq> L ?P" using upper S(2) leaf(2) by fastforce
    note n = extends_no_match [OF true i]
    have "i < length (g_matches (no_match i g))" using extends_keeps [OF n] i by simp
    from extends_trans [OF n extends_adds [OF extends_keeps(1) [OF n] this, of ?h ?M]]
    have "extends fs i (S ?P) (L ?P) g (fold (\<lambda>e. add_match i (?h e)) ?M (no_match i g))"
      using lo hi by (auto intro: extends_mono)
    then show ?thesis using leaf by (simp add: bindC_def dots(1) matched Let_def)
  qed
qed

lemma tidy_row_entry:
  assumes "tidy_row (map Plain ss @ p # ps)" "\<not> is_plain p" "ts = (if ss = [] then [] else [join [slash] ss])"
  defines "P \<equiv> map Plain ss @ p # ps"
  shows "one_string ts" "\<not> list_all is_plain P" "prefix_of P = (if ts = [] then None else Some (hd ts))"
    "answers lc opts fs home E P = answers lc opts fs home E (map Plain ts @ p # ps)"
    "need N home P = need N home (map Plain ts @ p # ps)"
    "dropWhile is_plain P = p # ps" "prefix_portion (prefix_of P) = map Plain ts" "tidy_tail (p # ps)"
proof -
  note split = tidy_row_split [OF assms(1,2)]
  show one: "one_string ts" using split(2) assms(3) by (auto simp: one_string_def)
  show "\<not> list_all is_plain P" using assms(2) by (simp add: P_def)
  show pre: "prefix_of P = (if ts = [] then None else Some (hd ts))"
  proof (cases "ss = []")
    case False
    with one have "join [slash] ss \<noteq> []" "hd (join [slash] ss) \<noteq> slash"
      by (auto simp: assms(3) one_string_def tidy_path_def isAbsolute_hd)
    then show ?thesis using False assms(2) by (simp add: P_def prefix_of_def assms(3) isAbsolute_hd)
  qed (use assms(2,3) in \<open>simp add: P_def prefix_of_def\<close>)
  show "answers lc opts fs home E P = answers lc opts fs home E (map Plain ts @ p # ps)"
    using assms(3) answers_strings by (simp add: P_def)
  have "join [slash] ts = join [slash] ss" by (simp add: assms(3))
  then show "need N home P = need N home (map Plain ts @ p # ps)" using assms(2) by (simp add: need_def P_def)
  show "dropWhile is_plain P = p # ps" using assms(2) by (simp add: P_def)
  show "prefix_portion (prefix_of P) = map Plain ts"
    unfolding pre using one by (auto simp: prefix_portion_def one_string_def tidy_path_def)
  show "tidy_tail (p # ps)" by (rule split)
qed

lemma process_finds:
  assumes tidy: "tidy_fs fs N"
  shows "tidy_row P \<Longrightarrow> need N home P < d \<Longrightarrow> finds lc fs home i (glob_process lc fs d i) P"
proof (induction d arbitrary: P)
  case (Suc d)
  show ?case unfolding finds_def
  proof (intro allI impI)
    fix b g assume conf: "glob_conf fs home g" and true: "caches_true fs g" and i: "i < length (g_matches g)"
    let ?S = "answers lc (m_options (g_minimatch g)) fs home (present fs home)"
    let ?L = "answers lc (m_options (g_minimatch g)) fs home (\<lambda>m. present fs home m \<or> believed fs home m)"
    have home: "list_all good_name home" using conf by (simp add: glob_conf_def)
    show "returns (glob_process lc fs (Suc d) i P b g) (extends fs i (?S P) (?L P) g)"
    proof (cases rule: row_cases [of P])
      case (strings ss)
      then have "list_all is_plain P" by (simp add: list_all_iff)
      then show ?thesis
        using processSimple_extends [OF tidy conf true i] tidy_row_strings [of ss] Suc.prems(1) strings
        by (simp add: answers_plain)
    next
      case (portions ss p ps)
      obtain ts where ts: "ts = (if ss = [] then [] else [join [slash] ss])" by blast
      note row = tidy_row_entry [OF Suc.prems(1) [unfolded portions(1)] portions(2) ts, folded portions(1)]
      let ?Q = "map Plain ts @ p # ps" and ?cs = "home @ segments (join [slash] ts)"
      have good: "list_all good_name ?cs" using home one_string_good [OF row(1)] by simp
      have read: "makeAbs fs g (case prefix_of P of None \<Rightarrow> lit ''.'' | Some q \<Rightarrow> q) = addr ?cs"
        using makeAbs_tidy(1,2) [OF tidy conf] row(1,3) by (auto simp: one_string_def segments_def)
      have ign: "\<not> childrenIgnored lc g x" for x using conf by (simp add: childrenIgnored_def glob_conf_def)
      obtain g1 where g1: "glob_readdir fs (addr ?cs) b g = Inr (g1, listing fs ?cs)" "learns fs g g1"
        using glob_readdir_true [OF tidy conf true good] by blast
      have k1: "caches_true fs g1" "rest_of g1 = rest_of g" "i < length (g_matches g1)" using g1(2) i by (simp_all add: learns_def)
      have conf1: "glob_conf fs home g1" using conf glob_conf_cong [OF k1(2)] by simp
      note mm = rest_of_eqD(4) [OF k1(2)]
      have IH: "finds lc fs home i (glob_process lc fs d i) (map Plain ts @ qs)"
        if "tidy_tail qs" "need N home (map Plain ts @ qs) < need N home ?Q" for qs
        using that Suc.IH one_string_row [OF row(1)] Suc.prems(2) row(5) by simp
      have less: "need N home (map Plain ts @ qs) < need N home ?Q"
        if "length (filter (\<lambda>p. \<not> is_plain p) qs) \<le> length (filter (\<lambda>p. \<not> is_plain p) ps)" for qs
        using that portions(2) by (intro need_fewer) simp
      have lift: "returns r (extends fs i (?S P) (?L P) g)" if "returns r (extends fs i (?S ?Q) (?L ?Q) g1)" for r
        using that by (rule returns_weaken) (use extends_trans [OF extends_learns [OF g1(2)]] row(4) in simp)
      note body = glob_process.simps(2) processReaddir_def processGlobStar_def row(2) row(6,7) read ign g1(1)
      show ?thesis
      proof (cases "listing fs ?cs")
        case None
        then have "?S ?Q = {}" using sure_listed [OF tidy home portions(2)] by fastforce
        then have "extends fs i (?S ?Q) (?L ?Q) g1 g1" using extends_mono [OF extends_refl [OF k1(1)]] by blast
        then have "returns (Some (Inr g1)) (extends fs i (?S P) (?L P) g)" by (intro lift) simp
        then show ?thesis using None by (simp add: body Let_def)
      next
        case (Some es)
        have names: "good_name e" if "e \<in> set es" for e
          using tidy_dir(2) [OF tidy good] Some that by (auto simp: listing_def list_all_iff split: sum.splits)
        have depth: "length ?cs \<le> N"
          using tidy_dir(2) [OF tidy good] Some by (auto simp: listing_def split: sum.splits)
        show ?thesis
        proof (cases p)
          case Globstar
          then have tail: "tidy_tail ps" using row(8) by simp
          have none: "finds lc fs home i (glob_process lc fs d i) (map Plain ts @ ps)"
            using IH [OF tail less] by simp
          have some: "finds lc fs home i (glob_process lc fs d i) (map Plain ts @ Plain e # ps)"
            "finds lc fs home i (glob_process lc fs d i) (map Plain ts @ Plain e # Globstar # ps)" if "e \<in> set es" for e
            using IH [of "Plain e # ps"] IH [of "Plain e # Globstar # ps"] less need_below [OF names [OF that] depth] names [OF that] tail
            by (simp_all add: Globstar)
          from lift [unfolded Globstar, OF globstar_branch [OF tidy conf1 k1(1,3) row(1) Some none some, of b, unfolded mm]]
          show ?thesis by (simp add: body Let_def Some Globstar cong: if_cong)
        next
          case (Magic k r)
          with row(8) obtain raw src where k: "p = Magic (Some (raw, src)) r" and tail: "tidy_tail ps" by auto
          have some: "finds lc fs home i (glob_process lc fs d i) (map Plain ts @ Plain e # ps)" if "e \<in> set es" for e
            using IH [of "Plain e # ps"] less names [OF that] tail by simp
          from lift [unfolded k, OF magic_branch [OF tidy conf1 k1(1,3) row(1) Some some, of raw src r b, unfolded mm, folded row(3)]]
          show ?thesis by (simp add: body Let_def Some k cong: if_cong)
        qed (use portions(2) in simp)
      qed
    qed
  qed
qed simp

end
