(* ===== verification/Glob_Async.thy ===== *)
theory Glob_Async
  imports Glob_Walk
begin

text \<open>
  The asynchronous walk of the \<open>glob\<close> package (\<open>src/site/assets/javascripts/lunr/wordcut.js\<close>, module 16). Every call of the file
  system is a request that is fs_answer later, in any order. The functions between two answers are cut into tasks: a task
  stands for a call that is still to be made, and the tasks that a function leaves behind come in front of those of its
  callers, so that the list of tasks is the call stack. Callbacks are values; callers that wait for the same request
  share it (\<open>inflight\<close>, module 18). The listeners of the emitted events only take note of them.
\<close>

section \<open>State\<close>

text \<open>The keys of shared requests.\<close>

datatype akey = KReaddir jstring bool | KLstat jstring | KStat jstring

text \<open>
  Callbacks: those that \<open>_processReaddir\<close> and \<open>_processGlobStar\<close> give to \<open>_readdir\<close>, the function that answers another key,
  the two functions \<open>lstatcb_\<close>.
\<close>

datatype acb =
    ReaddirCB "jstring option" jstring "portion list" nat bool
  | GlobStarCB "jstring option" jstring "portion list" nat bool
  | ForwardCB akey
  | LstatCB jstring
  | StatCB jstring nat

datatype answer = Entries "jstring list option" | Kind "fkind option"

datatype task =
    TProcess "portion list" nat bool
  | TStat jstring nat
  | TSimple2 jstring nat cache_entry
  | TStat2 jstring nat "fkind option"
  | TEmit nat jstring
  | TReaddir jstring bool acb
  | TDirAnswer jstring bool "fs_code + jstring list"
  | TRes akey answer
  | TCall acb answer
  | TFinally akey answer
  | TGlobStarRest "jstring option" jstring "portion list" nat bool "jstring list"
  | TDone
  | TFinish
  | TRealpath
  | TRealpathSet nat
  | TReal nat jstring "realpath_error + jstring"
  | TNext
  | TUncount
  | TResumeProcess

text \<open>Requests to the file system, with what continues them.\<close>

datatype ask =
    AskReaddir jstring bool
  | AskLstat akey
  | AskStat jstring nat
  | AskRealpath nat jstring

datatype gevent =
    EMatch jstring
  | EStat jstring fkind
  | EEnd "jstring list"
  | EError js_error
  | EAbort
  | EPause
  | EResume
  | EUncaught js_error

text \<open>
  The object, with the requests of \<open>inflight\<close>. \<open>a_missing\<close> tells where \<open>statCache\<close> holds \<open>false\<close>. A key of \<open>a_reqs\<close> has the callbacks
  that its answer has not taken up yet. \<open>a_callback\<close> says that a callback was given, which listens to errors.
\<close>

record async =
  a_glob :: glob_obj
  a_missing :: "jstring \<Rightarrow> bool"
  a_processing :: int
  a_paused :: bool
  a_aborted :: bool
  a_didRealpath :: bool
  a_callback :: bool
  a_emitQueue :: "(nat \<times> jstring) list"
  a_processQueue :: "(portion list \<times> nat \<times> bool) list"
  a_rowsLeft :: int
  a_rowLeft :: "nat \<Rightarrow> int"
  a_reqs :: "(akey \<times> acb list) list"
  a_asks :: "ask list"
  a_ticks :: "(akey \<times> answer) list"
  a_stack :: "task list"
  a_events :: "gevent list"

definition push :: "task list \<Rightarrow> async \<Rightarrow> async" where
  "push ts s = s\<lparr>a_stack := ts @ a_stack s\<rparr>"

definition asking :: "ask list \<Rightarrow> async \<Rightarrow> async" where
  "asking as s = s\<lparr>a_asks := a_asks s @ as\<rparr>"

definition note_event :: "gevent \<Rightarrow> async \<Rightarrow> async" where
  "note_event e s = s\<lparr>a_events := a_events s @ [e]\<rparr>"

definition with_glob :: "(glob_obj \<Rightarrow> glob_obj) \<Rightarrow> async \<Rightarrow> async" where
  "with_glob f s = s\<lparr>a_glob := f (a_glob s)\<rparr>"

text \<open>An exception leaves all functions, but their \<open>finally\<close> blocks are run.\<close>

fun is_finally :: "task \<Rightarrow> bool" where
  "is_finally (TFinally key ans) = True"
| "is_finally _ = False"

definition throw :: "js_error \<Rightarrow> async \<Rightarrow> async" where
  "throw e s = note_event (EUncaught e) (s\<lparr>a_stack := filter is_finally (a_stack s)\<rparr>)"

section \<open>Shared requests\<close>

definition inflight_join :: "akey \<Rightarrow> acb \<Rightarrow> async \<Rightarrow> async" where
  "inflight_join key cb s = s\<lparr>a_reqs := map (\<lambda>(k, cbs). (k, if k = key then cbs @ [cb] else cbs)) (a_reqs s)\<rparr>"

definition inflight_open :: "akey \<Rightarrow> acb \<Rightarrow> async \<Rightarrow> async" where
  "inflight_open key cb s = s\<lparr>a_reqs := (key, [cb]) # a_reqs s\<rparr>"

text \<open>\<open>RES\<close>: the callbacks that are there are called, then comes the \<open>finally\<close> block.\<close>

definition run_res :: "akey \<Rightarrow> answer \<Rightarrow> async \<Rightarrow> async" where
  "run_res key ans s =
     (case map_of (a_reqs s) key of
        None \<Rightarrow> throw TypeError s
      | Some cbs \<Rightarrow>
          push (map (\<lambda>cb. TCall cb ans) cbs @ [TFinally key ans])
            (s\<lparr>a_reqs := map (\<lambda>(k, cbs). (k, if k = key then [] else cbs)) (a_reqs s)\<rparr>))"

definition run_finally :: "akey \<Rightarrow> answer \<Rightarrow> async \<Rightarrow> async" where
  "run_finally key ans s =
     (case map_of (a_reqs s) key of
        None \<Rightarrow> s
      | Some cbs \<Rightarrow>
          if cbs \<noteq> [] then s\<lparr>a_ticks := a_ticks s @ [(key, ans)]\<rparr>
          else s\<lparr>a_reqs := filter (\<lambda>(k, cbs). k \<noteq> key) (a_reqs s)\<rparr>)"

section \<open>Matches\<close>

text \<open>\<open>_emitMatch\<close>; \<open>mark\<close> copies the entries of the caches.\<close>

definition marked :: "file_system \<Rightarrow> jstring \<Rightarrow> async \<Rightarrow> async \<times> jstring" where
  "marked fs e s =
     (let (g', m) = mark fs e (a_glob s)
      in if m = e then (s, e)
         else (s\<lparr>a_glob := g', a_missing := (a_missing s)(makeAbs fs g' m := a_missing s (makeAbs fs g' e))\<rparr>, m))"

definition run_emit :: "letter_case \<Rightarrow> file_system \<Rightarrow> nat \<Rightarrow> jstring \<Rightarrow> async \<Rightarrow> async" where
  "run_emit lc fs index e s =
     (if a_aborted s then s
      else case g_matches (a_glob s) ! index of
             None \<Rightarrow> throw TypeError s
           | Some old \<Rightarrow>
               if e \<in> set old then s
               else if isIgnored lc (a_glob s) e then s
               else if a_paused s then s\<lparr>a_emitQueue := a_emitQueue s @ [(index, e)]\<rparr>
               else
                 let absp = makeAbs fs (a_glob s) e
                 in if g_nodir (a_glob s) \<and> (case g_cache (a_glob s) absp of Some c \<Rightarrow> is_dir_entry c | None \<Rightarrow> False) then s
                    else
                      let (s1, e1) = (if g_mark (a_glob s) then marked fs e s else (s, e));
                          s2 = with_glob (add_match index e1) s1
                      in note_event (EMatch e1)
                           (case g_statCache (a_glob s2) absp of Some k \<Rightarrow> note_event (EStat e1 k) s2 | None \<Rightarrow> s2))"

section \<open>Strings\<close>

text \<open>\<open>_stat\<close>, as \<open>_processSimple\<close> calls it: what it does when the cache of kinds does not tell, and all of it.\<close>

definition run_stat_fresh :: "file_system \<Rightarrow> jstring \<Rightarrow> nat \<Rightarrow> async \<Rightarrow> async" where
  "run_stat_fresh fs f index s =
     (let absp = makeAbs fs (a_glob s) f
      in if a_missing s absp then push [TSimple2 f index CFalse] s
         else case g_statCache (a_glob s) absp of
                Some k \<Rightarrow>
                  (let c = (if k = DirK then CDir else CFile)
                   in push [TSimple2 f index (if ends_slash f \<and> c \<noteq> CDir then CFalse else c)] s)
              | None \<Rightarrow>
                  (if map_of (a_reqs s) (KStat absp) = None
                   then asking [AskLstat (KStat absp)] (inflight_open (KStat absp) (StatCB f index) s)
                   else inflight_join (KStat absp) (StatCB f index) s))"

definition run_stat :: "file_system \<Rightarrow> jstring \<Rightarrow> nat \<Rightarrow> async \<Rightarrow> async" where
  "run_stat fs f index s =
     (let g = a_glob s; absp = makeAbs fs g f; needDir = ends_slash f
      in if (case g_maxLength g of Some n \<Rightarrow> n < length f | None \<Rightarrow> False) then push [TSimple2 f index CFalse] s
         else case (if g_stat g then None else g_cache g absp) of
                None \<Rightarrow> run_stat_fresh fs f index s
              | Some c \<Rightarrow>
                  (let c' = (if is_dir_entry c then CDir else c)
                   in if \<not> needDir \<or> c' = CDir then push [TSimple2 f index c'] s
                      else if c' = CFile then push [TSimple2 f index CFalse] s
                      else run_stat_fresh fs f index s))"

definition run_stat2 :: "file_system \<Rightarrow> jstring \<Rightarrow> nat \<Rightarrow> fkind option \<Rightarrow> async \<Rightarrow> async" where
  "run_stat2 fs f index st s =
     (let g = a_glob s; absp = makeAbs fs g f
      in case st of
           None \<Rightarrow> push [TSimple2 f index CFalse] (s\<lparr>a_missing := (a_missing s)(absp := True)\<rparr>)
         | Some k \<Rightarrow>
             (let c = (if k = DirK then CDir else CFile);
                  s1 = s\<lparr>a_glob := g\<lparr>g_statCache := (g_statCache g)(absp \<mapsto> k)\<rparr>, a_missing := (a_missing s)(absp := False)\<rparr>
              in if ends_slash absp \<and> k \<noteq> DirK then push [TSimple2 f index CFalse] s1
                 else push [TSimple2 f index (if ends_slash f \<and> c \<noteq> CDir then CFalse else c)]
                        (with_glob (\<lambda>g. g\<lparr>g_cache := (g_cache g)(absp \<mapsto>
                            (case g_cache g absp of None \<Rightarrow> c | Some CFalse \<Rightarrow> c | Some old \<Rightarrow> old))\<rparr>) s1)))"

definition run_simple2 :: "jstring \<Rightarrow> nat \<Rightarrow> cache_entry \<Rightarrow> async \<Rightarrow> async" where
  "run_simple2 f index exists s =
     (let s1 = with_glob (no_match index) s; g = a_glob s
      in if exists = CFalse then push [TDone] s1
         else push [TEmit index (if isAbsolute f \<and> \<not> g_nomount g then path_join [g_root g, f] else f), TDone] s1)"

section \<open>Directories\<close>

text \<open>The first half of \<open>_readdirInGlobStar\<close>, for the caller that waits for the given key.\<close>

definition run_readdirInGlobStar :: "jstring \<Rightarrow> akey \<Rightarrow> async \<Rightarrow> async" where
  "run_readdirInGlobStar absp key s =
     (if a_aborted s then s
      else if g_follow (a_glob s) then push [TReaddir absp False (ForwardCB key)] s
      else if map_of (a_reqs s) (KLstat absp) = None
      then asking [AskLstat (KLstat absp)] (inflight_open (KLstat absp) (LstatCB absp) s)
      else inflight_join (KLstat absp) (LstatCB absp) s)"

definition run_readdir :: "jstring \<Rightarrow> bool \<Rightarrow> acb \<Rightarrow> async \<Rightarrow> async" where
  "run_readdir absp inGlobStar cb s =
     (let key = KReaddir absp inGlobStar; g = a_glob s
      in if a_aborted s then s
         else if map_of (a_reqs s) key \<noteq> None then inflight_join key cb s
         else
           let s1 = inflight_open key cb s
           in if inGlobStar \<and> g_symlinks g absp = None then run_readdirInGlobStar absp key s1
              else case g_cache g absp of
                     Some CFalse \<Rightarrow> push [TRes key (Entries None)] s1
                   | Some CFile \<Rightarrow> push [TRes key (Entries None)] s1
                   | Some (CEntries es) \<Rightarrow> push [TRes key (Entries (Some es))] s1
                   | _ \<Rightarrow> asking [AskReaddir absp inGlobStar] s1)"

text \<open>The second half of \<open>_readdirInGlobStar\<close>.\<close>

definition run_lstatcb :: "jstring \<Rightarrow> fkind option \<Rightarrow> async \<Rightarrow> async" where
  "run_lstatcb absp st s =
     (case st of
        None \<Rightarrow> push [TRes (KReaddir absp True) (Entries None)] s
      | Some k \<Rightarrow>
          (let s1 = with_glob (\<lambda>g. g\<lparr>g_symlinks := (g_symlinks g)(absp \<mapsto> k = LinkK)\<rparr>) s
           in if k = FileK
              then push [TRes (KReaddir absp True) (Entries None)] (with_glob (\<lambda>g. g\<lparr>g_cache := (g_cache g)(absp \<mapsto> CFile)\<rparr>) s1)
              else push [TReaddir absp False (ForwardCB (KReaddir absp True))] s1))"

definition do_abort :: "async \<Rightarrow> async" where
  "do_abort s = note_event EAbort (s\<lparr>a_aborted := True\<rparr>)"

text \<open>\<open>readdirCb\<close>, with \<open>_readdirEntries\<close> and \<open>_readdirError\<close>.\<close>

definition run_dir_answer :: "file_system \<Rightarrow> jstring \<Rightarrow> bool \<Rightarrow> fs_code + jstring list \<Rightarrow> async \<Rightarrow> async" where
  "run_dir_answer fs absp inGlobStar r s =
     (let key = KReaddir absp inGlobStar;
          put = (\<lambda>c. with_glob (\<lambda>g. g\<lparr>g_cache := (g_cache g)(makeAbs fs g absp \<mapsto> c)\<rparr>) s)
      in if a_aborted s then s
         else case r of
                Inr names \<Rightarrow> push [TRes key (Entries (Some names))] (with_glob (readdirEntries absp names) s)
              | Inl (Unusual e) \<Rightarrow>
                  (if \<not> g_strict (a_glob s) then push [TRes key (Entries None)] (put CFalse)
                   else if a_callback s then do_abort (note_event (EError e) (push [TRes key (Entries None)] (put CFalse)))
                   else throw e (put CFalse))
              | Inl er \<Rightarrow> push [TRes key (Entries None)] (put (if er = ENOTSUP \<or> er = ENOTDIR then CFile else CFalse)))"

section \<open>Rows\<close>

definition run_process :: "letter_case \<Rightarrow> file_system \<Rightarrow> portion list \<Rightarrow> nat \<Rightarrow> bool \<Rightarrow> async \<Rightarrow> async" where
  "run_process lc fs pattern index inGlobStar s =
     (if a_aborted s then s
      else
        let s1 = s\<lparr>a_processing := a_processing s + 1\<rparr>; g = a_glob s
        in if a_paused s then s1\<lparr>a_processQueue := a_processQueue s @ [(pattern, index, inGlobStar)]\<rparr>
           else if list_all is_plain pattern then push [TStat (join [slash] (map plain_text pattern)) index] s1
           else
             let pre = prefix_of pattern;
                 read = (case pre of None \<Rightarrow> lit ''.'' | Some p \<Rightarrow> p);
                 absp = makeAbs fs g read;
                 remain = dropWhile is_plain pattern
             in if childrenIgnored lc g read then push [TDone] s1
                else if hd remain = Globstar
                then push [TReaddir absp inGlobStar (GlobStarCB pre absp remain index inGlobStar)] s1
                else push [TReaddir absp inGlobStar (ReaddirCB pre absp remain index inGlobStar)] s1)"

text \<open>\<open>_processReaddir2\<close>; unlike the synchronous walk it joins the prefix and the name at once.\<close>

definition joined :: "jstring option \<Rightarrow> jstring \<Rightarrow> jstring" where
  "joined pre e =
     (case pre of None \<Rightarrow> e | Some p \<Rightarrow> if p = [] then e else if p \<noteq> [slash] then p @ [slash] @ e else p @ e)"

definition mounted :: "glob_obj \<Rightarrow> jstring \<Rightarrow> jstring" where
  "mounted g e = (if e \<noteq> [] \<and> hd e = slash \<and> \<not> g_nomount g then path_join [g_root g, e] else e)"

definition run_readdir2 ::
    "letter_case \<Rightarrow> jstring option \<Rightarrow> portion list \<Rightarrow> nat \<Rightarrow> bool \<Rightarrow> jstring list option \<Rightarrow> async \<Rightarrow> async" where
  "run_readdir2 lc pre remain index inGlobStar found s =
     (case found of
        None \<Rightarrow> push [TDone] s
      | Some names \<Rightarrow>
          (case dotOk (a_glob s) (hd remain) of
             Inl e \<Rightarrow> throw e s
           | Inr dots \<Rightarrow>
               let g = a_glob s; matched = filter (entry_matches lc g dots (hd remain) pre) names
               in if matched = [] then push [TDone] s
                  else if length remain = 1 \<and> \<not> g_mark g \<and> \<not> g_stat g
                  then push (map (\<lambda>e. TEmit index (mounted g (joined pre e))) matched @ [TDone]) (with_glob (no_match index) s)
                  else push (map (\<lambda>e. TProcess (Plain (joined pre e) # tl remain) index inGlobStar) matched @ [TDone]) s))"

definition run_globstar2 ::
    "jstring option \<Rightarrow> jstring \<Rightarrow> portion list \<Rightarrow> nat \<Rightarrow> bool \<Rightarrow> jstring list option \<Rightarrow> async \<Rightarrow> async" where
  "run_globstar2 pre absp remain index inGlobStar found s =
     (case found of
        None \<Rightarrow> push [TDone] s
      | Some names \<Rightarrow>
          push [TProcess (prefix_portion pre @ tl remain) index False, TGlobStarRest pre absp remain index inGlobStar names] s)"

definition run_globstar_rest ::
    "jstring option \<Rightarrow> jstring \<Rightarrow> portion list \<Rightarrow> nat \<Rightarrow> bool \<Rightarrow> jstring list \<Rightarrow> async \<Rightarrow> async" where
  "run_globstar_rest pre absp remain index inGlobStar names s =
     (if g_symlinks (a_glob s) absp = Some True \<and> inGlobStar then push [TDone] s
      else push (concat (map (\<lambda>e.
               if e \<noteq> [] \<and> hd e = full_stop \<and> \<not> g_dot (a_glob s) then []
               else [TProcess (prefix_portion pre @ Plain e # tl remain) index True,
                     TProcess (prefix_portion pre @ Plain e # remain) index True]) names) @ [TDone]) s)"

section \<open>The end\<close>

definition run_done :: "async \<Rightarrow> async" where
  "run_done s =
     (let s1 = s\<lparr>a_processing := a_processing s - 1\<rparr> in if a_processing s1 \<le> 0 then push [TFinish] s1 else s1)"

definition run_finish :: "letter_case \<Rightarrow> (jstring \<Rightarrow> jstring \<Rightarrow> int) \<Rightarrow> file_system \<Rightarrow> async \<Rightarrow> async" where
  "run_finish lc collate fs s =
     (if a_aborted s then s
      else if g_realpath (a_glob s) \<and> \<not> a_didRealpath s then push [TRealpath] s
      else let s1 = with_glob (finish_common lc collate fs) s in note_event (EEnd (g_found (a_glob s1))) s1)"

definition run_realpath :: "async \<Rightarrow> async" where
  "run_realpath s =
     (if a_didRealpath s then s
      else let n = length (g_matches (a_glob s)); s1 = s\<lparr>a_didRealpath := True\<rparr>
           in if n = 0 then push [TFinish] s1
              else push (map TRealpathSet [0..<n]) (s1\<lparr>a_rowsLeft := int n\<rparr>))"

definition run_realpath_set :: "file_system \<Rightarrow> nat \<Rightarrow> async \<Rightarrow> async" where
  "run_realpath_set fs index s =
     (case g_matches (a_glob s) ! index of
        None \<Rightarrow> push [TNext] s
      | Some ks \<Rightarrow>
          if ks = [] then push [TNext] s
          else asking (map (\<lambda>p. AskRealpath index (makeAbs fs (a_glob s) p)) (own_keys ks))
                 (with_glob (\<lambda>g. g\<lparr>g_matches := (g_matches g)[index := Some []]\<rparr>)
                    (s\<lparr>a_rowLeft := (a_rowLeft s)(index := int (length (own_keys ks)))\<rparr>)))"

definition run_next :: "async \<Rightarrow> async" where
  "run_next s = (let s1 = s\<lparr>a_rowsLeft := a_rowsLeft s - 1\<rparr> in if a_rowsLeft s1 = 0 then push [TFinish] s1 else s1)"

definition run_real :: "nat \<Rightarrow> jstring \<Rightarrow> realpath_error + jstring \<Rightarrow> async \<Rightarrow> async" where
  "run_real index p r s =
     (let count = (\<lambda>t. let t1 = t\<lparr>a_rowLeft := (a_rowLeft t)(index := a_rowLeft t index - 1)\<rparr>
                       in if a_rowLeft t1 index = 0 then push [TNext] t1 else t1)
      in case r of
           Inr real \<Rightarrow> count (with_glob (add_match index real) s)
         | Inl StatFailed \<Rightarrow> count (with_glob (add_match index p) s)
         | Inl (RealpathFailed e) \<Rightarrow> if a_callback s then count (note_event (EError e) s) else throw e s)"

section \<open>Calls from outside\<close>

definition do_pause :: "async \<Rightarrow> async" where
  "do_pause s = (if a_paused s then s else note_event EPause (s\<lparr>a_paused := True\<rparr>))"

definition do_resume :: "async \<Rightarrow> async" where
  "do_resume s =
     (if \<not> a_paused s then s
      else push (map (\<lambda>(i, e). TEmit i e) (a_emitQueue s) @ [TResumeProcess])
             ((note_event EResume s)\<lparr>a_paused := False, a_emitQueue := []\<rparr>))"

definition run_resume_process :: "async \<Rightarrow> async" where
  "run_resume_process s =
     push (concat (map (\<lambda>(p, i, b). [TUncount, TProcess p i b]) (a_processQueue s))) (s\<lparr>a_processQueue := []\<rparr>)"

section \<open>The machine\<close>

fun run_call :: "letter_case \<Rightarrow> file_system \<Rightarrow> acb \<Rightarrow> answer \<Rightarrow> async \<Rightarrow> async" where
  "run_call lc fs (ReaddirCB pre absp remain index b) (Entries es) s = run_readdir2 lc pre remain index b es s"
| "run_call lc fs (GlobStarCB pre absp remain index b) (Entries es) s = run_globstar2 pre absp remain index b es s"
| "run_call lc fs (ForwardCB key) ans s = push [TRes key ans] s"
| "run_call lc fs (LstatCB absp) (Kind k) s = run_lstatcb absp k s"
| "run_call lc fs (StatCB f index) (Kind k) s =
     (if k = Some LinkK then asking [AskStat f index] s else push [TStat2 f index k] s)"
| "run_call lc fs cb ans s = s"

fun run_task :: "letter_case \<Rightarrow> (jstring \<Rightarrow> jstring \<Rightarrow> int) \<Rightarrow> file_system \<Rightarrow> task \<Rightarrow> async \<Rightarrow> async" where
  "run_task lc collate fs (TProcess p i b) s = run_process lc fs p i b s"
| "run_task lc collate fs (TStat f i) s = run_stat fs f i s"
| "run_task lc collate fs (TSimple2 f i c) s = run_simple2 f i c s"
| "run_task lc collate fs (TStat2 f i k) s = run_stat2 fs f i k s"
| "run_task lc collate fs (TEmit i e) s = run_emit lc fs i e s"
| "run_task lc collate fs (TReaddir a b cb) s = run_readdir a b cb s"
| "run_task lc collate fs (TDirAnswer a b r) s = run_dir_answer fs a b r s"
| "run_task lc collate fs (TRes key ans) s = run_res key ans s"
| "run_task lc collate fs (TCall cb ans) s = run_call lc fs cb ans s"
| "run_task lc collate fs (TFinally key ans) s = run_finally key ans s"
| "run_task lc collate fs (TGlobStarRest pre a remain i b names) s = run_globstar_rest pre a remain i b names s"
| "run_task lc collate fs TDone s = run_done s"
| "run_task lc collate fs TFinish s = run_finish lc collate fs s"
| "run_task lc collate fs TRealpath s = run_realpath s"
| "run_task lc collate fs (TRealpathSet i) s = run_realpath_set fs i s"
| "run_task lc collate fs (TReal i p r) s = run_real i p r s"
| "run_task lc collate fs TNext s = run_next s"
| "run_task lc collate fs TUncount s = s\<lparr>a_processing := a_processing s - 1\<rparr>"
| "run_task lc collate fs TResumeProcess s = run_resume_process s"

text \<open>What the file system answers.\<close>

fun fs_answer :: "file_system \<Rightarrow> glob_obj \<Rightarrow> ask \<Rightarrow> task" where
  "fs_answer fs g (AskReaddir absp b) = TDirAnswer absp b (fs_readdir fs absp)"
| "fs_answer fs g (AskLstat key) = TRes key (Kind (fs_lstat fs (case key of KReaddir a b \<Rightarrow> a | KLstat a \<Rightarrow> a | KStat a \<Rightarrow> a)))"
| "fs_answer fs g (AskStat f index) = TStat2 f index (case fs_stat fs (makeAbs fs g f) of Some k \<Rightarrow> Some k | None \<Rightarrow> Some LinkK)"
| "fs_answer fs g (AskRealpath index p) = TReal index p (fs_realpath fs p)"

definition new_async :: "bool \<Rightarrow> glob_obj \<Rightarrow> async" where
  "new_async callback g =
     (let rows = m_set (g_minimatch g); n = length rows
      in \<lparr>a_glob = g\<lparr>g_matches := replicate n None\<rparr>, a_missing = (\<lambda>p. False), a_processing = 0, a_paused = False,
          a_aborted = False, a_didRealpath = False, a_callback = callback, a_emitQueue = [], a_processQueue = [], a_rowsLeft = 0,
          a_rowLeft = (\<lambda>i. 0), a_reqs = [], a_asks = [], a_ticks = [],
          a_stack = (if g_noprocess g then [] else if n = 0 then [TDone]
                     else map (\<lambda>(i, row). TProcess row i False) (enumerate 0 rows)),
          a_events = []\<rparr>)"

text \<open>\<open>new Glob(pattern, options, cb)\<close> without the option \<open>sync\<close>, which \<open>glob\<close> below looks at first.\<close>

definition Glob :: "markers \<Rightarrow> file_system \<Rightarrow> jstring \<Rightarrow> glob_options \<Rightarrow> bool \<Rightarrow> async call" where
  "Glob t fs pattern options callback = bindC (setopts t fs pattern options) (\<lambda>g. Some (Inr (new_async callback g)))"

text \<open>The function \<open>glob\<close>; the option \<open>sync\<close> chooses the walk.\<close>

definition glob_function ::
    "nat \<Rightarrow> markers \<Rightarrow> letter_case \<Rightarrow> (jstring \<Rightarrow> jstring \<Rightarrow> int) \<Rightarrow> file_system \<Rightarrow> jstring \<Rightarrow> glob_options \<Rightarrow> bool \<Rightarrow> bool \<Rightarrow>
     (jstring list + async) call" where
  "glob_function d t lc collate fs pattern options sync callback =
     (if sync
      then if callback then Some (Inl TypeError)
           else bindC (globSync d t lc collate fs pattern options) (\<lambda>found. Some (Inr (Inl found)))
      else bindC (Glob t fs pattern options callback) (\<lambda>s. Some (Inr (Inr s))))"

text \<open>\<open>glob.hasMagic\<close>\<close>

definition glob_hasMagic :: "markers \<Rightarrow> file_system \<Rightarrow> jstring \<Rightarrow> glob_options \<Rightarrow> bool call" where
  "glob_hasMagic t fs pattern options =
     bindC (Glob t fs pattern (options\<lparr>go_noprocess := True\<rparr>) False) (\<lambda>s.
       let rows = m_set (g_minimatch (a_glob s))
       in if 1 < length rows then Some (Inr True)
          else case rows of [] \<Rightarrow> Some (Inl TypeError) | row # _ \<Rightarrow> Some (Inr (\<not> list_all is_plain row)))"

text \<open>
  A step: the task in front, and when there is none an answer of the file system, in any order, or the next call of \<open>nextTick\<close>.
\<close>

inductive async_step :: "letter_case \<Rightarrow> (jstring \<Rightarrow> jstring \<Rightarrow> int) \<Rightarrow> file_system \<Rightarrow> async \<Rightarrow> async \<Rightarrow> bool" for lc collate fs where
  run: "a_stack s = t # ts \<Longrightarrow> async_step lc collate fs s (run_task lc collate fs t (s\<lparr>a_stack := ts\<rparr>))"
| reply: "\<lbrakk>a_stack s = []; a \<in> set (a_asks s)\<rbrakk> \<Longrightarrow>
     async_step lc collate fs s (push [fs_answer fs (a_glob s) a] (s\<lparr>a_asks := remove1 a (a_asks s)\<rparr>))"
| tick: "\<lbrakk>a_stack s = []; a_ticks s = (key, ans) # rest\<rbrakk> \<Longrightarrow>
     async_step lc collate fs s (push [TRes key ans] (s\<lparr>a_ticks := rest\<rparr>))"

text \<open>The same with calls from outside.\<close>

inductive glob_step :: "letter_case \<Rightarrow> (jstring \<Rightarrow> jstring \<Rightarrow> int) \<Rightarrow> file_system \<Rightarrow> async \<Rightarrow> async \<Rightarrow> bool" for lc collate fs where
  walk: "async_step lc collate fs s s' \<Longrightarrow> glob_step lc collate fs s s'"
| call_pause: "a_stack s = [] \<Longrightarrow> glob_step lc collate fs s (do_pause s)"
| call_resume: "a_stack s = [] \<Longrightarrow> glob_step lc collate fs s (do_resume s)"
| call_abort: "a_stack s = [] \<Longrightarrow> glob_step lc collate fs s (do_abort s)"

end
