(* ===== verification/Glob_Async_Books.thy ===== *)
theory Glob_Async_Books
  imports Glob_Async
begin

text \<open>
  The books of the asynchronous walk: who has to answer a shared request, which calls the counter of the walk stands for, when
  the walk ends, and what every step uses up.
\<close>

section \<open>The setting\<close>

text \<open>A walk over a well-behaved file system of some depth, from a home directory, with the object it starts with.\<close>

record scene =
  sc_case :: letter_case
  sc_collate :: "jstring \<Rightarrow> jstring \<Rightarrow> int"
  sc_fs :: file_system
  sc_depth :: nat
  sc_home :: "jstring list"
  sc_glob :: glob_obj

text \<open>The callbacks that wait for an answer.\<close>

definition waiters :: "(akey \<times> acb list) list \<Rightarrow> acb list" where
  "waiters rs = concat (map snd rs)"

section \<open>What the books count\<close>

text \<open>The requests that somebody will answer.\<close>

fun cb_holds :: "acb \<Rightarrow> akey multiset" where
  "cb_holds (ForwardCB key) = {#key#}"
| "cb_holds (LstatCB a) = {#KReaddir a True#}"
| "cb_holds _ = {#}"

fun task_holds :: "task \<Rightarrow> akey multiset" where
  "task_holds (TReaddir a b cb) = cb_holds cb"
| "task_holds (TCall cb ans) = cb_holds cb"
| "task_holds (TDirAnswer a b r) = {#KReaddir a b#}"
| "task_holds (TRes key ans) = {#key#}"
| "task_holds (TFinally key ans) = {#key#}"
| "task_holds _ = {#}"

fun ask_holds :: "ask \<Rightarrow> akey multiset" where
  "ask_holds (AskReaddir a b) = {#KReaddir a b#}"
| "ask_holds (AskLstat key) = {#key#}"
| "ask_holds _ = {#}"

definition holders :: "async \<Rightarrow> akey multiset" where
  "holders s = sum_list (map task_holds (a_stack s)) + sum_list (map cb_holds (waiters (a_reqs s))) +
     sum_list (map ask_holds (a_asks s)) + mset (map fst (a_ticks s))"

text \<open>The calls that have been counted and will call \<open>done\<close>.\<close>

fun cb_work :: "acb \<Rightarrow> nat" where
  "cb_work (ForwardCB key) = 0"
| "cb_work (LstatCB a) = 0"
| "cb_work _ = 1"

fun task_work :: "task \<Rightarrow> nat" where
  "task_work (TStat f i) = 1"
| "task_work (TSimple2 f i c) = 1"
| "task_work (TStat2 f i k) = 1"
| "task_work (TReaddir a b cb) = cb_work cb"
| "task_work (TCall cb ans) = cb_work cb"
| "task_work (TGlobStarRest pre a remain i b names) = 1"
| "task_work TDone = 1"
| "task_work _ = 0"

definition works :: "async \<Rightarrow> nat" where
  "works s = sum_list (map task_work (a_stack s)) + sum_list (map cb_work (waiters (a_reqs s)))"

text \<open>Calls that are made for another call that will end after them.\<close>

fun opens :: "task \<Rightarrow> bool" where
  "opens (TProcess p i b) = True"
| "opens (TEmit i e) = True"
| "opens _ = False"

fun closes :: "task \<Rightarrow> bool" where
  "closes TDone = True"
| "closes (TGlobStarRest pre a remain i b names) = True"
| "closes _ = False"

fun covered :: "task list \<Rightarrow> bool" where
  "covered [] = True"
| "covered (t # ts) \<longleftrightarrow> (opens t \<longrightarrow> list_ex closes ts) \<and> covered ts"

fun is_end :: "gevent \<Rightarrow> bool" where
  "is_end (EEnd found) = True"
| "is_end _ = False"

definition finishes :: "async \<Rightarrow> nat" where
  "finishes s = count_list (a_stack s) TFinish + length (filter is_end (a_events s))"

definition idle :: "async \<Rightarrow> bool" where
  "idle s \<longleftrightarrow> works s = 0 \<and> \<not> list_ex opens (a_stack s)"

text \<open>While the constructor runs, nothing is known yet and every row ends in a request.\<close>

fun first_calls :: "task \<Rightarrow> bool" where
  "first_calls (TProcess p i b) = (\<not> b)"
| "first_calls (TStat f i) = True"
| "first_calls (TReaddir a b cb) = (\<not> b \<and> cb_work cb = 1)"
| "first_calls _ = False"

definition starting :: "async \<Rightarrow> bool" where
  "starting s \<longleftrightarrow> g_cache (a_glob s) = Map.empty \<and> g_statCache (a_glob s) = Map.empty \<and> (\<forall>a. \<not> a_missing s a) \<and>
     list_all first_calls (a_stack s)"

definition ledger :: "async \<Rightarrow> bool" where
  "ledger s \<longleftrightarrow> holders s = mset (map fst (a_reqs s)) \<and> a_processing s = int (works s) \<and>
     finishes s = (if idle s then 1 else 0) \<and> (covered (a_stack s) \<or> starting s)"

section \<open>What a step uses up\<close>

fun cb_weight :: "scene \<Rightarrow> acb \<Rightarrow> nat" where
  "cb_weight sc (ReaddirCB pre a remain i b) = 20 * need (sc_depth sc) (sc_home sc) (prefix_portion pre @ remain) + 10"
| "cb_weight sc (GlobStarCB pre a remain i b) = 20 * need (sc_depth sc) (sc_home sc) (prefix_portion pre @ remain) + 10"
| "cb_weight sc (StatCB f i) = 10"
| "cb_weight sc (LstatCB a) = 6"
| "cb_weight sc (ForwardCB key) = 2"

fun task_weight :: "scene \<Rightarrow> task \<Rightarrow> nat" where
  "task_weight sc (TProcess P i b) = 20 * need (sc_depth sc) (sc_home sc) P + 19"
| "task_weight sc (TStat f i) = 17"
| "task_weight sc (TStat2 f i k) = 9"
| "task_weight sc (TSimple2 f i c) = 8"
| "task_weight sc (TReaddir a b cb) = cb_weight sc cb + 2"
| "task_weight sc (TCall cb ans) = cb_weight sc cb"
| "task_weight sc (TGlobStarRest pre a remain i b names) = 20 * need (sc_depth sc) (sc_home sc) (prefix_portion pre @ remain) + 9"
| "task_weight sc TDone = 2"
| "task_weight sc _ = 1"

text \<open>Tasks that only carry an answer have no weight of their own.\<close>

fun carries :: "task \<Rightarrow> bool" where
  "carries (TRes key ans) = True"
| "carries (TFinally key ans) = True"
| "carries (TDirAnswer a b r) = True"
| "carries _ = False"

definition task_mass :: "scene \<Rightarrow> task \<Rightarrow> nat multiset" where
  "task_mass sc t = (if carries t then {#} else {#task_weight sc t#})"

definition mass :: "scene \<Rightarrow> async \<Rightarrow> nat multiset" where
  "mass sc s = sum_list (map (task_mass sc) (a_stack s)) + sum_list (map (\<lambda>cb. {#Suc (cb_weight sc cb)#}) (waiters (a_reqs s)))"

text \<open>An answer that is sure to find a callback is about to make a call, any other has its way before it.\<close>

definition awaited :: "async \<Rightarrow> akey \<Rightarrow> bool" where
  "awaited s key \<longleftrightarrow> (\<exists>cb cbs. map_of (a_reqs s) key = Some (cb # cbs))"

fun task_way :: "(akey \<Rightarrow> bool) \<Rightarrow> task \<Rightarrow> nat" where
  "task_way w (TDirAnswer a b r) = 5"
| "task_way w (TRes key ans) = (if w key then 1 else 4)"
| "task_way w (TFinally key ans) = 3"
| "task_way w _ = 0"

definition way :: "async \<Rightarrow> nat" where
  "way s = sum_list (map (task_way (awaited s)) (a_stack s)) +
     sum_list (map (\<lambda>(key, ans). if awaited s key then 2 else 5) (a_ticks s)) + 6 * length (a_asks s)"

definition shrinks :: "scene \<Rightarrow> (async \<times> async) set" where
  "shrinks sc = inv_image (mult less_than <*lex*> less_than) (\<lambda>s. (mass sc s, way s))"

lemma wf_shrinks: "wf (shrinks sc)"
  by (simp add: shrinks_def wf_lex_prod wf_mult)


section \<open>Keeping the books\<close>

lemma covered_append: "covered ts \<Longrightarrow> covered us \<Longrightarrow> covered (us @ ts)"
  by (induction us) auto

lemma covered_closed [simp]: "closes c \<Longrightarrow> covered (us @ [c])"
  by (induction us) (auto elim: closes.elims)

lemma covered_works: "covered ts \<Longrightarrow> list_ex opens ts \<Longrightarrow> 0 < sum_list (map task_work ts)"
proof (induction ts)
  case (Cons t ts)
  have "0 < sum_list (map task_work ts)" if "list_ex closes ts"
    using that by (induction ts) (auto elim!: closes.elims)
  then show ?case using Cons by auto
qed simp

lemma ledgerD:
  assumes "ledger s"
  shows "holders s = mset (map fst (a_reqs s))" "a_processing s = int (works s)" "finishes s = (if idle s then 1 else 0)"
    "covered (a_stack s) \<or> starting s"
  using assms by (simp_all add: ledger_def)

lemma ledger_step:
  assumes "ledger s" "a_stack s = t # ts" "a_stack s' = us @ ts" "t \<noteq> TFinish" "TFinish \<notin> set us"
    "holders s' + mset (map fst (a_reqs s)) = holders s + mset (map fst (a_reqs s'))"
    "int (works s') - a_processing s' = int (works s) - a_processing s"
    "filter is_end (a_events s') = filter is_end (a_events s)" "idle s' = idle s" "covered us" "starting s \<Longrightarrow> starting s'"
  shows "ledger s'"
proof -
  note l = ledgerD [OF assms(1)]
  have "finishes s' = finishes s" using assms(2-5,8) by (simp add: finishes_def count_list_append count_notin)
  moreover have "covered (a_stack s') \<or> starting s'"
    using l(4) assms(2,3,10,11) covered_append by auto
  ultimately show ?thesis using l assms(6,7,9) by (simp add: ledger_def)
qed

definition gain :: "task \<Rightarrow> nat" where
  "gain t = (case t of TProcess p i b \<Rightarrow> 1 | _ \<Rightarrow> 0)"

text \<open>A task is traded for others.\<close>

definition trades :: "scene \<Rightarrow> task \<Rightarrow> task list \<Rightarrow> bool" where
  "trades sc t us \<longleftrightarrow>
     sum_list (map task_holds us) = task_holds t \<and> sum_list (map task_work us) = task_work t + gain t \<and> \<not> carries t \<and>
     (\<forall>u \<in> set us. \<not> carries u \<longrightarrow> task_weight sc u < task_weight sc t) \<and> covered us \<and> t \<noteq> TFinish \<and> TFinish \<notin> set us \<and>
     (list_ex opens us \<longrightarrow> task_work t \<noteq> 0)"

lemma mass_below:
  assumes "\<And>u. u \<in> set us \<Longrightarrow> \<not> carries u \<Longrightarrow> task_weight sc u < n"
  shows "k \<in># sum_list (map (task_mass sc) us) \<Longrightarrow> k < n"
  using assms by (induction us) (auto simp: task_mass_def split: if_splits)

lemma shrinks_mass: "(mass sc s', mass sc s) \<in> mult less_than \<Longrightarrow> (s', s) \<in> shrinks sc"
  by (simp add: shrinks_def)

lemma mult_below:
  assumes "\<And>k. k \<in># K \<Longrightarrow> \<exists>j \<in># J. k < j" "J \<noteq> {#}"
  shows "(I + K, I + J) \<in> mult less_than"
  using one_step_implies_mult [OF assms(2), of K less_than I] assms(1) by simp

lemma trades_shrink:
  assumes "trades sc t us" "a_stack s = t # ts" "a_stack s' = us @ ts" "a_reqs s' = a_reqs s"
  shows "(s', s) \<in> shrinks sc"
proof -
  let ?I = "sum_list (map (task_mass sc) ts) + sum_list (map (\<lambda>cb. {#Suc (cb_weight sc cb)#}) (waiters (a_reqs s)))"
  have "(?I + sum_list (map (task_mass sc) us), ?I + {#task_weight sc t#}) \<in> mult less_than"
    using assms(1) mass_below [of us sc "task_weight sc t"] by (intro mult_below) (auto simp: trades_def)
  moreover have "mass sc s' = ?I + sum_list (map (task_mass sc) us)" using assms(3,4) by (simp add: mass_def ac_simps)
  moreover have "mass sc s = ?I + {#task_weight sc t#}"
    using assms(1,2) by (simp add: mass_def trades_def task_mass_def ac_simps)
  ultimately show ?thesis by (intro shrinks_mass) (simp only:)
qed

lemma ledger_push:
  assumes "ledger s" "a_stack s = t # ts" "a_stack s' = us @ ts" "trades sc t us"
    "a_reqs s' = a_reqs s" "a_asks s' = a_asks s" "a_ticks s' = a_ticks s" "a_processing s' = a_processing s + int (gain t)"
    "filter is_end (a_events s') = filter is_end (a_events s)" "first_calls t \<Longrightarrow> starting s \<Longrightarrow> starting s'"
  shows "ledger s' \<and> (s', s) \<in> shrinks sc"
proof
  note t = assms(4) [unfolded trades_def]
  show "(s', s) \<in> shrinks sc" by (rule trades_shrink [OF assms(4,2,3,5)])
  have w: "works s' = works s + gain t" using t assms(2,3,5) by (simp add: works_def)
  have "idle s' = idle s"
  proof (cases "opens t")
    case True
    then have "\<not> idle s" using assms(2) by (simp add: idle_def)
    moreover have "0 < works s'"
    proof (cases "gain t = 0")
      case True
      with \<open>opens t\<close> obtain i e where "t = TEmit i e" by (cases t) (auto simp: gain_def)
      then have "covered (t # ts)" using ledgerD(4) [OF assms(1)] assms(2) by (auto simp: starting_def)
      from covered_works [OF this] \<open>opens t\<close> have "0 < works s" using assms(2) by (simp add: works_def)
      then show ?thesis using w by simp
    qed (use w in simp)
    ultimately show ?thesis by (simp add: idle_def)
  next
    case False
    then have g: "gain t = 0" by (auto simp: gain_def split: task.split)
    show ?thesis
    proof (cases "task_work t = 0")
      case True
      then have "\<not> list_ex opens us" using t by simp
      then show ?thesis using w g False assms(2,3) by (simp add: idle_def)
    next
      case work: False
      then have "works s \<noteq> 0" using assms(2) by (simp add: works_def)
      then show ?thesis using w g by (simp add: idle_def)
    qed
  qed
  then show "ledger s'"
    using t assms w by (intro ledger_step [OF assms(1-3)]) (auto simp: holders_def starting_def)
qed


text \<open>A task leaves callbacks and requests behind.\<close>

lemma sum_list_waiters:
  fixes f :: "acb \<Rightarrow> 'a :: comm_monoid_add"
  assumes "mset (waiters rs') = mset (waiters rs) + mset cbs"
  shows "sum_list (map f (waiters rs')) = sum_list (map f (waiters rs)) + sum_list (map f cbs)"
proof -
  have "sum_list (map f xs) = sum_mset (image_mset f (mset xs))" for xs by (simp add: sum_mset_sum_list flip: mset_map)
  then show ?thesis by (simp add: assms)
qed

lemma ledger_wait:
  assumes "ledger s" "a_stack s = t # ts" "a_stack s' = us @ ts"
    "mset (waiters (a_reqs s')) = mset (waiters (a_reqs s)) + mset cbs" "a_ticks s' = a_ticks s" "a_asks s' = a_asks s @ qs"
    "mset (map fst (a_reqs s')) = mset (map fst (a_reqs s)) + mset ks" "a_processing s' = a_processing s"
    "filter is_end (a_events s') = filter is_end (a_events s)" "first_calls t \<Longrightarrow> starting s \<Longrightarrow> starting s'"
    "sum_list (map task_holds us) + sum_list (map cb_holds cbs) + sum_list (map ask_holds qs) = task_holds t + mset ks"
    "sum_list (map task_work us) + sum_list (map cb_work cbs) = task_work t" "\<not> list_ex opens (t # us)" "TFinish \<notin> set (t # us)"
    "\<not> carries t" "\<forall>u \<in> set us. \<not> carries u \<longrightarrow> task_weight sc u < task_weight sc t"
    "\<forall>cb \<in> set cbs. Suc (cb_weight sc cb) < task_weight sc t"
  shows "ledger s' \<and> (s', s) \<in> shrinks sc"
proof
  note w = sum_list_waiters [OF assms(4)]
  have works: "works s' = works s" using assms(2,3,12) by (simp add: works_def w)
  have cov: "covered us" using assms(13) by (induction us) auto
  have "idle s' = idle s" using assms(2,3,13) works by (simp add: idle_def)
  moreover have "holders s' + mset (map fst (a_reqs s)) = holders s + mset (map fst (a_reqs s'))"
  proof -
    let ?rest = "sum_list (map task_holds ts) + sum_list (map cb_holds (waiters (a_reqs s))) + sum_list (map ask_holds (a_asks s)) +
      mset (map fst (a_ticks s))"
    have "holders s' = ?rest + (sum_list (map task_holds us) + sum_list (map cb_holds cbs) + sum_list (map ask_holds qs))"
      using assms(3,5,6) by (simp add: holders_def w ac_simps)
    moreover have "holders s = ?rest + task_holds t" using assms(2) by (simp add: holders_def ac_simps)
    ultimately show ?thesis using assms(7,11) by (simp add: ac_simps)
  qed
  ultimately show "ledger s'"
    using assms works cov by (intro ledger_step [OF assms(1-3)]) (auto simp: starting_def)
  let ?m = "\<lambda>cbs. sum_list (map (\<lambda>cb. {#Suc (cb_weight sc cb)#}) cbs)"
  let ?I = "sum_list (map (task_mass sc) ts) + ?m (waiters (a_reqs s))"
  let ?K = "sum_list (map (task_mass sc) us) + ?m cbs"
  have "k < task_weight sc t" if "k \<in># ?m cbs" for k using that assms(17) by (induction cbs) auto
  then have "(?I + ?K, ?I + {#task_weight sc t#}) \<in> mult less_than"
    using mass_below [of us sc "task_weight sc t"] assms(16) by (intro mult_below) auto
  moreover have "mass sc s' = ?I + ?K" using assms(3,4) by (simp add: mass_def ac_simps)
  moreover have "mass sc s = ?I + {#task_weight sc t#}" using assms(2,15) by (simp add: mass_def task_mass_def ac_simps)
  ultimately show "(s', s) \<in> shrinks sc" by (intro shrinks_mass) (simp only:)
qed


text \<open>An answer is passed on.\<close>

lemma shrinks_way: "mass sc s' = mass sc s \<Longrightarrow> way s' < way s \<Longrightarrow> (s', s) \<in> shrinks sc"
  by (simp add: shrinks_def)

lemma ledger_pass:
  assumes "ledger s" "a_stack s = t # ts" "a_stack s' = u # ts" "carries t" "carries u" "task_holds u = task_holds t"
    "task_way (awaited s) u < task_way (awaited s) t" "a_reqs s' = a_reqs s" "a_asks s' = a_asks s" "a_ticks s' = a_ticks s"
    "a_processing s' = a_processing s" "filter is_end (a_events s') = filter is_end (a_events s)"
  shows "ledger s' \<and> (s', s) \<in> shrinks sc"
proof
  have plain: "task_work v = 0 \<and> \<not> opens v \<and> v \<noteq> TFinish \<and> \<not> first_calls v" if "carries v" for v using that by (cases v) auto
  note t = plain [OF assms(4)] and u = plain [OF assms(5)]
  have w: "works s' = works s" using assms(2,3,8) t u by (simp add: works_def)
  then have "idle s' = idle s" using assms(2,3) t u by (simp add: idle_def)
  then show "ledger s'"
    using assms t u w by (intro ledger_step [OF assms(1,2), where us = "[u]"]) (auto simp: holders_def starting_def)
  have "awaited s' = awaited s" using assms(8) by (simp add: awaited_def fun_eq_iff)
  then show "(s', s) \<in> shrinks sc"
    using assms by (intro shrinks_way) (simp_all add: mass_def way_def task_mass_def)
qed

end
