(* ===== verification/Glob_Async_Inv.thy ===== *)
theory Glob_Async_Inv
  imports Glob_Async_Books
begin

text \<open>
  What the asynchronous walk has found and what it still owes. Every task, waiting callback and request of a walk stands for
  results that are still to come; at any moment, whatever the order of the answers, the matches of a row together with what is owed
  cover all that the row should find, and nothing else is ever found.
\<close>

section \<open>The setting\<close>

abbreviation sc_rows :: "scene \<Rightarrow> portion list list" where
  "sc_rows sc \<equiv> m_set (g_minimatch (sc_glob sc))"

definition tidy_scene :: "scene \<Rightarrow> bool" where
  "tidy_scene sc \<longleftrightarrow>
     tidy_fs (sc_fs sc) (sc_depth sc) \<and> glob_conf (sc_fs sc) (sc_home sc) (sc_glob sc) \<and>
     \<not> g_realpath (sc_glob sc) \<and> \<not> g_mark (sc_glob sc) \<and> \<not> g_nodir (sc_glob sc) \<and>
     list_all tidy_row (sc_rows sc)"

text \<open>What a row surely finds, and what it may find.\<close>

definition sure :: "scene \<Rightarrow> portion list \<Rightarrow> jstring set" where
  "sure sc = answers (sc_case sc) (m_options (g_minimatch (sc_glob sc))) (sc_fs sc) (sc_home sc) (present (sc_fs sc) (sc_home sc))"

definition possible :: "scene \<Rightarrow> portion list \<Rightarrow> jstring set" where
  "possible sc = answers (sc_case sc) (m_options (g_minimatch (sc_glob sc))) (sc_fs sc) (sc_home sc)
     (\<lambda>m. present (sc_fs sc) (sc_home sc) m \<or> believed (sc_fs sc) (sc_home sc) m)"

section \<open>What is owed\<close>

fun cb_owes :: "scene \<Rightarrow> nat \<Rightarrow> acb \<Rightarrow> jstring set" where
  "cb_owes sc i (ReaddirCB pre a remain j b) = (if j = i then sure sc (prefix_portion pre @ remain) else {})"
| "cb_owes sc i (GlobStarCB pre a remain j b) = (if j = i then sure sc (prefix_portion pre @ remain) else {})"
| "cb_owes sc i (StatCB f j) = (if j = i then sure sc [Plain f] else {})"
| "cb_owes sc i _ = {}"

fun task_owes :: "scene \<Rightarrow> nat \<Rightarrow> task \<Rightarrow> jstring set" where
  "task_owes sc i (TProcess p j b) = (if j = i then sure sc p else {})"
| "task_owes sc i (TStat f j) = (if j = i then sure sc [Plain f] else {})"
| "task_owes sc i (TSimple2 f j c) = (if j = i then sure sc [Plain f] else {})"
| "task_owes sc i (TStat2 f j k) = (if j = i then sure sc [Plain f] else {})"
| "task_owes sc i (TEmit j e) = (if j = i then {e} else {})"
| "task_owes sc i (TReaddir a b cb) = cb_owes sc i cb"
| "task_owes sc i (TCall cb ans) = cb_owes sc i cb"
| "task_owes sc i (TGlobStarRest pre a remain j b names) =
     (if j = i then \<Union>e \<in> {e \<in> set names. admitted (m_options (g_minimatch (sc_glob sc))) e}.
        sure sc (prefix_portion pre @ Plain e # tl remain) \<union> sure sc (prefix_portion pre @ Plain e # remain) else {})"
| "task_owes sc i _ = {}"

definition reqs_owe :: "scene \<Rightarrow> nat \<Rightarrow> (akey \<times> acb list) list \<Rightarrow> jstring set" where
  "reqs_owe sc i rs = (\<Union>cb \<in> set (waiters rs). cb_owes sc i cb)"

definition stack_owes :: "scene \<Rightarrow> nat \<Rightarrow> task list \<Rightarrow> jstring set" where
  "stack_owes sc i ts = (\<Union>t \<in> set ts. task_owes sc i t)"

lemma stack_owes_simps [simp]:
  "stack_owes sc i [] = {}" "stack_owes sc i (t # ts) = task_owes sc i t \<union> stack_owes sc i ts"
  "stack_owes sc i (ts @ us) = stack_owes sc i ts \<union> stack_owes sc i us"
  by (auto simp: stack_owes_def)

section \<open>Well-formed work\<close>

definition dir_at :: "jstring \<Rightarrow> bool" where
  "dir_at a \<longleftrightarrow> (\<exists>cs. list_all good_name cs \<and> a = addr cs)"

definition path_ok :: "jstring \<Rightarrow> bool" where
  "path_ok f \<longleftrightarrow> f = [] \<or> tidy_path f"

definition row_part :: "scene \<Rightarrow> nat \<Rightarrow> portion list \<Rightarrow> bool" where
  "row_part sc i P \<longleftrightarrow> i < length (sc_rows sc) \<and> possible sc P \<subseteq> possible sc (sc_rows sc ! i)"

definition split_ok :: "scene \<Rightarrow> jstring option \<Rightarrow> jstring \<Rightarrow> portion list \<Rightarrow> nat \<Rightarrow> bool" where
  "split_ok sc pre a remain i \<longleftrightarrow>
     (\<exists>ts. one_string ts \<and> pre = (if ts = [] then None else Some (hd ts)) \<and> a = addr (sc_home sc @ segments (join [slash] ts))) \<and>
     tidy_tail remain \<and> row_part sc i (prefix_portion pre @ remain)"

fun cb_ok :: "scene \<Rightarrow> akey \<Rightarrow> acb \<Rightarrow> bool" where
  "cb_ok sc key (ReaddirCB pre a remain i b) \<longleftrightarrow>
     (\<exists>b'. key = KReaddir a b') \<and> split_ok sc pre a remain i \<and> (\<exists>k r ps. remain = Magic k r # ps)"
| "cb_ok sc key (GlobStarCB pre a remain i b) \<longleftrightarrow>
     (\<exists>b'. key = KReaddir a b') \<and> split_ok sc pre a remain i \<and> (\<exists>ps. remain = Globstar # ps)"
| "cb_ok sc key (ForwardCB k) \<longleftrightarrow> (\<exists>a. k = KReaddir a True \<and> key = KReaddir a False)"
| "cb_ok sc key (LstatCB a) \<longleftrightarrow> key = KLstat a \<and> dir_at a"
| "cb_ok sc key (StatCB f i) \<longleftrightarrow> key = KStat (makeAbs (sc_fs sc) (sc_glob sc) f) \<and> path_ok f \<and> row_part sc i [Plain f]"

definition entries_at :: "scene \<Rightarrow> jstring \<Rightarrow> jstring list option" where
  "entries_at sc a = (case fs_readdir (sc_fs sc) a of Inr es \<Rightarrow> Some es | Inl er \<Rightarrow> None)"

lemma entries_at_addr: "entries_at sc (addr cs) = listing (sc_fs sc) cs"
  by (simp add: entries_at_def listing_def)

fun ans_ok :: "scene \<Rightarrow> akey \<Rightarrow> answer \<Rightarrow> bool" where
  "ans_ok sc (KReaddir a b) ans \<longleftrightarrow> ans = Entries (entries_at sc a)"
| "ans_ok sc (KLstat a) ans \<longleftrightarrow> ans = Kind (fs_lstat (sc_fs sc) a)"
| "ans_ok sc (KStat a) ans \<longleftrightarrow> ans = Kind (fs_lstat (sc_fs sc) a)"

fun ask_ok :: "scene \<Rightarrow> ask \<Rightarrow> bool" where
  "ask_ok sc (AskReaddir a b) = dir_at a"
| "ask_ok sc (AskLstat (KReaddir a b)) = False"
| "ask_ok sc (AskLstat (KLstat a)) = True"
| "ask_ok sc (AskLstat (KStat a)) = True"
| "ask_ok sc _ = False"

fun task_ok :: "scene \<Rightarrow> glob_obj \<Rightarrow> task \<Rightarrow> bool" where
  "task_ok sc g (TProcess p i b) \<longleftrightarrow> tidy_row p \<and> row_part sc i p"
| "task_ok sc g (TStat f i) \<longleftrightarrow> path_ok f \<and> row_part sc i [Plain f]"
| "task_ok sc g (TSimple2 f i c) \<longleftrightarrow> path_ok f \<and> row_part sc i [Plain f] \<and>
     (present (sc_fs sc) (sc_home sc) f \<longrightarrow> c \<noteq> CFalse) \<and>
     (c \<noteq> CFalse \<longrightarrow> present (sc_fs sc) (sc_home sc) f \<or> believed (sc_fs sc) (sc_home sc) f)"
| "task_ok sc g (TStat2 f i k) \<longleftrightarrow> path_ok f \<and> row_part sc i [Plain f] \<and>
     k = fs_lstat (sc_fs sc) (makeAbs (sc_fs sc) (sc_glob sc) f)"
| "task_ok sc g (TEmit i e) \<longleftrightarrow> i < length (sc_rows sc) \<and> e \<in> possible sc (sc_rows sc ! i) \<and> g_matches g ! i \<noteq> None"
| "task_ok sc g (TReaddir a b cb) \<longleftrightarrow> dir_at a \<and> cb_ok sc (KReaddir a b) cb"
| "task_ok sc g (TDirAnswer a b r) \<longleftrightarrow> dir_at a \<and> r = fs_readdir (sc_fs sc) a"
| "task_ok sc g (TRes key ans) \<longleftrightarrow> ans_ok sc key ans"
| "task_ok sc g (TCall cb ans) \<longleftrightarrow> (\<exists>key. cb_ok sc key cb \<and> ans_ok sc key ans)"
| "task_ok sc g (TFinally key ans) \<longleftrightarrow> ans_ok sc key ans"
| "task_ok sc g (TGlobStarRest pre a remain i b names) \<longleftrightarrow>
     split_ok sc pre a remain i \<and> (\<exists>ps. remain = Globstar # ps) \<and> entries_at sc a = Some names"
| "task_ok sc g TDone \<longleftrightarrow> True"
| "task_ok sc g TFinish \<longleftrightarrow> True"
| "task_ok sc g _ \<longleftrightarrow> False"

section \<open>The invariant\<close>

text \<open>All of an object but the caches, the matches and the results.\<close>

definition setup_of :: "glob_obj \<Rightarrow> glob_obj" where
  "setup_of g = (rest_of g)\<lparr>g_found := []\<rparr>"

definition glob_ok :: "scene \<Rightarrow> glob_obj \<Rightarrow> bool" where
  "glob_ok sc g \<longleftrightarrow>
     caches_true (sc_fs sc) g \<and> setup_of g = setup_of (sc_glob sc) \<and> length (g_matches g) = length (sc_rows sc) \<and>
     (\<forall>i < length (sc_rows sc). row_set g i \<subseteq> possible sc (sc_rows sc ! i))"

definition calm :: "async \<Rightarrow> bool" where
  "calm s \<longleftrightarrow> \<not> a_paused s \<and> \<not> a_aborted s \<and> a_emitQueue s = [] \<and> a_processQueue s = []"

definition reqs_ok :: "scene \<Rightarrow> (akey \<times> acb list) list \<Rightarrow> bool" where
  "reqs_ok sc rs \<longleftrightarrow> distinct (map fst rs) \<and> list_all (\<lambda>(k, cbs). list_all (cb_ok sc k) cbs) rs"

definition walk_inv :: "scene \<Rightarrow> async \<Rightarrow> bool" where
  "walk_inv sc s \<longleftrightarrow>
     calm s \<and> glob_ok sc (a_glob s) \<and> (\<forall>a. a_missing s a \<longrightarrow> fs_lstat (sc_fs sc) a = None) \<and>
     list_all (task_ok sc (a_glob s)) (a_stack s) \<and> reqs_ok sc (a_reqs s) \<and> list_all (ask_ok sc) (a_asks s) \<and>
     list_all (\<lambda>(k, ans). ans_ok sc k ans) (a_ticks s) \<and>
     (\<forall>i < length (sc_rows sc).
        sure sc (sc_rows sc ! i) \<subseteq> row_set (a_glob s) i \<union> stack_owes sc i (a_stack s) \<union> reqs_owe sc i (a_reqs s))"

text \<open>The matches only grow.\<close>

definition grows :: "glob_obj \<Rightarrow> glob_obj \<Rightarrow> bool" where
  "grows g g' \<longleftrightarrow> (\<forall>i. row_set g i \<subseteq> row_set g' i \<and> (g_matches g ! i \<noteq> None \<longrightarrow> g_matches g' ! i \<noteq> None))"

lemma grows_refl [simp]: "grows g g"
  by (simp add: grows_def)

lemma grows_same: "g_matches g' = g_matches g \<Longrightarrow> grows g g'"
  by (simp add: grows_def row_set_def)

lemma task_ok_grows: "task_ok sc g t \<Longrightarrow> grows g g' \<Longrightarrow> task_ok sc g' t"
  by (cases t) (auto simp: grows_def)

text \<open>A task in front is replaced by others.\<close>

lemma walk_inv_replace:
  assumes "walk_inv sc s" "a_stack s = t # ts" "a_stack s' = us @ ts" "calm s'" "glob_ok sc (a_glob s')" "grows (a_glob s) (a_glob s')"
    "\<And>a. a_missing s' a \<Longrightarrow> fs_lstat (sc_fs sc) a = None" "reqs_ok sc (a_reqs s')" "list_all (ask_ok sc) (a_asks s')"
    "list_all (\<lambda>(k, ans). ans_ok sc k ans) (a_ticks s')" "list_all (task_ok sc (a_glob s')) us"
    "\<And>i. i < length (sc_rows sc) \<Longrightarrow> task_owes sc i t \<union> reqs_owe sc i (a_reqs s) \<subseteq>
       row_set (a_glob s') i \<union> stack_owes sc i us \<union> reqs_owe sc i (a_reqs s')"
  shows "walk_inv sc s'"
proof -
  have old: "list_all (task_ok sc (a_glob s)) (t # ts)"
    "\<And>i. i < length (sc_rows sc) \<Longrightarrow>
       sure sc (sc_rows sc ! i) \<subseteq> row_set (a_glob s) i \<union> stack_owes sc i (t # ts) \<union> reqs_owe sc i (a_reqs s)"
    using assms(1,2) by (simp_all add: walk_inv_def)
  have "list_all (task_ok sc (a_glob s')) ts"
    using old(1) task_ok_grows [OF _ assms(6)] by (auto simp: list_all_iff)
  moreover have "sure sc (sc_rows sc ! i) \<subseteq> row_set (a_glob s') i \<union> stack_owes sc i (us @ ts) \<union> reqs_owe sc i (a_reqs s')"
    if "i < length (sc_rows sc)" for i
    using old(2) [OF that] assms(12) [OF that] assms(6) unfolding grows_def by fastforce
  ultimately show ?thesis
    using assms(3-5,7-11) by (simp add: walk_inv_def)
qed

text \<open>The same where nothing but the object and the stack changes.\<close>

lemma walk_inv_push:
  assumes "walk_inv sc s" "a_stack s = t # ts" "a_stack s' = us @ ts" "calm s'"
    "\<forall>a. a_missing s' a \<longrightarrow> a_missing s a \<or> fs_lstat (sc_fs sc) a = None"
    "a_reqs s' = a_reqs s" "a_asks s' = a_asks s" "a_ticks s' = a_ticks s"
    "glob_ok sc (a_glob s')" "grows (a_glob s) (a_glob s')" "list_all (task_ok sc (a_glob s')) us"
    "\<And>i. i < length (sc_rows sc) \<Longrightarrow> task_owes sc i t \<subseteq> row_set (a_glob s') i \<union> stack_owes sc i us"
  shows "walk_inv sc s'"
proof (rule walk_inv_replace [OF assms(1-4) assms(9,10)])
  show "task_owes sc i t \<union> reqs_owe sc i (a_reqs s) \<subseteq> row_set (a_glob s') i \<union> stack_owes sc i us \<union> reqs_owe sc i (a_reqs s')"
    if "i < length (sc_rows sc)" for i
    using assms(12) [OF that] by (auto simp: assms(6))
qed (use assms in \<open>auto simp: walk_inv_def\<close>)

text \<open>A step keeps the invariant and the books, and uses something up.\<close>

definition advances :: "scene \<Rightarrow> async \<Rightarrow> async \<Rightarrow> bool" where
  "advances sc s s' \<longleftrightarrow> walk_inv sc s' \<and> (ledger s \<longrightarrow> ledger s' \<and> (s', s) \<in> shrinks sc)"

lemma advances_push:
  assumes "walk_inv sc s" "a_stack s = t # ts" "a_stack s' = us @ ts" "calm s'"
    "\<forall>a. a_missing s' a \<longrightarrow> a_missing s a \<or> fs_lstat (sc_fs sc) a = None"
    "a_reqs s' = a_reqs s" "a_asks s' = a_asks s" "a_ticks s' = a_ticks s"
    "glob_ok sc (a_glob s')" "grows (a_glob s) (a_glob s')" "list_all (task_ok sc (a_glob s')) us"
    "\<And>i. i < length (sc_rows sc) \<Longrightarrow> task_owes sc i t \<subseteq> row_set (a_glob s') i \<union> stack_owes sc i us"
    "trades sc t us" "a_processing s' = a_processing s + int (gain t)"
    "filter is_end (a_events s') = filter is_end (a_events s)" "first_calls t \<Longrightarrow> starting s \<Longrightarrow> starting s'"
  shows "advances sc s s'"
  unfolding advances_def
  using walk_inv_push [OF assms(1-12)] ledger_push [OF _ assms(2,3,13) assms(6-8) assms(14-16)] by blast

lemmas trade_defs = trades_def gain_def

lemma walk_invD:
  assumes "walk_inv sc s"
  shows "calm s" "glob_ok sc (a_glob s)" "a_missing s a \<Longrightarrow> fs_lstat (sc_fs sc) a = None" "reqs_ok sc (a_reqs s)"
    "a_stack s = t # ts \<Longrightarrow> task_ok sc (a_glob s) t"
    "list_all (ask_ok sc) (a_asks s)" "list_all (\<lambda>(k, ans). ans_ok sc k ans) (a_ticks s)"
  using assms by (auto simp: walk_inv_def)

lemma setup_sel:
  "g_root (setup_of g) = g_root g" "g_maxLength (setup_of g) = g_maxLength g" "g_ignore (setup_of g) = g_ignore g" "g_minimatch (setup_of g) =
  g_minimatch g" "g_dot (setup_of g) = g_dot g" "g_changedCwd (setup_of g) = g_changedCwd g" "g_cwd (setup_of g) = g_cwd g" "g_mark (setup_of g)
  = g_mark g" "g_stat (setup_of g) = g_stat g" "g_nomount (setup_of g) = g_nomount g" "g_follow (setup_of g) = g_follow g" "g_strict (setup_of
  g) = g_strict g" "g_realpath (setup_of g) = g_realpath g" "g_nodir (setup_of g) = g_nodir g" "g_nonull (setup_of g) = g_nonull g"
  "g_nounique (setup_of g) = g_nounique g" "g_nosort (setup_of g) = g_nosort g" "g_nocase (setup_of g) = g_nocase g" "g_noprocess (setup_of g) = g_noprocess g"
  by (simp_all add: setup_of_def rest_of_def)

lemma setup_eqD:
  assumes "setup_of g = setup_of g0"
  shows "g_root g = g_root g0" "g_maxLength g = g_maxLength g0" "g_ignore g = g_ignore g0" "g_minimatch g = g_minimatch g0"
    "g_dot g = g_dot g0" "g_changedCwd g = g_changedCwd g0" "g_cwd g = g_cwd g0" "g_mark g = g_mark g0"
    "g_stat g = g_stat g0" "g_nomount g = g_nomount g0" "g_follow g = g_follow g0" "g_strict g = g_strict g0"
    "g_realpath g = g_realpath g0" "g_nodir g = g_nodir g0" "g_nonull g = g_nonull g0" "g_nounique g = g_nounique g0"
    "g_nosort g = g_nosort g0" "g_nocase g = g_nocase g0" "g_noprocess g = g_noprocess g0"
  unfolding setup_sel [symmetric, of g] setup_sel [symmetric, of g0] assms by (rule refl)+

section \<open>Facts of the setting\<close>

lemma tidy_sceneD:
  assumes "tidy_scene sc"
  shows "tidy_fs (sc_fs sc) (sc_depth sc)" "glob_conf (sc_fs sc) (sc_home sc) (sc_glob sc)" "list_all good_name (sc_home sc)"
  using assms by (simp_all add: tidy_scene_def glob_conf_def)

lemma setup_rest: "rest_of g' = rest_of g \<Longrightarrow> setup_of g' = setup_of g"
  by (simp add: setup_of_def)

lemma glob_okD:
  assumes "tidy_scene sc" "glob_ok sc g"
  shows "glob_conf (sc_fs sc) (sc_home sc) g" "makeAbs (sc_fs sc) g f = makeAbs (sc_fs sc) (sc_glob sc) f"
    "caches_true (sc_fs sc) g" "length (g_matches g) = length (sc_rows sc)" "\<not> g_mark g" "\<not> g_nodir g" "\<not> g_realpath g"
    "g_minimatch g = g_minimatch (sc_glob sc)" "i < length (sc_rows sc) \<Longrightarrow> row_set g i \<subseteq> possible sc (sc_rows sc ! i)"
proof -
  have f: "setup_of g = setup_of (sc_glob sc)" using assms(2) by (simp add: glob_ok_def)
  note e = setup_eqD [OF f]
  show "glob_conf (sc_fs sc) (sc_home sc) g"
    using tidy_sceneD(2) [OF assms(1)] unfolding glob_conf_def e .
  show "makeAbs (sc_fs sc) g f = makeAbs (sc_fs sc) (sc_glob sc) f"
    by (simp add: makeAbs_def e)
qed (use assms setup_eqD [of g "sc_glob sc"] in \<open>auto simp: glob_ok_def tidy_scene_def\<close>)

lemma glob_ok_learns: "glob_ok sc g \<Longrightarrow> learns (sc_fs sc) g g' \<Longrightarrow> glob_ok sc g'"
  using setup_rest [of g' g] by (simp add: glob_ok_def learns_def row_set_def)

lemma learns_grows: "learns fs g g' \<Longrightarrow> grows g g'"
  by (simp add: learns_def grows_same)

lemma glob_ok_extends:
  assumes "glob_ok sc g" "extends (sc_fs sc) i lo hi g g'" "hi \<subseteq> possible sc (sc_rows sc ! i)"
  shows "glob_ok sc g'"
proof -
  have "row_set g' j \<subseteq> possible sc (sc_rows sc ! j)" if "j < length (sc_rows sc)" for j
  proof (cases "j = i")
    case True
    have "row_set g i \<subseteq> possible sc (sc_rows sc ! i)" "row_set g' i \<subseteq> row_set g i \<union> hi"
      using assms(1,2) that True by (simp_all add: glob_ok_def extends_def)
    then show ?thesis using assms(3) True by blast
  next
    case False
    then have "row_set g' j = row_set g j" using assms(2) by (simp add: extends_def row_set_def)
    then show ?thesis using assms(1) that by (simp add: glob_ok_def)
  qed
  then show ?thesis
    using assms(1) extends_keeps [OF assms(2)] setup_rest [of g' g] by (simp add: glob_ok_def)
qed

lemma no_match_some: "i < length (g_matches g) \<Longrightarrow> g_matches (no_match i g) ! i \<noteq> None"
  by (simp add: no_match_def)

lemma grows_no_match: "grows g (no_match i g)"
proof -
  have "row_set g j \<subseteq> row_set (no_match i g) j \<and> (g_matches g ! j \<noteq> None \<longrightarrow> g_matches (no_match i g) ! j \<noteq> None)" for j
    by (cases "j = i"; cases "i < length (g_matches g)") (auto simp: no_match_def row_set_def not_less list_update_beyond split: option.splits)
  then show ?thesis by (simp add: grows_def)
qed

lemma grows_add_match: "grows g (add_match i e g)"
proof -
  have "row_set g j \<subseteq> row_set (add_match i e g) j \<and> (g_matches g ! j \<noteq> None \<longrightarrow> g_matches (add_match i e g) ! j \<noteq> None)" for j
    by (cases "j = i"; cases "i < length (g_matches g)") (auto simp: add_match_def row_set_def Let_def not_less list_update_beyond split: option.splits)
  then show ?thesis by (simp add: grows_def)
qed

lemma glob_ok_no_match:
  assumes "glob_ok sc g" "i < length (sc_rows sc)"
  shows "glob_ok sc (no_match i g)"
  using assms by (intro glob_ok_extends [OF assms(1) extends_no_match]) (auto simp: glob_ok_def)

lemma glob_ok_add_match:
  assumes "glob_ok sc g" "i < length (sc_rows sc)" "e \<in> possible sc (sc_rows sc ! i)"
  shows "glob_ok sc (add_match i e g)"
  using assms by (intro glob_ok_extends [OF assms(1) extends_add]) (auto simp: glob_ok_def)

lemma calm_simps [simp]:
  "calm (push us s) = calm s" "calm (s\<lparr>a_stack := ts\<rparr>) = calm s" "calm (s\<lparr>a_processing := p\<rparr>) = calm s"
  "calm (with_glob f s) = calm s" "calm (s\<lparr>a_reqs := rs\<rparr>) = calm s" "calm (s\<lparr>a_ticks := q\<rparr>) = calm s"
  "calm (s\<lparr>a_asks := qs\<rparr>) = calm s" "calm (note_event e s) = calm s" "calm (s\<lparr>a_glob := g\<rparr>) = calm s"
  "calm (s\<lparr>a_missing := m\<rparr>) = calm s" "calm (asking as s) = calm s" "calm (inflight_join k cb s) = calm s"
  "calm (inflight_open k cb s) = calm s"
  by (simp_all add: calm_def push_def with_glob_def note_event_def asking_def inflight_join_def inflight_open_def)

lemmas async_simps = push_def with_glob_def note_event_def asking_def inflight_join_def inflight_open_def

lemma sure_plain: "sure sc [Plain f] = {m. m = f \<and> present (sc_fs sc) (sc_home sc) m}"
  using answers_plain [of _ _ _ _ _ "[f]"] by (simp add: sure_def)

lemma possible_plain:
  "possible sc [Plain f] = {m. m = f \<and> (present (sc_fs sc) (sc_home sc) m \<or> believed (sc_fs sc) (sc_home sc) m)}"
  using answers_plain [of _ _ _ _ _ "[f]"] by (simp add: possible_def)

section \<open>One task after the other\<close>

lemma idle_after:
  assumes "ledger s" "a_stack s = TDone # ts" "a_stack s' = us @ ts" "a_reqs s' = a_reqs s" "us = [] \<or> us = [TFinish]"
  shows "idle s' \<longleftrightarrow> works s = 1" "Suc (works s') = works s"
proof -
  have w: "Suc (works s') = works s" using assms(2-5) by (auto simp: works_def)
  have c: "covered ts" using ledgerD(4) [OF assms(1)] assms(2) by (auto simp: starting_def)
  have "sum_list (map task_work ts) \<le> works s'" using assms(3) by (simp add: works_def)
  then have "works s' \<noteq> 0" if "list_ex opens ts"
    using covered_works [OF c that] by linarith
  then show "idle s' \<longleftrightarrow> works s = 1" "Suc (works s') = works s" using w assms(3,5) by (auto simp: idle_def)
qed

lemma done_inv:
  assumes "walk_inv sc s" "a_stack s = TDone # ts"
  shows "advances sc s (run_done (s\<lparr>a_stack := ts\<rparr>))"
proof -
  let ?s = "run_done (s\<lparr>a_stack := ts\<rparr>)" and ?us = "if a_processing s - 1 \<le> 0 then [TFinish] else []"
  have "walk_inv sc ?s"
    by (rule walk_inv_push [OF assms, where us = ?us])
      (use walk_invD [OF assms(1)] in \<open>simp_all add: run_done_def push_def Let_def\<close>)
  moreover have "ledger ?s \<and> (?s, s) \<in> shrinks sc" if l: "ledger s"
  proof
    have r: "a_stack ?s = ?us @ ts" "a_reqs ?s = a_reqs s" "a_asks ?s = a_asks s" "a_ticks ?s = a_ticks s" "a_events ?s = a_events s"
      "a_processing ?s = a_processing s - 1" "a_glob ?s = a_glob s" "a_missing ?s = a_missing s"
      by (simp_all add: run_done_def push_def Let_def)
    have "?us = [] \<or> ?us = [TFinish]" by simp
    note i = idle_after [OF l assms(2) r(1,2) this]
    note d = ledgerD [OF l]
    have "\<not> idle s" using assms(2) by (simp add: idle_def works_def)
    then have "count_list ts TFinish + length (filter is_end (a_events s)) = 0" using d(3) assms(2) by (simp add: finishes_def)
    then have "finishes ?s = (if idle ?s then 1 else 0)"
      using i d(2) r by (auto simp: finishes_def count_list_append)
    moreover have "holders ?s = holders s" using assms(2) r by (simp add: holders_def)
    moreover have "covered ts" using d(4) assms(2) by (auto simp: starting_def)
    ultimately show "ledger ?s" using d(1,2) i(2) r by (simp add: ledger_def)
    let ?I = "sum_list (map (task_mass sc) ts) + sum_list (map (\<lambda>cb. {#Suc (cb_weight sc cb)#}) (waiters (a_reqs s)))"
    have "(?I + sum_list (map (task_mass sc) ?us), ?I + {#2#}) \<in> mult less_than"
      by (intro mult_below) (auto simp: task_mass_def split: if_splits)
    then show "(?s, s) \<in> shrinks sc"
      using assms(2) r by (intro shrinks_mass) (simp add: mass_def task_mass_def ac_simps)
  qed
  ultimately show ?thesis by (simp add: advances_def)
qed

lemma finish_common_setup:
  assumes "\<not> g_mark g"
  shows "\<exists>found. finish_common lc collate fs g = g\<lparr>g_found := found\<rparr>"
  unfolding finish_common_def Let_def using assms by (simp only: simp_thms if_False prod.case) (rule exI, rule refl)

lemma glob_ok_found [simp]: "glob_ok sc (g\<lparr>g_found := xs\<rparr>) = glob_ok sc g"
proof -
  have "caches_true fs (g\<lparr>g_found := xs\<rparr>) = caches_true fs g" for fs by (simp add: caches_true_def cache_ok_def)
  moreover have "setup_of (g\<lparr>g_found := xs\<rparr>) = setup_of g" by (simp add: setup_of_def rest_of_def)
  moreover have "row_set (g\<lparr>g_found := xs\<rparr>) i = row_set g i" for i by (simp add: row_set_def)
  ultimately show ?thesis by (simp add: glob_ok_def)
qed

text \<open>Nothing is owed once no call is left.\<close>

lemma idle_owes:
  assumes "idle s"
  shows "stack_owes sc i (a_stack s) = {}" "reqs_owe sc i (a_reqs s) = {}"
proof -
  have w: "task_work t = 0 \<and> \<not> opens t" if "t \<in> set (a_stack s)" for t
    using assms that by (auto simp: idle_def works_def list_ex_iff)
  have cb: "cb_owes sc i cb = {}" if "cb_work cb = 0" for cb using that by (cases cb) auto
  have "task_owes sc i t = {}" if "t \<in> set (a_stack s)" for t
    using w [OF that] cb by (cases t) auto
  then show "stack_owes sc i (a_stack s) = {}" by (simp add: stack_owes_def)
  show "reqs_owe sc i (a_reqs s) = {}" using assms cb by (auto simp: idle_def works_def reqs_owe_def)
qed

lemma finish_runs:
  assumes "tidy_scene sc" "walk_inv sc s"
  obtains found where "run_finish lc collate (sc_fs sc) (s\<lparr>a_stack := ts\<rparr>) =
      s\<lparr>a_glob := (a_glob s)\<lparr>g_found := found\<rparr>, a_stack := ts, a_events := a_events s @ [EEnd found]\<rparr>"
    "found = g_found (finish_common lc collate (sc_fs sc) (a_glob s))"
proof -
  note d = walk_invD [OF assms(2)]
  note g = glob_okD [OF assms(1) d(2)]
  obtain found where f: "finish_common lc collate (sc_fs sc) (a_glob s) = (a_glob s)\<lparr>g_found := found\<rparr>"
    using finish_common_setup [OF g(5)] by blast
  have "run_finish lc collate (sc_fs sc) (s\<lparr>a_stack := ts\<rparr>) =
      s\<lparr>a_glob := (a_glob s)\<lparr>g_found := found\<rparr>, a_stack := ts, a_events := a_events s @ [EEnd found]\<rparr>"
    using d(1) g(7) by (simp add: run_finish_def calm_def with_glob_def note_event_def Let_def f)
  then show thesis by (rule that) (simp add: f)
qed

lemma finish_inv:
  assumes "tidy_scene sc" "walk_inv sc s" "a_stack s = TFinish # ts"
  shows "advances sc s (run_finish lc collate (sc_fs sc) (s\<lparr>a_stack := ts\<rparr>))"
proof -
  obtain found where r: "run_finish lc collate (sc_fs sc) (s\<lparr>a_stack := ts\<rparr>) =
      s\<lparr>a_glob := (a_glob s)\<lparr>g_found := found\<rparr>, a_stack := ts, a_events := a_events s @ [EEnd found]\<rparr>"
    by (rule finish_runs [OF assms(1,2)])
  let ?s = "s\<lparr>a_glob := (a_glob s)\<lparr>g_found := found\<rparr>, a_stack := ts, a_events := a_events s @ [EEnd found]\<rparr>"
  have "walk_inv sc ?s"
    by (rule walk_inv_push [OF assms(2,3), where us = "[]"])
      (use walk_invD [OF assms(2)] in \<open>auto simp: calm_def intro: grows_same\<close>)
  moreover have "ledger ?s \<and> (?s, s) \<in> shrinks sc" if l: "ledger s"
  proof
    note d = ledgerD [OF l]
    have "finishes ?s = finishes s" "idle ?s = idle s" "holders ?s = holders s" "works ?s = works s"
      using assms(3) by (simp_all add: finishes_def idle_def holders_def works_def)
    moreover have "covered ts" using d(4) assms(3) by (auto simp: starting_def)
    ultimately show "ledger ?s" using d by (simp add: ledger_def)
    let ?I = "sum_list (map (task_mass sc) ts) + sum_list (map (\<lambda>cb. {#Suc (cb_weight sc cb)#}) (waiters (a_reqs s)))"
    have "(?I + {#}, ?I + {#1#}) \<in> mult less_than" by (intro mult_below) auto
    then show "(?s, s) \<in> shrinks sc"
      using assms(3) by (intro shrinks_mass) (simp add: mass_def task_mass_def ac_simps)
  qed
  ultimately show ?thesis unfolding r by (simp add: advances_def)
qed

lemma emit_events:
  fixes fs s ts e i
  shows "\<exists>es. filter is_end es = [] \<and> note_event (EMatch e)
     (case g_statCache (a_glob (with_glob (add_match i e) (s\<lparr>a_stack := ts\<rparr>))) (makeAbs fs (a_glob s) e) of
        None \<Rightarrow> with_glob (add_match i e) (s\<lparr>a_stack := ts\<rparr>)
      | Some k \<Rightarrow> note_event (EStat e k) (with_glob (add_match i e) (s\<lparr>a_stack := ts\<rparr>))) =
     s\<lparr>a_stack := ts, a_glob := add_match i e (a_glob s), a_events := a_events s @ es\<rparr>"
  by (rule exI [of _ "(case g_statCache (add_match i e (a_glob s)) (makeAbs fs (a_glob s) e) of None \<Rightarrow> [] | Some k \<Rightarrow> [EStat e k]) @ [EMatch e]"])
    (simp add: async_simps split: option.split)

lemma match_inv:
  assumes "tidy_scene sc" "walk_inv sc s" "a_stack s = TEmit i e # ts"
  shows "advances sc s (run_emit lc (sc_fs sc) i e (s\<lparr>a_stack := ts\<rparr>))"
proof -
  note d = walk_invD [OF assms(2)]
  note g = glob_okD [OF assms(1) d(2)]
  have t: "i < length (sc_rows sc)" "e \<in> possible sc (sc_rows sc ! i)" "g_matches (a_glob s) ! i \<noteq> None"
    using d(5) [OF assms(3)] by simp_all
  then obtain old where old: "g_matches (a_glob s) ! i = Some old" by blast
  have ign: "\<not> isIgnored lc (a_glob s) e" using g(1) by (simp add: isIgnored_def glob_conf_def)
  have run: "run_emit lc (sc_fs sc) i e (s\<lparr>a_stack := ts\<rparr>) = s\<lparr>a_stack := ts\<rparr> \<and> e \<in> set old \<or>
     (\<exists>es. filter is_end es = [] \<and> run_emit lc (sc_fs sc) i e (s\<lparr>a_stack := ts\<rparr>) =
        s\<lparr>a_stack := ts, a_glob := add_match i e (a_glob s), a_events := a_events s @ es\<rparr>)"
    using d(1) g(5,6) old ign emit_events [where fs = "sc_fs sc" and s = s and ts = ts and e = e and i = i] by (simp add: run_emit_def calm_def Let_def)
  from run show ?thesis
  proof (elim disjE exE conjE)
    assume "run_emit lc (sc_fs sc) i e (s\<lparr>a_stack := ts\<rparr>) = s\<lparr>a_stack := ts\<rparr>" "e \<in> set old"
    then show ?thesis
      by (intro advances_push [OF assms(2,3), where us = "[]"]) (use d old in \<open>auto simp: row_set_def trade_defs\<close>)
  next
    fix es assume r: "run_emit lc (sc_fs sc) i e (s\<lparr>a_stack := ts\<rparr>) =
        s\<lparr>a_stack := ts, a_glob := add_match i e (a_glob s), a_events := a_events s @ es\<rparr>" and es: "filter is_end es = []"
    have "e \<in> row_set (add_match i e (a_glob s)) i"
      using t(1) g(4) by (simp add: row_set_def add_match_def Let_def)
    then show ?thesis unfolding r
      by (intro advances_push [OF assms(2,3), where us = "[]"])
        (use d t es glob_ok_add_match [OF d(2) t(1,2)] grows_add_match in \<open>auto simp: calm_def trade_defs\<close>)
  qed
qed

lemma simple2_inv:
  assumes "tidy_scene sc" "walk_inv sc s" "a_stack s = TSimple2 f i c # ts"
  shows "advances sc s (run_simple2 f i c (s\<lparr>a_stack := ts\<rparr>))"
proof -
  note d = walk_invD [OF assms(2)]
  note g = glob_okD [OF assms(1) d(2)]
  have t: "path_ok f" "i < length (sc_rows sc)" "possible sc [Plain f] \<subseteq> possible sc (sc_rows sc ! i)"
    "present (sc_fs sc) (sc_home sc) f \<longrightarrow> c \<noteq> CFalse"
    "c \<noteq> CFalse \<longrightarrow> present (sc_fs sc) (sc_home sc) f \<or> believed (sc_fs sc) (sc_home sc) f"
    using d(5) [OF assms(3)] by (simp_all add: row_part_def)
  have rel: "\<not> isAbsolute f" using t(1) by (auto simp: path_ok_def tidy_path_def isAbsolute_hd)
  show ?thesis
    by (rule advances_push [OF assms(2,3), where us = "if c = CFalse then [TDone] else [TEmit i f, TDone]"])
      (use d(1) t rel glob_ok_no_match [OF d(2) t(2)] grows_no_match no_match_some g(4) in
        \<open>auto simp: run_simple2_def Let_def push_def with_glob_def sure_plain possible_plain trade_defs\<close>)
qed

text \<open>A callback that joins a request or opens one.\<close>

definition add_req :: "akey \<Rightarrow> acb \<Rightarrow> (akey \<times> acb list) list \<Rightarrow> (akey \<times> acb list) list" where
  "add_req key cb rs =
     (if map_of rs key = None then (key, [cb]) # rs else map (\<lambda>(k, cbs). (k, if k = key then cbs @ [cb] else cbs)) rs)"

lemma fst_keep [simp]: "fst \<circ> (\<lambda>(k, cbs). (k, f k cbs)) = fst"
  by auto

lemma reqs_ok_add:
  assumes "reqs_ok sc rs" "cb_ok sc key cb"
  shows "reqs_ok sc (add_req key cb rs)"
proof (cases "map_of rs key = None")
  case True
  then show ?thesis using assms by (simp add: reqs_ok_def add_req_def map_of_eq_None_iff)
next
  case False
  then show ?thesis
    using assms fst_keep [of "\<lambda>k cbs. if k = key then cbs @ [cb] else cbs"]
    by (fastforce simp: reqs_ok_def add_req_def list_all_iff split: if_splits)
qed

lemma replace_absent: "key \<notin> fst ` set rs \<Longrightarrow> map (\<lambda>(k, cbs). (k, if k = key then f cbs else cbs)) rs = rs"
  by (induction rs) auto

lemma mset_waiters_add:
  assumes "distinct (map fst rs)"
  shows "mset (waiters (add_req key cb rs)) = add_mset cb (mset (waiters rs))"
proof (cases "map_of rs key = None")
  case True
  then show ?thesis by (simp add: add_req_def waiters_def)
next
  case False
  then have "key \<in> fst ` set rs" by (simp add: map_of_eq_None_iff)
  then have "mset (waiters (map (\<lambda>(k, cbs). (k, if k = key then cbs @ [cb] else cbs)) rs)) = add_mset cb (mset (waiters rs))"
    using assms
  proof (induction rs)
    case (Cons r rs)
    obtain k cbs where r: "r = (k, cbs)" by force
    show ?case
    proof (cases "k = key")
      case True
      then show ?thesis using Cons.prems(2) replace_absent [of key rs "\<lambda>cbs. cbs @ [cb]"] by (simp add: r waiters_def)
    next
      case False
      then show ?thesis using Cons by (simp add: r waiters_def)
    qed
  qed simp
  moreover have "add_req key cb rs = map (\<lambda>(k, cbs). (k, if k = key then cbs @ [cb] else cbs)) rs"
    using False by (simp only: add_req_def if_False)
  ultimately show ?thesis by (simp only:)
qed

lemma reqs_owe_add:
  assumes "reqs_ok sc rs"
  shows "reqs_owe sc i (add_req key cb rs) = reqs_owe sc i rs \<union> cb_owes sc i cb"
proof -
  have "set_mset (mset (waiters (add_req key cb rs))) = insert cb (set (waiters rs))"
    using assms by (subst mset_waiters_add) (simp_all add: reqs_ok_def)
  then show ?thesis by (auto simp: reqs_owe_def)
qed

lemma makeAbs_scene:
  assumes "tidy_scene sc" "glob_ok sc g" "tidy_path f"
  shows "makeAbs (sc_fs sc) g f = addr (sc_home sc @ segments f)" "list_all good_name (sc_home sc @ segments f)"
  using makeAbs_tidy(1) [OF tidy_sceneD(1) [OF assms(1)] glob_okD(1) [OF assms(1,2)] assms(3)] tidy_sceneD(3) [OF assms(1)] assms(3)
  by (simp_all add: tidy_path_def)

lemma stat_cases:
  fixes s fs f
  defines "absp \<equiv> makeAbs fs (a_glob s) f"
  obtains (known) "run_stat fs f i s = push [TSimple2 f i (snd (glob_stat fs f (a_glob s)))] s"
    | (missing) "a_missing s absp" "run_stat fs f i s = push [TSimple2 f i CFalse] s"
    | (waits) "a_reqs (run_stat fs f i s) = add_req (KStat absp) (StatCB f i) (a_reqs s)" "a_stack (run_stat fs f i s) = a_stack s"
        "a_asks (run_stat fs f i s) = (if map_of (a_reqs s) (KStat absp) = None then a_asks s @ [AskLstat (KStat absp)] else a_asks s)"
        "a_glob (run_stat fs f i s) = a_glob s" "a_missing (run_stat fs f i s) = a_missing s" "a_ticks (run_stat fs f i s) = a_ticks s"
        "calm (run_stat fs f i s) = calm s" "a_processing (run_stat fs f i s) = a_processing s" "a_events (run_stat fs f i s) = a_events s"
        "g_statCache (a_glob s) absp = None" "g_stat (a_glob s) \<or> g_cache (a_glob s) absp = None \<or> ends_slash f"
proof -
  let ?g = "a_glob s"
  consider "run_stat fs f i s = push [TSimple2 f i (snd (glob_stat fs f ?g))] s"
    | "run_stat fs f i s = run_stat_fresh fs f i s" "glob_stat fs f ?g = stat_fresh fs absp (ends_slash f) ?g"
      "g_stat ?g \<or> g_cache ?g absp = None \<or> ends_slash f"
  proof (cases "case g_maxLength ?g of Some n \<Rightarrow> n < length f | None \<Rightarrow> False")
    case True
    then show ?thesis using that(1) by (simp add: run_stat_def glob_stat_def Let_def)
  next
    case long: False
    show ?thesis
    proof (cases "if g_stat ?g then None else g_cache ?g absp")
      case None
      then have "g_stat ?g \<or> g_cache ?g absp = None \<or> ends_slash f" by (auto split: if_splits)
      then show ?thesis using long None
        by (intro that(2)) (simp_all add: run_stat_def glob_stat_def absp_def [symmetric] Let_def cong: if_cong)
    next
      case (Some c)
      let ?c' = "if is_dir_entry c then CDir else c"
      show ?thesis
      proof (cases "\<not> ends_slash f \<or> ?c' = CDir \<or> ?c' = CFile")
        case True
        then have "run_stat fs f i s = push [TSimple2 f i (snd (glob_stat fs f ?g))] s"
          using long Some by (auto simp: run_stat_def glob_stat_def absp_def [symmetric] Let_def split: if_splits)
        then show ?thesis by (rule that(1))
      next
        case False
        then show ?thesis using long Some
          by (intro that(2)) (auto simp: run_stat_def glob_stat_def absp_def [symmetric] Let_def)
      qed
    qed
  qed
  then show thesis
  proof cases
    case 1
    then show thesis by (rule known)
  next
    case 2
    note r = 2(1) [unfolded run_stat_fresh_def absp_def [symmetric] Let_def]
    show thesis
    proof (cases "a_missing s absp")
      case True
      then show thesis using missing r by simp
    next
      case False
      show thesis
      proof (cases "g_statCache ?g absp")
        case (Some k)
        then show thesis using known r 2(2) False by (simp add: stat_fresh_def Let_def)
      next
        case None
        then have "run_stat fs f i s =
          (if map_of (a_reqs s) (KStat absp) = None
           then asking [AskLstat (KStat absp)] (inflight_open (KStat absp) (StatCB f i) s)
           else inflight_join (KStat absp) (StatCB f i) s)" using r False by simp
        then show thesis
          by (intro waits) (use None 2(3) in \<open>simp_all add: add_req_def asking_def inflight_open_def inflight_join_def\<close>)
      qed
    qed
  qed
qed

lemma starting_stat:
  assumes "starting s" "g_maxLength (a_glob s) = None"
  shows "a_stack (run_stat fs f i s) = a_stack s"
  using assms by (simp add: run_stat_def run_stat_fresh_def starting_def Let_def asking_def inflight_open_def inflight_join_def)

lemma keys_add:
  "mset (map fst (add_req key cb rs)) = mset (map fst rs) + mset (if map_of rs key = None then [key] else [])"
  using fst_keep [of "\<lambda>k cbs. if k = key then cbs @ [cb] else cbs"] by (simp add: add_req_def flip: mset_map)

lemma mset_waiters_add_req:
  assumes "reqs_ok sc rs"
  shows "mset (waiters (add_req key cb rs)) = mset (waiters rs) + mset [cb]"
  using mset_waiters_add [of rs key cb] assms by (simp add: reqs_ok_def)

lemma starting_less: "starting s \<Longrightarrow> a_stack s = t # ts \<Longrightarrow> starting (s\<lparr>a_stack := ts\<rparr>)"
  by (simp add: starting_def)

lemma stat_inv:
  assumes "tidy_scene sc" "walk_inv sc s" "a_stack s = TStat f i # ts"
  shows "advances sc s (run_stat (sc_fs sc) f i (s\<lparr>a_stack := ts\<rparr>))"
proof -
  note d = walk_invD [OF assms(2)]
  note g = glob_okD [OF assms(1) d(2)]
  note fs = tidy_sceneD [OF assms(1)]
  have t: "path_ok f" "row_part sc i [Plain f]" using d(5) [OF assms(3)] by simp_all
  let ?s = "s\<lparr>a_stack := ts\<rparr>"
  have go: "\<not> starting s" if "run_stat (sc_fs sc) f i ?s = push [TSimple2 f i c] ?s" for c
    using starting_stat [OF starting_less [OF _ assms(3)], of "sc_fs sc" f i] that g(1) by (auto simp: push_def glob_conf_def)
  have push: "advances sc s (push [TSimple2 f i c] ?s)"
    if "\<not> starting s" "present (sc_fs sc) (sc_home sc) f \<longrightarrow> c \<noteq> CFalse"
      "c \<noteq> CFalse \<longrightarrow> present (sc_fs sc) (sc_home sc) f \<or> believed (sc_fs sc) (sc_home sc) f" for c
    by (rule advances_push [OF assms(2,3), where us = "[TSimple2 f i c]"]) (use d t that in \<open>auto simp: push_def trade_defs\<close>)
  have gone: "fs_lstat (sc_fs sc) (makeAbs (sc_fs sc) (a_glob s) f) = None \<Longrightarrow> \<not> present (sc_fs sc) (sc_home sc) f"
    using makeAbs_scene(1) [OF assms(1) d(2)] by (auto simp: present_def split: if_splits)
  show ?thesis
  proof (cases rule: stat_cases [of "sc_fs sc" f i ?s])
    case known
    show ?thesis
    proof (cases "f = []")
      case True
      then have "glob_stat (sc_fs sc) f (a_glob s) = (a_glob s, CFalse)"
        using g(1,3) fs(1) by (simp add: glob_stat_def makeAbs_def glob_conf_def caches_true_def tidy_fs_def stat_fresh_def)
      then show ?thesis using go [OF known] unfolding known by (intro push) (simp_all add: True present_def tidy_path_def)
    next
      case False
      then have "tidy_path f" using t(1) by (simp add: path_ok_def)
      with glob_stat_true(2,3) [OF fs(1) g(1,3)] show ?thesis using go [OF known] unfolding known by (intro push) auto
    qed
  next
    case missing
    then show ?thesis using d(3) gone push go by simp
  next
    case waits
    let ?key = "KStat (makeAbs (sc_fs sc) (a_glob s) f)" and ?s' = "run_stat (sc_fs sc) f i ?s"
    have k: "cb_ok sc ?key (StatCB f i)" using t g(2) by simp
    have "walk_inv sc ?s'"
      by (rule walk_inv_replace [OF assms(2,3), where us = "[]"])
        (use waits d reqs_ok_add [OF d(4) k] in \<open>auto simp: reqs_owe_add [OF d(4)]\<close>)
    moreover have "ledger ?s' \<and> (?s', s) \<in> shrinks sc" if l: "ledger s"
      by (rule ledger_wait [OF l assms(3), where us = "[]" and cbs = "[StatCB f i]" and
            ks = "if map_of (a_reqs s) ?key = None then [?key] else []" and
            qs = "if map_of (a_reqs s) ?key = None then [AskLstat ?key] else []"])
        (use waits mset_waiters_add_req [OF d(4), of ?key "StatCB f i"] keys_add [of ?key "StatCB f i" "a_reqs s"] assms(3) in
          \<open>simp_all add: starting_def\<close>)
    ultimately show ?thesis by (simp add: advances_def)
  qed
qed

end
