(* ===== verification/Glob_Async_Steps.thy ===== *)
theory Glob_Async_Steps
  imports Glob_Async_Inv
begin

text \<open>
  Every task but the last ones keeps the invariant and the books: strings, rows, requests to directories, shared answers and what a
  listing is worth.
\<close>

section \<open>Strings and rows\<close>

lemma dir_atI: "list_all good_name cs \<Longrightarrow> dir_at (addr cs)"
  by (auto simp: dir_at_def)

lemma addr_no_slash: "list_all good_name cs \<Longrightarrow> cs \<noteq> [] \<Longrightarrow> last (addr cs) \<noteq> slash"
  using join_head [OF _ good_clean, of cs] by (simp add: addr_def)

lemma stat_fresh_learns:
  assumes "tidy_fs fs N" "caches_true fs g" "list_all good_name cs" "fs_lstat fs (addr cs) = Some k"
  shows "fst (stat_fresh fs (addr cs) nd g) =
    g\<lparr>g_statCache := (g_statCache g)(addr cs \<mapsto> k), g_cache := (g_cache g)(addr cs \<mapsto>
        (case g_cache g (addr cs) of None \<Rightarrow> if k = DirK then CDir else CFile
         | Some CFalse \<Rightarrow> if k = DirK then CDir else CFile | Some old \<Rightarrow> old))\<rparr>"
proof -
  have ok: "cache_ok fs g cs" "k \<noteq> LinkK" using assms caches_trueD [OF assms(2,3)] tidy_dir(3) [OF assms(1,3)] by auto
  have "(case g_statCache g (addr cs) of Some k \<Rightarrow> Some k
      | None \<Rightarrow> (case fs_lstat fs (addr cs) of None \<Rightarrow> None
          | Some LinkK \<Rightarrow> Some (case fs_stat fs (addr cs) of Some k \<Rightarrow> k | None \<Rightarrow> LinkK) | Some k \<Rightarrow> Some k)) = Some k"
    using ok assms(4) by (cases "g_statCache g (addr cs)"; cases k) (simp_all add: cache_ok_def)
  then show ?thesis unfolding stat_fresh_def by (simp only: option.case Let_def fst_conv)
qed

lemma stat2_inv:
  assumes "tidy_scene sc" "walk_inv sc s" "a_stack s = TStat2 f i k # ts"
  shows "advances sc s (run_stat2 (sc_fs sc) f i k (s\<lparr>a_stack := ts\<rparr>))"
proof -
  note d = walk_invD [OF assms(2)]
  note g = glob_okD [OF assms(1) d(2)]
  note fs = tidy_sceneD [OF assms(1)]
  have t: "path_ok f" "row_part sc i [Plain f]" "k = fs_lstat (sc_fs sc) (makeAbs (sc_fs sc) (a_glob s) f)"
    using d(5) [OF assms(3)] g(2) by simp_all
  show ?thesis
  proof (cases k)
    case None
    then have "\<not> present (sc_fs sc) (sc_home sc) f"
      using t makeAbs_scene(1) [OF assms(1) d(2)] by (auto simp: present_def split: if_splits)
    then show ?thesis
      by (intro advances_push [OF assms(2,3), where us = "[TSimple2 f i CFalse]"])
        (use d t None in \<open>auto simp: run_stat2_def push_def Let_def calm_def trade_defs split: if_splits\<close>)
  next
    case (Some kd)
    have "f \<noteq> []" using t(3) Some fs(1) by (auto simp: makeAbs_def tidy_fs_def)
    then have f: "tidy_path f" using t(1) by (simp add: path_ok_def)
    let ?cs = "sc_home sc @ segments f"
    note m = makeAbs_scene [OF assms(1) d(2) f]
    have lstat: "fs_lstat (sc_fs sc) (addr ?cs) = Some kd" using t(3) Some m(1) by simp
    have "?cs \<noteq> []" using f no_segments [of f] by (auto simp: tidy_path_def isAbsolute_hd)
    then have sl: "last (addr ?cs) \<noteq> slash" using addr_no_slash m(2) by blast
    let ?new = "fst (stat_fresh (sc_fs sc) (addr ?cs) (ends_slash f) (a_glob s))"
    let ?c = "if ends_slash f \<and> kd \<noteq> DirK then CFalse else if kd = DirK then CDir else CFile"
    have run: "run_stat2 (sc_fs sc) f i k (s\<lparr>a_stack := ts\<rparr>) =
      s\<lparr>a_stack := TSimple2 f i ?c # ts, a_glob := ?new, a_missing := (a_missing s)(addr ?cs := False)\<rparr>"
      using stat_fresh_learns [OF fs(1) g(3) m(2) lstat, of "ends_slash f"] sl
      by (simp add: run_stat2_def push_def with_glob_def Let_def m(1) Some)
    have l: "learns (sc_fs sc) (a_glob s) ?new" using stat_fresh_true(1) [OF fs(1) g(3) m(2)] .
    have p: "present (sc_fs sc) (sc_home sc) f \<longleftrightarrow> ?c \<noteq> CFalse" using f lstat by (auto simp: present_def)
    show ?thesis unfolding run
      by (intro advances_push [OF assms(2,3), where us = "[TSimple2 f i ?c]"])
        (use d t p glob_ok_learns [OF d(2) l] learns_grows [OF l] in \<open>auto simp: calm_def trade_defs\<close>)
  qed
qed

lemma process_inv:
  assumes "tidy_scene sc" "walk_inv sc s" "a_stack s = TProcess P i b # ts"
  shows "advances sc s (run_process lc (sc_fs sc) P i b (s\<lparr>a_stack := ts\<rparr>))"
proof -
  note d = walk_invD [OF assms(2)]
  note g = glob_okD [OF assms(1) d(2)]
  note fs = tidy_sceneD [OF assms(1)]
  have t: "tidy_row P" "row_part sc i P" using d(5) [OF assms(3)] by simp_all
  have calm: "\<not> a_aborted s" "\<not> a_paused s" using d(1) by (simp_all add: calm_def)
  show ?thesis
  proof (cases rule: row_cases [of P])
    case (strings ss)
    let ?f = "join [slash] ss"
    have eq: "answers lc' opts fs' home E P = answers lc' opts fs' home E [Plain ?f]" for lc' opts fs' home E
      using answers_plain [of lc' opts fs' home E ss] answers_plain [of lc' opts fs' home E "[?f]"] by (simp add: strings)
    then have "sure sc P = sure sc [Plain ?f]" "row_part sc i [Plain ?f]"
      using t(2) by (simp_all add: sure_def possible_def row_part_def)
    moreover have "list_all is_plain P" "map plain_text P = ss" by (simp_all add: strings list_all_iff)
    moreover have "path_ok ?f" using tidy_row_strings [of ss] t(1) by (simp add: strings path_ok_def)
    ultimately show ?thesis
      by (intro advances_push [OF assms(2,3), where us = "[TStat ?f i]"])
        (use d calm assms(3) in \<open>auto simp: run_process_def push_def trade_defs starting_def\<close>)
  next
    case (portions ss p ps)
    obtain us where us: "us = (if ss = [] then [] else [join [slash] ss])" by blast
    note row = tidy_row_entry [OF t(1) [unfolded portions(1)] portions(2) us, folded portions(1)]
    let ?a = "addr (sc_home sc @ segments (join [slash] us))"
    have good: "dir_at ?a" using fs(3) one_string_good [OF row(1)] by (intro dir_atI) simp
    have read: "makeAbs (sc_fs sc) (a_glob s) (case prefix_of P of None \<Rightarrow> lit ''.'' | Some q \<Rightarrow> q) = ?a"
      using makeAbs_tidy(1,2) [OF fs(1) g(1)] row(1,3) by (auto simp: one_string_def segments_def)
    have ign: "\<not> childrenIgnored lc (a_glob s) x" for x using g(1) by (simp add: childrenIgnored_def glob_conf_def)
    have eq: "sure sc P = sure sc (prefix_portion (prefix_of P) @ p # ps)" "possible sc P = possible sc (prefix_portion (prefix_of P) @ p # ps)"
      using row(4) unfolding sure_def possible_def row(7) by simp_all
    have split: "split_ok sc (prefix_of P) ?a (p # ps) i"
      using row(1,3,8) t(2) eq(2) by (auto simp: split_ok_def row_part_def)
    let ?cb = "(if p = Globstar then GlobStarCB else ReaddirCB) (prefix_of P) ?a (p # ps) i b"
    have "cb_ok sc (KReaddir ?a b) ?cb"
      using split portions(2) by (cases p) auto
    moreover have "trades sc (TProcess P i b) [TReaddir ?a b ?cb]"
      using row(5) [of "sc_depth sc" "sc_home sc"] unfolding trade_defs by (simp add: row(7))
    moreover have "run_process lc (sc_fs sc) P i b (s\<lparr>a_stack := ts\<rparr>) =
        s\<lparr>a_processing := a_processing s + 1, a_stack := TReaddir ?a b ?cb # ts\<rparr>"
      using calm row(2,6) read ign by (simp add: run_process_def push_def Let_def)
    ultimately show ?thesis
      by (intro advances_push [OF assms(2,3), where us = "[TReaddir ?a b ?cb]"])
        (use d good eq(1) assms(3) in \<open>auto simp: calm_def gain_def starting_def\<close>)
  qed
qed


lemma add_req_open: "map_of (a_reqs s) key = None \<Longrightarrow> inflight_open key cb s = s\<lparr>a_reqs := add_req key cb (a_reqs s)\<rparr>"
  by (simp add: inflight_open_def add_req_def)

lemma add_req_join:
  assumes "map_of (a_reqs s) key \<noteq> None"
  shows "inflight_join key cb s = s\<lparr>a_reqs := add_req key cb (a_reqs s)\<rparr>"
  unfolding inflight_join_def add_req_def using assms by (simp only: if_False)

lemma map_of_add_req [simp]: "map_of (add_req key cb rs) k = None \<longleftrightarrow> k \<noteq> key \<and> map_of rs k = None"
proof (cases "map_of rs key = None")
  case True
  then show ?thesis by (simp add: add_req_def)
next
  case False
  have "fst ` set (map (\<lambda>(k, cbs). (k, if k = key then cbs @ [cb] else cbs)) rs) = fst ` set rs" by force
  then show ?thesis using False unfolding add_req_def map_of_eq_None_iff by auto
qed

text \<open>Where \<open>_readdir\<close> leaves its callback.\<close>

lemma readdir_cases [consumes 1]:
  fixes s a b
  assumes "\<not> a_aborted s"
  defines "key \<equiv> KReaddir a b" and "upd \<equiv> \<lambda>rs us qs. s\<lparr>a_reqs := rs, a_stack := us @ a_stack s, a_asks := a_asks s @ qs\<rparr>"
  obtains (joins) "map_of (a_reqs s) key \<noteq> None" "run_readdir a b cb s = upd (add_req key cb (a_reqs s)) [] []"
    | (forwards) "map_of (a_reqs s) key = None" "b" "g_symlinks (a_glob s) a = None"
        "run_readdir a b cb s = upd (add_req key cb (a_reqs s)) [TReaddir a False (ForwardCB key)] []"
    | (lstats) "map_of (a_reqs s) key = None" "b" "g_symlinks (a_glob s) a = None"
        "run_readdir a b cb s = upd (add_req (KLstat a) (LstatCB a) (add_req key cb (a_reqs s))) []
           (if map_of (a_reqs s) (KLstat a) = None then [AskLstat (KLstat a)] else [])"
    | (cached) es where "map_of (a_reqs s) key = None"
        "g_cache (a_glob s) a = Some CFalse \<and> es = None \<or> g_cache (a_glob s) a = Some CFile \<and> es = None \<or>
         (\<exists>xs. g_cache (a_glob s) a = Some (CEntries xs) \<and> es = Some xs)"
        "run_readdir a b cb s = upd (add_req key cb (a_reqs s)) [TRes key (Entries es)] []"
    | (asks) "map_of (a_reqs s) key = None" "run_readdir a b cb s = upd (add_req key cb (a_reqs s)) [] [AskReaddir a b]"
proof (cases "map_of (a_reqs s) key = None")
  case False
  then show thesis using joins assms(1) add_req_join [OF False, of cb] by (simp add: run_readdir_def upd_def key_def)
next
  case True
  note o = add_req_open [OF True, of cb]
  show thesis
  proof (cases "b \<and> g_symlinks (a_glob s) a = None")
    case star: True
    show thesis
    proof (cases "g_follow (a_glob s)")
      case f: True
      then show thesis using forwards True star o assms(1) by (simp add: run_readdir_def run_readdirInGlobStar_def upd_def key_def push_def Let_def)
    next
      case f: False
      have ne: "KLstat a \<noteq> key" by (simp add: key_def)
      let ?s = "s\<lparr>a_reqs := add_req key cb (a_reqs s)\<rparr>"
      have "run_readdir a b cb s = upd (add_req (KLstat a) (LstatCB a) (add_req key cb (a_reqs s))) []
           (if map_of (a_reqs s) (KLstat a) = None then [AskLstat (KLstat a)] else [])"
        using True star o assms(1) f ne add_req_open [of ?s "KLstat a" "LstatCB a"] add_req_join [of ?s "KLstat a" "LstatCB a"]
        by (simp add: run_readdir_def run_readdirInGlobStar_def upd_def key_def asking_def Let_def)
      then show thesis using True star by (elim conjE) (rule lstats)
    qed
  next
    case star: False
    have r: "run_readdir a b cb s = (case g_cache (a_glob s) a of
                     Some CFalse \<Rightarrow> push [TRes key (Entries None)] (s\<lparr>a_reqs := add_req key cb (a_reqs s)\<rparr>)
                   | Some CFile \<Rightarrow> push [TRes key (Entries None)] (s\<lparr>a_reqs := add_req key cb (a_reqs s)\<rparr>)
                   | Some (CEntries es) \<Rightarrow> push [TRes key (Entries (Some es))] (s\<lparr>a_reqs := add_req key cb (a_reqs s)\<rparr>)
                   | _ \<Rightarrow> asking [AskReaddir a b] (s\<lparr>a_reqs := add_req key cb (a_reqs s)\<rparr>))"
      unfolding run_readdir_def Let_def key_def [symmetric] using True star o assms(1) by (simp only: if_False if_True simp_thms)
    show thesis
    proof (cases "g_cache (a_glob s) a")
      case None
      then show thesis using asks True r by (simp add: upd_def asking_def)
    next
      case (Some c)
      then show thesis
        by (cases c) (use True r in \<open>simp_all add: asks cached upd_def asking_def push_def\<close>)
    qed
  qed
qed

lemma readdir_advances:
  assumes "walk_inv sc s" "a_stack s = TReaddir a b cb # ts" "list_all (task_ok sc (a_glob s)) us" "list_all (ask_ok sc) qs"
    "reqs_ok sc rs" "\<And>i. reqs_owe sc i rs = reqs_owe sc i (a_reqs s) \<union> cb_owes sc i cb"
    "mset (waiters rs) = mset (waiters (a_reqs s)) + mset cbs" "mset (map fst rs) = mset (map fst (a_reqs s)) + mset ks"
    "sum_list (map task_holds us) + sum_list (map cb_holds cbs) + sum_list (map ask_holds qs) = cb_holds cb + mset ks"
    "sum_list (map task_work us) + sum_list (map cb_work cbs) = cb_work cb" "\<not> list_ex opens us" "TFinish \<notin> set us"
    "\<forall>u \<in> set us. \<not> carries u \<longrightarrow> task_weight sc u < cb_weight sc cb + 2"
    "\<forall>c \<in> set cbs. Suc (cb_weight sc c) < cb_weight sc cb + 2" "\<not> b \<Longrightarrow> starting s \<Longrightarrow> list_all first_calls us"
  shows "advances sc s (s\<lparr>a_reqs := rs, a_stack := us @ ts, a_asks := a_asks s @ qs\<rparr>)" (is "advances sc s ?s")
proof -
  note d = walk_invD [OF assms(1)]
  have "walk_inv sc ?s"
    by (rule walk_inv_replace [OF assms(1,2), where us = us]) (use d assms(3-6) in \<open>auto simp: calm_def\<close>)
  moreover have "ledger ?s \<and> (?s, s) \<in> shrinks sc" if l: "ledger s"
    by (rule ledger_wait [OF l assms(2), where us = us and cbs = cbs and ks = ks and qs = qs])
      (use assms(2,7-15) in \<open>simp_all add: starting_def\<close>)
  ultimately show ?thesis by (simp add: advances_def)
qed

lemma readdir_inv:
  assumes "tidy_scene sc" "walk_inv sc s" "a_stack s = TReaddir a b cb # ts"
  shows "advances sc s (run_readdir a b cb (s\<lparr>a_stack := ts\<rparr>))"
proof -
  note d = walk_invD [OF assms(2)]
  note g = glob_okD [OF assms(1) d(2)]
  note fs = tidy_sceneD [OF assms(1)]
  have t: "dir_at a" "cb_ok sc (KReaddir a b) cb" using d(5) [OF assms(3)] by simp_all
  then obtain cs where cs: "list_all good_name cs" "a = addr cs" by (auto simp: dir_at_def)
  let ?s = "s\<lparr>a_stack := ts\<rparr>" and ?key = "KReaddir a b"
  have calm: "\<not> a_aborted ?s" using d(1) by (simp add: calm_def)
  note r = reqs_ok_add [OF d(4) t(2)]
  note owe = reqs_owe_add [OF d(4), of _ ?key cb]
  note w = mset_waiters_add_req [OF d(4), of ?key cb] keys_add [of ?key cb "a_reqs s"]
  have heavy: "10 \<le> cb_weight sc cb" if b using that t(2) by (cases cb) auto
  from calm show ?thesis
  proof (cases rule: readdir_cases [where a = a and b = b and cb = cb])
    case joins
    show ?thesis unfolding joins(2)
      using readdir_advances [OF assms(2,3), where us = "[]" and qs = "[]" and cbs = "[cb]" and ks = "[]"] r owe w joins(1) by simp
  next
    case forwards
    show ?thesis unfolding forwards(4)
      using readdir_advances [OF assms(2,3), where us = "[TReaddir a False (ForwardCB ?key)]" and qs = "[]" and cbs = "[cb]" and ks = "[?key]"]
        r owe w t(1) forwards(1,2) heavy by simp
  next
    case lstats
    have "cb_ok sc (KLstat a) (LstatCB a)" using t(1) by simp
    note r2 = reqs_ok_add [OF r this] and owe2 = reqs_owe_add [OF r, of _ "KLstat a" "LstatCB a"]
    note w2 = mset_waiters_add_req [OF r, of "KLstat a" "LstatCB a"] keys_add [of "KLstat a" "LstatCB a" "add_req ?key cb (a_reqs s)"]
    show ?thesis unfolding lstats(4)
      using readdir_advances [OF assms(2,3), where us = "[]" and cbs = "[cb, LstatCB a]" and
          qs = "if map_of (a_reqs s) (KLstat a) = None then [AskLstat (KLstat a)] else []" and
          ks = "?key # (if map_of (a_reqs s) (KLstat a) = None then [KLstat a] else [])"]
        r2 owe owe2 w w2 lstats(1,2) heavy by simp
  next
    case (cached es)
    have "cache_ok (sc_fs sc) (a_glob s) cs" using caches_trueD [OF g(3) cs(1)] .
    then have "es = entries_at sc a"
      using cached(2) tidy_dir(1) [OF fs(1) cs(1)] by (auto simp: cache_ok_def entries_at_def cs(2) phantom_def split: sum.splits)
    moreover have "\<not> starting s" using cached(2) by (auto simp: starting_def)
    ultimately show ?thesis unfolding cached(3)
      using readdir_advances [OF assms(2,3), where us = "[TRes ?key (Entries es)]" and qs = "[]" and cbs = "[cb]" and ks = "[?key]"]
        r owe w cached(1) by simp
  next
    case asks
    show ?thesis unfolding asks(2)
      using readdir_advances [OF assms(2,3), where us = "[]" and qs = "[AskReaddir a b]" and cbs = "[cb]" and ks = "[?key]"]
        r owe w t(1) asks(1) by simp
  qed
qed

lemma dir_answer_inv:
  assumes "tidy_scene sc" "walk_inv sc s" "a_stack s = TDirAnswer a b r # ts"
  shows "advances sc s (run_dir_answer (sc_fs sc) a b r (s\<lparr>a_stack := ts\<rparr>))"
proof -
  note d = walk_invD [OF assms(2)]
  note g = glob_okD [OF assms(1) d(2)]
  note fs = tidy_sceneD [OF assms(1)]
  have t: "dir_at a" "r = fs_readdir (sc_fs sc) a" using d(5) [OF assms(3)] by simp_all
  then obtain cs where cs: "list_all good_name cs" "a = addr cs" by (auto simp: dir_at_def)
  have calm: "\<not> a_aborted s" using d(1) by (simp add: calm_def)
  have step: "advances sc s (s\<lparr>a_glob := g', a_stack := TRes (KReaddir a b) (Entries (entries_at sc a)) # ts\<rparr>)"
    (is "advances sc s ?s") if "learns (sc_fs sc) (a_glob s) g'" for g'
  proof -
    have "walk_inv sc ?s"
      by (rule walk_inv_push [OF assms(2,3), where us = "[TRes (KReaddir a b) (Entries (entries_at sc a))]"])
        (use d that glob_ok_learns [OF d(2) that] learns_grows [OF that] in \<open>auto simp: calm_def\<close>)
    moreover have "ledger ?s \<and> (?s, s) \<in> shrinks sc" if l: "ledger s"
      by (rule ledger_pass [OF l assms(3), where u = "TRes (KReaddir a b) (Entries (entries_at sc a))"]) simp_all
    ultimately show ?thesis by (simp add: advances_def)
  qed
  show ?thesis
  proof (cases r)
    case (Inr names)
    have "learns (sc_fs sc) (a_glob s) (readdirEntries a names (a_glob s))"
      using readdirEntries_true [OF fs(1) g(3) cs(1)] t(2) Inr by (simp add: cs(2))
    from step [OF this] show ?thesis
      using calm Inr t(2) by (simp add: run_dir_answer_def push_def with_glob_def entries_at_def)
  next
    case (Inl er)
    let ?put = "\<lambda>c. (a_glob s)\<lparr>g_cache := (g_cache (a_glob s))(addr cs \<mapsto> c)\<rparr>"
    have ok: "cache_ok (sc_fs sc) (a_glob s) cs" using caches_trueD [OF g(3) cs(1)] .
    have er: "er = ENOENT \<and> fs_lstat (sc_fs sc) a = None \<or> er = ENOTDIR \<and> (fs_lstat (sc_fs sc) a = Some FileK \<or> phantom (sc_fs sc) cs)"
      using tidy_dir(4) [OF fs(1) cs(1)] t(2) Inl by (simp add: cs(2))
    let ?c = "if er = ENOTDIR then CFile else CFalse"
    have "cache_ok (sc_fs sc) (?put ?c) cs" using ok er by (auto simp: cache_ok_def cs(2))
    from step [OF cache_put_true [OF g(3) cs(1) this]] show ?thesis
      using calm Inl t(2) er makeAbs_tidy(3) [OF fs(1) g(1) cs(1)]
      by (auto simp: run_dir_answer_def push_def with_glob_def entries_at_def cs(2))
  qed
qed

text \<open>The callbacks of a key are taken up.\<close>

definition clear_req :: "akey \<Rightarrow> (akey \<times> acb list) list \<Rightarrow> (akey \<times> acb list) list" where
  "clear_req key rs = map (\<lambda>(k, cbs). (k, if k = key then [] else cbs)) rs"

lemma mset_waiters_clear:
  "distinct (map fst rs) \<Longrightarrow> map_of rs key = Some cbs \<Longrightarrow> mset (waiters rs) = mset cbs + mset (waiters (clear_req key rs))"
proof (induction rs)
  case (Cons r rs)
  obtain k xs where r: "r = (k, xs)" by force
  show ?case
  proof (cases "k = key")
    case True
    then show ?thesis using Cons.prems replace_absent [of key rs "\<lambda>cbs. []"] by (simp add: r waiters_def clear_req_def)
  next
    case False
    then show ?thesis using Cons by (simp add: r waiters_def clear_req_def)
  qed
qed simp

lemma reqs_ok_clear: "reqs_ok sc rs \<Longrightarrow> reqs_ok sc (clear_req key rs)"
  using fst_keep [of "\<lambda>k cbs. if k = key then [] else cbs"]
  by (fastforce simp: reqs_ok_def clear_req_def list_all_iff split: if_splits)

lemma reqs_ok_cb: "reqs_ok sc rs \<Longrightarrow> map_of rs key = Some cbs \<Longrightarrow> cb \<in> set cbs \<Longrightarrow> cb_ok sc key cb"
  by (auto simp: reqs_ok_def list_all_iff dest!: map_of_SomeD)

lemma keys_clear: "map fst (clear_req key rs) = map fst rs"
  using fst_keep [of "\<lambda>k cbs. if k = key then [] else cbs"] by (simp add: clear_req_def)

lemma clear_nothing: "distinct (map fst rs) \<Longrightarrow> map_of rs key = Some [] \<Longrightarrow> clear_req key rs = rs"
proof (induction rs)
  case (Cons r rs)
  obtain k xs where r: "r = (k, xs)" by force
  show ?case using Cons replace_absent [of key rs "\<lambda>cbs. []"] by (cases "k = key") (simp_all add: r clear_req_def)
qed simp

lemma calls_cost: "cbs \<noteq> [] \<Longrightarrow> (I + mset (map (cb_weight sc) cbs), I + mset (map (\<lambda>cb. Suc (cb_weight sc cb)) cbs)) \<in> mult less_than"
  by (intro mult_below) auto

lemma res_ledger:
  assumes "ledger s" "a_stack s = TRes key ans # ts" "map_of (a_reqs s) key = Some cbs" "reqs_ok sc (a_reqs s)"
  defines "s' \<equiv> s\<lparr>a_stack := map (\<lambda>cb. TCall cb ans) cbs @ TFinally key ans # ts, a_reqs := clear_req key (a_reqs s)\<rparr>"
  shows "ledger s' \<and> (s', s) \<in> shrinks sc"
proof
  have dis: "distinct (map fst (a_reqs s))" using assms(4) by (simp add: reqs_ok_def)
  have m: "mset (waiters (a_reqs s)) = mset (waiters (a_reqs s')) + mset cbs"
    using mset_waiters_clear [OF dis assms(3)] by (simp add: s'_def ac_simps)
  note w = sum_list_waiters [OF m]
  have works: "works s' = works s" using assms(2) w [of cb_work] by (simp add: works_def s'_def comp_def)
  have shut: "\<not> list_ex opens (map (\<lambda>cb. TCall cb ans) cbs)" by (induction cbs) auto
  then have "idle s' = idle s" using works assms(2) by (simp add: idle_def s'_def)
  moreover have "covered (map (\<lambda>cb. TCall cb ans) cbs @ [TFinally key ans])" by (induction cbs) auto
  moreover have "holders s' = holders s"
    using assms(2) w [of cb_holds] by (simp add: holders_def s'_def comp_def ac_simps)
  ultimately show "ledger s'"
    using assms(2) works
    by (intro ledger_step [OF assms(1,2), where us = "map (\<lambda>cb. TCall cb ans) cbs @ [TFinally key ans]"])
      (auto simp: s'_def keys_clear starting_def simp flip: mset_map)
  let ?I = "sum_list (map (task_mass sc) ts) + mset (map (\<lambda>cb. Suc (cb_weight sc cb)) (waiters (a_reqs s')))"
  have "sum_list (map (task_mass sc) (map (\<lambda>cb. TCall cb ans) cbs)) = mset (map (cb_weight sc) cbs)"
    by (induction cbs) (simp_all add: task_mass_def)
  then have mass': "mass sc s' = ?I + mset (map (cb_weight sc) cbs)" by (simp add: mass_def s'_def task_mass_def ac_simps)
  have mass: "mass sc s = ?I + mset (map (\<lambda>cb. Suc (cb_weight sc cb)) cbs)"
    using assms(2) m by (simp add: mass_def task_mass_def ac_simps)
  show "(s', s) \<in> shrinks sc"
  proof (cases "cbs = []")
    case False
    from calls_cost [OF this, of ?I sc] show ?thesis unfolding mass [symmetric] mass' [symmetric] by (rule shrinks_mass)
  next
    case True
    then have same: "a_reqs s' = a_reqs s" using clear_nothing [OF dis] assms(3) by (simp add: s'_def)
    then have a: "awaited s' = awaited s" by (simp add: awaited_def fun_eq_iff)
    have "\<not> awaited s key" using True assms(3) by (simp add: awaited_def)
    then have "way s' < way s" using assms(2) True a unfolding way_def by (simp add: s'_def)
    then show ?thesis using mass mass' True by (intro shrinks_way) simp_all
  qed
qed

lemma res_inv:
  assumes "walk_inv sc s" "a_stack s = TRes key ans # ts" "map_of (a_reqs s) key = Some cbs"
  shows "advances sc s (run_res key ans (s\<lparr>a_stack := ts\<rparr>))"
proof -
  note d = walk_invD [OF assms(1)]
  have t: "ans_ok sc key ans" using d(5) [OF assms(2)] by simp
  let ?s = "s\<lparr>a_stack := map (\<lambda>cb. TCall cb ans) cbs @ TFinally key ans # ts, a_reqs := clear_req key (a_reqs s)\<rparr>"
  have run: "run_res key ans (s\<lparr>a_stack := ts\<rparr>) = ?s"
    using assms(3) by (simp add: run_res_def push_def clear_req_def)
  have "set_mset (mset (waiters (a_reqs s))) = set cbs \<union> set (waiters (clear_req key (a_reqs s)))"
    using d(4) by (subst mset_waiters_clear [OF _ assms(3)]) (simp_all add: reqs_ok_def)
  then have "reqs_owe sc i (a_reqs s) = (\<Union>cb \<in> set cbs. cb_owes sc i cb) \<union> reqs_owe sc i (clear_req key (a_reqs s))" for i
    by (auto simp: reqs_owe_def)
  moreover have "stack_owes sc i (map (\<lambda>cb. TCall cb ans) cbs) = (\<Union>cb \<in> set cbs. cb_owes sc i cb)" for i
    by (simp add: stack_owes_def)
  moreover have "list_all (task_ok sc (a_glob s)) (map (\<lambda>cb. TCall cb ans) cbs)"
    using reqs_ok_cb [OF d(4) assms(3)] t by (auto simp: list_all_iff)
  ultimately have "walk_inv sc ?s"
    by (intro walk_inv_replace [OF assms(1,2), where us = "map (\<lambda>cb. TCall cb ans) cbs @ [TFinally key ans]"])
      (use d t reqs_ok_clear [OF d(4)] in \<open>auto simp: calm_def\<close>)
  then show ?thesis unfolding run advances_def using res_ledger [OF _ assms(2,3) d(4)] by blast
qed

definition drop_req :: "akey \<Rightarrow> (akey \<times> acb list) list \<Rightarrow> (akey \<times> acb list) list" where
  "drop_req key rs = filter (\<lambda>(k, cbs). k \<noteq> key) rs"

lemma waiters_drop: "distinct (map fst rs) \<Longrightarrow> map_of rs key = Some [] \<Longrightarrow> waiters (drop_req key rs) = waiters rs"
proof (induction rs)
  case (Cons r rs)
  obtain k xs where r: "r = (k, xs)" by force
  have absent: "filter (\<lambda>(k, cbs). k \<noteq> key) rs = rs" if "key \<notin> fst ` set rs"
    using that by (force simp: filter_id_conv)
  show ?case using Cons absent by (cases "k = key") (simp_all add: r waiters_def drop_req_def)
qed simp

lemma reqs_ok_drop: "reqs_ok sc rs \<Longrightarrow> reqs_ok sc (drop_req key rs)"
  by (auto simp: reqs_ok_def drop_req_def list_all_iff distinct_map_filter)

lemma finally_cases [case_names none again closes]:
  assumes "map_of (a_reqs s) key = None \<Longrightarrow> run_finally key ans s = s \<Longrightarrow> thesis"
    "\<And>cb cbs. map_of (a_reqs s) key = Some (cb # cbs) \<Longrightarrow> run_finally key ans s = s\<lparr>a_ticks := a_ticks s @ [(key, ans)]\<rparr> \<Longrightarrow> thesis"
    "map_of (a_reqs s) key = Some [] \<Longrightarrow> run_finally key ans s = s\<lparr>a_reqs := drop_req key (a_reqs s)\<rparr> \<Longrightarrow> thesis"
  shows thesis
proof (cases "map_of (a_reqs s) key")
  case None
  then show ?thesis using assms(1) by (simp add: run_finally_def)
next
  case (Some cbs)
  then show ?thesis using assms(2,3) by (cases cbs) (simp_all add: run_finally_def drop_req_def)
qed

lemma keys_drop:
  "distinct (map fst rs) \<Longrightarrow> map_of rs key \<noteq> None \<Longrightarrow> mset (map fst rs) = add_mset key (mset (map fst (drop_req key rs)))"
proof (induction rs)
  case (Cons r rs)
  obtain k xs where r: "r = (k, xs)" by force
  have absent: "filter (\<lambda>(k, cbs). k \<noteq> key) rs = rs" if "key \<notin> fst ` set rs"
    using that by (force simp: filter_id_conv)
  show ?case using Cons absent by (cases "k = key") (simp_all add: r drop_req_def)
qed simp

lemma awaited_drop:
  assumes "map_of rs key = Some []"
  shows "(\<exists>cb cbs. map_of (drop_req key rs) k = Some (cb # cbs)) \<longleftrightarrow> (\<exists>cb cbs. map_of rs k = Some (cb # cbs))"
proof -
  have "map_of (drop_req key rs) k = (if k = key then None else map_of rs k)"
    by (induction rs) (auto simp: drop_req_def)
  then show ?thesis using assms by simp
qed

lemma finally_ledger:
  assumes "ledger s" "a_stack s = TFinally key ans # ts" "reqs_ok sc (a_reqs s)"
  shows "ledger (run_finally key ans (s\<lparr>a_stack := ts\<rparr>)) \<and> (run_finally key ans (s\<lparr>a_stack := ts\<rparr>), s) \<in> shrinks sc"
proof -
  have dis: "distinct (map fst (a_reqs s))" using assms(3) by (simp add: reqs_ok_def)
  show ?thesis
  proof (cases rule: finally_cases [of "s\<lparr>a_stack := ts\<rparr>" key ans])
    case none
    have "key \<in># holders s" using assms(2) by (simp add: holders_def)
    then have "key \<in> fst ` set (a_reqs s)" unfolding ledgerD(1) [OF assms(1)] by simp
    then show ?thesis using none(1) by (simp add: map_of_eq_None_iff)
  next
    case (again cb cbs)
    let ?s = "s\<lparr>a_stack := ts, a_ticks := a_ticks s @ [(key, ans)]\<rparr>"
    have "awaited ?s = awaited s" "awaited s key" using again(1) by (simp_all add: awaited_def fun_eq_iff)
    then have "way ?s < way s" using assms(2) by (simp add: way_def)
    then have "(?s, s) \<in> shrinks sc" using assms(2) by (intro shrinks_way) (simp_all add: mass_def task_mass_def)
    moreover have "ledger ?s"
      by (rule ledger_step [OF assms(1,2), where us = "[]"])
        (use assms(2) in \<open>auto simp: holders_def works_def idle_def starting_def\<close>)
    ultimately show ?thesis unfolding again(2) by simp
  next
    case closes
    let ?s = "s\<lparr>a_stack := ts, a_reqs := drop_req key (a_reqs s)\<rparr>"
    have wait: "waiters (drop_req key (a_reqs s)) = waiters (a_reqs s)" using waiters_drop [OF dis] closes(1) by simp
    have "mset (map fst (a_reqs s)) = add_mset key (mset (map fst (drop_req key (a_reqs s))))"
      using keys_drop [OF dis] closes(1) by simp
    moreover have "holders s = add_mset key (holders ?s)" using assms(2) wait by (simp add: holders_def)
    ultimately have "ledger ?s"
      by (intro ledger_step [OF assms(1,2), where us = "[]"])
        (use assms(2) wait in \<open>auto simp: works_def idle_def starting_def simp flip: mset_map\<close>)
    moreover have "awaited ?s = awaited s" using awaited_drop [of "a_reqs s" key] closes(1) by (simp add: awaited_def fun_eq_iff)
    then have "way ?s < way s" using assms(2) by (simp add: way_def)
    then have "(?s, s) \<in> shrinks sc" using assms(2) wait by (intro shrinks_way) (simp_all add: mass_def task_mass_def)
    ultimately show ?thesis unfolding closes(2) by simp
  qed
qed

lemma finally_inv:
  assumes "walk_inv sc s" "a_stack s = TFinally key ans # ts"
  shows "advances sc s (run_finally key ans (s\<lparr>a_stack := ts\<rparr>))"
proof -
  have "walk_inv sc (run_finally key ans (s\<lparr>a_stack := ts\<rparr>))"
  proof -
  note d = walk_invD [OF assms(1)]
  have t: "ans_ok sc key ans" using d(5) [OF assms(2)] by simp
  show ?thesis
  proof (cases rule: finally_cases [of "s\<lparr>a_stack := ts\<rparr>" key ans])
    case none
    show ?thesis unfolding none(2)
      by (rule walk_inv_push [OF assms, where us = "[]"]) (use d in auto)
  next
    case (again cb cbs)
    show ?thesis unfolding again(2)
      by (rule walk_inv_replace [OF assms, where us = "[]"]) (use d t in auto)
  next
    case closes
    have "reqs_owe sc i (drop_req key (a_reqs s)) = reqs_owe sc i (a_reqs s)" for i
      using waiters_drop [of "a_reqs s" key] d(4) closes(1) by (simp add: reqs_owe_def reqs_ok_def)
    then show ?thesis unfolding closes(2)
      by (intro walk_inv_replace [OF assms, where us = "[]"]) (use d reqs_ok_drop [OF d(4)] in auto)
  qed
qed
  then show ?thesis unfolding advances_def using finally_ledger [OF _ assms(2) walk_invD(4) [OF assms(1)]] by blast
qed

section \<open>What a listing is worth\<close>

text \<open>A directory that the walk reads, and the strings it got there by.\<close>

lemma split_okE:
  assumes "tidy_scene sc" "split_ok sc pre a remain i"
  obtains us cs where "one_string us" "pre = (if us = [] then None else Some (hd us))" "cs = sc_home sc @ segments (join [slash] us)"
    "a = addr cs" "list_all good_name cs" "prefix_portion pre = map Plain us" "tidy_tail remain" "row_part sc i (map Plain us @ remain)"
    "entries_at sc a = listing (sc_fs sc) cs"
proof -
  from assms(2) obtain us where u: "one_string us" "pre = (if us = [] then None else Some (hd us))"
      "a = addr (sc_home sc @ segments (join [slash] us))" "tidy_tail remain" "row_part sc i (prefix_portion pre @ remain)"
    by (auto simp: split_ok_def)
  moreover have "prefix_portion pre = map Plain us"
    using u(1,2) by (auto simp: prefix_portion_def one_string_def tidy_path_def)
  moreover have "list_all good_name (sc_home sc @ segments (join [slash] us))"
    using tidy_sceneD(3) [OF assms(1)] one_string_good [OF u(1)] by simp
  ultimately show thesis using that entries_at_addr by simp
qed

lemma sure_absent:
  assumes "tidy_scene sc" "listing (sc_fs sc) (sc_home sc @ segments (join [slash] us)) = None" "\<not> is_plain p"
  shows "sure sc (map Plain us @ p # ps) = {}"
  using sure_listed [OF tidy_sceneD(1,3) [OF assms(1)] assms(3), of _ "sc_case sc" "m_options (g_minimatch (sc_glob sc))" us ps] assms(2)
  by (auto simp: sure_def)

lemma listed_good:
  assumes "tidy_scene sc" "listing (sc_fs sc) cs = Some es" "list_all good_name cs" "e \<in> set es"
  shows "good_name e"
  using tidy_dir(2) [OF tidy_sceneD(1) [OF assms(1)] assms(3)] assms(2,4) by (auto simp: listing_def list_all_iff split: sum.splits)

lemma joined_join:
  assumes "one_string us" "good_name e"
  shows "joined (if us = [] then None else Some (hd us)) e = join [slash] (us @ [e])"
    "tidy_path (join [slash] (us @ [e])) \<and> \<not> ends_slash (join [slash] (us @ [e]))"
proof -
  show "joined (if us = [] then None else Some (hd us)) e = join [slash] (us @ [e])"
    using assms by (auto simp: one_string_def joined_def tidy_path_def isAbsolute_hd)
  show "tidy_path (join [slash] (us @ [e])) \<and> \<not> ends_slash (join [slash] (us @ [e]))"
    using assms tidy_path_good [OF assms(2)] tidy_path_join [of "hd us" "[e]"] by (cases "us = []") (auto simp: one_string_def)
qed

lemma answers_joined:
  "answers lc opts fs home E (Plain (join [slash] (us @ [e])) # ps) = answers lc opts fs home E (map Plain us @ Plain e # ps)"
  using answers_strings [of "us @ [e]" lc opts fs home E ps] by simp

lemma sure_joined: "sure sc (Plain (join [slash] (us @ [e])) # ps) = sure sc (map Plain us @ Plain e # ps)"
  and possible_joined: "possible sc (Plain (join [slash] (us @ [e])) # ps) = possible sc (map Plain us @ Plain e # ps)"
  by (simp_all add: sure_def possible_def answers_joined)

lemma sure_possible: "sure sc P \<subseteq> possible sc P"
  by (auto simp: sure_def possible_def answers_def)

lemma present_sure:
  assumes "tidy_scene sc" "one_string us" "listing (sc_fs sc) (sc_home sc @ segments (join [slash] us)) = Some es" "e \<in> set es"
  shows "sure sc (map Plain us @ [Plain e]) = {join [slash] (us @ [e])}"
proof -
  have "present (sc_fs sc) (sc_home sc) (join [slash] (us @ [e]))"
    using present_child [OF tidy_sceneD(1,3) [OF assms(1)] assms(2-4)] .
  then show ?thesis
    using answers_plain [of _ _ _ _ _ "us @ [e]"] by (auto simp: sure_def)
qed

text \<open>A call that leaves tasks behind.\<close>

lemma advances_tasks:
  assumes "walk_inv sc s" "a_stack s = t # ts" "list_all (task_ok sc (f (a_glob s))) us"
    "\<And>j. task_owes sc j t \<subseteq> stack_owes sc j us" "glob_ok sc (f (a_glob s))" "grows (a_glob s) (f (a_glob s))"
    "trades sc t us" "gain t = 0 \<and> \<not> first_calls t"
  shows "advances sc s (push us (with_glob f (s\<lparr>a_stack := ts\<rparr>)))"
  by (rule advances_push [OF assms(1,2), where us = us])
    (use assms(3-8) walk_invD(1) [OF assms(1)] in \<open>auto simp: push_def with_glob_def\<close>)

lemma with_glob_same: "with_glob (\<lambda>g. g) s = s"
  by (simp add: with_glob_def)

lemmas advances_more_tasks = advances_tasks [where f = "\<lambda>g. g", unfolded with_glob_same]

lemma tradesI:
  assumes "sum_list (map task_holds us) = task_holds t" "sum_list (map task_work us) = task_work t + gain t" "\<not> carries t"
    "\<And>u. u \<in> set us \<Longrightarrow> \<not> carries u \<Longrightarrow> task_weight sc u < task_weight sc t" "covered us" "t \<noteq> TFinish" "TFinish \<notin> set us"
    "list_ex opens us \<Longrightarrow> task_work t \<noteq> 0"
  shows "trades sc t us"
  using assms by (simp add: trades_def)

lemma sum_list_zero:
  fixes f :: "'a \<Rightarrow> 'b :: comm_monoid_add"
  shows "(\<And>x. x \<in> set xs \<Longrightarrow> f x = 0) \<Longrightarrow> sum_list (map f xs) = 0"
  by (induction xs) simp_all

lemma trades_done:
  assumes "\<And>u. u \<in> set us \<Longrightarrow> opens u \<and> task_weight sc u < task_weight sc t"
    "task_holds t = {#}" "task_work t = 1" "gain t = 0" "\<not> carries t" "2 < task_weight sc t" "t \<noteq> TFinish"
  shows "trades sc t (us @ [TDone])"
proof -
  have u: "task_holds u = {#} \<and> task_work u = 0 \<and> u \<noteq> TFinish" if "u \<in> set us" for u
    using assms(1) [OF that] by (cases u) auto
  have "sum_list (map task_holds us) = {#}" "sum_list (map task_work us) = 0"
    using u by (auto intro!: sum_list_zero)
  then show ?thesis using assms u by (intro tradesI) (auto simp del: sum_list_eq_0_iff)
qed

lemma weigh: "m < n \<Longrightarrow> 10 + 20 * m < 20 * (n :: nat)" "m < n \<Longrightarrow> 9 + 20 * m < 20 * n"
  by simp_all

lemma UN_singleton_image: "(\<Union>x \<in> A. {f x}) = f ` A"
  by blast

text \<open>The names of a directory that an expression picks, as results and as rows.\<close>

lemma magic_picks:
  fixes sc raw src r
  defines "opts \<equiv> m_options (g_minimatch (sc_glob sc))" and "p \<equiv> Magic (Some (raw, src)) r"
  assumes "tidy_scene sc" "glob_ok sc g" "listing (sc_fs sc) (sc_home sc @ segments (join [slash] us)) = Some es" "list_all good_name es"
    "row_part sc i (map Plain us @ p # ps)"
  obtains dots where "dotOk g p = Inr dots"
    "sure sc (map Plain us @ p # ps) \<subseteq>
      (\<Union>e \<in> set (filter (entry_matches (sc_case sc) g dots p pre) es). sure sc (map Plain us @ Plain e # ps))"
    "\<And>e. e \<in> set (filter (entry_matches (sc_case sc) g dots p pre) es) \<Longrightarrow> row_part sc i (map Plain us @ Plain e # ps)"
proof -
  note g = glob_okD [OF assms(3,4)]
  let ?ok = "\<lambda>v. hit (sc_case sc) opts p v \<and> (admitted opts v \<or> raw \<noteq> [] \<and> hd raw = full_stop)"
  obtain dots where dots: "dotOk g p = Inr dots" "dots \<longleftrightarrow> o_dot opts \<or> raw \<noteq> [] \<and> hd raw = full_stop"
    using g(1,8) by (auto simp: dotOk_def glob_conf_def p_def opts_def)
  have matched: "filter (entry_matches (sc_case sc) g dots p pre) es = filter ?ok es"
    using g(1,8) dots(2) by (intro filter_cong refl) (auto simp: entry_matches_def glob_conf_def opts_def)
  show thesis
  proof (rule that [OF dots(1)]; unfold matched)
    show "sure sc (map Plain us @ p # ps) \<subseteq> (\<Union>e \<in> set (filter ?ok es). sure sc (map Plain us @ Plain e # ps))"
      using sure_magic [OF tidy_sceneD(1,3) [OF assms(3)] assms(5), of "sc_case sc" opts raw src r ps] unfolding sure_def opts_def p_def by simp
    fix e assume "e \<in> set (filter ?ok es)"
    then have e: "good_name e" "hit (sc_case sc) opts p e" "admitted opts e \<or> raw \<noteq> [] \<and> hd raw = full_stop"
      using assms(6) by (auto simp: list_all_iff)
    have "possible sc (map Plain us @ Plain e # ps) \<subseteq> possible sc (map Plain us @ p # ps)"
      unfolding possible_def p_def opts_def [symmetric] by (rule answers_piece [OF e(1) yields_magic [OF e [unfolded p_def]]])
    then show "row_part sc i (map Plain us @ Plain e # ps)" using assms(7) by (auto simp: row_part_def)
  qed
qed

lemma leaf_tasks:
  assumes "\<And>e. e \<in> set M \<Longrightarrow> sure sc (map Plain us @ [Plain e]) = {h e}" "\<And>e. e \<in> set M \<Longrightarrow> row_part sc i (map Plain us @ [Plain e])"
    "sure sc (prefix_portion pre @ remain) \<subseteq> (\<Union>e \<in> set M. sure sc (map Plain us @ [Plain e]))" "i < length (g_matches g)"
  defines "vs \<equiv> map (\<lambda>e. TEmit i (h e)) M @ [TDone]"
  shows "list_all (task_ok sc (no_match i g)) vs" "task_owes sc j (TCall (ReaddirCB pre a remain i b) ans) \<subseteq> stack_owes sc j vs"
    "trades sc (TCall (ReaddirCB pre a remain i b) ans) vs"
proof -
  have "h e \<in> possible sc (sc_rows sc ! i)" "i < length (sc_rows sc)" if "e \<in> set M" for e
    using assms(1,2) [OF that] sure_possible [of sc "map Plain us @ [Plain e]"] by (auto simp: row_part_def)
  then show "list_all (task_ok sc (no_match i g)) vs"
    using assms(4) by (auto simp: vs_def list_all_iff no_match_some)
  have "(\<Union>e \<in> set M. sure sc (map Plain us @ [Plain e])) = (\<Union>e \<in> set M. {h e})" using assms(1) by (rule SUP_cong [OF refl])
  with assms(3) have "sure sc (prefix_portion pre @ remain) \<subseteq> h ` set M" by (simp only: UN_singleton_image)
  moreover have "stack_owes sc i vs = h ` set M" by (auto simp: stack_owes_def vs_def)
  ultimately show "task_owes sc j (TCall (ReaddirCB pre a remain i b) ans) \<subseteq> stack_owes sc j vs"
    by (cases "j = i") simp_all
  show "trades sc (TCall (ReaddirCB pre a remain i b) ans) vs"
    unfolding vs_def by (rule trades_done) (auto simp: gain_def)
qed

lemma row_tasks:
  fixes b
  assumes "\<And>e. e \<in> set M \<Longrightarrow> sure sc (Plain (h e) # ps) = sure sc (map Plain us @ Plain e # ps)"
    "\<And>e. e \<in> set M \<Longrightarrow> tidy_row (Plain (h e) # ps) \<and> row_part sc i (Plain (h e) # ps)"
    "sure sc (prefix_portion pre @ p # ps) \<subseteq> (\<Union>e \<in> set M. sure sc (map Plain us @ Plain e # ps))" "\<not> is_plain p"
  defines "vs \<equiv> map (\<lambda>e. TProcess (Plain (h e) # ps) i b) M @ [TDone]"
  shows "list_all (task_ok sc g) vs" "task_owes sc j (TCall (ReaddirCB pre a (p # ps) i b) ans) \<subseteq> stack_owes sc j vs"
    "trades sc (TCall (ReaddirCB pre a (p # ps) i b) ans) vs"
proof -
  show "list_all (task_ok sc g) vs" using assms(2) by (simp add: vs_def list_all_iff)
  have "stack_owes sc i vs = (\<Union>e \<in> set M. sure sc (map Plain us @ Plain e # ps))"
    using assms(1) by (simp add: stack_owes_def vs_def)
  with assms(3) show "task_owes sc j (TCall (ReaddirCB pre a (p # ps) i b) ans) \<subseteq> stack_owes sc j vs"
    by (cases "j = i") simp_all
  have "need (sc_depth sc) (sc_home sc) (Plain (h e) # ps) < need (sc_depth sc) (sc_home sc) (prefix_portion pre @ p # ps)" for e
    using assms(4) by (intro need_fewer) simp
  then show "trades sc (TCall (ReaddirCB pre a (p # ps) i b) ans) vs"
    unfolding vs_def by (intro trades_done) (auto simp: gain_def intro!: weigh)
qed

lemma readdir2_inv:
  assumes "tidy_scene sc" "walk_inv sc s" "a_stack s = TCall (ReaddirCB pre a remain i b) ans # ts"
  shows "advances sc s (run_call (sc_case sc) fs (ReaddirCB pre a remain i b) ans (s\<lparr>a_stack := ts\<rparr>))"
proof -
  note d = walk_invD [OF assms(2)]
  note g = glob_okD [OF assms(1) d(2)]
  from d(5) [OF assms(3)] obtain k r ps where t: "split_ok sc pre a remain i" "ans = Entries (entries_at sc a)" "remain = Magic k r # ps"
    by auto
  from t(1) obtain us cs where u: "one_string us" "pre = (if us = [] then None else Some (hd us))"
      "cs = sc_home sc @ segments (join [slash] us)" "a = addr cs" "list_all good_name cs" "prefix_portion pre = map Plain us"
      "tidy_tail remain" "row_part sc i (map Plain us @ remain)" "entries_at sc a = listing (sc_fs sc) cs"
    by (elim split_okE [OF assms(1)])
  from u(7) t(3) obtain raw src where k: "remain = Magic (Some (raw, src)) r # ps" and tail: "tidy_tail ps" by auto
  let ?s = "s\<lparr>a_stack := ts\<rparr>" and ?p = "Magic (Some (raw, src)) r"
  show ?thesis
  proof (cases "listing (sc_fs sc) cs")
    case None
    then have "sure sc (map Plain us @ remain) = {}" using sure_absent [OF assms(1), of us ?p ps] by (simp add: u(3) k)
    with None show ?thesis
      by (intro advances_push [OF assms(2,3), where us = "[TDone]"])
        (use d in \<open>auto simp: run_readdir2_def push_def t(2) u(6,9) trade_defs\<close>)
  next
    case (Some es)
    note names = listed_good [OF assms(1) Some u(5)]
    then have "list_all good_name es" by (simp add: list_all_iff)
    from magic_picks [OF assms(1) d(2) Some [unfolded u(3)] this u(8) [unfolded k], of pre] obtain dots
      where dots: "dotOk (a_glob s) ?p = Inr dots"
        "sure sc (map Plain us @ ?p # ps) \<subseteq>
          (\<Union>e \<in> set (filter (entry_matches (sc_case sc) (a_glob s) dots ?p pre) es). sure sc (map Plain us @ Plain e # ps))"
        "\<And>e. e \<in> set (filter (entry_matches (sc_case sc) (a_glob s) dots ?p pre) es) \<Longrightarrow> row_part sc i (map Plain us @ Plain e # ps)"
      by blast
    define M where "M = filter (entry_matches (sc_case sc) (a_glob s) dots ?p pre) es"
    have M: "e \<in> set es" if "e \<in> set M" for e using that by (simp add: M_def)
    have j: "joined pre e = join [slash] (us @ [e])" "tidy_path (joined pre e) \<and> \<not> ends_slash (joined pre e)" if "e \<in> set M" for e
      using joined_join [OF u(1) names [OF M [OF that]]] by (simp_all add: u(2))
    have "mounted (a_glob s) (joined pre e) = joined pre e" if "e \<in> set M" for e
      using j(2) [OF that] by (auto simp: mounted_def tidy_path_def isAbsolute_hd)
    then have same: "map (\<lambda>e. TEmit i (mounted (a_glob s) (joined pre e))) M = map (\<lambda>e. TEmit i (joined pre e)) M" by simp
    have run: "run_call (sc_case sc) fs (ReaddirCB pre a remain i b) ans ?s =
       (if M = [] then push [TDone] ?s
        else if ps = [] \<and> \<not> g_mark (a_glob s) \<and> \<not> g_stat (a_glob s)
        then push (map (\<lambda>e. TEmit i (joined pre e)) M @ [TDone]) (with_glob (no_match i) ?s)
        else push (map (\<lambda>e. TProcess (Plain (joined pre e) # ps) i b) M @ [TDone]) ?s)"
      unfolding same [symmetric] by (simp add: t(2) u(9) k Some run_readdir2_def dots(1) M_def Let_def)
    note part = dots(2,3) [folded M_def]
    have i: "i < length (sc_rows sc)" using u(8) by (simp add: row_part_def)
    consider (none) "M = []" | (leaf) "M \<noteq> []" "ps = [] \<and> \<not> g_mark (a_glob s) \<and> \<not> g_stat (a_glob s)"
      | (other) "M \<noteq> []" "\<not> (ps = [] \<and> \<not> g_mark (a_glob s) \<and> \<not> g_stat (a_glob s))" by blast
    then show ?thesis
    proof cases
      case none
      then show ?thesis unfolding run
        by (intro advances_push [OF assms(2,3), where us = "[TDone]"]) (use d part(1) in \<open>auto simp: push_def u(6) k trade_defs\<close>)
    next
      case leaf
      have one: "sure sc (map Plain us @ [Plain e]) = {joined pre e}" if "e \<in> set M" for e
        using present_sure [OF assms(1) u(1) Some [unfolded u(3)] M [OF that]] j(1) [OF that] by simp
      note v = leaf_tasks [where M = M and us = us and h = "joined pre" and i = i and pre = pre and remain = remain and g = "a_glob s", OF one]
      show ?thesis unfolding run if_not_P [OF leaf(1)] if_P [OF leaf(2)]
        by (rule advances_tasks [where f = "no_match i", OF assms(2,3) v(1) v(2) glob_ok_no_match [OF d(2) i] grows_no_match v(3)])
          (use part leaf g(4) i in \<open>simp_all add: u(6) k gain_def\<close>)
    next
      case other
      have same: "sure sc (Plain (joined pre e) # ps) = sure sc (map Plain us @ Plain e # ps)" if "e \<in> set M" for e
        using j(1) [OF that] by (simp add: sure_joined)
      have rows: "tidy_row (Plain (joined pre e) # ps) \<and> row_part sc i (Plain (joined pre e) # ps)" if "e \<in> set M" for e
        using j [OF that] tail part(2) [OF that] by (auto simp: tidy_row_def row_part_def possible_joined)
      note v = row_tasks [where M = M and h = "joined pre" and i = i and pre = pre and p = ?p and ps = ps, OF same rows]
      show ?thesis unfolding run if_not_P [OF other(1)] if_not_P [OF other(2)]
        by (rule advances_more_tasks [OF assms(2,3) v(1) v(2) [folded k] d(2) grows_refl v(3) [folded k]])
          (use part in \<open>simp_all add: u(6) k gain_def\<close>)
    qed
  qed
qed

lemma globstar2_inv:
  assumes "tidy_scene sc" "walk_inv sc s" "a_stack s = TCall (GlobStarCB pre a remain i b) ans # ts"
  shows "advances sc s (run_call lc fs (GlobStarCB pre a remain i b) ans (s\<lparr>a_stack := ts\<rparr>))"
proof -
  note d = walk_invD [OF assms(2)]
  note fs = tidy_sceneD [OF assms(1)]
  from d(5) [OF assms(3)] obtain ps where t: "split_ok sc pre a remain i" "ans = Entries (entries_at sc a)" "remain = Globstar # ps"
    by auto
  from t(1) obtain us cs where u: "one_string us" "pre = (if us = [] then None else Some (hd us))"
      "cs = sc_home sc @ segments (join [slash] us)" "a = addr cs" "list_all good_name cs" "prefix_portion pre = map Plain us"
      "tidy_tail remain" "row_part sc i (map Plain us @ remain)" "entries_at sc a = listing (sc_fs sc) cs"
    by (elim split_okE [OF assms(1)])
  show ?thesis
  proof (cases "listing (sc_fs sc) cs")
    case None
    then have "sure sc (map Plain us @ remain) = {}"
      using sure_absent [OF assms(1), of us Globstar ps] by (simp add: u(3) t(3))
    with None show ?thesis
      by (intro advances_push [OF assms(2,3), where us = "[TDone]"])
        (use d in \<open>auto simp: run_globstar2_def push_def t(2) u(6,9) trade_defs\<close>)
  next
    case (Some es)
    let ?us = "[TProcess (map Plain us @ ps) i False, TGlobStarRest pre a remain i b es]"
    have dir: "fs_lstat (sc_fs sc) (addr cs) = Some DirK"
      using tidy_dir(1) [OF fs(1) u(5)] Some by (auto simp: listing_def split: sum.splits)
    have "possible sc (map Plain us @ ps) \<subseteq> possible sc (map Plain us @ remain)"
      unfolding possible_def t(3) by (rule answers_nothing) (use dir u(3) in simp)
    then have "row_part sc i (map Plain us @ ps)" using u(8) by (auto simp: row_part_def)
    moreover have "tidy_row (map Plain us @ ps)" using one_string_row [OF u(1)] u(7) t(3) by simp
    ultimately have ok: "list_all (task_ok sc (a_glob s)) ?us" using t(1,3) Some u(9) by simp
    have owes: "task_owes sc j (TCall (GlobStarCB pre a remain i b) ans) \<subseteq> stack_owes sc j ?us" for j
      using sure_globstar [OF fs(1,3) Some [unfolded u(3)], of "sc_case sc" "m_options (g_minimatch (sc_glob sc))" ps]
      by (simp add: u(6) t(3) sure_def)
    have "need (sc_depth sc) (sc_home sc) (map Plain us @ ps) < need (sc_depth sc) (sc_home sc) (map Plain us @ remain)"
      by (intro need_fewer) (simp add: t(3))
    then have tr: "trades sc (TCall (GlobStarCB pre a remain i b) ans) ?us"
      by (intro tradesI) (auto simp: gain_def u(6) intro!: weigh)
    have run: "run_call lc fs (GlobStarCB pre a remain i b) ans (s\<lparr>a_stack := ts\<rparr>) = push ?us (s\<lparr>a_stack := ts\<rparr>)"
      using Some by (simp add: run_globstar2_def t(2,3) u(6,9))
    show ?thesis unfolding run
      by (rule advances_more_tasks [OF assms(2,3) ok owes d(2) grows_refl tr]) (simp add: gain_def)
  qed
qed

lemma globstar_rest_inv:
  assumes "tidy_scene sc" "walk_inv sc s" "a_stack s = TGlobStarRest pre a remain i b names # ts"
  shows "advances sc s (run_globstar_rest pre a remain i b names (s\<lparr>a_stack := ts\<rparr>))"
proof -
  note d = walk_invD [OF assms(2)]
  note g = glob_okD [OF assms(1) d(2)]
  from d(5) [OF assms(3)] obtain ps where t: "split_ok sc pre a remain i" "entries_at sc a = Some names" "remain = Globstar # ps"
    by auto
  from t(1) obtain us cs where u: "one_string us" "pre = (if us = [] then None else Some (hd us))"
      "cs = sc_home sc @ segments (join [slash] us)" "a = addr cs" "list_all good_name cs" "prefix_portion pre = map Plain us"
      "tidy_tail remain" "row_part sc i (map Plain us @ remain)" "entries_at sc a = listing (sc_fs sc) cs"
    by (elim split_okE [OF assms(1)])
  let ?opts = "m_options (g_minimatch (sc_glob sc))"
  let ?two = "\<lambda>e. [TProcess (map Plain us @ Plain e # ps) i True, TProcess (map Plain us @ Plain e # remain) i True]"
  let ?us = "concat (map (\<lambda>e. if e \<noteq> [] \<and> hd e = full_stop \<and> \<not> g_dot (a_glob s) then [] else ?two e) names) @ [TDone]"
  have dot: "g_dot (a_glob s) = o_dot ?opts" using g(1,8) by (simp add: glob_conf_def)
  have good: "good_name e" if "e \<in> set names" for e
    using listed_good [OF assms(1) _ u(5) that] t(2) u(9) by simp
  have part: "list_all (task_ok sc (a_glob s)) (?two e)" if e: "e \<in> set names" "admitted ?opts e" for e
  proof -
    have "possible sc (map Plain us @ Plain e # ps) \<subseteq> possible sc (map Plain us @ remain)"
      unfolding possible_def t(3) by (rule answers_piece [OF good [OF e(1)] yields_instead [OF good [OF e(1)] e(2)]])
    moreover have "possible sc (map Plain us @ Plain e # remain) \<subseteq> possible sc (map Plain us @ remain)"
      unfolding possible_def t(3) by (rule answers_piece [OF good [OF e(1)] yields_below [OF good [OF e(1)] e(2)]])
    moreover have "tidy_tail (Plain e # ps)" "tidy_tail (Plain e # remain)" using good [OF e(1)] u(7) t(3) by simp_all
    ultimately show ?thesis using u(8) one_string_row [OF u(1)] by (simp add: row_part_def) blast
  qed
  then have ok: "list_all (task_ok sc (a_glob s)) ?us"
    using dot by (auto simp: list_all_iff)
  have owes: "task_owes sc j (TGlobStarRest pre a remain i b names) \<subseteq> stack_owes sc j ?us" for j
    by (auto simp: stack_owes_def u(6) t(3) dot)
  have "g_symlinks (a_glob s) a \<noteq> Some True" using caches_trueD [OF g(3) u(5)] by (simp add: cache_ok_def u(4))
  then have run: "run_globstar_rest pre a remain i b names (s\<lparr>a_stack := ts\<rparr>) = push ?us (s\<lparr>a_stack := ts\<rparr>)"
    by (simp add: run_globstar_rest_def u(6) t(3) cong: if_cong)
  let ?n = "need (sc_depth sc) (sc_home sc)"
  have "length cs \<le> sc_depth sc"
    using tidy_dir(2) [OF tidy_sceneD(1) [OF assms(1)] u(5)] t(2) u(9) by (auto simp: listing_def split: sum.splits)
  then have "?n (map Plain us @ Plain e # remain) < ?n (map Plain us @ remain)" if "e \<in> set names" for e
    using need_below [OF good [OF that]] unfolding t(3) u(3) by simp
  moreover have "?n (map Plain us @ Plain e # ps) < ?n (map Plain us @ remain)" for e by (intro need_fewer) (simp add: t(3))
  ultimately have tr: "trades sc (TGlobStarRest pre a remain i b names) ?us"
    by (intro trades_done) (auto simp: gain_def u(6) intro!: weigh split: if_splits)
  show ?thesis unfolding run
    by (rule advances_more_tasks [OF assms(2,3) ok owes d(2) grows_refl tr]) (simp add: gain_def)
qed

lemma lstatcb_inv:
  assumes "tidy_scene sc" "walk_inv sc s" "a_stack s = TCall (LstatCB a) ans # ts"
  shows "advances sc s (run_call lc fs (LstatCB a) ans (s\<lparr>a_stack := ts\<rparr>))"
proof -
  note d = walk_invD [OF assms(2)]
  note g = glob_okD [OF assms(1) d(2)]
  note fs = tidy_sceneD [OF assms(1)]
  have t: "dir_at a" "ans = Kind (fs_lstat (sc_fs sc) a)" using d(5) [OF assms(3)] by auto
  then obtain cs where cs: "list_all good_name cs" "a = addr cs" by (auto simp: dir_at_def)
  note dir = tidy_dir [OF fs(1) cs(1), folded cs(2)]
  have none: "entries_at sc a = None" if "fs_lstat (sc_fs sc) a \<noteq> Some DirK"
    using dir(1) that by (auto simp: entries_at_def split: sum.splits)
  have step: "advances sc s (push [u] (with_glob f (s\<lparr>a_stack := ts\<rparr>)))"
    if "task_ok sc (f (a_glob s)) u" "learns (sc_fs sc) (a_glob s) (f (a_glob s))" "trades sc (TCall (LstatCB a) ans) [u]" for u f
    by (rule advances_tasks [OF assms(2,3)])
      (use that glob_ok_learns [OF d(2) that(2)] learns_grows [OF that(2)] in \<open>simp_all add: gain_def\<close>)
  show ?thesis
  proof (cases "fs_lstat (sc_fs sc) a")
    case None
    then show ?thesis using step [of "\<lambda>g. g" "TRes (KReaddir a True) (Entries None)"] none learns_refl [OF g(3)]
      by (simp add: t(2) run_lstatcb_def trade_defs with_glob_same)
  next
    case (Some k)
    let ?link = "\<lambda>g. g\<lparr>g_symlinks := (g_symlinks g)(a \<mapsto> k = LinkK)\<rparr>" and ?put = "\<lambda>g. g\<lparr>g_cache := (g_cache g)(a \<mapsto> CFile)\<rparr>"
    have k: "k \<noteq> LinkK" using dir(3) Some by auto
    have "caches_true (sc_fs sc) (?link (a_glob s))" using g(3) k by (auto simp: caches_true_def cache_ok_def)
    then have l: "learns (sc_fs sc) (a_glob s) (?link (a_glob s))" by (simp add: learns_def)
    show ?thesis
    proof (cases "k = FileK")
      case False
      then show ?thesis using step [of ?link "TReaddir a False (ForwardCB (KReaddir a True))"] l t(1)
        by (simp add: t(2) Some run_lstatcb_def trade_defs Let_def)
    next
      case True
      have "cache_ok (sc_fs sc) (?put (?link (a_glob s))) cs"
        using caches_trueD [OF g(3) cs(1)] Some True by (simp add: cache_ok_def cs(2))
      with cache_put_true [of "sc_fs sc" "?link (a_glob s)" cs CFile] cs l
      have "learns (sc_fs sc) (?link (a_glob s)) (?put (?link (a_glob s)))" by (simp add: learns_def)
      with l have "learns (sc_fs sc) (a_glob s) (?put (?link (a_glob s)))" by (rule learns_trans)
      then show ?thesis using step [of "\<lambda>g. ?put (?link g)" "TRes (KReaddir a True) (Entries None)"] none Some True
        by (simp add: t(2) Some run_lstatcb_def trade_defs Let_def with_glob_def)
    qed
  qed
qed

end
