(* ===== verification/Glob_Async_Run.thy ===== *)
theory Glob_Async_Run
  imports Glob_Async_Steps
begin

text \<open>
  Every step of the walk, the state it starts from and the one it comes to rest in.
\<close>

section \<open>Every step\<close>

lemma stat_call_inv:
  assumes "tidy_scene sc" "walk_inv sc s" "a_stack s = TCall (StatCB f i) ans # ts"
  shows "advances sc s (run_call lc fs (StatCB f i) ans (s\<lparr>a_stack := ts\<rparr>))"
proof -
  note d = walk_invD [OF assms(2)]
  note fs = tidy_sceneD [OF assms(1)]
  let ?a = "makeAbs (sc_fs sc) (sc_glob sc) f"
  have t: "path_ok f" "row_part sc i [Plain f]" "ans = Kind (fs_lstat (sc_fs sc) ?a)"
    using d(5) [OF assms(3)] by auto
  have link: "fs_lstat (sc_fs sc) ?a \<noteq> Some LinkK"
  proof (cases "f = []")
    case True
    then show ?thesis using fs(1) by (simp add: makeAbs_def tidy_fs_def)
  next
    case False
    then have "tidy_path f" using t(1) by (simp add: path_ok_def)
    then show ?thesis
      using makeAbs_scene [OF assms(1) d(2)] glob_okD(2) [OF assms(1) d(2)] tidy_dir(3) [OF fs(1)] by simp
  qed
  let ?us = "[TStat2 f i (fs_lstat (sc_fs sc) ?a)]"
  have "run_call lc fs (StatCB f i) ans (s\<lparr>a_stack := ts\<rparr>) = push ?us (s\<lparr>a_stack := ts\<rparr>)"
    using link by (simp add: t(3))
  then show ?thesis
    using advances_more_tasks [OF assms(2,3), of ?us] t d(2) by (simp add: trade_defs)
qed

lemma forward_inv:
  assumes "walk_inv sc s" "a_stack s = TCall (ForwardCB key) ans # ts"
  shows "advances sc s (run_call lc fs (ForwardCB key) ans (s\<lparr>a_stack := ts\<rparr>))"
proof -
  note d = walk_invD [OF assms(1)]
  have "ans_ok sc key ans" using d(5) [OF assms(2)] by auto
  then show ?thesis
    using advances_more_tasks [OF assms, of "[TRes key ans]"] d(2) by (simp add: trade_defs)
qed

lemma held_open:
  assumes "ledger s" "key \<in># holders s"
  obtains cbs where "map_of (a_reqs s) key = Some cbs"
proof -
  have "key \<in> fst ` set (a_reqs s)" using assms(2) unfolding ledgerD(1) [OF assms(1)] by simp
  then show thesis using that by (cases "map_of (a_reqs s) key") (simp_all add: map_of_eq_None_iff)
qed

lemma task_advances:
  assumes "tidy_scene sc" "walk_inv sc s" "ledger s" "a_stack s = t # ts"
  shows "advances sc s (run_task (sc_case sc) (sc_collate sc) (sc_fs sc) t (s\<lparr>a_stack := ts\<rparr>))"
proof -
  have ok: "task_ok sc (a_glob s) t" using walk_invD(5) [OF assms(2,4)] .
  show ?thesis
  proof (cases t)
    case (TProcess p i b)
    then show ?thesis using process_inv [OF assms(1,2)] assms(4) by simp
  next
    case (TStat f i)
    then show ?thesis using stat_inv [OF assms(1,2)] assms(4) by simp
  next
    case (TSimple2 f i c)
    then show ?thesis using simple2_inv [OF assms(1,2)] assms(4) by simp
  next
    case (TStat2 f i k)
    then show ?thesis using stat2_inv [OF assms(1,2)] assms(4) by simp
  next
    case (TEmit i e)
    then show ?thesis using match_inv [OF assms(1,2)] assms(4) by simp
  next
    case (TReaddir a b cb)
    then show ?thesis using readdir_inv [OF assms(1,2)] assms(4) by simp
  next
    case (TDirAnswer a b r)
    then show ?thesis using dir_answer_inv [OF assms(1,2)] assms(4) by simp
  next
    case (TRes key ans)
    then have "key \<in># holders s" using assms(4) by (simp add: holders_def)
    then obtain cbs where "map_of (a_reqs s) key = Some cbs" by (rule held_open [OF assms(3)])
    then show ?thesis using res_inv [OF assms(2)] assms(4) TRes by simp
  next
    case (TCall cb ans)
    then show ?thesis
      using readdir2_inv [OF assms(1,2)] globstar2_inv [OF assms(1,2)] forward_inv [OF assms(2)] lstatcb_inv [OF assms(1,2)]
        stat_call_inv [OF assms(1,2)] assms(4) by (cases cb) (simp_all del: run_call.simps)
  next
    case (TFinally key ans)
    then show ?thesis using finally_inv [OF assms(2)] assms(4) by simp
  next
    case (TGlobStarRest pre a remain i b names)
    then show ?thesis using globstar_rest_inv [OF assms(1,2)] assms(4) by simp
  next
    case TDone
    then show ?thesis using done_inv [OF assms(2)] assms(4) by simp
  next
    case TFinish
    then show ?thesis using finish_inv [OF assms(1,2)] assms(4) by simp
  qed (use ok in simp_all)
qed

text \<open>An answer arrives, or a tick comes.\<close>

lemma ledger_arrival:
  assumes "ledger s" "a_stack s = []" "a_stack s' = [u]" "carries u" "a_reqs s' = a_reqs s" "a_processing s' = a_processing s"
    "a_events s' = a_events s" "holders s' = holders s" "way s' < way s"
  shows "ledger s' \<and> (s', s) \<in> shrinks sc"
proof
  have u: "task_work u = 0 \<and> \<not> opens u \<and> u \<noteq> TFinish" using assms(4) by (cases u) auto
  note d = ledgerD [OF assms(1)]
  have w: "works s' = works s" using u assms(2,3,5) by (simp add: works_def)
  then have "idle s' = idle s" "finishes s' = finishes s" using u assms(2,3,7) by (simp_all add: idle_def finishes_def)
  then show "ledger s'" using d u w assms(3,5,6,8) by (simp add: ledger_def)
  show "(s', s) \<in> shrinks sc"
    using assms(2-5,9) by (intro shrinks_way) (simp_all add: mass_def task_mass_def)
qed

lemma reply_advances:
  assumes "tidy_scene sc" "walk_inv sc s" "a_stack s = []" "q \<in> set (a_asks s)"
  shows "advances sc s (push [fs_answer (sc_fs sc) (a_glob s) q] (s\<lparr>a_asks := remove1 q (a_asks s)\<rparr>))" (is "advances sc s ?s")
proof -
  note d = walk_invD [OF assms(2)]
  let ?u = "fs_answer (sc_fs sc) (a_glob s) q"
  have ok: "ask_ok sc q" using d(6) assms(4) by (simp add: list_all_iff)
  then have u: "task_ok sc (a_glob s) ?u" "carries ?u" "task_holds ?u = ask_holds q" "task_way w ?u < 6" for w
    by (auto elim!: ask_ok.elims)
  have "list_all (ask_ok sc) (remove1 q (a_asks s))" using d(6) by (auto simp: list_all_iff dest: notin_set_remove1 set_remove1_subset [THEN subsetD])
  then have "walk_inv sc ?s" using assms(2,3) u(1) by (auto simp: walk_inv_def push_def)
  moreover have "ledger ?s \<and> (?s, s) \<in> shrinks sc" if l: "ledger s"
  proof (rule ledger_arrival [OF l assms(3), where u = ?u])
    have len: "Suc (length (remove1 q (a_asks s))) = length (a_asks s)" using assms(4) by (simp add: length_remove1, cases "a_asks s") simp_all
    have "awaited ?s = awaited s" by (simp add: awaited_def push_def fun_eq_iff)
    then show "way ?s < way s" using u(4) [of "awaited s"] len assms(3) by (simp add: way_def push_def)
    show "holders ?s = holders s"
      using u(3) assms(3) sum_list_map_remove1 [OF assms(4), of ask_holds] by (simp add: holders_def push_def ac_simps)
  qed (use u assms(3) in \<open>simp_all add: push_def\<close>)
  ultimately show ?thesis by (simp add: advances_def)
qed

lemma tick_advances:
  assumes "walk_inv sc s" "a_stack s = []" "a_ticks s = (key, ans) # rest"
  shows "advances sc s (push [TRes key ans] (s\<lparr>a_ticks := rest\<rparr>))" (is "advances sc s ?s")
proof -
  have "walk_inv sc ?s" using assms by (auto simp: walk_inv_def push_def)
  moreover have "ledger ?s \<and> (?s, s) \<in> shrinks sc" if l: "ledger s"
  proof (rule ledger_arrival [OF l assms(2), where u = "TRes key ans"])
    have "awaited ?s = awaited s" by (simp add: awaited_def push_def fun_eq_iff)
    then show "way ?s < way s" using assms(2,3) by (simp add: way_def push_def)
    show "holders ?s = holders s" using assms(2,3) by (simp add: holders_def push_def)
  qed (use assms(2) in \<open>simp_all add: push_def\<close>)
  ultimately show ?thesis by (simp add: advances_def)
qed

abbreviation scene_step :: "scene \<Rightarrow> async \<Rightarrow> async \<Rightarrow> bool" where
  "scene_step sc \<equiv> async_step (sc_case sc) (sc_collate sc) (sc_fs sc)"

lemma step_advances:
  assumes "tidy_scene sc" "scene_step sc s s'" "walk_inv sc s" "ledger s"
  shows "walk_inv sc s' \<and> ledger s' \<and> (s', s) \<in> shrinks sc"
proof -
  have "advances sc s s'"
    using assms(2)
  proof cases
    case (run t ts)
    then show ?thesis using task_advances [OF assms(1,3,4)] by simp
  next
    case (reply q)
    then show ?thesis using reply_advances [OF assms(1,3)] by simp
  next
    case (tick key ans rest)
    then show ?thesis using tick_advances [OF assms(3)] by simp
  qed
  then show ?thesis using assms(4) by (simp add: advances_def)
qed

section \<open>The start\<close>

definition blank :: "glob_obj \<Rightarrow> bool" where
  "blank g \<longleftrightarrow> g_cache g = Map.empty \<and> g_statCache g = Map.empty \<and> g_symlinks g = Map.empty"

lemma blank_true: "blank g \<Longrightarrow> caches_true fs g"
  by (simp add: blank_def caches_true_def cache_ok_def)

lemma list_all_rows: "list_all (\<lambda>(i, row). P i row) (enumerate 0 rows) \<longleftrightarrow> (\<forall>i < length rows. P i (rows ! i))"
  by (auto simp: list_all_length nth_enumerate_eq)

lemma start_inv:
  assumes "tidy_scene sc" "blank (sc_glob sc)" "\<not> g_noprocess (sc_glob sc)" "sc_rows sc \<noteq> []"
  shows "walk_inv sc (new_async callback (sc_glob sc))" "ledger (new_async callback (sc_glob sc))"
proof -
  let ?rows = "sc_rows sc" and ?s = "new_async callback (sc_glob sc)"
  let ?stack = "map (\<lambda>(i, row). TProcess row i False) (enumerate 0 ?rows)"
  have s: "a_stack ?s = ?stack" "a_glob ?s = (sc_glob sc)\<lparr>g_matches := replicate (length ?rows) None\<rparr>" "a_reqs ?s = []" "a_asks ?s = []"
      "a_ticks ?s = []" "a_events ?s = []" "a_processing ?s = 0" "a_missing ?s = (\<lambda>p. False)" "calm ?s"
    using assms(3,4) by (simp_all add: new_async_def Let_def calm_def)
  have each: "list_all P ?stack \<longleftrightarrow> (\<forall>i < length ?rows. P (TProcess (?rows ! i) i False))" for P
    by (auto simp: list_all_length nth_enumerate_eq)
  have "caches_true (sc_fs sc) (a_glob ?s)" using blank_true [OF assms(2)] by (simp add: s(2))
  moreover have "setup_of (a_glob ?s) = setup_of (sc_glob sc)" by (simp add: s(2) setup_of_def)
  ultimately have "glob_ok sc (a_glob ?s)" by (simp add: glob_ok_def s(2) row_set_def)
  moreover have "list_all (task_ok sc (a_glob ?s)) ?stack"
    unfolding each using assms(1) by (simp add: tidy_scene_def row_part_def list_all_length)
  moreover have "sure sc (?rows ! i) \<subseteq> stack_owes sc i ?stack" if "i < length ?rows" for i
  proof -
    have "TProcess (?rows ! i) i False \<in> set ?stack"
      using that by (auto simp: in_set_enumerate_eq intro!: rev_image_eqI [of "(i, ?rows ! i)"])
    then show ?thesis by (auto simp: stack_owes_def)
  qed
  ultimately show "walk_inv sc ?s" using s by (auto simp: walk_inv_def reqs_ok_def)
  have "list_all first_calls ?stack" by (simp add: each)
  then have "starting ?s" using assms(2) s by (simp add: starting_def blank_def)
  moreover have "holders ?s = {#} \<and> works ?s = 0"
    using s by (auto simp: holders_def works_def waiters_def intro!: sum_list_zero)
  moreover have "?stack \<noteq> []" using assms(4) by (simp add: enumerate_eq_zip)
  then have "\<not> idle ?s" using s(1) by (cases ?stack) (auto simp: idle_def)
  moreover have "TFinish \<notin> set ?stack" by auto
  then have "finishes ?s = 0" using s by (simp add: finishes_def count_notin)
  ultimately show "ledger ?s" using s by (simp add: ledger_def)
qed

section \<open>The end\<close>

text \<open>What an \<open>end\<close> reports: the collected matches of a state in which every row is complete.\<close>

fun end_ok :: "scene \<Rightarrow> gevent \<Rightarrow> bool" where
  "end_ok sc (EEnd found) \<longleftrightarrow> (\<exists>g. glob_ok sc g \<and> (\<forall>i < length (sc_rows sc). sure sc (sc_rows sc ! i) \<subseteq> row_set g i) \<and>
     found = g_found (finish_common (sc_case sc) (sc_collate sc) (sc_fs sc) g))"
| "end_ok sc _ \<longleftrightarrow> True"

lemma ends_only: "list_all (end_ok sc) es \<longleftrightarrow> list_all (end_ok sc) (filter is_end es)"
  by (induction es) (auto elim: is_end.elims)

text \<open>The events \<open>end\<close> of a state.\<close>

definition ends :: "async \<Rightarrow> gevent list" where
  "ends s = filter is_end (a_events s)"

lemma ends_simps [simp]:
  "ends (push us s) = ends s" "ends (with_glob f s) = ends s" "ends (throw e s) = ends s" "ends (asking qs s) = ends s"
  "ends (inflight_open k cb s) = ends s" "ends (inflight_join k cb s) = ends s" "ends (s\<lparr>a_stack := ts\<rparr>) = ends s"
  "ends (s\<lparr>a_reqs := rs\<rparr>) = ends s" "ends (s\<lparr>a_asks := qs\<rparr>) = ends s" "ends (s\<lparr>a_ticks := q\<rparr>) = ends s" "ends (s\<lparr>a_glob := g\<rparr>) = ends s"
  "ends (s\<lparr>a_missing := m\<rparr>) = ends s" "ends (s\<lparr>a_processing := n\<rparr>) = ends s" "ends (s\<lparr>a_processQueue := pq\<rparr>) = ends s"
  "ends (s\<lparr>a_emitQueue := eq\<rparr>) = ends s" "ends (s\<lparr>a_aborted := b\<rparr>) = ends s" "ends (s\<lparr>a_didRealpath := b\<rparr>) = ends s"
  "ends (s\<lparr>a_rowsLeft := n\<rparr>) = ends s" "ends (s\<lparr>a_rowLeft := nn\<rparr>) = ends s" "\<not> is_end ev \<Longrightarrow> ends (note_event ev s) = ends s"
  by (simp_all add: ends_def async_simps throw_def)

lemma ends_runs [simp]:
  "ends (run_process lc fs p i b s) = ends s" "ends (run_simple2 f i c s) = ends s"
  "ends (run_readdir a b cb s) = ends s" "ends (run_res key ans s) = ends s" "ends (run_finally key ans s) = ends s"
  "ends (run_globstar2 pre a remain i b found s) = ends s" "ends (run_globstar_rest pre a remain i b names s) = ends s"
  "ends (run_done s) = ends s" "ends (run_realpath s) = ends s" "ends (run_realpath_set fs i s) = ends s" "ends (run_next s) = ends s"
  "ends (run_resume_process s) = ends s" "ends (run_lstatcb a k s) = ends s" "ends (run_stat_fresh fs f i s) = ends s"
  by (simp_all add: run_process_def run_simple2_def run_readdir_def run_readdirInGlobStar_def run_res_def run_finally_def run_globstar2_def run_globstar_rest_def
      run_done_def run_realpath_def run_realpath_set_def run_next_def run_resume_process_def run_lstatcb_def run_stat_fresh_def Let_def
      split: option.split cache_entry.split)

lemma ends_more [simp]:
  "ends (run_stat fs f i s) = ends s" "ends (run_stat2 fs f i st s) = ends s" "ends (do_abort s) = ends s"
  "ends (run_dir_answer fs a b r s) = ends s" "ends (run_readdir2 lc pre remain i b found s) = ends s" "ends (run_real i p rr s) = ends s"
  by (simp_all add: run_stat_def run_stat2_def do_abort_def run_dir_answer_def run_readdir2_def run_real_def Let_def
      split: option.split sum.split fs_code.split realpath_error.split)

lemma ends_emit [simp]: "ends (run_emit lc fs i e s) = ends s"
proof -
  obtain s1 e1 where m: "marked fs e s = (s1, e1)" by force
  then have "ends s1 = ends s" by (auto simp: marked_def Let_def split: prod.splits if_splits)
  then show ?thesis by (simp add: run_emit_def Let_def m split: option.split)
qed

lemma ends_call [simp]: "ends (run_call lc fs cb ans s) = ends s"
  by (cases "(lc, fs, cb, ans, s)" rule: run_call.cases) simp_all

lemma ends_task: "t \<noteq> TFinish \<Longrightarrow> ends (run_task lc collate fs t s) = ends s"
  by (cases t) simp_all

lemma step_ends:
  assumes "tidy_scene sc" "scene_step sc s s'" "walk_inv sc s" "ledger s" "list_all (end_ok sc) (ends s)"
  shows "list_all (end_ok sc) (ends s')"
  using assms(2)
proof cases
  case (run t ts)
  show ?thesis
  proof (cases "t = TFinish")
    case False
    then show ?thesis using assms(5) run ends_task [OF False] by simp
  next
    case True
    obtain found where f: "run_finish (sc_case sc) (sc_collate sc) (sc_fs sc) (s\<lparr>a_stack := ts\<rparr>) =
        s\<lparr>a_glob := (a_glob s)\<lparr>g_found := found\<rparr>, a_stack := ts, a_events := a_events s @ [EEnd found]\<rparr>"
      "found = g_found (finish_common (sc_case sc) (sc_collate sc) (sc_fs sc) (a_glob s))"
      by (rule finish_runs [OF assms(1,3)])
    have "finishes s \<noteq> 0" using run(2) True by (simp add: finishes_def)
    then have "idle s" using ledgerD(3) [OF assms(4)] by (simp split: if_splits)
    then have "sure sc (sc_rows sc ! i) \<subseteq> row_set (a_glob s) i" if "i < length (sc_rows sc)" for i
      using assms(3) that idle_owes by (auto simp: walk_inv_def)
    then have "end_ok sc (EEnd found)" using walk_invD(2) [OF assms(3)] f(2) by auto
    then show ?thesis using assms(5) run(1) True f(1) by (simp add: ends_def)
  qed
qed (use assms(5) in simp_all)

text \<open>All that is left when nothing can happen any more.\<close>

lemma stuck_quiet:
  assumes "\<not> (\<exists>s'. scene_step sc s s')"
  shows "a_stack s = []" "a_asks s = []" "a_ticks s = []"
proof -
  show st: "a_stack s = []" using assms async_step.run [of s] by (cases "a_stack s") blast+
  show "a_asks s = []" using assms async_step.reply [OF st] by (cases "a_asks s") (simp, metis list.set_intros(1))
  show "a_ticks s = []" using assms async_step.tick [OF st] by (cases "a_ticks s") (simp, metis surj_pair)
qed

lemma quiet_idle:
  assumes "walk_inv sc s" "ledger s" "a_stack s = []" "a_asks s = []" "a_ticks s = []"
  shows "idle s" "length (ends s) = 1"
proof -
  note d = walk_invD [OF assms(1)]
  have keys: "mset (map fst (a_reqs s)) = sum_list (map cb_holds (waiters (a_reqs s)))"
    using ledgerD(1) [OF assms(2)] assms(3-5) by (simp add: holders_def)
  have form: "k \<in># sum_list (map cb_holds cbs) \<Longrightarrow> \<exists>cb \<in> set cbs. k \<in># cb_holds cb" for k cbs
    by (induction cbs) auto
  have cb: "cb_holds cb = {#}" if cb: "cb \<in> set (waiters (a_reqs s))" for cb
  proof (rule ccontr)
    assume held: "cb_holds cb \<noteq> {#}"
    from cb obtain key cbs where key: "(key, cbs) \<in> set (a_reqs s)" "cb \<in> set cbs" by (auto simp: waiters_def)
    have ok: "cb_ok sc key cb" using d(4) key by (auto simp: reqs_ok_def list_all_iff)
    have "key \<in># mset (map fst (a_reqs s))" using key(1) by (auto simp: rev_image_eqI)
    then obtain cb' where cb': "cb' \<in> set (waiters (a_reqs s))" "key \<in># cb_holds cb'" using form unfolding keys by blast
    from cb'(1) obtain key' cbs' where "(key', cbs') \<in> set (a_reqs s)" "cb' \<in> set cbs'" by (auto simp: waiters_def)
    then have "cb_ok sc key' cb'" using d(4) by (auto simp: reqs_ok_def list_all_iff)
    then have "\<exists>a. key = KReaddir a True" using cb'(2) by (cases cb') auto
    then show False using ok held by (cases cb) auto
  qed
  have "sum_list (map cb_holds (waiters (a_reqs s))) = {#}" using cb by (intro sum_list_zero)
  then have "a_reqs s = []" using keys by simp
  then show i: "idle s" using assms(3) by (simp add: idle_def works_def waiters_def)
  then show "length (ends s) = 1" using ledgerD(3) [OF assms(2)] assms(3) by (simp add: finishes_def ends_def)
qed

section \<open>Runs that end\<close>

text \<open>Steps that keep an invariant and go down in a well-founded order.\<close>

locale ending_steps =
  fixes step :: "'s \<Rightarrow> 's \<Rightarrow> bool" and inv :: "'s \<Rightarrow> bool" and below :: "('s \<times> 's) set"
  assumes wf_below: "wf below"
    and step_below: "inv s \<Longrightarrow> step s s' \<Longrightarrow> inv s' \<and> (s', s) \<in> below"
begin

lemma reached: "step\<^sup>*\<^sup>* s0 s \<Longrightarrow> inv s0 \<Longrightarrow> inv s"
  by (induction rule: rtranclp_induct) (auto dest: step_below)

lemma no_endless_run:
  assumes "inv s0"
  shows "\<not> (\<exists>run. run 0 = s0 \<and> (\<forall>n. step (run n) (run (Suc n))))"
proof
  assume "\<exists>run. run 0 = s0 \<and> (\<forall>n. step (run n) (run (Suc n)))"
  then obtain run where run: "run 0 = s0" "\<And>n. step (run n) (run (Suc n))" by blast
  have "inv (run n)" for n by (induction n) (use run assms step_below in auto)
  then have "(run (Suc n), run n) \<in> below" for n using run(2) step_below by blast
  then show False using wf_below unfolding wf_iff_no_infinite_down_chain by blast
qed

lemma comes_to_rest: "inv s0 \<Longrightarrow> \<exists>s. step\<^sup>*\<^sup>* s0 s \<and> \<not> (\<exists>s'. step s s')"
proof (induction s0 rule: wf_induct_rule [OF wf_below])
  case (1 s)
  show ?case
  proof (cases "\<exists>s'. step s s'")
    case True
    then obtain s' where s': "step s s'" by blast
    then have "inv s'" "(s', s) \<in> below" using step_below 1(2) by blast+
    then obtain s2 where "step\<^sup>*\<^sup>* s' s2" "\<not> (\<exists>s3. step s2 s3)" using 1(1) by blast
    then show ?thesis using s' by (meson converse_rtranclp_into_rtranclp)
  qed blast
qed

end

interpretation walks: ending_steps "\<lambda>s s'. tidy_scene sc \<and> scene_step sc s s'"
  "\<lambda>s. walk_inv sc s \<and> ledger s \<and> list_all (end_ok sc) (ends s)" "shrinks sc" for sc
  by unfold_locales (use step_advances step_ends in \<open>auto simp: wf_shrinks\<close>)

end
