(* ===== verification/Glob_Results.thy ===== *)
theory Glob_Results
  imports Glob_Walk
begin

text \<open>
  Whole walks: the rows of a pattern together, the collection of the results, the agreement with the matcher of \<open>Minimatch\<close>,
  walks that always come back, and a path that is reported though it is not there.
\<close>

section \<open>A whole walk\<close>

text \<open>The rows so far hold what they should, the others nothing.\<close>

definition rows_found :: "letter_case \<Rightarrow> file_system \<Rightarrow> jstring list \<Rightarrow> glob_obj \<Rightarrow> portion list list \<Rightarrow> nat \<Rightarrow> glob_obj \<Rightarrow> bool" where
  "rows_found lc fs home g0 rows k g \<longleftrightarrow>
     caches_true fs g \<and> rest_of g = rest_of g0 \<and> length (g_matches g) = length rows \<and>
     (\<forall>j < length rows.
        if j < k then
          answers lc (m_options (g_minimatch g0)) fs home (present fs home) (rows ! j) \<subseteq> row_set g j \<and>
          row_set g j \<subseteq> answers lc (m_options (g_minimatch g0)) fs home (\<lambda>m. present fs home m \<or> believed fs home m) (rows ! j)
        else row_set g j = {})"

lemma rows_found_step:
  assumes "tidy_fs fs N" "glob_conf fs home g0" "tidy_row (rows ! k)" "need N home (rows ! k) < d" "k < length rows"
    "rows_found lc fs home g0 rows k g"
  shows "returns (glob_process lc fs d k (rows ! k) b g) (rows_found lc fs home g0 rows (Suc k))"
proof -
  note old = assms(6) [unfolded rows_found_def]
  have k: "k < length (g_matches g)" using old assms(5) by simp
  from findsD [OF process_finds [OF assms(1,3,4)] assms(2), of g k lc b] old k
  have "returns (glob_process lc fs d k (rows ! k) b g)
      (extends fs k (answers lc (m_options (g_minimatch g0)) fs home (present fs home) (rows ! k))
        (answers lc (m_options (g_minimatch g0)) fs home (\<lambda>m. present fs home m \<or> believed fs home m) (rows ! k)) g)" by blast
  then show ?thesis
  proof (rule returns_weaken)
    fix g' assume e: "extends fs k (answers lc (m_options (g_minimatch g0)) fs home (present fs home) (rows ! k))
        (answers lc (m_options (g_minimatch g0)) fs home (\<lambda>m. present fs home m \<or> believed fs home m) (rows ! k)) g g'"
    have other: "row_set g' j = row_set g j" if "j \<noteq> k" for j
      using e that by (simp add: extends_def row_set_def)
    have blank: "row_set g k = {}" using old assms(5) by simp
    show "rows_found lc fs home g0 rows (Suc k) g'"
      unfolding rows_found_def
    proof (intro conjI allI impI)
      fix j assume j: "j < length rows"
      consider "j < k" | "j = k" | "k < j" by linarith
      then show "if j < Suc k then
          answers lc (m_options (g_minimatch g0)) fs home (present fs home) (rows ! j) \<subseteq> row_set g' j \<and>
          row_set g' j \<subseteq> answers lc (m_options (g_minimatch g0)) fs home (\<lambda>m. present fs home m \<or> believed fs home m) (rows ! j)
        else row_set g' j = {}"
      proof cases
        case 2
        then show ?thesis using e blank by (simp add: extends_def)
      qed (use old j other [of j] in auto)
    qed (use extends_keeps [OF e] old in simp_all)
  qed
qed

lemma rows_found_all:
  assumes "tidy_fs fs N" "glob_conf fs home g0" "\<forall>row \<in> set rows. tidy_row row \<and> need N home row < d"
    "rows_found lc fs home g0 rows 0 g"
  shows "returns (foldC (\<lambda>(i, row). glob_process lc fs d i row False) (enumerate 0 rows) g)
    (rows_found lc fs home g0 rows (length rows))"
proof -
  have "returns (foldC (\<lambda>(i, row). glob_process lc fs d i row False) (enumerate (length ds) xs) g)
      (rows_found lc fs home g0 rows (length rows))"
    if "rows = ds @ xs" "rows_found lc fs home g0 rows (length ds) g" for ds xs g
    using that
  proof (induction xs arbitrary: ds g)
    case (Cons x xs)
    have x: "rows ! length ds = x" "length ds < length rows" "tidy_row x" "need N home x < d"
      using Cons.prems(1) assms(3) by auto
    from rows_found_step [OF assms(1,2) _ _ x(2) Cons.prems(2)] x
    have step: "returns (glob_process lc fs d (length ds) x False g) (rows_found lc fs home g0 rows (length (ds @ [x])))" by simp
    show ?case
      using returns_bind [OF step Cons.IH [of "ds @ [x]"]] Cons.prems(1) by simp
  qed simp
  from this [of "[]" rows g] assms(4) show ?thesis by simp
qed

lemma set_own_keys [simp]: "set (own_keys ks) = set ks"
proof -
  have "set (foldl (\<lambda>ds k. if k \<in> set ds then ds else ds @ [k]) ds ks) = set ds \<union> set ks" for ds
    by (induction ks arbitrary: ds) auto
  then show ?thesis by (auto simp: own_keys_def Let_def)
qed

lemma distinct_own_keys: "distinct (own_keys ks)"
proof -
  have "distinct (foldl (\<lambda>ds k. if k \<in> set ds then ds else ds @ [k]) ds ks)" if "distinct ds" for ds
    using that by (induction ks arbitrary: ds) auto
  then show ?thesis by (auto simp: own_keys_def Let_def)
qed

lemma sort_insert_mset: "mset (sort_insert cmp x xs) = add_mset x (mset xs)"
  by (induction xs) auto

lemma distinct_js_sort: "distinct xs \<Longrightarrow> distinct (js_sort cmp xs)"
proof -
  have "mset (js_sort cmp xs) = mset xs" by (induction xs) (simp_all add: js_sort_def sort_insert_mset)
  then show "distinct xs \<Longrightarrow> distinct (js_sort cmp xs)" using mset_eq_imp_distinct_iff by blast
qed

text \<open>The options under which the results are the matches themselves.\<close>

definition bare :: "glob_obj \<Rightarrow> bool" where
  "bare g \<longleftrightarrow> \<not> g_realpath g \<and> \<not> g_mark g \<and> \<not> g_nonull g \<and> \<not> g_noprocess g \<and> g_ignore g = []"

lemma finish_bare:
  assumes "bare g"
  shows "\<exists>g'. finish_sync lc collate fs g = Inr g' \<and> set (g_found g') = (\<Union>j < length (g_matches g). row_set g j) \<and>
    (g_nounique g \<or> distinct (g_found g'))"
proof -
  have flags: "\<not> g_realpath g" "\<not> g_mark g" "\<not> g_nonull g" "g_ignore g = []" using assms by (simp_all add: bare_def)
  let ?rows = "map (\<lambda>(i, ms). case ms of Some (m # rest) \<Rightarrow> own_keys (m # rest) | _ \<Rightarrow> []) (enumerate 0 (g_matches g))"
  let ?all = "if g_nounique g then concat ?rows else own_keys (concat ?rows)"
  let ?sorted = "if g_nosort g then ?all
      else js_sort (if g_nocase g then (\<lambda>a b. collate (lower lc a) (lower lc b)) else collate) ?all"
  have fin: "finish_sync lc collate fs g = Inr (g\<lparr>g_found := ?sorted\<rparr>)"
    using flags by (simp add: finish_sync_def finish_common_def isIgnored_def Let_def cong: list.case_cong option.case_cong)
  have rows: "?rows = map ((\<lambda>ms. case ms of Some (m # rest) \<Rightarrow> own_keys (m # rest) | _ \<Rightarrow> []) \<circ> snd) (enumerate 0 (g_matches g))"
    by (rule map_cong) (auto split: option.splits list.splits)
  have entry: "set (case ms of Some (m # rest) \<Rightarrow> own_keys (m # rest) | _ \<Rightarrow> []) = (case ms of None \<Rightarrow> {} | Some l \<Rightarrow> set l)" for ms
  proof (cases ms)
    case (Some l)
    then show ?thesis by (cases l) simp_all
  qed simp
  have "set (concat ?rows) = (\<Union>ms \<in> set (g_matches g). case ms of None \<Rightarrow> {} | Some l \<Rightarrow> set l)"
    unfolding rows by (simp add: entry flip: map_map)
  also have "\<dots> = (\<Union>j < length (g_matches g). row_set g j)"
    unfolding row_set_def set_conv_nth [of "g_matches g"] by blast
  finally have all: "set ?sorted = (\<Union>j < length (g_matches g). row_set g j)" by simp
  have "g_nounique g \<or> distinct ?sorted" by (simp add: distinct_own_keys distinct_js_sort)
  with fin all show ?thesis by simp
qed

lemma globSync_rows:
  fixes lc :: letter_case
  assumes "tidy_fs fs N" "pattern \<noteq> []" "setopts t fs pattern options = Some (Inr g)" "glob_conf fs home g" "caches_true fs g" "bare g"
    "\<forall>row \<in> set (m_set (g_minimatch g)). tidy_row row \<and> need N home row < d"
  defines "A \<equiv> \<lambda>E. \<Union>row \<in> set (m_set (g_minimatch g)). answers lc (m_options (g_minimatch g)) fs home E row"
  shows "\<exists>found. globSync d t lc collate fs pattern options = Some (Inr found) \<and>
    A (present fs home) \<subseteq> set found \<and> set found \<subseteq> A (\<lambda>m. present fs home m \<or> believed fs home m) \<and>
    (g_nounique g \<or> distinct found)"
proof -
  let ?rows = "m_set (g_minimatch g)"
  let ?g = "g\<lparr>g_matches := replicate (length ?rows) None\<rparr>"
  have "rows_found lc fs home g ?rows 0 ?g"
    using assms(5) by (simp add: rows_found_def row_set_def)
  from rows_found_all [OF assms(1,4,7) this] obtain g1
    where g1: "foldC (\<lambda>(i, row). glob_process lc fs d i row False) (enumerate 0 ?rows) ?g = Some (Inr g1)"
      "rows_found lc fs home g ?rows (length ?rows) g1" by (auto simp: returns_def)
  have r1: "rest_of g1 = rest_of g" "length (g_matches g1) = length ?rows" using g1(2) by (simp_all add: rows_found_def)
  have "bare g1" using assms(6) rest_of_eqD [OF r1(1)] by (simp add: bare_def)
  from finish_bare [OF this, of lc collate fs] obtain g2 where g2: "finish_sync lc collate fs g1 = Inr g2"
      "set (g_found g2) = (\<Union>j < length ?rows. row_set g1 j)" "g_nounique g \<or> distinct (g_found g2)"
    using r1(2) rest_of_eqD(14) [OF r1(1)] by auto
  have "\<not> g_noprocess g" using assms(6) by (simp add: bare_def)
  with assms(2,3) g1(1) g2(1) have "globSync d t lc collate fs pattern options = Some (Inr (g_found g2))"
    by (simp add: globSync_def GlobSync_def Let_def)
  moreover have "A (present fs home) \<subseteq> (\<Union>j < length ?rows. row_set g1 j)"
    using g1(2) unfolding A_def rows_found_def by (fastforce simp: in_set_conv_nth)
  moreover have "(\<Union>j < length ?rows. row_set g1 j) \<subseteq> A (\<lambda>m. present fs home m \<or> believed fs home m)"
    using g1(2) unfolding A_def rows_found_def by fastforce
  ultimately show ?thesis using g2(2,3) by simp
qed

section \<open>The walk and the matcher\<close>

lemma hit_plain_self: "hit lc opts (Plain s) s"
  by simp

lemma good_not_dotted: "good_name v \<Longrightarrow> admitted opts v \<Longrightarrow> \<not> dotted opts v"
  by (auto simp: good_name_def dotted_def)

lemma path_matches_globstar_Cons:
  "\<not> dotted opts v \<Longrightarrow> path_matches lc opts vs (Globstar # ps) \<Longrightarrow> path_matches lc opts (v # vs) (Globstar # ps)"
proof (cases "ps = []")
  case True
  assume "\<not> dotted opts v" "path_matches lc opts vs (Globstar # ps)"
  then show ?thesis using True by (auto elim: path_matches.cases intro!: path_matches.globstar_last)
next
  case False
  assume v: "\<not> dotted opts v" and m: "path_matches lc opts vs (Globstar # ps)"
  from m False obtain us fs where "vs = us @ fs" "\<not> list_ex (dotted opts) us" "fs \<noteq> []" "path_matches lc opts fs ps"
    by (auto elim: path_matches.cases)
  then show ?thesis using path_matches.globstar [of ps opts "v # us" fs lc] v False by simp
qed

text \<open>What a row yields without the help of a \<open>**\<close> at its end that stands for nothing, the matcher accepts.\<close>

lemma yields_matches:
  assumes "walk_yields lc opts vs ps d" "\<not> d"
  shows "path_matches lc opts vs ps"
  using assms
proof (induction rule: walk_yields.induct)
  case yields_end
  show ?case by (rule path_matches.nothing)
next
  case (yields_plain vs ps d s)
  then show ?case by (intro path_matches.segment) simp_all
next
  case (yields_magic v raw src r vs ps d)
  then show ?case by (intro path_matches.segment) simp_all
next
  case (yields_nothing vs ps d)
  then have "path_matches lc opts vs ps" "vs \<noteq> []" by simp_all
  then show ?case
    using path_matches.globstar [of ps opts "[]" vs lc] path_matches.globstar_last [of vs opts lc]
    by (cases "ps = []") (auto simp: dotted_def elim: path_matches_end)
next
  case (yields_instead v vs ps d)
  then have v: "\<not> dotted opts v" and m: "path_matches lc opts vs ps" by (simp_all add: good_not_dotted)
  show ?case
  proof (cases "vs = []")
    case True
    then have "ps = []" using m yields_instead yields_no_pieces by blast
    then show ?thesis using v True by (auto intro: path_matches.globstar_last)
  next
    case False
    show ?thesis
    proof (cases "ps = []")
      case True
      then have "vs = []" using yields_instead.hyps(3) by (simp add: yields_Nil_iff)
      with False show ?thesis by simp
    next
      case ne: False
      then show ?thesis using path_matches.globstar [of ps opts "[v]" vs lc] v m False by simp
    qed
  qed
next
  case (yields_below v vs ps d)
  then show ?case by (simp add: good_not_dotted path_matches_globstar_Cons)
qed

text \<open>And conversely, for proper names whose leading dots need no special permission.\<close>

lemma globstar_takes:
  "list_all good_name us \<Longrightarrow> \<forall>v \<in> set us. admitted opts v \<Longrightarrow> walk_yields lc opts vs (Globstar # ps) d \<Longrightarrow>
   walk_yields lc opts (us @ vs) (Globstar # ps) d"
  by (induction us) (auto intro: yields_below)

lemma matches_yields:
  assumes "path_matches lc opts vs ps" "tidy_tail ps" "list_all good_name vs" "\<forall>v \<in> set vs. admitted opts v" "\<not> o_nocase opts"
  shows "walk_yields lc opts vs ps False"
  using assms
proof (induction rule: path_matches.induct)
  case nothing
  show ?case by (rule yields_end)
next
  case trailing_slash
  then show ?case by (simp add: good_name_def)
next
  case (segment p f fs ps)
  have f: "good_name f" "admitted opts f" using segment.prems(2,3) by simp_all
  have tail: "tidy_tail ps" using segment.prems(1) segment.hyps(1) f
    by (cases p) (use segment.hyps(2) segment.prems(4) in \<open>auto simp: good_name_def\<close>)
  have IH: "walk_yields lc opts fs ps False" using segment tail by simp
  show ?case
  proof (cases p)
    case Globstar
    then show ?thesis using segment.hyps(1) by simp
  next
    case (Plain s)
    then show ?thesis using segment.hyps(2) segment.prems(4) IH yields_plain by simp
  next
    case (Magic k r)
    then obtain raw src where k: "k = Some (raw, src)" using segment.prems(1) by auto
    show ?thesis using yields_magic [OF f(1) _ _ IH] segment.hyps(2) f(2) unfolding Magic k by blast
  qed
next
  case (globstar_last fs)
  then obtain us v where fs: "fs = us @ [v]" by (cases fs rule: rev_cases) auto
  have "walk_yields lc opts [v] [Globstar] False"
    using globstar_last.prems fs by (intro yields_instead yields_end) simp_all
  then show ?case using globstar_takes [of us opts lc "[v]" "[]" False] globstar_last.prems fs by simp
next
  case (globstar ps us fs)
  then have "walk_yields lc opts fs (Globstar # ps) (False \<or> fs = [])" by (intro yields_nothing) simp
  then show ?case using globstar_takes [of us opts lc fs ps False] globstar.prems globstar.hyps(3) by simp
qed

text \<open>The pieces of a path of a tidy row.\<close>

lemma yields_pieces:
  assumes "walk_yields lc opts vs ps d" "tidy_tail ps"
  shows "list_all good_name vs \<or> vs \<noteq> [] \<and> last vs = [] \<and> list_all good_name (butlast vs)"
  using assms
proof (induction rule: walk_yields.induct)
  case (yields_plain vs ps d s)
  then show ?case by (auto simp: yields_Nil_iff)
qed auto

section \<open>File systems given by a tree\<close>

text \<open>A tree of directories and files with its root at \<open>/\<close> is a well-behaved file system.\<close>

datatype ftree = Leaf | Node "(jstring \<times> ftree) list"

fun lookup :: "ftree \<Rightarrow> jstring list \<Rightarrow> ftree option" where
  "lookup t [] = Some t"
| "lookup Leaf (c # cs) = None"
| "lookup (Node ts) (c # cs) = (case map_of ts c of None \<Rightarrow> None | Some t \<Rightarrow> lookup t cs)"

fun blocked :: "ftree \<Rightarrow> jstring list \<Rightarrow> bool" where
  "blocked t [] = False"
| "blocked Leaf (c # cs) = True"
| "blocked (Node ts) (c # cs) = (case map_of ts c of None \<Rightarrow> False | Some t \<Rightarrow> blocked t cs)"

fun height :: "ftree \<Rightarrow> nat" where
  "height Leaf = 0"
| "height (Node ts) = Suc (fold max (map (\<lambda>(c, t). height t) ts) 0)"

fun proper :: "ftree \<Rightarrow> bool" where
  "proper Leaf = True"
| "proper (Node ts) = list_all (\<lambda>(c, t). good_name c \<and> proper t) ts"

fun kind_of :: "ftree \<Rightarrow> fkind" where
  "kind_of Leaf = FileK"
| "kind_of (Node ts) = DirK"

definition tree_fs :: "ftree \<Rightarrow> jstring list \<Rightarrow> file_system" where
  "tree_fs t home =
     \<lparr>fs_lstat = (\<lambda>p. if p = [] then None else map_option kind_of (lookup t (segments p))),
      fs_stat = (\<lambda>p. if p = [] then None else map_option kind_of (lookup t (segments p))),
      fs_readdir = (\<lambda>p. case lookup t (segments p) of
          None \<Rightarrow> Inl (if blocked t (segments p) then ENOTDIR else ENOENT)
        | Some Leaf \<Rightarrow> Inl ENOTDIR
        | Some (Node ts) \<Rightarrow> Inr (map fst ts)),
      fs_realpath = (\<lambda>p. Inr p), fs_cwd = addr home\<rparr>"

lemma lookup_append: "lookup t (cs @ ds) = (case lookup t cs of None \<Rightarrow> None | Some u \<Rightarrow> lookup u ds)"
  by (induction t cs rule: lookup.induct) (auto split: option.splits)

lemma lookup_proper: "proper t \<Longrightarrow> lookup t cs = Some u \<Longrightarrow> proper u"
proof (induction t cs rule: lookup.induct)
  case (3 ts c cs)
  then show ?case by (fastforce simp: list_all_iff split: option.splits dest: map_of_SomeD)
qed auto

lemma le_fold_max: "x \<in> set xs \<or> x \<le> a \<Longrightarrow> x \<le> fold max xs (a :: nat)"
proof (induction xs arbitrary: a)
  case (Cons y xs)
  have "x \<in> set xs \<or> x \<le> max y a" using Cons.prems by (auto intro: le_max_iff_disj [THEN iffD2])
  then show ?case using Cons.IH [of "max y a"] by simp
qed simp

lemma lookup_height: "lookup t cs = Some (Node us) \<Longrightarrow> length cs < height t"
proof (induction t cs rule: lookup.induct)
  case (1 t)
  then show ?case by simp
next
  case (3 ts c cs)
  then obtain t where t: "map_of ts c = Some t" "lookup t cs = Some (Node us)" by (cases "map_of ts c") simp_all
  then have less: "length cs < height t" using 3 by simp
  have "height t \<le> fold max (map (\<lambda>(c, t). height t) ts) 0"
    using imageI [OF map_of_SomeD [OF t(1)], of "\<lambda>(c, t). height t"] by (intro le_fold_max disjI1) simp
  with less show ?case by simp
qed simp

lemma lookup_child: "lookup (Node ts) [e] \<noteq> None \<longleftrightarrow> e \<in> fst ` set ts"
proof -
  have "lookup (Node ts) [e] = map_of ts e" by (simp split: option.split)
  then show ?thesis by (metis map_of_eq_None_iff)
qed

lemma tree_fs_tidy:
  assumes "proper t" "height t \<le> Suc N"
  shows "tidy_fs (tree_fs t home) N"
proof -
  have "tidy_at (tree_fs t home) N cs" if cs: "list_all good_name cs" for cs
  proof -
    have l: "fs_lstat (tree_fs t home) (addr cs) = map_option kind_of (lookup t cs)"
      by (simp add: tree_fs_def segments_addr [OF cs])
    have r: "fs_readdir (tree_fs t home) (addr cs) = (case lookup t cs of
        None \<Rightarrow> Inl (if blocked t cs then ENOTDIR else ENOENT) | Some Leaf \<Rightarrow> Inl ENOTDIR | Some (Node ts) \<Rightarrow> Inr (map fst ts))"
      by (simp add: tree_fs_def segments_addr [OF cs])
    have child: "fs_lstat (tree_fs t home) (addr (cs @ [e])) \<noteq> None \<longleftrightarrow>
        (\<exists>es. fs_readdir (tree_fs t home) (addr cs) = Inr es \<and> e \<in> set es)" if "good_name e" for e
    proof -
      have "list_all good_name (cs @ [e])" using cs that by simp
      then have "fs_lstat (tree_fs t home) (addr (cs @ [e])) = map_option kind_of (lookup t (cs @ [e]))"
        by (simp add: tree_fs_def segments_addr)
      then have "fs_lstat (tree_fs t home) (addr (cs @ [e])) \<noteq> None \<longleftrightarrow> lookup t (cs @ [e]) \<noteq> None" by simp
      also have "\<dots> \<longleftrightarrow> (\<exists>ts. lookup t cs = Some (Node ts) \<and> e \<in> fst ` set ts)"
      proof (cases "lookup t cs")
        case (Some u)
        then show ?thesis using lookup_child [of _ e] by (cases u) (simp_all add: lookup_append del: lookup.simps(3))
      qed (simp add: lookup_append)
      also have "\<dots> \<longleftrightarrow> (\<exists>es. fs_readdir (tree_fs t home) (addr cs) = Inr es \<and> e \<in> set es)"
        unfolding r by (simp split: option.split ftree.split)
      finally show ?thesis .
    qed
    have "list_all good_name (map fst ts) \<and> length cs \<le> N" if "lookup t cs = Some (Node ts)" for ts
      using lookup_proper [OF assms(1) that] lookup_height [OF that] assms(2) by (auto simp: list_all_iff)
    then have "case fs_lstat (tree_fs t home) (addr cs) of
        None \<Rightarrow> fs_readdir (tree_fs t home) (addr cs) = Inl ENOENT \<or> fs_readdir (tree_fs t home) (addr cs) = Inl ENOTDIR
      | Some FileK \<Rightarrow> fs_readdir (tree_fs t home) (addr cs) = Inl ENOTDIR
      | Some DirK \<Rightarrow> length cs \<le> N \<and> (\<exists>es. fs_readdir (tree_fs t home) (addr cs) = Inr es \<and> list_all good_name es)
      | Some LinkK \<Rightarrow> False"
      by (simp add: l r split: option.split ftree.split)
    then show ?thesis unfolding tidy_at_def using child by blast
  qed
  then show ?thesis by (simp add: tidy_fs_def, simp add: tree_fs_def)
qed

section \<open>Properties\<close>

text \<open>
  C22. The synchronous walk finds what it should: on a well-behaved file system, with enough nested calls for its depth, \<open>glob.sync\<close>
  returns; every path that a row of the pattern yields and that is there is among the results, and every result is such a
  path, or one below a regular file that a cached error makes the walk believe in. Unless asked otherwise no result is repeated.
\<close>

theorem globSync_finds:
  fixes lc :: letter_case
  assumes "tidy_fs fs N" "pattern \<noteq> []" "setopts t fs pattern options = Some (Inr g)" "glob_conf fs home g" "caches_true fs g" "bare g"
    "list_all (\<lambda>row. tidy_row row \<and> need N home row < d) (m_set (g_minimatch g))"
  shows "\<exists>found. globSync d t lc collate fs pattern options = Some (Inr found) \<and>
    (\<Union>row \<in> set (m_set (g_minimatch g)). answers lc (m_options (g_minimatch g)) fs home (present fs home) row) \<subseteq> set found \<and>
    set found \<subseteq> (\<Union>row \<in> set (m_set (g_minimatch g)).
      answers lc (m_options (g_minimatch g)) fs home (\<lambda>m. present fs home m \<or> believed fs home m) row) \<and>
    (g_nounique g \<or> distinct found)"
  using globSync_rows [OF assms(1-6)] assms(7) by (simp add: list_all_iff)

lemma answers_file:
  assumes "tidy_tail row" "m \<in> answers lc opts fs home E row" "m = join [slash] vs" "list_all good_name vs" "vs \<noteq> []"
    "fs_lstat fs (addr (home @ vs)) = Some FileK"
  shows "path_matches lc opts vs row"
proof -
  from assms(2) obtain ws d where ws: "m = join [slash] ws" "walk_yields lc opts ws row d"
      "d \<longrightarrow> fs_lstat fs (addr (home @ segments m)) = Some DirK"
    unfolding answers_def by blast
  have seg: "segments m = vs" using assms(3,4) by (simp add: segments_join good_clean)
  with ws(3) assms(6) have "\<not> d" by auto
  have "\<not> ends_slash m" "m \<noteq> []" using join_head [OF assms(5) good_clean [OF assms(4)]] assms(3) by simp_all
  then have "\<not> (ws \<noteq> [] \<and> last ws = [])"
    using ws(1) join_append [of "butlast ws" "[[]]" "[slash]"]
    by (cases ws rule: rev_cases; cases "butlast ws = []") auto
  then have "list_all good_name ws" using yields_pieces [OF ws(2) assms(1)] by blast
  then have "ws = vs" using seg ws(1) by (simp add: segments_join good_clean)
  with yields_matches [OF ws(2)] \<open>\<not> d\<close> show ?thesis by simp
qed

text \<open>
  C23. The walk and the matcher agree on files: for a regular file below the directory of the walk, with no leading dots that need
  permission, the path is among the results of \<open>glob.sync\<close> exactly when the \<open>Minimatch\<close> object of the pattern matches it.
\<close>

theorem glob_agrees_with_minimatch:
  fixes lc :: letter_case
  assumes "tidy_fs fs N" "pattern \<noteq> []" "setopts t fs pattern options = Some (Inr g)" "glob_conf fs home g" "caches_true fs g" "bare g"
    "list_all (\<lambda>row. tidy_tail row \<and> need N home row < d) (m_set (g_minimatch g))"
    "\<not> m_comment (g_minimatch g)" "\<not> m_empty (g_minimatch g)"
    "\<not> o_matchBase (m_options (g_minimatch g))" "\<not> o_nocase (m_options (g_minimatch g))"
    "vs \<noteq> []" "list_all good_name vs" "list_all (admitted (m_options (g_minimatch g))) vs"
    "fs_lstat fs (addr (home @ vs)) = Some FileK"
  shows "\<exists>found. globSync d t lc collate fs pattern options = Some (Inr found) \<and>
    (join [slash] vs \<in> set found \<longleftrightarrow> match_obj lc (g_minimatch g) (join [slash] vs) False)"
proof -
  let ?m = "join [slash] vs" and ?mm = "g_minimatch g"
  have neg: "\<not> m_negate ?mm" using assms(4) by (simp add: glob_conf_def)
  have clean: "\<forall>x \<in> set vs. slash \<notin> set x" "[] \<notin> set (tl vs)"
    using good_clean [OF assms(13)] assms(12) by (cases vs; auto)+
  have "slash_split ?m = vs" by (rule slash_split_join [OF assms(12) clean])
  then have mm: "match_obj lc ?mm ?m False \<longleftrightarrow> (\<exists>row \<in> set (m_set ?mm). matchOne lc (m_options ?mm) vs row False)"
    using assms(8-10) neg by (simp add: match_obj_def Let_def list_ex_iff)
  have rows: "\<forall>row \<in> set (m_set ?mm). tidy_row row \<and> need N home row < d"
    using assms(7) by (auto simp: list_all_iff tidy_row_def)
  from globSync_rows [OF assms(1-6) rows, of lc collate] obtain found
    where found: "globSync d t lc collate fs pattern options = Some (Inr found)"
      "(\<Union>row \<in> set (m_set ?mm). answers lc (m_options ?mm) fs home (present fs home) row) \<subseteq> set found"
      "set found \<subseteq> (\<Union>row \<in> set (m_set ?mm). answers lc (m_options ?mm) fs home (\<lambda>m. present fs home m \<or> believed fs home m) row)"
    by (elim exE conjE)
  have tidy: "tidy_tail row" if "row \<in> set (m_set ?mm)" for row using assms(7) that by (simp add: list_all_iff)
  have there: "present fs home ?m"
    using join_head [OF assms(12) good_clean [OF assms(13)]] assms(13,15)
    by (auto simp: present_def tidy_path_def isAbsolute_hd segments_join good_clean)
  have "matchOne lc (m_options ?mm) vs row False" if "?m \<in> answers lc (m_options ?mm) fs home E row" "row \<in> set (m_set ?mm)" for E row
    using answers_file [OF tidy [OF that(2)] that(1) refl assms(13,12,15)] by (rule matchOne_complete)
  moreover have "?m \<in> set found" if "row \<in> set (m_set ?mm)" "matchOne lc (m_options ?mm) vs row False" for row
  proof -
    have "walk_yields lc (m_options ?mm) vs row False"
      using matches_yields [OF matchOne_sound [OF that(2)] tidy [OF that(1)] assms(13)] assms(11,14) by (simp add: list_all_iff)
    from answersI [where E = "present fs home", OF this there] have "?m \<in> answers lc (m_options ?mm) fs home (present fs home) row" by simp
    then show ?thesis using found(2) that(1) by blast
  qed
  ultimately have "?m \<in> set found \<longleftrightarrow> match_obj lc ?mm ?m False" unfolding mm using found(3) by blast
  with found(1) show ?thesis by blast
qed

section \<open>An example\<close>

definition plain_options :: glob_options where
  "plain_options =
     \<lparr>go_mm = default_options, go_nonegate = None, go_nocomment = None, go_silent = False, go_strict = None, go_realpath = False,
      go_follow = False, go_mark = False, go_nodir = False, go_nounique = False, go_nosort = True, go_stat = False,
      go_noprocess = False, go_nomount = False, go_maxLength = None, go_ignore = [], go_cwd = None, go_root = None,
      go_cache = Map.empty, go_statCache = Map.empty, go_symlinks = Map.empty\<rparr>"

abbreviation quiet :: mm_options where
  "quiet \<equiv> default_options\<lparr>o_nonegate := True, o_nocomment := True\<rparr>"

lemma setopts_plain:
  assumes "Minimatch t quiet pattern = Some (Inr m)" "\<not> m_negate m" "m_options m = quiet" "list_all good_name home"
  shows "\<exists>g. setopts t (tree_fs tr home) pattern plain_options = Some (Inr g) \<and> g_minimatch g = m \<and> \<not> g_stat g \<and>
    glob_conf (tree_fs tr home) home g \<and> caches_true (tree_fs tr home) g \<and> bare g \<and> g_cache g = Map.empty"
proof -
  have walk: "walk home = (0, home)" using walk_normal [OF named_good [OF assms(4)], of 0] by simp
  have "segments (addr home @ [slash]) = home" by (simp add: segments_addr [OF assms(4)])
  then have cwd: "resolve (addr home) [] = addr home"
    by (simp add: resolve_def normalizeArray_walk walk, simp add: addr_def)
  have root: "resolve (addr home) [addr home, [slash]] = [slash]" "resolve (addr home) [[slash]] = [slash]"
    by (simp_all add: resolve_def isAbsolute_hd segments_def normalizeArray_def)
  show ?thesis
    using assms cwd root
    by (simp add: setopts_def plain_options_def tree_fs_def glob_conf_def caches_true_def cache_ok_def bare_def default_options_def setupIgnores_def Let_def)
qed

definition sample_tree :: ftree where
  "sample_tree = Node [(lit ''a.js'', Leaf), (lit ''lib'', Node [(lit ''b.js'', Leaf), (lit ''README'', Leaf)])]"

definition sample_globs :: "glob_item list list" where
  "sample_globs = [map GLit (lit ''lib''), GStar # map GLit (lit ''.js'')]"

abbreviation no_marks :: markers where
  "no_marks \<equiv> \<lparr>r_slash = [], r_open = [], r_close = [], r_comma = [], r_period = []\<rparr>"

abbreviation plain_case :: letter_case where
  "plain_case \<equiv> \<lparr>lower = id, fold_case = id\<rparr>"

lemma sample_fs_tidy: "tidy_fs (tree_fs sample_tree []) 1"
  by (rule tree_fs_tidy) (simp_all add: sample_tree_def good_name_def lit_def)

abbreviation sample_mm :: minimatch_obj where
  "sample_mm \<equiv> \<lparr>m_options = quiet, m_set = [map portion_of sample_globs], m_globSet = [lit ''lib/*.js''],
     m_pattern = lit ''lib/*.js'', m_regexp = None, m_negate = False, m_comment = False, m_empty = False\<rparr>"

lemma sample_minimatch: "Minimatch no_marks quiet (lit ''lib/*.js'') = Some (Inr sample_mm)"
proof -
  have spelt: "pattern_text sample_globs = lit ''lib/*.js''" by (simp add: pattern_text_def sample_globs_def lit_def)
  show ?thesis
    unfolding spelt [symmetric]
    by (rule Minimatch_simple) (simp_all add: spelt, simp_all add: sample_globs_def simple_portion_def opts_plain_def
        default_options_def special_chars_def trim_def js_white_def lit_def)
qed

lemma sample_walk:
  "\<exists>g. setopts no_marks (tree_fs tr []) (lit ''lib/*.js'') plain_options = Some (Inr g) \<and> g_minimatch g = sample_mm \<and> \<not> g_stat g \<and>
    glob_conf (tree_fs tr []) [] g \<and> caches_true (tree_fs tr []) g \<and> bare g \<and> g_cache g = Map.empty"
  by (rule setopts_plain [OF sample_minimatch]) simp_all

lemma sample_row:
  "tidy_tail (map portion_of sample_globs)" "need 1 [] (map portion_of sample_globs) < 9"
  by (simp_all add: sample_globs_def portion_of_def need_def good_name_def lit_def)

theorem glob_agrees_with_minimatch_witness:
  "\<exists>found g. setopts no_marks (tree_fs sample_tree []) (lit ''lib/*.js'') plain_options = Some (Inr g) \<and>
     globSync 9 no_marks plain_case (\<lambda>a b. 0) (tree_fs sample_tree []) (lit ''lib/*.js'') plain_options = Some (Inr found) \<and>
     (lit ''lib/b.js'' \<in> set found \<longleftrightarrow> match_obj plain_case (g_minimatch g) (lit ''lib/b.js'') False)"
proof -
  obtain g where g: "setopts no_marks (tree_fs sample_tree []) (lit ''lib/*.js'') plain_options = Some (Inr g)"
      "g_minimatch g = sample_mm" "\<not> g_stat g"
      "glob_conf (tree_fs sample_tree []) [] g" "caches_true (tree_fs sample_tree []) g" "bare g"
    using sample_walk [of sample_tree] by (elim exE conjE)
  have names: "list_all good_name [lit ''lib'', lit ''b.js'']" by (simp add: good_name_def lit_def)
  have isfile: "fs_lstat (tree_fs sample_tree []) (addr ([] @ [lit ''lib'', lit ''b.js''])) = Some FileK"
    using segments_addr [OF names] by (simp add: tree_fs_def sample_tree_def)
  have dots: "list_all (admitted quiet) [lit ''lib'', lit ''b.js'']" by (simp add: lit_def)
  have path: "join [slash] [lit ''lib'', lit ''b.js''] = lit ''lib/b.js''" by (simp add: lit_def)
  have "\<exists>found. globSync 9 no_marks plain_case (\<lambda>a b. 0) (tree_fs sample_tree []) (lit ''lib/*.js'') plain_options = Some (Inr found) \<and>
      (join [slash] [lit ''lib'', lit ''b.js''] \<in> set found \<longleftrightarrow>
        match_obj plain_case (g_minimatch g) (join [slash] [lit ''lib'', lit ''b.js'']) False)"
    by (rule glob_agrees_with_minimatch [OF sample_fs_tidy _ g(1,4,5,6) _ _ _ _ _ _ names _ isfile])
      (use sample_row dots in \<open>simp_all add: g(2) default_options_def\<close>)
  with g(1) show ?thesis unfolding path by blast
qed

lemma sample_yields: "walk_yields plain_case quiet [lit ''lib'', lit ''b.js''] (map portion_of sample_globs) False"
proof -
  have "hit plain_case quiet (portion_of (GStar # map GLit (lit ''.js''))) (lit ''b.js'')"
    using hit_simple [of quiet "lit ''b.js''" plain_case "GStar # map GLit (lit ''.js'')"]
    by (simp add: opts_plain_def default_options_def name_matches_def lit_def)
  then show ?thesis
    by (auto simp: sample_globs_def portion_of_def yields_Plain_iff yields_Magic_iff yields_Nil_iff good_name_def lit_def)
qed

lemma sample_answer:
  "lit ''lib/b.js'' \<in> answers plain_case quiet (tree_fs sample_tree []) [] (present (tree_fs sample_tree []) []) (map portion_of sample_globs)"
proof -
  let ?fs = "tree_fs sample_tree []"
  have names: "list_all good_name [lit ''lib'', lit ''b.js'']" by (simp add: good_name_def lit_def)
  have path: "join [slash] [lit ''lib'', lit ''b.js''] = lit ''lib/b.js''" by (simp add: lit_def)
  have seg: "segments (lit ''lib/b.js'') = [lit ''lib'', lit ''b.js'']"
    using segments_join [OF good_clean [OF names]] unfolding path .
  have "present ?fs [] (lit ''lib/b.js'')"
    using segments_addr [OF names] names
    by (simp add: present_def tidy_path_def seg isAbsolute_hd, simp add: tree_fs_def sample_tree_def lit_def)
  then show ?thesis
    using answersI [OF sample_yields, of "present ?fs []" ?fs "[]"] unfolding path by simp
qed

theorem globSync_finds_witness:
  "\<exists>found. globSync 9 no_marks plain_case (\<lambda>a b. 0) (tree_fs sample_tree []) (lit ''lib/*.js'') plain_options = Some (Inr found) \<and>
     lit ''lib/b.js'' \<in> set found"
proof -
  let ?fs = "tree_fs sample_tree []"
  obtain g where g: "setopts no_marks ?fs (lit ''lib/*.js'') plain_options = Some (Inr g)"
      "g_minimatch g = sample_mm" "\<not> g_stat g"
      "glob_conf ?fs [] g" "caches_true ?fs g" "bare g"
    using sample_walk [of sample_tree] by (elim exE conjE)
  have "\<exists>found. globSync 9 no_marks plain_case (\<lambda>a b. 0) ?fs (lit ''lib/*.js'') plain_options = Some (Inr found) \<and>
      (\<Union>row \<in> set (m_set (g_minimatch g)). answers plain_case (m_options (g_minimatch g)) ?fs [] (present ?fs []) row) \<subseteq> set found \<and>
      set found \<subseteq> (\<Union>row \<in> set (m_set (g_minimatch g)).
        answers plain_case (m_options (g_minimatch g)) ?fs [] (\<lambda>m. present ?fs [] m \<or> believed ?fs [] m) row) \<and>
      (g_nounique g \<or> distinct found)"
    by (rule globSync_finds [OF sample_fs_tidy _ g(1,4,5,6)]) (use sample_row in \<open>simp_all add: g(2) tidy_row_def\<close>)
  with sample_answer show ?thesis by (auto simp: g(2))
qed

section \<open>Walks without \<open>**\<close>\<close>

definition comes_back :: "'a call \<Rightarrow> bool" where
  "comes_back m \<longleftrightarrow> m \<noteq> None"

lemma comes_back_Some [simp]: "comes_back (Some r)"
  by (simp add: comes_back_def)

lemma comes_back_bind: "comes_back m \<Longrightarrow> (\<And>x. comes_back (f x)) \<Longrightarrow> comes_back (bindC m f)"
  by (auto simp: comes_back_def bindC_def split: option.splits sum.splits)

lemma comes_back_fold: "(\<And>x a. x \<in> set xs \<Longrightarrow> comes_back (f x a)) \<Longrightarrow> comes_back (foldC f xs a)"
  by (induction xs arbitrary: a) (auto intro!: comes_back_bind)

lemma process_comes_back:
  assumes "Globstar \<notin> set P" "length (filter (\<lambda>p. \<not> is_plain p) P) < d"
  shows "comes_back (glob_process lc fs d i P b g)"
  using assms
proof (induction d arbitrary: P b g)
  case (Suc d)
  show ?case
  proof (cases rule: row_cases [of P])
    case (strings ss)
    then show ?thesis by (simp add: list_all_iff)
  next
    case (portions ss p ps)
    have np: "\<not> list_all is_plain P" "dropWhile is_plain P = p # ps" "p \<noteq> Globstar"
      using portions Suc.prems(1) by auto
    have rec: "comes_back (glob_process lc fs d i (prefix_portion (prefix_of P) @ Plain e # ps) b' g')" for e b' g'
    proof (rule Suc.IH)
      show "Globstar \<notin> set (prefix_portion (prefix_of P) @ Plain e # ps)"
        using Suc.prems(1) portions(1) by (auto simp: prefix_portion_def split: option.splits if_splits)
      show "length (filter (\<lambda>p. \<not> is_plain p) (prefix_portion (prefix_of P) @ Plain e # ps)) < d"
        using Suc.prems(2) portions by (simp add: prefix_portion_def split: option.split)
    qed
    then show ?thesis
      unfolding glob_process.simps(2) processReaddir_def np(2) list.sel Let_def using np(1,3)
      by (auto intro!: comes_back_bind comes_back_fold split: option.split)
  qed
qed simp

text \<open>
  A walk without \<open>**\<close> always comes back, whatever the file system answers and whatever the options: it nests no deeper
  than the longest row has portions that are not strings, and returns the results or throws.
\<close>

theorem globSync_returns:
  assumes "setopts t fs pattern options = Some (Inr g)"
    "list_all (\<lambda>row. Globstar \<notin> set row \<and> length (filter (\<lambda>p. \<not> is_plain p) row) < d) (m_set (g_minimatch g))"
  shows "globSync d t lc collate fs pattern options \<noteq> None"
proof -
  have "comes_back (foldC (\<lambda>(i, row). glob_process lc fs d i row False) (enumerate 0 (m_set (g_minimatch g))) g')" for g'
  proof (rule comes_back_fold)
    fix x :: "nat \<times> portion list" and a assume "x \<in> set (enumerate 0 (m_set (g_minimatch g)))"
    then have "snd x \<in> set (m_set (g_minimatch g))" by (metis imageI map_snd_enumerate set_map)
    then show "comes_back ((case x of (i, row) \<Rightarrow> \<lambda>g. glob_process lc fs d i row False g) a)"
      using assms(2) process_comes_back by (simp add: list_all_iff split_beta)
  qed
  then have "comes_back (globSync d t lc collate fs pattern options)"
    unfolding globSync_def GlobSync_def assms(1) Let_def by (auto intro!: comes_back_bind)
  then show ?thesis by (simp add: comes_back_def)
qed

theorem globSync_returns_witness:
  "globSync 2 no_marks plain_case (\<lambda>a b. 0) (tree_fs Leaf []) (lit ''lib/*.js'') plain_options \<noteq> None"
proof -
  obtain g where g: "setopts no_marks (tree_fs Leaf []) (lit ''lib/*.js'') plain_options = Some (Inr g)" "g_minimatch g = sample_mm"
    using sample_walk [of Leaf] by (elim exE conjE)
  show ?thesis by (rule globSync_returns [OF g(1)]) (simp add: g(2), simp add: sample_globs_def portion_of_def lit_def)
qed

section \<open>Paths that are not there\<close>

text \<open>
  The walk reports paths that do not exist. Looking into a missing path below a regular file fails with \<open>ENOTDIR\<close>, which
  \<open>_readdirError\<close> takes for a file; a later row that names the path itself, as in \<open>{f/x/*,f/x}\<close>, finds that entry in
  the cache and reports the path, though there is nothing at it.
\<close>

theorem missing_path_reported:
  assumes "tidy_fs fs N" "glob_conf fs home g" "tidy_path f" "\<not> ends_slash f" "phantom fs (home @ segments f)"
    "g_cache g (addr (home @ segments f)) = None" "\<not> g_stat g" "j < length (g_matches g)"
  shows "\<exists>g1 g2. glob_process lc fs (Suc d) i [Plain f, Magic k r] False g = Some (Inr g1) \<and>
    glob_process lc fs (Suc d) j [Plain f] False g1 = Some (Inr g2) \<and> f \<in> row_set g2 j \<and>
    fs_lstat fs (makeAbs fs g f) = None"
proof -
  let ?cs = "home @ segments f"
  let ?g1 = "g\<lparr>g_cache := (g_cache g)(addr ?cs \<mapsto> CFile)\<rparr>"
  have good: "list_all good_name ?cs" using assms(2,3) by (simp add: glob_conf_def tidy_path_def)
  have ab: "makeAbs fs g f = addr ?cs" "makeAbs fs g (addr ?cs) = addr ?cs"
    using makeAbs_tidy(1,3) [OF assms(1,2)] assms(3) good by simp_all
  have conf1: "glob_conf fs home ?g1" using assms(2) glob_conf_cong [of ?g1 g] by simp
  have ab1: "makeAbs fs ?g1 f = addr ?cs" using makeAbs_tidy(1) [OF assms(1) conf1 assms(3)] .
  have pre: "prefix_of [Plain f, Magic k r] = Some f"
    using assms(3,4) by (auto simp: prefix_of_def tidy_path_def isAbsolute_hd hd_append)
  have "readdir_plain fs (addr ?cs) g = Inr (?g1, None)"
    using assms(5,6) by (simp add: readdir_plain_def phantom_def readdirError_def ab(2))
  moreover have "\<not> childrenIgnored lc g f" using assms(2) by (simp add: childrenIgnored_def glob_conf_def)
  ultimately have "glob_process lc fs (Suc d) i [Plain f, Magic k r] False g = Some (Inr ?g1)"
    by (simp add: pre ab(1) glob_readdir_def processReaddir_def Let_def)
  moreover have st: "glob_stat fs f ?g1 = (?g1, CFile)"
    using assms(2,4,7) by (auto simp: glob_stat_def ab1 glob_conf_def Let_def)
  have "glob_process lc fs (Suc d) j [Plain f] False ?g1 = Some (Inr (add_match j f (no_match j ?g1)))"
    using assms(3) by (simp add: processSimple_def st tidy_path_def)
  moreover have "f \<in> row_set (add_match j f (no_match j ?g1)) j"
    using assms(8) by (simp add: row_set_def add_match_def no_match_def Let_def)
  ultimately show ?thesis using assms(5) by (auto simp: ab phantom_def)
qed

theorem missing_path_reported_witness:
  "\<exists>g g1 g2. glob_process plain_case (tree_fs sample_tree []) 1 0 [Plain (lit ''a.js/x''), Magic None never] False g = Some (Inr g1) \<and>
     glob_process plain_case (tree_fs sample_tree []) 1 1 [Plain (lit ''a.js/x'')] False g1 = Some (Inr g2) \<and>
     lit ''a.js/x'' \<in> row_set g2 1 \<and> fs_lstat (tree_fs sample_tree []) (lit ''/a.js/x'') = None"
proof -
  let ?fs = "tree_fs sample_tree []" and ?f = "lit ''a.js/x''"
  obtain g0 where g0: "\<not> g_stat g0" "glob_conf ?fs [] g0" "g_cache g0 = Map.empty"
    using sample_walk [of sample_tree] by (elim exE conjE)
  let ?g = "g0\<lparr>g_matches := [None, None]\<rparr>"
  have names: "list_all good_name [lit ''a.js'', lit ''x'']" by (simp add: good_name_def lit_def)
  have seg: "segments ?f = [lit ''a.js'', lit ''x'']"
    using segments_join [OF good_clean [OF names]] by (simp add: lit_def)
  have path: "tidy_path ?f" "\<not> ends_slash ?f" using names by (simp_all add: tidy_path_def seg isAbsolute_hd, simp_all add: lit_def)
  have gone: "phantom ?fs ([] @ segments ?f)"
    using segments_addr [OF names] by (simp add: phantom_def seg, simp add: tree_fs_def sample_tree_def)
  have conf: "glob_conf ?fs [] ?g" using g0(2) glob_conf_cong [of ?g g0] by simp
  have "makeAbs ?fs ?g ?f = addr ([] @ segments ?f)" using makeAbs_tidy(1) [OF sample_fs_tidy conf path(1)] .
  then have "makeAbs ?fs ?g ?f = lit ''/a.js/x''" by (simp add: seg, simp add: addr_def lit_def)
  moreover have "\<exists>g1 g2. glob_process plain_case ?fs (Suc 0) 0 [Plain ?f, Magic None never] False ?g = Some (Inr g1) \<and>
      glob_process plain_case ?fs (Suc 0) 1 [Plain ?f] False g1 = Some (Inr g2) \<and> ?f \<in> row_set g2 1 \<and>
      fs_lstat ?fs (makeAbs ?fs ?g ?f) = None"
    by (rule missing_path_reported [OF sample_fs_tidy conf path gone]) (use g0 in simp_all)
  ultimately show ?thesis unfolding One_nat_def by metis
qed

end
