(* ===== verification/Glob_Async_Results.thy ===== *)
theory Glob_Async_Results
  imports Glob_Async_Run Glob_Results
begin

text \<open>
  Whole asynchronous walks: whatever the order in which the file system answers, the walk comes to an end, it ends once, and it
  reports what the synchronous walk finds. Then three cases in which it does not do what it is meant to.
\<close>

section \<open>All runs\<close>

lemma setopts_given:
  assumes "setopts t fs pattern options = Some (Inr g)"
  shows "g_cache g = go_cache options" "g_statCache g = go_statCache options" "g_symlinks g = go_symlinks options"
    "g_nodir g \<Longrightarrow> g_mark g" "g_matches g = []"
proof -
  have "g_cache g = go_cache options \<and> g_statCache g = go_statCache options \<and> g_symlinks g = go_symlinks options \<and>
      (g_nodir g \<longrightarrow> g_mark g) \<and> g_matches g = []"
    using assms by (auto simp: setopts_def bindC_def Let_def split: if_splits option.splits sum.splits)
  then show "g_cache g = go_cache options" "g_statCache g = go_statCache options" "g_symlinks g = go_symlinks options"
    "g_nodir g \<Longrightarrow> g_mark g" "g_matches g = []" by simp_all
qed

text \<open>The calls that are considered: nothing is cached yet, and the pattern has tidy rows.\<close>

definition fresh_call :: "file_system \<Rightarrow> nat \<Rightarrow> jstring list \<Rightarrow> glob_options \<Rightarrow> glob_obj \<Rightarrow> bool" where
  "fresh_call fs N home options g \<longleftrightarrow>
     tidy_fs fs N \<and> glob_conf fs home g \<and> bare g \<and> go_cache options = Map.empty \<and> go_statCache options = Map.empty \<and>
     go_symlinks options = Map.empty \<and> m_set (g_minimatch g) \<noteq> [] \<and> list_all tidy_row (m_set (g_minimatch g))"

definition scene_of :: "letter_case \<Rightarrow> (jstring \<Rightarrow> jstring \<Rightarrow> int) \<Rightarrow> file_system \<Rightarrow> nat \<Rightarrow> jstring list \<Rightarrow> glob_obj \<Rightarrow> scene" where
  "scene_of lc collate fs N home g =
     \<lparr>sc_case = lc, sc_collate = collate, sc_fs = fs, sc_depth = N, sc_home = home, sc_glob = g\<rparr>"

lemma scene_of_sel [simp]:
  "sc_case (scene_of lc collate fs N home g) = lc" "sc_collate (scene_of lc collate fs N home g) = collate"
  "sc_fs (scene_of lc collate fs N home g) = fs" "sc_depth (scene_of lc collate fs N home g) = N"
  "sc_home (scene_of lc collate fs N home g) = home" "sc_glob (scene_of lc collate fs N home g) = g"
  by (simp_all add: scene_of_def)

lemma fresh_start:
  fixes lc :: letter_case and collate :: "jstring \<Rightarrow> jstring \<Rightarrow> int"
  assumes "setopts t fs pattern options = Some (Inr g)" "fresh_call fs N home options g" "Glob t fs pattern options callback = Some (Inr s0)"
  defines "sc \<equiv> scene_of lc collate fs N home g"
  shows "(\<lambda>s s'. tidy_scene sc \<and> scene_step sc s s') = async_step lc collate fs" "tidy_scene sc"
    "walk_inv sc s0 \<and> ledger s0 \<and> list_all (end_ok sc) (ends s0)"
proof -
  note given = setopts_given [OF assms(1)]
  have b: "bare g" "tidy_fs fs N" "glob_conf fs home g" "blank g" using assms(2) given by (simp_all add: fresh_call_def blank_def)
  have s0: "s0 = new_async callback g" using assms(1,3) by (simp add: Glob_def)
  show sc: "tidy_scene sc"
    using assms(2) b given(4) by (auto simp: tidy_scene_def sc_def fresh_call_def bare_def)
  have "walk_inv sc (new_async callback (sc_glob sc))" "ledger (new_async callback (sc_glob sc))"
    by (rule start_inv [OF sc]; use assms(2) b in \<open>simp add: sc_def fresh_call_def bare_def\<close>)+
  moreover have "ends s0 = []" by (simp add: s0 ends_def new_async_def Let_def)
  ultimately show "walk_inv sc s0 \<and> ledger s0 \<and> list_all (end_ok sc) (ends s0)" by (simp add: s0 sc_def)
  show "(\<lambda>s s'. tidy_scene sc \<and> scene_step sc s s') = async_step lc collate fs" using sc by (simp add: sc_def)
qed

lemma end_found:
  assumes "tidy_scene sc" "bare (sc_glob sc)" "end_ok sc (EEnd found)"
  shows "(\<Union>row \<in> set (sc_rows sc). sure sc row) \<subseteq> set found" "set found \<subseteq> (\<Union>row \<in> set (sc_rows sc). possible sc row)"
    "g_nounique (sc_glob sc) \<or> distinct found"
proof -
  from assms(3) obtain g where g: "glob_ok sc g" "\<And>i. i < length (sc_rows sc) \<Longrightarrow> sure sc (sc_rows sc ! i) \<subseteq> row_set g i"
      "found = g_found (finish_common (sc_case sc) (sc_collate sc) (sc_fs sc) g)" by auto
  have "setup_of g = setup_of (sc_glob sc)" using g(1) by (simp add: glob_ok_def)
  note f = setup_eqD [OF this]
  have b: "bare g" using assms(2) by (simp add: bare_def f)
  then have "finish_sync (sc_case sc) (sc_collate sc) (sc_fs sc) g = Inr (finish_common (sc_case sc) (sc_collate sc) (sc_fs sc) g)"
    by (simp add: finish_sync_def bare_def)
  with finish_bare [OF b, of "sc_case sc" "sc_collate sc" "sc_fs sc"] g(3)
  have found: "set found = (\<Union>j < length (g_matches g). row_set g j)" "g_nounique g \<or> distinct found" by auto
  have len: "length (g_matches g) = length (sc_rows sc)" using g(1) by (simp add: glob_ok_def)
  show "(\<Union>row \<in> set (sc_rows sc). sure sc row) \<subseteq> set found"
    using g(2) found(1) len by (fastforce simp: in_set_conv_nth)
  show "set found \<subseteq> (\<Union>row \<in> set (sc_rows sc). possible sc row)"
    using g(1) found(1) len by (fastforce simp: glob_ok_def)
  show "g_nounique (sc_glob sc) \<or> distinct found" using found(2) f by simp
qed

lemma async_settled:
  fixes lc :: letter_case
  assumes "setopts t fs pattern options = Some (Inr g)" "fresh_call fs N home options g" "Glob t fs pattern options callback = Some (Inr s0)"
    "(async_step lc collate fs)\<^sup>*\<^sup>* s0 s" "\<not> (\<exists>s'. async_step lc collate fs s s')"
  defines "A \<equiv> \<lambda>E. \<Union>row \<in> set (m_set (g_minimatch g)). answers lc (m_options (g_minimatch g)) fs home E row"
  shows "\<exists>found. ends s = [EEnd found] \<and> A (present fs home) \<subseteq> set found \<and>
    set found \<subseteq> A (\<lambda>m. present fs home m \<or> believed fs home m) \<and> (g_nounique g \<or> distinct found)"
proof -
  let ?sc = "scene_of lc collate fs N home g"
  note i = fresh_start [OF assms(1-3), of lc collate]
  have r: "walk_inv ?sc s" "ledger s" "list_all (end_ok ?sc) (ends s)"
    using walks.reached [of ?sc s0 s, unfolded i(1), OF assms(4) i(3)] by simp_all
  have "\<not> (\<exists>s'. scene_step ?sc s s')" using assms(5) by simp
  note q = stuck_quiet [OF this]
  from quiet_idle(2) [OF r(1,2) q] obtain e where e: "ends s = [e]" by (cases "ends s") auto
  have "is_end e" using e by (metis ends_def filter_eq_Cons_iff)
  then obtain found where found: "e = EEnd found" by (cases e) auto
  have "end_ok ?sc (EEnd found)" using r(3) e found by simp
  from end_found [OF i(2) _ this] assms(2) show ?thesis
    using e found by (auto simp: A_def sure_def possible_def fresh_call_def)
qed

text \<open>Every walk can come to rest.\<close>

lemma async_rests:
  assumes "setopts t fs pattern options = Some (Inr g)" "fresh_call fs N home options g" "Glob t fs pattern options callback = Some (Inr s0)"
  shows "\<exists>s. (async_step lc collate fs)\<^sup>*\<^sup>* s0 s \<and> \<not> (\<exists>s'. async_step lc collate fs s s')"
  using walks.comes_to_rest [OF fresh_start(3) [OF assms, of lc collate], unfolded fresh_start(1) [OF assms]]
    fresh_start(2) [OF assms, of lc collate] by simp

section \<open>Properties\<close>

text \<open>
  C26. The asynchronous walk always ends: on a well-behaved file system and with nothing cached, there is no endless run of \<open>Glob\<close>,
  in whatever order the requests are fs_answer.
\<close>

theorem glob_async_ends:
  fixes lc :: letter_case
  assumes "setopts t fs pattern options = Some (Inr g)" "fresh_call fs N home options g" "Glob t fs pattern options callback = Some (Inr s0)"
  shows "\<not> (\<exists>run. run 0 = s0 \<and> (\<forall>n. async_step lc collate fs (run n) (run (Suc n))))"
  using walks.no_endless_run [OF fresh_start(3) [OF assms, of lc collate], unfolded fresh_start(1) [OF assms]]
    fresh_start(2) [OF assms, of lc collate] by simp

text \<open>
  C25. The asynchronous walk reports what it should: whatever the order of the answers, when nothing is left to happen there was
  exactly one event \<open>end\<close>; it reports every path that a row of the pattern yields and that is there, and nothing but such paths
  or those below a regular file that a cached error makes the walk believe in; unless asked otherwise no path is repeated.
\<close>

theorem glob_async_finds:
  fixes lc :: letter_case
  assumes "setopts t fs pattern options = Some (Inr g)" "fresh_call fs N home options g" "Glob t fs pattern options callback = Some (Inr s0)"
    "(async_step lc collate fs)\<^sup>*\<^sup>* s0 s" "\<not> (\<exists>s'. async_step lc collate fs s s')"
  shows "\<exists>found. ends s = [EEnd found] \<and>
    (\<Union>row \<in> set (m_set (g_minimatch g)). answers lc (m_options (g_minimatch g)) fs home (present fs home) row) \<subseteq> set found \<and>
    set found \<subseteq> (\<Union>row \<in> set (m_set (g_minimatch g)).
      answers lc (m_options (g_minimatch g)) fs home (\<lambda>m. present fs home m \<or> believed fs home m) row) \<and>
    (g_nounique g \<or> distinct found)"
  by (rule async_settled [OF assms])

text \<open>
  C24. The two walks agree: what the asynchronous walk reports at its end, in whatever order the requests were fs_answer, is what
  \<open>glob.sync\<close> returns for the same pattern and options, but for paths below a regular file that a cached error makes a walk believe in.
\<close>

theorem glob_async_agrees_with_sync:
  fixes lc :: letter_case
  assumes "setopts t fs pattern options = Some (Inr g)" "fresh_call fs N home options g" "Glob t fs pattern options callback = Some (Inr s0)"
    "(async_step lc collate fs)\<^sup>*\<^sup>* s0 s" "\<not> (\<exists>s'. async_step lc collate fs s s')"
    "pattern \<noteq> []" "list_all (\<lambda>row. need N home row < d) (m_set (g_minimatch g))"
  shows "\<exists>found synced. ends s = [EEnd found] \<and> globSync d t lc collate fs pattern options = Some (Inr synced) \<and>
    {m \<in> set found. \<not> believed fs home m} = {m \<in> set synced. \<not> believed fs home m}"
proof -
  define A where "A = (\<lambda>E. \<Union>row \<in> set (m_set (g_minimatch g)). answers lc (m_options (g_minimatch g)) fs home E row)"
  have b: "tidy_fs fs N" "glob_conf fs home g" "bare g" "caches_true fs g"
    using assms(2) blank_true [of g fs] setopts_given [OF assms(1)] by (simp_all add: fresh_call_def blank_def)
  have rows: "\<forall>row \<in> set (m_set (g_minimatch g)). tidy_row row \<and> need N home row < d"
    using assms(2,7) by (simp add: fresh_call_def list_all_iff)
  obtain synced where sync: "globSync d t lc collate fs pattern options = Some (Inr synced)" "A (present fs home) \<subseteq> set synced"
      "set synced \<subseteq> A (\<lambda>m. present fs home m \<or> believed fs home m)"
    using globSync_rows [OF b(1) assms(6,1) b(2,4,3) rows, of lc collate] unfolding A_def by blast
  obtain found where found: "ends s = [EEnd found]" "A (present fs home) \<subseteq> set found"
      "set found \<subseteq> A (\<lambda>m. present fs home m \<or> believed fs home m)"
    using async_settled [OF assms(1-5)] unfolding A_def by blast
  have "m \<in> A (present fs home)" if "m \<in> A (\<lambda>m. present fs home m \<or> believed fs home m)" "\<not> believed fs home m" for m
    using that by (auto simp: A_def answers_def)
  then have "{m \<in> set found. \<not> believed fs home m} = {m \<in> set synced. \<not> believed fs home m}"
    using found(2,3) sync(2,3) by blast
  with found(1) sync(1) show ?thesis by blast
qed

section \<open>An example\<close>

lemma sample_call:
  obtains g s0 where "setopts no_marks (tree_fs sample_tree []) (lit ''lib/*.js'') plain_options = Some (Inr g)" "g_minimatch g = sample_mm"
    "fresh_call (tree_fs sample_tree []) 1 [] plain_options g"
    "Glob no_marks (tree_fs sample_tree []) (lit ''lib/*.js'') plain_options True = Some (Inr s0)"
proof -
  obtain g where g: "setopts no_marks (tree_fs sample_tree []) (lit ''lib/*.js'') plain_options = Some (Inr g)"
      "g_minimatch g = sample_mm" "glob_conf (tree_fs sample_tree []) [] g" "bare g"
    using sample_walk [of sample_tree] by (elim exE conjE)
  have "fresh_call (tree_fs sample_tree []) 1 [] plain_options g"
    using g sample_fs_tidy sample_row(1) by (simp add: fresh_call_def tidy_row_def plain_options_def)
  then show thesis using that [OF g(1,2)] by (simp add: Glob_def g(1))
qed

theorem glob_async_ends_witness:
  "\<exists>s0. Glob no_marks (tree_fs sample_tree []) (lit ''lib/*.js'') plain_options True = Some (Inr s0) \<and>
     \<not> (\<exists>run. run 0 = s0 \<and> (\<forall>n. async_step plain_case (\<lambda>a b. 0) (tree_fs sample_tree []) (run n) (run (Suc n))))"
proof -
  obtain g s0 where g: "setopts no_marks (tree_fs sample_tree []) (lit ''lib/*.js'') plain_options = Some (Inr g)" "g_minimatch g = sample_mm"
      "fresh_call (tree_fs sample_tree []) 1 [] plain_options g"
      "Glob no_marks (tree_fs sample_tree []) (lit ''lib/*.js'') plain_options True = Some (Inr s0)"
    by (rule sample_call)
  from glob_async_ends [OF g(1,3,4), of plain_case "\<lambda>a b. 0"] g(4) show ?thesis by blast
qed

theorem glob_async_finds_witness:
  "\<exists>s0 s found. Glob no_marks (tree_fs sample_tree []) (lit ''lib/*.js'') plain_options True = Some (Inr s0) \<and>
     (async_step plain_case (\<lambda>a b. 0) (tree_fs sample_tree []))\<^sup>*\<^sup>* s0 s \<and> ends s = [EEnd found] \<and> lit ''lib/b.js'' \<in> set found"
proof -
  let ?fs = "tree_fs sample_tree []"
  obtain g s0 where g: "setopts no_marks ?fs (lit ''lib/*.js'') plain_options = Some (Inr g)" "g_minimatch g = sample_mm"
      "fresh_call ?fs 1 [] plain_options g" "Glob no_marks ?fs (lit ''lib/*.js'') plain_options True = Some (Inr s0)"
    by (rule sample_call)
  obtain s where s: "(async_step plain_case (\<lambda>a b. 0) ?fs)\<^sup>*\<^sup>* s0 s" "\<not> (\<exists>s'. async_step plain_case (\<lambda>a b. 0) ?fs s s')"
    using async_rests [OF g(1,3,4)] by blast
  from glob_async_finds [OF g(1,3,4) s] obtain found where "ends s = [EEnd found]"
      "answers plain_case quiet ?fs [] (present ?fs []) (map portion_of sample_globs) \<subseteq> set found"
    by (auto simp: g(2))
  then show ?thesis using g(4) s(1) sample_answer by blast
qed

theorem glob_async_agrees_with_sync_witness:
  "\<exists>s0 s found synced. Glob no_marks (tree_fs sample_tree []) (lit ''lib/*.js'') plain_options True = Some (Inr s0) \<and>
     (async_step plain_case (\<lambda>a b. 0) (tree_fs sample_tree []))\<^sup>*\<^sup>* s0 s \<and> ends s = [EEnd found] \<and>
     globSync 9 no_marks plain_case (\<lambda>a b. 0) (tree_fs sample_tree []) (lit ''lib/*.js'') plain_options = Some (Inr synced) \<and>
     {m \<in> set found. \<not> believed (tree_fs sample_tree []) [] m} = {m \<in> set synced. \<not> believed (tree_fs sample_tree []) [] m}"
proof -
  let ?fs = "tree_fs sample_tree []"
  obtain g s0 where g: "setopts no_marks ?fs (lit ''lib/*.js'') plain_options = Some (Inr g)" "g_minimatch g = sample_mm"
      "fresh_call ?fs 1 [] plain_options g" "Glob no_marks ?fs (lit ''lib/*.js'') plain_options True = Some (Inr s0)"
    by (rule sample_call)
  obtain s where s: "(async_step plain_case (\<lambda>a b. 0) ?fs)\<^sup>*\<^sup>* s0 s" "\<not> (\<exists>s'. async_step plain_case (\<lambda>a b. 0) ?fs s s')"
    using async_rests [OF g(1,3,4)] by blast
  have path: "lit ''lib/*.js'' \<noteq> []" by (simp add: lit_def)
  have "list_all (\<lambda>row. need 1 [] row < 9) (m_set (g_minimatch g))" using sample_row(2) by (simp add: g(2))
  from glob_async_agrees_with_sync [OF g(1,3,4) s path this] g(4) s(1) show ?thesis by blast
qed

section \<open>Cases in which it fails\<close>

lemma runs_task:
  assumes "a_stack s = t # ts" "run_task lc collate fs t (s\<lparr>a_stack := ts\<rparr>) = s'"
  shows "async_step lc collate fs s s'"
  using async_step.run [OF assms(1), of lc collate fs] assms(2) by simp

text \<open>
  The walk can end before it has begun: when the directory of the first row is ignored, the call of \<open>_process\<close> for it takes the
  counter back to zero, and \<open>end\<close> is emitted while the other rows of the pattern are still to be processed.
\<close>

theorem end_before_other_rows:
  assumes "m_set (g_minimatch g) = row # row' # rest" "\<not> g_noprocess g" "\<not> g_realpath g" "\<not> list_all is_plain row"
    "childrenIgnored lc g (case prefix_of row of None \<Rightarrow> lit ''.'' | Some p \<Rightarrow> p)"
  shows "\<exists>s found. (async_step lc collate fs)\<^sup>*\<^sup>* (new_async callback g) s \<and> ends s = [EEnd found] \<and>
    TProcess row' 1 False \<in> set (a_stack s)"
proof -
  let ?s0 = "new_async callback g" and ?ts = "TProcess row' 1 False # map (\<lambda>(i, row). TProcess row i False) (enumerate 2 rest)"
  have s0: "a_stack ?s0 = TProcess row 0 False # ?ts" "\<not> a_aborted ?s0" "\<not> a_paused ?s0" "a_processing ?s0 = 0" "a_events ?s0 = []"
      "a_glob ?s0 = g\<lparr>g_matches := replicate (length (m_set (g_minimatch g))) None\<rparr>"
    using assms(1,2) by (simp_all add: new_async_def Let_def numeral_2_eq_2)
  have ign: "childrenIgnored lc (a_glob ?s0) x = childrenIgnored lc g x" for x by (simp add: s0(6) childrenIgnored_def)
  let ?s1 = "?s0\<lparr>a_processing := 1, a_stack := TDone # ?ts\<rparr>"
  have 1: "async_step lc collate fs ?s0 ?s1"
    by (rule runs_task [OF s0(1)]) (use s0 assms(4,5) ign in \<open>simp add: run_process_def push_def Let_def\<close>)
  let ?s2 = "?s0\<lparr>a_processing := 0, a_stack := TFinish # ?ts\<rparr>"
  have 2: "async_step lc collate fs ?s1 ?s2"
    by (rule runs_task [of _ TDone ?ts]) (simp_all add: run_done_def push_def Let_def)
  let ?g = "finish_common lc collate fs (a_glob ?s0)"
  let ?s3 = "?s0\<lparr>a_processing := 0, a_glob := ?g, a_stack := ?ts, a_events := [EEnd (g_found ?g)]\<rparr>"
  have 3: "async_step lc collate fs ?s2 ?s3"
  proof (rule runs_task [of _ TFinish ?ts])
    show "run_task lc collate fs TFinish (?s2\<lparr>a_stack := ?ts\<rparr>) = ?s3"
      by (rule async.equality) (use s0(2,5,6) assms(3) in \<open>simp_all add: run_finish_def with_glob_def note_event_def Let_def\<close>)
  qed simp
  have "(async_step lc collate fs)\<^sup>*\<^sup>* ?s0 ?s3" using 1 2 3 by (meson converse_rtranclp_into_rtranclp rtranclp.rtrancl_refl)
  moreover have "ends ?s3 = [EEnd (g_found ?g)]" by (simp add: ends_def)
  ultimately show ?thesis by (intro exI [of _ ?s3] exI [of _ "g_found ?g"]) simp
qed

text \<open>
  A pause loses matches: a match that comes while the walk is paused is put off, but nothing keeps the walk from ending
  meanwhile, and then \<open>end\<close> reports the matches without it.
\<close>

theorem pause_loses_match:
  assumes "a_stack s = TEmit i e # TDone # ts" "a_paused s" "\<not> a_aborted s" "a_processing s = 1" "\<not> g_realpath (a_glob s)"
    "g_matches (a_glob s) ! i = Some old" "e \<notin> set old" "\<not> isIgnored lc (a_glob s) e"
  shows "\<exists>s'. (async_step lc collate fs)\<^sup>*\<^sup>* s s' \<and> a_emitQueue s' = a_emitQueue s @ [(i, e)] \<and>
    a_events s' = a_events s @ [EEnd (g_found (finish_common lc collate fs (a_glob s)))]"
proof -
  let ?q = "a_emitQueue s @ [(i, e)]" and ?g = "finish_common lc collate fs (a_glob s)"
  let ?s1 = "s\<lparr>a_stack := TDone # ts, a_emitQueue := ?q\<rparr>"
  have 1: "async_step lc collate fs s ?s1"
    by (rule runs_task [OF assms(1)]) (use assms(2,3,6-8) in \<open>simp add: run_emit_def\<close>)
  let ?s2 = "s\<lparr>a_processing := 0, a_stack := TFinish # ts, a_emitQueue := ?q\<rparr>"
  have 2: "async_step lc collate fs ?s1 ?s2"
  proof (rule runs_task [of _ TDone ts])
    show "run_task lc collate fs TDone (?s1\<lparr>a_stack := ts\<rparr>) = ?s2"
      by (rule async.equality) (use assms(4) in \<open>simp_all add: run_done_def push_def Let_def\<close>)
  qed simp
  let ?s3 = "s\<lparr>a_processing := 0, a_glob := ?g, a_stack := ts, a_emitQueue := ?q, a_events := a_events s @ [EEnd (g_found ?g)]\<rparr>"
  have 3: "async_step lc collate fs ?s2 ?s3"
  proof (rule runs_task [of _ TFinish ts])
    show "run_task lc collate fs TFinish (?s2\<lparr>a_stack := ts\<rparr>) = ?s3"
      by (rule async.equality) (use assms(3,5) in \<open>simp_all add: run_finish_def with_glob_def note_event_def Let_def\<close>)
  qed simp
  have "(async_step lc collate fs)\<^sup>*\<^sup>* s ?s3" using 1 2 3 by (meson converse_rtranclp_into_rtranclp rtranclp.rtrancl_refl)
  then show ?thesis by (intro exI [of _ ?s3]) simp
qed

text \<open>
  \<open>glob.hasMagic\<close> throws for an empty pattern: there is no first row whose portions it could look at.
\<close>

theorem hasMagic_blank:
  assumes "trim pattern = []" "\<not> o_matchBase (go_mm options)" "go_ignore options = []"
  shows "glob_hasMagic t fs pattern options = Some (Inl TypeError)"
  using assms by (simp add: glob_hasMagic_def Glob_def setopts_def setupIgnores_def Minimatch_def make_mm_def new_async_def Let_def)

end
