(* ===== verification/Event_Emitter.thy ===== *)
theory Event_Emitter
  imports JS_Value
begin

text \<open>
  The event emitter, as bundled in \<open>src/site/assets/javascripts/lunr/wordcut.js\<close> (module 14). An event has no handler, one
  function, or an array of functions; arrays are in a heap because \<open>removeAllListeners\<close> keeps a
  reference to one while it is being emptied. What a listener of the program does to the emitter when it is called is the argument
  \<open>act\<close>, any function on emitters that may throw. Emitting, calling and removing call each other;
  they take the depth of the call stack and running out of it is the \<open>RangeError\<close> of the language. The
  lemmas relate the three representations of a handler to one list of listeners.
\<close>

section \<open>State\<close>

text \<open>
  A listener: a function of the program, a function that plain objects inherit (two of them throw when they are not
  given a function, and no event passes one to them), or the wrapper \<open>g\<close> that \<open>once\<close> makes, with
  the event and the listener it closes over.
\<close>

datatype fn = Fn nat | Builtin jstring | OnceG nat jstring fn

fun listener_of :: "fn \<Rightarrow> fn option" where
  "listener_of (OnceG i ty l) = Some l"
| "listener_of _ = None"

text \<open>The arguments after the event name.\<close>

datatype payload = UserArgs "nat list" | ErrorArg js_error | ListenerArgs jstring fn

datatype handler = One fn | Many nat | ProtoObject

record listener_array =
  fns :: "fn list"
  warned :: bool

record emitter =
  events :: "(jstring \<times> handler) list"
  arrays :: "nat \<Rightarrow> listener_array"
  next_ref :: nat
  maxListeners :: "int option"
  fired :: "nat \<Rightarrow> bool"
  next_g :: nat
  calls :: "(nat \<times> payload) list"
  warnings :: nat

definition EventEmitter :: emitter where
  "EventEmitter = \<lparr>events = [], arrays = (\<lambda>_. \<lparr>fns = [], warned = False\<rparr>), next_ref = 0, maxListeners = None,
     fired = (\<lambda>_. False), next_g = 0, calls = [], warnings = 0\<rparr>"

definition defaultMaxListeners :: int where "defaultMaxListeners = 10"

text \<open>The names that the plain object \<open>_events\<close> inherits.\<close>

definition inherited_names :: "jstring list" where
  "inherited_names = map lit [''constructor'', ''__defineGetter__'', ''__defineSetter__'', ''hasOwnProperty'',
     ''__lookupGetter__'', ''__lookupSetter__'', ''isPrototypeOf'', ''propertyIsEnumerable'',
     ''toString'', ''valueOf'', ''toLocaleString'']"

text \<open>\<open>this._events[type]\<close>\<close>

definition handler_of :: "emitter \<Rightarrow> jstring \<Rightarrow> handler option" where
  "handler_of s ty =
     (case map_of (events s) ty of
        Some h \<Rightarrow> Some h
      | None \<Rightarrow> if ty = lit ''__proto__'' then Some ProtoObject
          else if ty \<in> set inherited_names then Some (One (Builtin ty)) else None)"

fun upsert :: "jstring \<Rightarrow> 'h \<Rightarrow> (jstring \<times> 'h) list \<Rightarrow> (jstring \<times> 'h) list" where
  "upsert k h [] = [(k, h)]"
| "upsert k h ((j, g) # es) = (if j = k then (k, h) # es else (j, g) # upsert k h es)"

definition set_handler :: "jstring \<Rightarrow> handler \<Rightarrow> emitter \<Rightarrow> emitter" where
  "set_handler ty h s = s\<lparr>events := upsert ty h (events s)\<rparr>"

definition delete_handler :: "jstring \<Rightarrow> emitter \<Rightarrow> emitter" where
  "delete_handler ty s = s\<lparr>events := filter (\<lambda>e. fst e \<noteq> ty) (events s)\<rparr>"

definition set_fns :: "nat \<Rightarrow> fn list \<Rightarrow> emitter \<Rightarrow> emitter" where
  "set_fns r l s = s\<lparr>arrays := (arrays s)(r := (arrays s r)\<lparr>fns := l\<rparr>)\<rparr>"

definition setMaxListeners :: "int \<Rightarrow> emitter \<Rightarrow> emitter \<times> (js_error + unit)" where
  "setMaxListeners n s = (if n < 0 then (s, Inl TypeError) else (s\<lparr>maxListeners := Some n\<rparr>, Inr ()))"

section \<open>Emitting and removing\<close>

text \<open>The listener that \<open>removeListener\<close> looks for: the function itself, or a wrapper around it.\<close>

definition fn_matches :: "fn \<Rightarrow> fn \<Rightarrow> bool" where
  "fn_matches listener f = (f = listener \<or> listener_of f = Some listener)"

text \<open>The last position that matches, and the list without it.\<close>

fun remove_last_match :: "fn \<Rightarrow> fn list \<Rightarrow> fn list option" where
  "remove_last_match l [] = None"
| "remove_last_match l (f # fs) =
     (case remove_last_match l fs of
        Some r \<Rightarrow> Some (f # r)
      | None \<Rightarrow> if fn_matches l f then Some fs else None)"

abbreviation error_ev :: jstring where "error_ev \<equiv> lit ''error''"
abbreviation newListener_ev :: jstring where "newListener_ev \<equiv> lit ''newListener''"
abbreviation removeListener_ev :: jstring where "removeListener_ev \<equiv> lit ''removeListener''"

text \<open>What \<open>removeListener\<close> changes before it emits; the flag says whether it removed anything.\<close>

definition detach :: "jstring \<Rightarrow> fn \<Rightarrow> emitter \<Rightarrow> emitter \<times> bool" where
  "detach ty listener s =
     (case handler_of s ty of
        None \<Rightarrow> (s, False)
      | Some ProtoObject \<Rightarrow> (s, False)
      | Some (One f) \<Rightarrow> if fn_matches listener f then (delete_handler ty s, True) else (s, False)
      | Some (Many r) \<Rightarrow>
          (case remove_last_match listener (fns (arrays s r)) of
             None \<Rightarrow> (s, False)
           | Some l \<Rightarrow>
               if length (fns (arrays s r)) = 1 then (delete_handler ty (set_fns r [] s), True)
               else (set_fns r l s, True)))"

text \<open>An \<open>error\<close> event that nobody listens to throws.\<close>

definition unhandled_error :: "emitter \<Rightarrow> jstring \<Rightarrow> bool" where
  "unhandled_error s ty =
     (ty = error_ev \<and>
      (case handler_of s error_ev of
         None \<Rightarrow> True
       | Some (Many r) \<Rightarrow> fns (arrays s r) = []
       | _ \<Rightarrow> False))"

type_synonym action = "nat \<Rightarrow> payload \<Rightarrow> emitter \<Rightarrow> emitter \<times> (js_error + unit)"

function emit :: "nat \<Rightarrow> action \<Rightarrow> jstring \<Rightarrow> payload \<Rightarrow> emitter \<Rightarrow> emitter \<times> (js_error + bool)"
  and call_all :: "nat \<Rightarrow> action \<Rightarrow> fn list \<Rightarrow> payload \<Rightarrow> emitter \<Rightarrow> emitter \<times> (js_error + bool)"
  and call_fn :: "nat \<Rightarrow> action \<Rightarrow> fn \<Rightarrow> payload \<Rightarrow> emitter \<Rightarrow> emitter \<times> (js_error + unit)"
  and removeListener :: "nat \<Rightarrow> action \<Rightarrow> jstring \<Rightarrow> fn \<Rightarrow> emitter \<Rightarrow> emitter \<times> (js_error + unit)" where
  "emit 0 act ty pay s = (s, Inl RangeError)"
| "emit (Suc d) act ty pay s =
     (if unhandled_error s ty
      then (s, Inl (case pay of ErrorArg e \<Rightarrow> e | _ \<Rightarrow> TypeError))
      else case handler_of s ty of
             None \<Rightarrow> (s, Inr False)
           | Some ProtoObject \<Rightarrow> (s, Inl TypeError)
           | Some (One f) \<Rightarrow> call_all d act [f] pay s
           | Some (Many r) \<Rightarrow> call_all d act (fns (arrays s r)) pay s)"
| "call_all d act [] pay s = (s, Inr True)"
| "call_all d act (f # fs) pay s =
     (case call_fn d act f pay s of
        (s1, Inl e) \<Rightarrow> (s1, Inl e)
      | (s1, Inr _) \<Rightarrow> call_all d act fs pay s1)"
| "call_fn d act (Fn n) pay s = act n pay (s\<lparr>calls := calls s @ [(n, pay)]\<rparr>)"
| "call_fn d act (Builtin nm) pay s =
     (s, if nm \<in> {lit ''__defineGetter__'', lit ''__defineSetter__''} then Inl TypeError else Inr ())"
| "call_fn d act (OnceG i ty l) pay s =
     (case removeListener d act ty (OnceG i ty l) s of
        (s1, Inl e) \<Rightarrow> (s1, Inl e)
      | (s1, Inr _) \<Rightarrow>
          if fired s1 i then (s1, Inr ())
          else call_fn d act l pay (s1\<lparr>fired := (fired s1)(i := True)\<rparr>))"
| "removeListener d act ty listener s =
     (let (s1, removed) = detach ty listener s
      in if removed \<and> handler_of s1 removeListener_ev \<noteq> None
         then (case emit d act removeListener_ev (ListenerArgs ty listener) s1 of
                 (s2, Inl e) \<Rightarrow> (s2, Inl e)
               | (s2, Inr _) \<Rightarrow> (s2, Inr ()))
         else (s1, Inr ()))"
  by pat_completeness auto

termination
  by (relation "inv_image (less_than <*lex*> less_than <*lex*> less_than)
      (\<lambda>x. case x of
         Inl (Inl (d, act, ty, pay, s)) \<Rightarrow> (d, 0, 0)
       | Inl (Inr (d, act, fs, pay, s)) \<Rightarrow> (d, 3, length fs)
       | Inr (Inl (d, act, f, pay, s)) \<Rightarrow> (d, 2, size f)
       | Inr (Inr (d, act, ty, l, s)) \<Rightarrow> (d, 1, 0))") auto

section \<open>Adding\<close>

text \<open>The check for a leak, after a listener has been added to an array.\<close>

definition leak_check :: "jstring \<Rightarrow> emitter \<Rightarrow> emitter" where
  "leak_check ty s =
     (case handler_of s ty of
        Some (Many r) \<Rightarrow>
          (let m = (case maxListeners s of Some n \<Rightarrow> n | None \<Rightarrow> defaultMaxListeners)
           in if \<not> warned (arrays s r) \<and> 0 < m \<and> m < int (length (fns (arrays s r)))
              then s\<lparr>arrays := (arrays s)(r := (arrays s r)\<lparr>warned := True\<rparr>), warnings := warnings s + 1\<rparr>
              else s)
      | _ \<Rightarrow> s)"

definition attach :: "jstring \<Rightarrow> fn \<Rightarrow> emitter \<Rightarrow> emitter \<times> (js_error + unit)" where
  "attach ty listener s =
     (case handler_of s ty of
        None \<Rightarrow> (leak_check ty (set_handler ty (One listener) s), Inr ())
      | Some ProtoObject \<Rightarrow> (s, Inl TypeError)
      | Some (Many r) \<Rightarrow> (leak_check ty (set_fns r (fns (arrays s r) @ [listener]) s), Inr ())
      | Some (One f) \<Rightarrow>
          (leak_check ty (set_handler ty (Many (next_ref s))
             (s\<lparr>arrays := (arrays s)(next_ref s := \<lparr>fns = [f, listener], warned = False\<rparr>),
                next_ref := next_ref s + 1\<rparr>)), Inr ()))"

definition addListener :: "nat \<Rightarrow> action \<Rightarrow> jstring \<Rightarrow> fn \<Rightarrow> emitter \<Rightarrow> emitter \<times> (js_error + unit)" where
  "addListener d act ty listener s =
     (if handler_of s newListener_ev \<noteq> None
      then (case emit d act newListener_ev
                 (ListenerArgs ty (case listener_of listener of Some l \<Rightarrow> l | None \<Rightarrow> listener)) s of
              (s1, Inl e) \<Rightarrow> (s1, Inl e)
            | (s1, Inr _) \<Rightarrow> attach ty listener s1)
      else attach ty listener s)"

definition once :: "nat \<Rightarrow> action \<Rightarrow> jstring \<Rightarrow> fn \<Rightarrow> emitter \<Rightarrow> emitter \<times> (js_error + unit)" where
  "once d act ty listener s =
     addListener d act ty (OnceG (next_g s) ty listener)
       (s\<lparr>next_g := next_g s + 1, fired := (fired s)(next_g s := False)\<rparr>)"

section \<open>Removing everything\<close>

text \<open>
  \<open>while (listeners.length) this.removeListener(...)\<close> over the array that \<open>listeners\<close> refers to; the first
  argument bounds the rounds, which a listener that keeps adding listeners can make endless.
\<close>

fun drain :: "nat \<Rightarrow> nat \<Rightarrow> action \<Rightarrow> jstring \<Rightarrow> nat \<Rightarrow> emitter \<Rightarrow> (emitter \<times> (js_error + unit)) option" where
  "drain 0 d act ty r s = (if fns (arrays s r) = [] then Some (s, Inr ()) else None)"
| "drain (Suc k) d act ty r s =
     (if fns (arrays s r) = [] then Some (s, Inr ())
      else case removeListener d act ty (last (fns (arrays s r))) s of
             (s1, Inl e) \<Rightarrow> Some (s1, Inl e)
           | (s1, Inr _) \<Rightarrow> drain k d act ty r s1)"

text \<open>\<open>removeAllListeners(type)\<close>\<close>

definition removeAllListeners_type ::
    "nat \<Rightarrow> nat \<Rightarrow> action \<Rightarrow> jstring \<Rightarrow> emitter \<Rightarrow> (emitter \<times> (js_error + unit)) option" where
  "removeAllListeners_type k d act ty s =
     (if handler_of s removeListener_ev = None then Some (delete_handler ty s, Inr ())
      else case handler_of s ty of
             None \<Rightarrow> Some (s, Inl TypeError)
           | Some ProtoObject \<Rightarrow> Some (delete_handler ty s, Inr ())
           | Some (One f) \<Rightarrow>
               (case removeListener d act ty f s of
                  (s1, Inl e) \<Rightarrow> Some (s1, Inl e)
                | (s1, Inr _) \<Rightarrow> Some (delete_handler ty s1, Inr ()))
           | Some (Many r) \<Rightarrow>
               (case drain k d act ty r s of
                  None \<Rightarrow> None
                | Some (s1, Inl e) \<Rightarrow> Some (s1, Inl e)
                | Some (s1, Inr _) \<Rightarrow> Some (delete_handler ty s1, Inr ())))"

text \<open>
  The loop over the keys of \<open>_events\<close>; a key that has been deleted meanwhile is not visited. The keys are visited in the
  order in which they were added, which is the order of the language for names that are not array indices.
\<close>

fun remove_keys ::
    "nat \<Rightarrow> nat \<Rightarrow> action \<Rightarrow> jstring list \<Rightarrow> emitter \<Rightarrow> (emitter \<times> (js_error + unit)) option" where
  "remove_keys k d act [] s = Some (s, Inr ())"
| "remove_keys k d act (ty # tys) s =
     (if ty = removeListener_ev \<or> map_of (events s) ty = None then remove_keys k d act tys s
      else case removeAllListeners_type k d act ty s of
             None \<Rightarrow> None
           | Some (s1, Inl e) \<Rightarrow> Some (s1, Inl e)
           | Some (s1, Inr _) \<Rightarrow> remove_keys k d act tys s1)"

definition removeAllListeners ::
    "nat \<Rightarrow> nat \<Rightarrow> action \<Rightarrow> emitter \<Rightarrow> (emitter \<times> (js_error + unit)) option" where
  "removeAllListeners k d act s =
     (if handler_of s removeListener_ev = None then Some (s\<lparr>events := []\<rparr>, Inr ())
      else case remove_keys k d act (map fst (events s)) s of
             None \<Rightarrow> None
           | Some (s1, Inl e) \<Rightarrow> Some (s1, Inl e)
           | Some (s1, Inr _) \<Rightarrow>
               (case removeAllListeners_type k d act removeListener_ev s1 of
                  None \<Rightarrow> None
                | Some (s2, Inl e) \<Rightarrow> Some (s2, Inl e)
                | Some (s2, Inr _) \<Rightarrow> Some (s2\<lparr>events := []\<rparr>, Inr ())))"

section \<open>Reading\<close>

definition listeners :: "emitter \<Rightarrow> jstring \<Rightarrow> js_error + fn list" where
  "listeners s ty =
     (case handler_of s ty of
        None \<Rightarrow> Inr []
      | Some ProtoObject \<Rightarrow> Inl TypeError
      | Some (One f) \<Rightarrow> Inr [f]
      | Some (Many r) \<Rightarrow> Inr (fns (arrays s r)))"

text \<open>\<open>listenerCount\<close>; the prototype object has no \<open>length\<close>.\<close>

definition listenerCount :: "emitter \<Rightarrow> jstring \<Rightarrow> int option" where
  "listenerCount s ty =
     (case handler_of s ty of
        None \<Rightarrow> Some 0
      | Some ProtoObject \<Rightarrow> None
      | Some (One f) \<Rightarrow> Some 1
      | Some (Many r) \<Rightarrow> Some (int (length (fns (arrays s r)))))"

section \<open>The invariant\<close>

text \<open>
  A stored handler is a function or an array that has been allocated, is not empty and belongs to this event
  alone.
\<close>

definition ee_inv :: "emitter \<Rightarrow> bool" where
  "ee_inv s \<longleftrightarrow> distinct (map fst (events s)) \<and>
     (\<forall>ty h. map_of (events s) ty = Some h \<longrightarrow> h \<noteq> ProtoObject) \<and>
     (\<forall>ty r. map_of (events s) ty = Some (Many r) \<longrightarrow> r < next_ref s \<and> fns (arrays s r) \<noteq> []) \<and>
     (\<forall>ty ty' r. map_of (events s) ty = Some (Many r) \<longrightarrow> map_of (events s) ty' = Some (Many r) \<longrightarrow> ty = ty')"

lemma map_of_upsert [simp]: "map_of (upsert k h es) = (map_of es)(k \<mapsto> h)"
  by (induction es) (auto simp: fun_eq_iff)

lemma fst_upsert: "fst ` set (upsert k h es) = insert k (fst ` set es)"
proof (induction es)
  case (Cons e es)
  then show ?case by (cases e) (simp add: insert_commute)
qed simp

lemma distinct_upsert: "distinct (map fst es) \<Longrightarrow> distinct (map fst (upsert k h es))"
proof (induction es)
  case (Cons e es)
  then show ?case by (cases e) (auto simp: fst_upsert)
qed simp

lemma map_of_filter_key: "map_of (filter (\<lambda>e. fst e \<noteq> k) es) j = (if j = k then None else map_of es j)"
  by (induction es) auto

lemma map_of_set_handler: "map_of (events (set_handler ty h s)) = (map_of (events s))(ty \<mapsto> h)"
  by (simp add: set_handler_def)

lemma map_of_delete_handler: "map_of (events (delete_handler ty s)) j = (if j = ty then None else map_of (events s) j)"
  by (simp add: delete_handler_def map_of_filter_key)

lemma set_fns_simps [simp]:
  "events (set_fns r l s) = events s" "next_ref (set_fns r l s) = next_ref s"
  "fns (arrays (set_fns r l s) q) = (if q = r then l else fns (arrays s q))"
  "calls (set_fns r l s) = calls s" "fired (set_fns r l s) = fired s"
  by (simp_all add: set_fns_def)

lemma delete_handler_simps [simp]:
  "arrays (delete_handler ty s) = arrays s" "next_ref (delete_handler ty s) = next_ref s"
  "calls (delete_handler ty s) = calls s" "fired (delete_handler ty s) = fired s"
  by (simp_all add: delete_handler_def)

lemma set_handler_simps [simp]:
  "arrays (set_handler ty h s) = arrays s" "next_ref (set_handler ty h s) = next_ref s"
  "calls (set_handler ty h s) = calls s" "fired (set_handler ty h s) = fired s"
  by (simp_all add: set_handler_def)

lemma leak_check_simps [simp]:
  "events (leak_check ty s) = events s" "next_ref (leak_check ty s) = next_ref s"
  "fns (arrays (leak_check ty s) q) = fns (arrays s q)" "calls (leak_check ty s) = calls s"
  "fired (leak_check ty s) = fired s"
  by (auto simp: leak_check_def Let_def split: option.splits handler.splits)

lemma ee_inv_cong:
  assumes "events s = events t" "next_ref s = next_ref t" "\<And>q. fns (arrays s q) = fns (arrays t q)"
  shows "ee_inv s = ee_inv t"
  using assms by (simp add: ee_inv_def)

lemma ee_inv_leak_check [simp]: "ee_inv (leak_check ty s) = ee_inv s"
  by (rule ee_inv_cong) simp_all

lemma ee_inv_delete: "ee_inv s \<Longrightarrow> ee_inv (delete_handler ty s)"
  by (auto simp: ee_inv_def map_of_delete_handler distinct_map_filter) (simp add: delete_handler_def distinct_map_filter)

lemma ee_inv_set_fns: "ee_inv s \<Longrightarrow> l \<noteq> [] \<Longrightarrow> ee_inv (set_fns r l s)"
  by (simp add: ee_inv_def)

lemma own_Many: "handler_of s ty = Some (Many r) \<Longrightarrow> map_of (events s) ty = Some (Many r)"
  by (auto simp: handler_of_def split: option.splits if_splits)

lemma remove_last_match_length: "remove_last_match l fs = Some r \<Longrightarrow> length fs = Suc (length r)"
  by (induction fs arbitrary: r) (auto split: option.splits if_splits)

lemma ee_inv_detach: 
  assumes "ee_inv s"
  shows "ee_inv (fst (detach ty l s))"
proof (cases "handler_of s ty")
  case (Some h)
  show ?thesis
  proof (cases h)
    case (Many r)
    with Some have own: "map_of (events s) ty = Some (Many r)" by (simp add: own_Many)
    show ?thesis
    proof (cases "remove_last_match l (fns (arrays s r))")
      case (Some fs)
      note len = remove_last_match_length [OF Some]
      show ?thesis
      proof (cases "length (fns (arrays s r)) = 1")
        case True
        have "ee_inv (delete_handler ty (set_fns r [] s))"
          using assms own by (auto simp: ee_inv_def map_of_delete_handler) (simp add: delete_handler_def distinct_map_filter)
        with True Some \<open>handler_of s ty = Some h\<close> Many show ?thesis by (simp add: detach_def)
      next
        case False
        with len have "fs \<noteq> []" by auto
        with ee_inv_set_fns [OF assms] False Some \<open>handler_of s ty = Some h\<close> Many show ?thesis
          by (simp add: detach_def)
      qed
    qed (use assms \<open>handler_of s ty = Some h\<close> Many in \<open>simp add: detach_def\<close>)
  qed (use assms Some ee_inv_delete in \<open>auto simp: detach_def\<close>)
qed (use assms in \<open>simp add: detach_def\<close>)

lemma ee_inv_attach:
  assumes "ee_inv s"
  shows "ee_inv (fst (attach ty f s))"
proof (cases "handler_of s ty")
  case None
  have "ee_inv (set_handler ty (One f) s)"
    using assms by (auto simp: ee_inv_def map_of_set_handler split: if_splits) (simp add: set_handler_def distinct_upsert)
  with None show ?thesis by (simp add: attach_def)
next
  case (Some h)
  show ?thesis
  proof (cases h)
    case (One g)
    let ?s = "s\<lparr>arrays := (arrays s)(next_ref s := \<lparr>fns = [g, f], warned = False\<rparr>), next_ref := next_ref s + 1\<rparr>"
    have "ee_inv (set_handler ty (Many (next_ref s)) ?s)"
      using assms by (auto simp: ee_inv_def map_of_set_handler less_Suc_eq split: if_splits)
        (auto simp: set_handler_def distinct_upsert)
    with Some One show ?thesis by (simp add: attach_def)
  next
    case (Many r)
    have "ee_inv (set_fns r (fns (arrays s r) @ [f]) s)" by (rule ee_inv_set_fns [OF assms]) simp
    with Some Many show ?thesis by (simp add: attach_def)
  next
    case ProtoObject
    with Some assms show ?thesis by (simp add: attach_def)
  qed
qed

text \<open>The listeners of the program may do anything to the emitter that keeps the invariant.\<close>

definition well_behaved :: "action \<Rightarrow> bool" where
  "well_behaved act \<longleftrightarrow> (\<forall>n pay s. ee_inv s \<longrightarrow> ee_inv (fst (act n pay s)))"

lemma emit_inv:
  assumes "well_behaved act"
  shows "ee_inv s \<Longrightarrow> ee_inv (fst (emit d act ty pay s))"
    and "ee_inv s \<Longrightarrow> ee_inv (fst (call_all d act fs pay s))"
    and "ee_inv s \<Longrightarrow> ee_inv (fst (call_fn d act f pay s))"
    and "ee_inv s \<Longrightarrow> ee_inv (fst (removeListener d act ty l s))"
  using assms
proof (induction d act ty pay s and d act fs pay s and d act f pay s and d act ty l s
    rule: emit_call_all_call_fn_removeListener.induct)
  case (4 d act f fs pay s)
  then show ?case by (auto split: prod.splits sum.splits)
next
  case (5 d act n pay s)
  have "ee_inv (s\<lparr>calls := calls s @ [(n, pay)]\<rparr>)" using 5 by (simp add: ee_inv_def)
  with 5 show ?case by (simp add: well_behaved_def)
next
  case (7 d act i ty l pay s)
  have "ee_inv (t\<lparr>fired := g\<rparr>) = ee_inv t" for t g by (simp add: ee_inv_def)
  with 7 show ?case by (auto split: prod.splits sum.splits)
next
  case (8 d act ty l s)
  have "ee_inv (fst (detach ty l s))" using 8 by (simp add: ee_inv_detach)
  with 8 show ?case by (auto simp: Let_def split: prod.splits sum.splits)
qed (auto split: option.splits handler.splits)

lemma addListener_inv: "well_behaved act \<Longrightarrow> ee_inv s \<Longrightarrow> ee_inv (fst (addListener d act ty f s))"
  using emit_inv(1) [of act s d newListener_ev]
  by (auto simp: addListener_def ee_inv_attach split: prod.splits sum.splits option.splits) (metis fst_conv ee_inv_attach)+

lemma once_inv: "well_behaved act \<Longrightarrow> ee_inv s \<Longrightarrow> ee_inv (fst (once d act ty f s))"
  unfolding once_def by (intro addListener_inv) (simp_all add: ee_inv_def)

declare removeListener.simps [simp del]

lemma drain_inv:
  "well_behaved act \<Longrightarrow> ee_inv s \<Longrightarrow> drain k d act ty r s = Some (s', res) \<Longrightarrow> ee_inv s'"
proof (induction k d act ty r s rule: drain.induct)
  case (2 k d act ty r s)
  obtain s1 e where s1: "removeListener d act ty (last (fns (arrays s r))) s = (s1, e)" by fastforce
  then have "ee_inv s1" using emit_inv(4) [OF "2.prems"(1,2), of d ty "last (fns (arrays s r))"] by simp
  with 2 s1 show ?case by (cases e) (auto split: if_splits)
qed (auto split: if_splits)

lemma removeAllListeners_type_inv:
  assumes "well_behaved act" "ee_inv s" "removeAllListeners_type k d act ty s = Some (s', res)"
  shows "ee_inv s'"
proof -
  have rem: "ee_inv s1" if "removeListener d act ty f s = (s1, e)" for f s1 e
    using emit_inv(4) [OF assms(1,2), of d ty f] that by simp
  show ?thesis
    using assms(2,3)
    by (auto simp: removeAllListeners_type_def dest: rem drain_inv [OF assms(1,2)] intro: ee_inv_delete
        split: if_splits option.splits handler.splits prod.splits sum.splits)
qed

lemma remove_keys_inv:
  "well_behaved act \<Longrightarrow> ee_inv s \<Longrightarrow> remove_keys k d act tys s = Some (s', res) \<Longrightarrow> ee_inv s'"
proof (induction k d act tys s rule: remove_keys.induct)
  case (2 k d act ty tys s)
  show ?case
  proof (cases "ty = removeListener_ev \<or> map_of (events s) ty = None")
    case True
    with 2 show ?thesis by simp
  next
    case False
    then obtain s1 e where s1: "removeAllListeners_type k d act ty s = Some (s1, e)"
      using "2.prems"(3) by (auto split: option.splits)
    have "ee_inv s1" by (rule removeAllListeners_type_inv [OF "2.prems"(1,2) s1])
    with s1 False 2 show ?thesis by (cases e) auto
  qed
qed simp

lemma removeAllListeners_inv:
  assumes "well_behaved act" "ee_inv s" "removeAllListeners k d act s = Some (s', res)"
  shows "ee_inv s'"
proof (cases "handler_of s removeListener_ev = None")
  case True
  with assms(3) show ?thesis by (auto simp: removeAllListeners_def ee_inv_def)
next
  case False
  then obtain s1 e where s1: "remove_keys k d act (map fst (events s)) s = Some (s1, e)"
    using assms(3) by (auto simp: removeAllListeners_def split: option.splits)
  have inv1: "ee_inv s1" by (rule remove_keys_inv [OF assms(1,2) s1])
  show ?thesis
  proof (cases e)
    case (Inl x)
    with False s1 inv1 assms(3) show ?thesis by (auto simp: removeAllListeners_def)
  next
    case (Inr u)
    then obtain s2 e2 where s2: "removeAllListeners_type k d act removeListener_ev s1 = Some (s2, e2)"
      using False s1 assms(3) by (auto simp: removeAllListeners_def split: option.splits)
    have "ee_inv s2" by (rule removeAllListeners_type_inv [OF assms(1) inv1 s2])
    with False s1 Inr s2 assms(3) show ?thesis
      by (cases e2) (auto simp: removeAllListeners_def, simp add: ee_inv_def)
  qed
qed

text \<open>
  Listeners that are written with the emitter's own operations are well behaved: code that returns, throws, goes on after other code,
  looks at who is called with what, or calls an operation, during which code of this kind runs again.
\<close>

inductive listener_code :: "action \<Rightarrow> bool" where
  code_return: "listener_code (\<lambda>n pay s. (s, Inr ()))"
| code_throw: "listener_code (\<lambda>n pay s. (s, Inl e))"
| code_seq: "\<lbrakk>listener_code a; listener_code b\<rbrakk> \<Longrightarrow>
    listener_code (\<lambda>n pay s. case a n pay s of (t, Inl e) \<Rightarrow> (t, Inl e) | (t, Inr u) \<Rightarrow> b n pay t)"
| code_choose: "(\<And>n pay. listener_code (a n pay)) \<Longrightarrow> listener_code (\<lambda>n pay. a n pay n pay)"
| code_add: "listener_code a \<Longrightarrow> listener_code (\<lambda>n pay s. addListener d a ty f s)"
| code_once: "listener_code a \<Longrightarrow> listener_code (\<lambda>n pay s. once d a ty f s)"
| code_remove: "listener_code a \<Longrightarrow> listener_code (\<lambda>n pay s. removeListener d a ty f s)"
| code_emit: "listener_code a \<Longrightarrow>
    listener_code (\<lambda>n pay s. case emit d a ty pay' s of (t, Inl e) \<Rightarrow> (t, Inl e) | (t, Inr u) \<Rightarrow> (t, Inr ()))"

lemma listener_code_well_behaved: "listener_code act \<Longrightarrow> well_behaved act"
proof (induction rule: listener_code.induct)
  case (code_seq a b)
  have "ee_inv (fst (case a n pay s of (t, Inl e) \<Rightarrow> (t, Inl e) | (t, Inr u) \<Rightarrow> b n pay t))" if "ee_inv s" for n pay s
  proof (cases "a n pay s")
    case (Pair t r)
    then have "ee_inv t" using code_seq.IH(1) that unfolding well_behaved_def by (metis fst_conv)
    then show ?thesis using Pair code_seq.IH(2) by (cases r) (simp_all add: well_behaved_def)
  qed
  then show ?case by (simp add: well_behaved_def)
next
  case (code_emit a d ty pay')
  have "ee_inv (fst (emit d a ty pay' s))" if "ee_inv s" for s by (rule emit_inv(1) [OF code_emit.IH that])
  then show ?case by (auto simp: well_behaved_def case_prod_beta split: sum.split)
qed (auto simp: well_behaved_def addListener_inv once_inv emit_inv(4))

text \<open>What a program can do with an emitter, from outside.\<close>

inductive ee_step :: "action \<Rightarrow> emitter \<Rightarrow> emitter \<Rightarrow> bool" for act where
  add: "ee_step act s (fst (addListener d act ty f s))"
| add_once: "ee_step act s (fst (once d act ty f s))"
| remove: "ee_step act s (fst (removeListener d act ty f s))"
| emits: "ee_step act s (fst (emit d act ty pay s))"
| set_max: "ee_step act s (fst (setMaxListeners n s))"
| remove_type: "removeAllListeners_type k d act ty s = Some (s', r) \<Longrightarrow> ee_step act s s'"
| remove_all: "removeAllListeners k d act s = Some (s', r) \<Longrightarrow> ee_step act s s'"

lemma ee_step_inv:
  assumes "well_behaved act" "ee_step act s t" "ee_inv s"
  shows "ee_inv t"
  using assms(2,3)
proof cases
  case (set_max n)
  then show ?thesis using assms(3) by (simp add: setMaxListeners_def ee_inv_def)
qed (use assms in \<open>auto intro: addListener_inv once_inv emit_inv removeAllListeners_type_inv removeAllListeners_inv\<close>)

interpretation emitter_sys: invariant_system
  "\<lambda>s. s = EventEmitter" "\<lambda>s t. well_behaved act \<and> ee_step act s t" ee_inv for act
proof
  show "ee_inv s" if "s = EventEmitter" for s using that by (simp add: ee_inv_def EventEmitter_def)
  show "ee_inv t" if "well_behaved act \<and> ee_step act s t" "ee_inv s" for s t
    using that ee_step_inv by blast
qed

text \<open>
  C33. The emitter stays in order: whatever is added, removed and emitted, in any sequence and with listeners that call back
  into the emitter, every stored handler is a function or a non-empty array of its own; in
  particular removing the last listener removes the entry.
\<close>

theorem emitter_invariant:
  assumes "well_behaved act" "(ee_step act)\<^sup>*\<^sup>* EventEmitter s"
  shows "ee_inv s"
proof -
  have "(\<lambda>s t. well_behaved act \<and> ee_step act s t)\<^sup>*\<^sup>* EventEmitter s" using assms by simp
  then show ?thesis using emitter_sys.reachable_inv by blast
qed

text \<open>A listener that adds another one for the same event, while it is being called by \<open>emit\<close> through the wrapper of \<open>once\<close>.\<close>

theorem emitter_invariant_witness:
  "let act = (\<lambda>n pay s. addListener 3 (\<lambda>n pay s. (s, Inr ())) (lit ''data'') (Fn 2) s)
   in ee_inv (fst (emit 5 act (lit ''data'') (UserArgs []) (fst (once 5 act (lit ''data'') (Fn 1) EventEmitter))))"
proof -
  let ?act = "\<lambda>n pay s. addListener 3 (\<lambda>n pay s. (s, Inr ())) (lit ''data'') (Fn 2) s"
  let ?o = "fst (once 5 ?act (lit ''data'') (Fn 1) EventEmitter)"
  have well: "well_behaved ?act" by (intro listener_code_well_behaved code_add code_return)
  have "ee_step ?act EventEmitter ?o" by (rule ee_step.add_once)
  moreover have "ee_step ?act ?o (fst (emit 5 ?act (lit ''data'') (UserArgs []) ?o))" by (rule ee_step.emits)
  ultimately have "(ee_step ?act)\<^sup>*\<^sup>* EventEmitter (fst (emit 5 ?act (lit ''data'') (UserArgs []) ?o))"
    by (meson converse_rtranclp_into_rtranclp r_into_rtranclp)
  from emitter_invariant [OF well this] show ?thesis unfolding Let_def .
qed

section \<open>One list per event\<close>

definition ordinary :: "jstring \<Rightarrow> bool" where
  "ordinary ty \<longleftrightarrow> ty \<noteq> lit ''__proto__'' \<and> ty \<notin> set inherited_names"

definition listener_list :: "emitter \<Rightarrow> jstring \<Rightarrow> fn list" where
  "listener_list s ty = (case listeners s ty of Inr l \<Rightarrow> l | Inl _ \<Rightarrow> [])"

lemma handler_ordinary: "ordinary ty \<Longrightarrow> handler_of s ty = map_of (events s) ty"
  by (auto simp: handler_of_def ordinary_def split: option.splits)

lemma listener_list_own:
  assumes "ordinary ty" "ee_inv s"
  shows "listener_list s ty = (case map_of (events s) ty of
    None \<Rightarrow> [] | Some (One f) \<Rightarrow> [f] | Some (Many r) \<Rightarrow> fns (arrays s r) | Some ProtoObject \<Rightarrow> [])"
  by (simp add: listener_list_def listeners_def handler_ordinary assms(1) split: option.split handler.split)

lemma listener_list_leak_check [simp]: "listener_list (leak_check ty s) ty' = listener_list s ty'"
proof -
  have "handler_of (leak_check ty s) ty' = handler_of s ty'" by (simp add: handler_of_def)
  then show ?thesis by (simp add: listener_list_def listeners_def split: option.split handler.split)
qed

lemma attach_refines:
  assumes "ee_inv s" "ordinary ty" "ordinary ty'"
  shows "snd (attach ty f s) = Inr () \<and>
    listener_list (fst (attach ty f s)) ty' = (if ty' = ty then listener_list s ty @ [f] else listener_list s ty')"
proof -
  note hd = handler_ordinary [OF assms(2)] handler_ordinary [OF assms(3)]
  consider (none) "map_of (events s) ty = None" | (one) g where "map_of (events s) ty = Some (One g)"
    | (many) r where "map_of (events s) ty = Some (Many r)"
    using assms(1) by (cases "map_of (events s) ty") (auto simp: ee_inv_def, metis handler.exhaust)
  then show ?thesis
  proof cases
    case none
    then show ?thesis
      by (simp add: attach_def hd listener_list_def listeners_def map_of_set_handler split: option.split handler.split)
  next
    case one
    have "r \<noteq> next_ref s" if "map_of (events s) ty' = Some (Many r)" for r
      using assms(1) that unfolding ee_inv_def by (metis less_irrefl)
    with one show ?thesis
      by (simp add: attach_def hd listener_list_def listeners_def map_of_set_handler split: option.split handler.split)
  next
    case many
    have "r' \<noteq> r" if "map_of (events s) ty' = Some (Many r')" "ty' \<noteq> ty" for r'
      using assms(1) that many by (auto simp: ee_inv_def)
    with many show ?thesis
      by (simp add: attach_def hd listener_list_def listeners_def split: option.split handler.split)
  qed
qed

lemma calls_attach [simp]: "calls (fst (attach ty f s)) = calls s"
  by (simp add: attach_def split: option.split handler.split)

lemma detach_refines:
  assumes "ee_inv s" "ordinary ty" "ordinary ty'"
  shows "snd (detach ty f s) = (remove_last_match f (listener_list s ty) \<noteq> None) \<and>
    listener_list (fst (detach ty f s)) ty' =
      (if ty' = ty then case remove_last_match f (listener_list s ty) of Some l \<Rightarrow> l | None \<Rightarrow> listener_list s ty
       else listener_list s ty')"
proof -
  note hd = handler_ordinary [OF assms(2)] handler_ordinary [OF assms(3)]
  consider (none) "map_of (events s) ty = None" | (one) g where "map_of (events s) ty = Some (One g)"
    | (many) r where "map_of (events s) ty = Some (Many r)"
    using assms(1) by (cases "map_of (events s) ty") (auto simp: ee_inv_def, metis handler.exhaust)
  then show ?thesis
  proof cases
    case none
    then show ?thesis by (simp add: detach_def hd listener_list_def listeners_def)
  next
    case one
    then show ?thesis
      by (simp add: detach_def hd listener_list_def listeners_def map_of_delete_handler split: option.split handler.split)
  next
    case many
    have other: "r' \<noteq> r" if "map_of (events s) ty' = Some (Many r')" "ty' \<noteq> ty" for r'
      using assms(1) that many by (auto simp: ee_inv_def)
    show ?thesis
    proof (cases "remove_last_match f (fns (arrays s r))")
      case None
      with many show ?thesis by (simp add: detach_def hd listener_list_def listeners_def)
    next
      case (Some l)
      have "length (fns (arrays s r)) = 1 \<longleftrightarrow> l = []" using remove_last_match_length [OF Some] by auto
      with many Some other show ?thesis
        by (simp add: detach_def hd listener_list_def listeners_def map_of_delete_handler split: option.split handler.split)
    qed
  qed
qed

text \<open>A list from which the last element with a property is taken away, if there is one.\<close>

definition last_removed :: "('a \<Rightarrow> bool) \<Rightarrow> 'a list \<Rightarrow> 'a list \<Rightarrow> bool" where
  "last_removed P xs ys \<longleftrightarrow>
     (if \<exists>x \<in> set xs. P x then \<exists>us x vs. xs = us @ x # vs \<and> P x \<and> (\<forall>v \<in> set vs. \<not> P v) \<and> ys = us @ vs else ys = xs)"

lemma remove_last_match_spec:
  "case remove_last_match l fs of
     None \<Rightarrow> \<forall>f \<in> set fs. \<not> fn_matches l f
   | Some r \<Rightarrow> \<exists>us x vs. fs = us @ x # vs \<and> fn_matches l x \<and> (\<forall>v \<in> set vs. \<not> fn_matches l v) \<and> r = us @ vs"
proof (induction fs)
  case (Cons f fs)
  show ?case
  proof (cases "remove_last_match l fs")
    case None
    then show ?thesis using Cons by (auto intro: exI [of _ "[]"])
  next
    case (Some r)
    then obtain us x vs where "fs = us @ x # vs" "fn_matches l x" "\<forall>v \<in> set vs. \<not> fn_matches l v" "r = us @ vs"
      using Cons by auto
    then show ?thesis using Some by (auto intro: exI [of _ "f # us"])
  qed
qed simp

lemma last_removed_match:
  "last_removed (fn_matches l) fs (case remove_last_match l fs of Some r \<Rightarrow> r | None \<Rightarrow> fs)"
  using remove_last_match_spec [where l = l and fs = fs] by (auto simp: last_removed_def split: option.splits)

lemma fn_matches_iff: "fn_matches l = (\<lambda>g. g = l \<or> (\<exists>i e. g = OnceG i e l))"
proof
  fix g
  show "fn_matches l g = (g = l \<or> (\<exists>i e. g = OnceG i e l))" by (cases g) (auto simp: fn_matches_def)
qed

text \<open>
  C34. The three representations are one list. For an ordinary event name, attaching a listener appends it to the list that \<open>listeners\<close>
  returns; detaching one takes away the last entry that is the function itself or a wrapper that \<open>once\<close> made around it, leaves the
  others in their order, and says whether there was one; no other event is affected, and \<open>listenerCount\<close> is the length of the list,
  although the code keeps one listener as a bare function and only two or more as an array.
\<close>

theorem emitter_refines_lists:
  assumes "ee_inv s" "ordinary ty" "ordinary ty'"
  shows "listener_list (fst (attach ty f s)) ty' = (if ty' = ty then listener_list s ty @ [f] else listener_list s ty') \<and>
    (if ty' = ty
     then last_removed (\<lambda>g. g = f \<or> (\<exists>i e. g = OnceG i e f)) (listener_list s ty) (listener_list (fst (detach ty f s)) ty)
     else listener_list (fst (detach ty f s)) ty' = listener_list s ty') \<and>
    snd (detach ty f s) = (\<exists>g \<in> set (listener_list s ty). g = f \<or> (\<exists>i e. g = OnceG i e f)) \<and>
    listenerCount s ty = Some (int (length (listener_list s ty)))"
proof -
  have "map_of (events s) ty \<noteq> Some ProtoObject" using assms(1) unfolding ee_inv_def by blast
  then have "listenerCount s ty = Some (int (length (listener_list s ty)))"
    by (simp add: listenerCount_def listener_list_def listeners_def handler_ordinary [OF assms(2)]
        split: option.split handler.split)
  moreover have "snd (detach ty f s) = (\<exists>g \<in> set (listener_list s ty). g = f \<or> (\<exists>i e. g = OnceG i e f))"
    using detach_refines [OF assms, of f] remove_last_match_spec [where l = f and fs = "listener_list s ty"]
    by (auto simp: fn_matches_iff split: option.splits)
  moreover note last_removed_match [where l = f and fs = "listener_list s ty", unfolded fn_matches_iff]
  ultimately show ?thesis
    using attach_refines [OF assms, of f] detach_refines [OF assms, of f] by auto
qed

text \<open>The function is there twice, once behind a wrapper: the later entry goes.\<close>

theorem emitter_refines_lists_witness:
  "listener_list (fst (detach (lit ''data'') (Fn 1) (fst (attach (lit ''data'') (OnceG 0 (lit ''data'') (Fn 1))
     (fst (attach (lit ''data'') (Fn 1) EventEmitter)))))) (lit ''data'') = [Fn 1]"
proof -
  let ?g = "OnceG 0 (lit ''data'') (Fn 1)"
  let ?s = "fst (attach (lit ''data'') ?g (fst (attach (lit ''data'') (Fn 1) EventEmitter)))"
  have ord: "ordinary (lit ''data'')" by (simp add: ordinary_def inherited_names_def)
  have inv: "ee_inv EventEmitter" by (simp add: ee_inv_def EventEmitter_def)
  have inv2: "ee_inv ?s" by (intro ee_inv_attach inv)
  have "listener_list EventEmitter (lit ''data'') = []"
    by (simp add: listener_list_own [OF ord inv]) (simp add: EventEmitter_def)
  then have "listener_list ?s (lit ''data'') = [Fn 1, ?g]"
    using emitter_refines_lists [OF inv ord ord, of "Fn 1"] emitter_refines_lists [OF ee_inv_attach [OF inv] ord ord, of ?g] by simp
  then show ?thesis
    using emitter_refines_lists [OF inv2 ord ord, of "Fn 1"] by (auto simp: last_removed_def Cons_eq_append_conv)
qed

section \<open>Who is called\<close>

lemma reading_cong [simp]:
  "handler_of (s\<lparr>fired := g, calls := c\<rparr>) ty = handler_of s ty"
  "listener_list (s\<lparr>fired := g, calls := c\<rparr>) ty = listener_list s ty"
proof -
  show h: "handler_of (s\<lparr>fired := g, calls := c\<rparr>) ty = handler_of s ty" by (simp add: handler_of_def)
  have "arrays (s\<lparr>fired := g, calls := c\<rparr>) = arrays s" by simp
  then show "listener_list (s\<lparr>fired := g, calls := c\<rparr>) ty = listener_list s ty"
    by (simp only: listener_list_def listeners_def h)
qed

lemma detach_alone:
  assumes "ordinary ty" "ee_inv s" "listener_list s ty = [f]"
  shows "snd (detach ty f s) \<and> listener_list (fst (detach ty f s)) ty = []"
  using detach_refines [OF assms(2,1,1), of f] assms(3) by (simp add: fn_matches_def)

lemma detach_frame [simp]: "calls (fst (detach ty f s)) = calls s" "fired (fst (detach ty f s)) = fired s"
  by (simp_all add: detach_def split: option.split handler.split)

lemma detach_keeps_silence:
  assumes "handler_of s removeListener_ev = None"
  shows "handler_of (fst (detach ty f s)) removeListener_ev = None"
proof -
  have ord: "ordinary removeListener_ev" by (simp add: ordinary_def inherited_names_def)
  show ?thesis
    using assms by (cases "ty = removeListener_ev")
      (simp_all add: handler_ordinary [OF ord] detach_def map_of_delete_handler split: option.split handler.split)
qed

lemma removeListener_silent:
  "handler_of s removeListener_ev = None \<Longrightarrow> removeListener d act ty f s = (fst (detach ty f s), Inr ())"
  by (simp add: removeListener.simps case_prod_beta detach_keeps_silence)

lemma call_fn_once:
  assumes "handler_of s removeListener_ev = None"
  shows "call_fn d act (OnceG i ty l) pay s =
    (let s1 = fst (detach ty (OnceG i ty l) s)
     in if fired s i then (s1, Inr ()) else call_fn d act l pay (s1\<lparr>fired := (fired s)(i := True)\<rparr>))"
  by (simp add: removeListener_silent [OF assms] Let_def)

text \<open>The function of the program behind a listener, and the number of the wrapper around it, if there is one.\<close>

fun target :: "fn \<Rightarrow> nat option" where
  "target (Fn n) = Some n"
| "target (OnceG i e f) = target f"
| "target (Builtin nm) = None"

fun wrappers :: "fn \<Rightarrow> nat list" where
  "wrappers (OnceG i e f) = i # wrappers f"
| "wrappers f = []"

text \<open>Listeners that return, and that do not themselves touch the wrappers or listen to removals.\<close>

definition listeners_return :: "action \<Rightarrow> bool" where
  "listeners_return act \<longleftrightarrow> (\<forall>n p s. snd (act n p s) = Inr () \<and> calls (fst (act n p s)) = calls s)"

definition discreet :: "action \<Rightarrow> bool" where
  "discreet act \<longleftrightarrow> (\<forall>n p s. fired (fst (act n p s)) = fired s \<and>
     (handler_of s removeListener_ev = None \<longrightarrow> handler_of (fst (act n p s)) removeListener_ev = None))"

definition fresh_wrappers :: "action \<Rightarrow> nat list \<Rightarrow> emitter \<Rightarrow> bool" where
  "fresh_wrappers act ws s \<longleftrightarrow>
     ws = [] \<or> discreet act \<and> handler_of s removeListener_ev = None \<and> distinct ws \<and> (\<forall>i \<in> set ws. \<not> fired s i)"

lemma call_fn_target:
  assumes "listeners_return act" "target f = Some n" "fresh_wrappers act (wrappers f @ ws) s"
  shows "\<exists>s'. call_fn d act f pay s = (s', Inr ()) \<and> calls s' = calls s @ [(n, pay)] \<and> fresh_wrappers act ws s'"
  using assms(2,3)
proof (induction f arbitrary: s)
  case (Fn m)
  let ?s = "s\<lparr>calls := calls s @ [(m, pay)]\<rparr>"
  have h: "handler_of ?s e = handler_of s e" for e by (simp add: handler_of_def)
  obtain s1 where s1: "act m pay ?s = (s1, Inr ())" "calls s1 = calls ?s"
    using assms(1) [unfolded listeners_return_def, rule_format, of m pay ?s] by (cases "act m pay ?s") auto
  moreover have "fresh_wrappers act ws s1"
  proof (cases "ws = []")
    case False
    then have p: "discreet act" "handler_of ?s removeListener_ev = None" "distinct ws" "\<forall>i \<in> set ws. \<not> fired ?s i"
      using Fn.prems(2) h by (simp_all add: fresh_wrappers_def)
    then show ?thesis
      using p(1) [unfolded discreet_def, rule_format, of m pay ?s] s1(1) by (simp add: fresh_wrappers_def)
  qed (simp add: fresh_wrappers_def)
  ultimately show ?case using Fn.prems(1) by simp
next
  case (OnceG i e f)
  let ?s1 = "fst (detach e (OnceG i e f) s)"
  let ?s2 = "?s1\<lparr>fired := (fired s)(i := True)\<rparr>"
  have p: "discreet act" "handler_of s removeListener_ev = None" "i \<notin> set (wrappers f @ ws)" "\<not> fired s i"
    "distinct (wrappers f @ ws)" "\<forall>j \<in> set (wrappers f @ ws). \<not> fired s j"
    using OnceG.prems(2) by (auto simp: fresh_wrappers_def)
  have "handler_of ?s2 removeListener_ev = handler_of ?s1 removeListener_ev" by (simp add: handler_of_def)
  then have "fresh_wrappers act (wrappers f @ ws) ?s2"
    using p detach_keeps_silence [OF p(2)] by (auto simp: fresh_wrappers_def)
  from OnceG.IH [OF _ this] OnceG.prems(1) p(4) show ?case
    by (simp add: call_fn_once [OF p(2)] Let_def del: call_fn.simps)
qed simp

lemma call_all_targets:
  assumes "listeners_return act" "map target fs = map Some ns" "fresh_wrappers act (concat (map wrappers fs)) s"
  shows "snd (call_all d act fs pay s) = Inr True \<and>
    calls (fst (call_all d act fs pay s)) = calls s @ map (\<lambda>n. (n, pay)) ns"
  using assms(2,3)
proof (induction fs arbitrary: ns s)
  case (Cons f fs)
  then obtain n ns' where ns: "ns = n # ns'" "target f = Some n" "map target fs = map Some ns'" by (cases ns) auto
  from call_fn_target [OF assms(1) ns(2), of "concat (map wrappers fs)" s d pay] Cons.prems(2) obtain s1
    where "call_fn d act f pay s = (s1, Inr ())" "calls s1 = calls s @ [(n, pay)]" "fresh_wrappers act (concat (map wrappers fs)) s1"
    by auto
  with Cons.IH [OF ns(3), of s1] show ?case by (simp add: ns(1))
qed simp

text \<open>For an ordinary event \<open>emit\<close> runs through the one list, except for an \<open>error\<close> that nobody listens to.\<close>

lemma emit_list:
  assumes "ordinary ty" "ee_inv s"
  shows "emit (Suc d) act ty pay s =
    (if listener_list s ty = []
     then (s, if ty = error_ev then Inl (case pay of ErrorArg e \<Rightarrow> e | _ \<Rightarrow> TypeError) else Inr False)
     else call_all d act (listener_list s ty) pay s)"
proof (cases "map_of (events s) ty")
  case None
  then have "handler_of s ty = None" "listener_list s ty = []"
    by (simp_all add: listener_list_own [OF assms] handler_ordinary [OF assms(1)])
  then show ?thesis by (cases "ty = error_ev") (simp_all add: unhandled_error_def)
next
  case (Some h)
  have h: "h \<noteq> ProtoObject" "\<And>r. h = Many r \<Longrightarrow> fns (arrays s r) \<noteq> []" using Some assms(2) unfolding ee_inv_def by blast+
  then have "handler_of s ty = Some h" "\<not> unhandled_error s ty"
    using Some handler_ordinary [OF assms(1), of s] by (auto simp: unhandled_error_def split: handler.splits)
  then show ?thesis using Some h by (cases h) (simp_all add: listener_list_own [OF assms] del: call_all.simps)
qed

text \<open>
  C35. Emitting calls the listeners that are there when it starts: each of them once and in order, with the same arguments, even if they
  add and remove listeners while it runs; the result is true, and it is false when there are none. This includes listeners behind the
  wrappers of \<open>once\<close> that have not run (when nobody listens to \<open>removeListener\<close>), and the event \<open>error\<close>, which is
  thrown instead exactly when nobody listens to it.
\<close>

theorem emit_snapshot:
  assumes "listeners_return act" "ordinary ty" "ee_inv s" "map target (listener_list s ty) = map Some ns"
    "fresh_wrappers act (concat (map wrappers (listener_list s ty))) s"
  shows "if ty = error_ev \<and> ns = []
    then emit (Suc d) act ty pay s = (s, Inl (case pay of ErrorArg e \<Rightarrow> e | _ \<Rightarrow> TypeError))
    else snd (emit (Suc d) act ty pay s) = Inr (ns \<noteq> []) \<and>
      calls (fst (emit (Suc d) act ty pay s)) = calls s @ map (\<lambda>n. (n, pay)) ns"
proof -
  have "listener_list s ty = [] \<longleftrightarrow> ns = []" using assms(4) by (metis list.map_disc_iff)
  then show ?thesis
    using call_all_targets [OF assms(1,4,5), of d pay] emit_list [OF assms(2,3), of d act pay]
    by (cases "ns = []"; cases "ty = error_ev") (simp_all del: emit.simps)
qed

text \<open>
  Two listeners for \<open>error\<close>, the second behind a wrapper, of which the first deletes all listeners of the event.
\<close>

theorem emit_snapshot_witness:
  "calls (fst (emit 3 (\<lambda>n p s. (delete_handler error_ev s, Inr ())) error_ev (UserArgs [7])
     (fst (attach error_ev (OnceG 0 error_ev (Fn 2)) (fst (attach error_ev (Fn 1) EventEmitter)))))) =
   [(1, UserArgs [7]), (2, UserArgs [7])]"
proof -
  let ?act = "\<lambda>n p s. (delete_handler error_ev s, Inr ())" and ?g = "OnceG 0 error_ev (Fn 2)"
  let ?t = "fst (attach error_ev (Fn 1) EventEmitter)"
  let ?s = "fst (attach error_ev ?g ?t)"
  have ord: "ordinary error_ev" "ordinary removeListener_ev" by (simp_all add: ordinary_def inherited_names_def)
  have inv0: "ee_inv EventEmitter" by (simp add: ee_inv_def EventEmitter_def)
  have inv: "ee_inv ?t" "ee_inv ?s" by (intro ee_inv_attach inv0)+
  have empty: "listener_list EventEmitter e = []" "calls EventEmitter = []" if "ordinary e" for e
    using that by (simp_all add: listener_list_own [OF that inv0]) (simp_all add: EventEmitter_def)
  have l: "listener_list ?s error_ev = [Fn 1, ?g]" "listener_list ?s removeListener_ev = []"
    using attach_refines [OF inv0 ord(1,1), of "Fn 1"] attach_refines [OF inv(1) ord(1,1), of ?g]
      attach_refines [OF inv0 ord(1,2), of "Fn 1"] attach_refines [OF inv(1) ord(1,2), of ?g] empty ord by simp_all
  have silent: "handler_of ?s removeListener_ev = None"
    using l(2) inv(2) ord(2) unfolding listener_list_own [OF ord(2) inv(2)] handler_ordinary [OF ord(2)] ee_inv_def
    by (auto split: option.splits handler.splits)
  have "listeners_return ?act" "discreet ?act"
    by (simp_all add: listeners_return_def discreet_def delete_handler_def handler_of_def map_of_filter_key split: option.split)
  moreover have "\<not> fired ?s 0" by (simp add: EventEmitter_def attach_def split: option.split handler.split)
  ultimately have "fresh_wrappers ?act (concat (map wrappers (listener_list ?s error_ev))) ?s"
    unfolding l(1) fresh_wrappers_def using silent by simp
  with emit_snapshot [OF \<open>listeners_return ?act\<close> ord(1) inv(2), of "[1, 2]" 2 "UserArgs [7]"] l(1) empty(2) [OF ord(1)]
  show ?thesis by (simp add: eval_nat_numeral del: emit.simps)
qed

section \<open>Two surprises\<close>

text \<open>
  \<open>removeAllListeners(type)\<close> for an event without listeners does nothing while nobody listens to
  \<open>removeListener\<close>, and throws a \<open>TypeError\<close> as soon as somebody does: the code reads the length of an
  array that is not there.
\<close>

theorem removeAllListeners_absent:
  assumes "ordinary ty" "map_of (events s) ty = None" "ee_inv s"
  shows "removeAllListeners_type k d act ty s =
    (if listener_list s removeListener_ev = [] then Some (s, Inr ()) else Some (s, Inl TypeError))"
proof -
  have ord: "ordinary removeListener_ev" by (simp add: ordinary_def inherited_names_def)
  have nonempty: "fns (arrays s r) \<noteq> []" if "map_of (events s) removeListener_ev = Some (Many r)" for r
    using assms(3) that unfolding ee_inv_def by blast
  have proto: "map_of (events s) removeListener_ev \<noteq> Some ProtoObject"
    using assms(3) unfolding ee_inv_def by blast
  have "filter (\<lambda>e. fst e \<noteq> ty) (events s) = events s"
    using assms(2) by (auto simp: map_of_eq_None_iff intro!: filter_True)
  then have del: "delete_handler ty s = s" by (simp add: delete_handler_def)
  have "handler_of s removeListener_ev = None \<longleftrightarrow> listener_list s removeListener_ev = []"
    using nonempty proto
    by (auto simp: handler_ordinary [OF ord] listener_list_own [OF ord assms(3)] split: option.splits handler.splits)
  then show ?thesis
    by (simp add: removeAllListeners_type_def handler_ordinary [OF assms(1)] assms(2) del)
qed

theorem removeAllListeners_absent_witness:
  "removeAllListeners_type 1 1 (\<lambda>n p s. (s, Inr ())) (lit ''data'') (fst (attach removeListener_ev (Fn 1) EventEmitter)) =
    Some (fst (attach removeListener_ev (Fn 1) EventEmitter), Inl TypeError)"
proof -
  let ?s = "fst (attach removeListener_ev (Fn 1) EventEmitter)"
  have ord: "ordinary (lit ''data'')" "ordinary removeListener_ev"
    by (simp_all add: ordinary_def inherited_names_def)
  have inv0: "ee_inv EventEmitter" by (simp add: ee_inv_def EventEmitter_def)
  have inv: "ee_inv ?s" by (intro ee_inv_attach inv0)
  have "handler_of EventEmitter removeListener_ev = None"
    by (simp add: handler_ordinary [OF ord(2)] EventEmitter_def)
  then have "map_of (events ?s) (lit ''data'') = None" "listener_list ?s removeListener_ev \<noteq> []"
    by (simp_all add: attach_def map_of_set_handler listener_list_own [OF ord(2)] listener_list_def listeners_def
        handler_ordinary [OF ord(2)]) (simp add: EventEmitter_def)
  with removeAllListeners_absent [OF ord(1) _ inv] show ?thesis by simp
qed

text \<open>
  A new emitter claims to have listeners for the names that every plain object inherits: for \<open>toString\<close> it counts one
  and emitting it returns true, adding a listener there keeps the inherited function in front of it, and \<open>__proto__\<close>
  cannot be listened to or emitted at all.
\<close>

theorem inherited_event_names:
  "listenerCount EventEmitter (lit ''toString'') = Some 1 \<and>
   emit (Suc d) act (lit ''toString'') pay EventEmitter = (EventEmitter, Inr True) \<and>
   listener_list (fst (attach (lit ''toString'') f EventEmitter)) (lit ''toString'') = [Builtin (lit ''toString''), f] \<and>
   attach (lit ''__proto__'') f EventEmitter = (EventEmitter, Inl TypeError) \<and>
   emit (Suc d) act (lit ''__proto__'') pay EventEmitter = (EventEmitter, Inl TypeError)"
proof -
  have h: "handler_of EventEmitter (lit ''toString'') = Some (One (Builtin (lit ''toString'')))"
    "handler_of EventEmitter (lit ''__proto__'') = Some ProtoObject"
    by (simp_all add: handler_of_def EventEmitter_def inherited_names_def)
  have own: "handler_of s ty = Some k" if "map_of (events s) ty = Some k" for s ty k
    using that by (simp add: handler_of_def)
  show ?thesis
    by (simp add: h own listenerCount_def unhandled_error_def attach_def listener_list_def listeners_def map_of_set_handler)
qed

section \<open>Once\<close>

lemma emit_alone:
  assumes "ordinary ty" "ty \<noteq> error_ev" "ee_inv s" "listener_list s ty = [f]"
  shows "emit (Suc d) act ty pay s = call_all d act [f] pay s"
  using assms(4) by (simp add: emit_list [OF assms(1,3)] del: call_all.simps emit.simps)

text \<open>
  A listener added with \<open>once\<close> runs once. While nobody listens to \<open>removeListener\<close>, emitting the event calls it
  with the arguments, its wrapper has left the list by the time it runs, and calling the same wrapper again, as an
  emission does that had taken its copy of the list before, does not call the listener a second time.
\<close>

theorem once_runs_once:
  assumes "ordinary ty" "ty \<noteq> error_ev" "ee_inv s" "handler_of s removeListener_ev = None"
    "listener_list s ty = [OnceG i ty (Fn n)]" "\<not> fired s i" "act = (\<lambda>n p s. (s, Inr ()))"
    "s' = fst (emit (Suc d) act ty pay s)"
  shows "calls s' = calls s @ [(n, pay)] \<and> listener_list s' ty = [] \<and>
    calls (fst (call_fn d act (OnceG i ty (Fn n)) pay' s')) = calls s'"
proof -
  let ?g = "OnceG i ty (Fn n)"
  let ?s1 = "fst (detach ty ?g s)"
  have s': "s' = ?s1\<lparr>fired := (fired s)(i := True), calls := calls s @ [(n, pay)]\<rparr>"
    using assms(6) by (simp add: assms(7,8) emit_alone [OF assms(1,2,3,5)] removeListener_silent [OF assms(4)]
        del: emit.simps)
  have same: "handler_of s' e = handler_of ?s1 e" "listener_list s' e = listener_list ?s1 e" for e
    by (simp_all add: s')
  have "handler_of s' removeListener_ev = None" by (simp add: same detach_keeps_silence [OF assms(4)])
  then have "calls (fst (call_fn d act ?g pay' s')) = calls s'"
    by (simp add: call_fn_once Let_def del: call_fn.simps) (simp add: s')
  with detach_alone [OF assms(1,3,5)] show ?thesis by (simp add: same) (simp add: s')
qed

theorem once_runs_once_witness:
  "calls (fst (emit 2 (\<lambda>n p s. (s, Inr ())) (lit ''data'') (UserArgs [7])
     (fst (attach (lit ''data'') (OnceG 0 (lit ''data'') (Fn 5)) EventEmitter)))) = [(5, UserArgs [7])]"
proof -
  let ?g = "OnceG 0 (lit ''data'') (Fn 5)"
  let ?s = "fst (attach (lit ''data'') ?g EventEmitter)"
  have ord: "ordinary (lit ''data'')" by (simp add: ordinary_def inherited_names_def)
  have inv0: "ee_inv EventEmitter" by (simp add: ee_inv_def EventEmitter_def)
  have inv: "ee_inv ?s" by (intro ee_inv_attach inv0)
  have ordr: "ordinary removeListener_ev" by (simp add: ordinary_def inherited_names_def)
  have h: "handler_of EventEmitter (lit ''data'') = None" "events EventEmitter = []" "\<not> fired EventEmitter 0"
    "calls EventEmitter = []"
    by (simp_all add: handler_ordinary [OF ord] EventEmitter_def)
  have silent: "handler_of ?s removeListener_ev = None" "\<not> fired ?s 0"
    by (simp_all add: attach_def h handler_ordinary [OF ordr] map_of_set_handler)
  have "listener_list ?s (lit ''data'') = [?g]"
    using attach_refines [OF inv0 ord ord, of ?g] h by (simp add: listener_list_own [OF ord inv0])
  from once_runs_once [OF ord _ inv silent(1) this silent(2) refl refl, of 1 "UserArgs [7]"]
  have "calls (fst (emit (Suc 1) (\<lambda>n p s. (s, Inr ())) (lit ''data'') (UserArgs [7]) ?s)) = calls ?s @ [(5, UserArgs [7])]"
    by (simp del: emit.simps)
  then show ?thesis by (simp only: Suc_1 calls_attach h(4) append_Nil)
qed

end
