(* ===== verification/JS_Heap.thy ===== *)
theory JS_Heap
  imports Underscore_Values
begin

text \<open>
  JavaScript values with object identity, for the modules \<open>util\<close> and \<open>assert\<close> of
  \<open>src/site/assets/javascripts/lunr/wordcut.js\<close>, which follow references and can meet an object again. An object
  lives at an address of a finite heap; it has a class, as \<open>Object.prototype.toString\<close> tells it, and its own properties in the
  order in which the language lists them, the elements of an array among them. What code of an object itself computes (a
  getter, \<open>toString\<close>, a custom \<open>inspect\<close>) is given by its results.
\<close>

section \<open>Values and objects\<close>

datatype hval = HUndef | HNull | HBool bool | HNum xnum | HStr jstring | HRef nat

text \<open>A property holds a value, or has a getter, with the value it returns, and perhaps a setter.\<close>

datatype prop_desc = Data hval | Accessor "hval option" bool

record hprop =
  hp_enum :: bool
  hp_desc :: prop_desc

datatype hclass =
    PlainObj
  | ArrayObj nat
  | FuncObj jstring
  | RegObj jstring bool bool bool int
  | DateObj xnum
  | ErrorObj
  | ArgsObj
  | BufferObj nat

record hobj =
  ho_class :: hclass
  ho_props :: "(jstring \<times> hprop) list"

type_synonym heap = "hobj list"

text \<open>
  The results of code that belongs to an object: its string and its number, what its \<open>toJSON\<close> returns when it has one, the text that
  the \<open>toString\<close> and \<open>toUTCString\<close> of its built-in class give it, what its own \<open>inspect\<close> returns for a depth, whether a regular
  expression matches a text, whether a value is an instance of a function, and what a call of a function returns or throws.
\<close>

record host =
  ht_string :: "nat \<Rightarrow> jstring"
  ht_number :: "nat \<Rightarrow> xnum"
  ht_toJSON :: "nat \<Rightarrow> hval option"
  ht_builtin :: "nat \<Rightarrow> jstring"
  ht_utc :: "nat \<Rightarrow> jstring"
  ht_inspect :: "nat \<Rightarrow> int option \<Rightarrow> hval option"
  ht_test :: "nat \<Rightarrow> jstring \<Rightarrow> bool"
  ht_instanceof :: "nat \<Rightarrow> hval \<Rightarrow> js_error + bool"
  ht_call :: "nat \<Rightarrow> hval \<Rightarrow> hval + hval"

definition class_of :: "heap \<Rightarrow> hval \<Rightarrow> hclass option" where
  "class_of h v = (case v of HRef i \<Rightarrow> if i < length h then Some (ho_class (h ! i)) else None | _ \<Rightarrow> None)"

definition props_of :: "heap \<Rightarrow> hval \<Rightarrow> (jstring \<times> hprop) list" where
  "props_of h v = (case v of HRef i \<Rightarrow> if i < length h then ho_props (h ! i) else [] | _ \<Rightarrow> [])"

text \<open>\<open>Object.keys\<close> and \<open>Object.getOwnPropertyNames\<close>\<close>

definition object_keys :: "heap \<Rightarrow> hval \<Rightarrow> jstring list" where
  "object_keys h v = map fst (filter (\<lambda>(k, p). hp_enum p) (props_of h v))"

definition own_names :: "heap \<Rightarrow> hval \<Rightarrow> jstring list" where
  "own_names h v = map fst (props_of h v)"

text \<open>\<open>v[k]\<close> for an own property\<close>

definition get_own :: "heap \<Rightarrow> hval \<Rightarrow> jstring \<Rightarrow> hval" where
  "get_own h v k =
     (case map_of (props_of h v) k of
        None \<Rightarrow> HUndef
      | Some p \<Rightarrow> (case hp_desc p of Data x \<Rightarrow> x | Accessor (Some x) _ \<Rightarrow> x | Accessor None _ \<Rightarrow> HUndef))"

section \<open>Operators\<close>

text \<open>\<open>===\<close>, \<open>==\<close> and a value as a condition\<close>

fun h_strict :: "hval \<Rightarrow> hval \<Rightarrow> bool" where
  "h_strict (HNum a) (HNum b) = (a = b \<and> a \<noteq> NaN)"
| "h_strict a b = (a = b)"

fun h_truthy :: "hval \<Rightarrow> bool" where
  "h_truthy HUndef = False"
| "h_truthy HNull = False"
| "h_truthy (HBool b) = b"
| "h_truthy (HNum n) = (n \<noteq> NaN \<and> n \<noteq> Fin 0)"
| "h_truthy (HStr s) = (s \<noteq> [])"
| "h_truthy (HRef i) = True"

fun h_prim_number :: "hval \<Rightarrow> xnum" where
  "h_prim_number HNull = Fin 0"
| "h_prim_number (HBool b) = Fin (if b then 1 else 0)"
| "h_prim_number (HNum n) = n"
| "h_prim_number (HStr s) = string_number s"
| "h_prim_number _ = NaN"

definition num_eq :: "xnum \<Rightarrow> xnum \<Rightarrow> bool" where
  "num_eq a b \<longleftrightarrow> a = b \<and> a \<noteq> NaN"

text \<open>An object is compared with a primitive value by its string.\<close>

definition to_prim :: "host \<Rightarrow> hval \<Rightarrow> hval" where
  "to_prim H v = (case v of HRef i \<Rightarrow> HStr (ht_string H i) | _ \<Rightarrow> v)"

definition h_nullish :: "hval \<Rightarrow> bool" where
  "h_nullish v \<longleftrightarrow> v = HUndef \<or> v = HNull"

definition is_ref :: "hval \<Rightarrow> bool" where
  "is_ref v = (case v of HRef i \<Rightarrow> True | _ \<Rightarrow> False)"

definition is_str :: "hval \<Rightarrow> bool" where
  "is_str v = (case v of HStr s \<Rightarrow> True | _ \<Rightarrow> False)"

definition prim_loose :: "hval \<Rightarrow> hval \<Rightarrow> bool" where
  "prim_loose a b =
     (if is_str a \<and> is_str b then a = b else num_eq (h_prim_number a) (h_prim_number b))"

definition h_loose :: "host \<Rightarrow> hval \<Rightarrow> hval \<Rightarrow> bool" where
  "h_loose H a b =
     (if h_nullish a \<or> h_nullish b then h_nullish a \<and> h_nullish b
      else if is_ref a \<and> is_ref b then a = b
      else prim_loose (to_prim H a) (to_prim H b))"

text \<open>\<open>String(v)\<close> and \<open>Number(v)\<close>\<close>

fun h_string :: "host \<Rightarrow> hval \<Rightarrow> jstring" where
  "h_string H HUndef = lit ''undefined''"
| "h_string H HNull = lit ''null''"
| "h_string H (HBool b) = (if b then lit ''true'' else lit ''false'')"
| "h_string H (HNum n) = num_string n"
| "h_string H (HStr s) = s"
| "h_string H (HRef i) = ht_string H i"

fun h_number :: "host \<Rightarrow> hval \<Rightarrow> xnum" where
  "h_number H (HRef i) = ht_number H i"
| "h_number H v = h_prim_number v"

section \<open>\<open>JSON.stringify\<close>\<close>

definition lower_hex :: "nat \<Rightarrow> code_unit" where
  "lower_hex n = (if n < 10 then 0x30 + n else 0x57 + n)"

definition hex4 :: "code_unit \<Rightarrow> jstring" where
  "hex4 c =
     [lower_hex (c div 16 div 16 div 16 mod 16), lower_hex (c div 16 div 16 mod 16), lower_hex (c div 16 mod 16), lower_hex (c mod 16)]"

definition unicode_escape :: "code_unit \<Rightarrow> jstring" where
  "unicode_escape c = [0x5C, 0x75] @ hex4 c"

definition json_char :: "code_unit \<Rightarrow> jstring" where
  "json_char c =
     (if c = 0x22 \<or> c = 0x5C then [0x5C, c]
      else if c = 0x08 then [0x5C, 0x62] else if c = 0x0C then [0x5C, 0x66] else if c = 0x0A then [0x5C, 0x6E]
      else if c = 0x0D then [0x5C, 0x72] else if c = 0x09 then [0x5C, 0x74]
      else if c < 0x20 then unicode_escape c
      else [c])"

abbreviation high_surrogate :: "code_unit \<Rightarrow> bool" where "high_surrogate c \<equiv> 0xD800 \<le> c \<and> c \<le> 0xDBFF"
abbreviation low_surrogate :: "code_unit \<Rightarrow> bool" where "low_surrogate c \<equiv> 0xDC00 \<le> c \<and> c \<le> 0xDFFF"

text \<open>The text between the quotation marks; half of a surrogate pair is escaped.\<close>

fun json_escape :: "jstring \<Rightarrow> jstring" where
  "json_escape [] = []"
| "json_escape [c] = (if high_surrogate c \<or> low_surrogate c then unicode_escape c else json_char c)"
| "json_escape (c # d # s) =
     (if high_surrogate c \<and> low_surrogate d then c # d # json_escape s
      else (if high_surrogate c \<or> low_surrogate c then unicode_escape c else json_char c) @ json_escape (d # s))"

definition json_string :: "jstring \<Rightarrow> jstring" where
  "json_string s = [0x22] @ json_escape s @ [0x22]"

text \<open>
  The text of a value, \<^term>\<open>None\<close> where there is none (\<open>undefined\<close>, a function): first \<open>toJSON\<close>, then the replacer; an object that is being
  written already is an error. The number of nested objects is bounded.
\<close>

definition apply_toJSON :: "host \<Rightarrow> hval \<Rightarrow> hval" where
  "apply_toJSON H v = (case v of HRef i \<Rightarrow> (case ht_toJSON H i of Some w \<Rightarrow> w | None \<Rightarrow> v) | _ \<Rightarrow> v)"

definition is_function :: "heap \<Rightarrow> hval \<Rightarrow> bool" where
  "is_function h v = (case class_of h v of Some (FuncObj n) \<Rightarrow> True | _ \<Rightarrow> False)"

definition json_array :: "jstring option list \<Rightarrow> jstring" where
  "json_array ts =
     lit ''['' @ join (lit '','') (map (\<lambda>t. case t of None \<Rightarrow> lit ''null'' | Some s \<Rightarrow> s) ts) @ lit '']''"

definition json_object :: "jstring list \<Rightarrow> jstring option list \<Rightarrow> jstring" where
  "json_object ks ts =
     lit ''{'' @ join (lit '','') (concat (map2 (\<lambda>k t. case t of None \<Rightarrow> [] | Some s \<Rightarrow> [json_string k @ lit '':'' @ s]) ks ts)) @ lit ''}''"

fun json_value :: "nat \<Rightarrow> (hval \<Rightarrow> hval) \<Rightarrow> host \<Rightarrow> heap \<Rightarrow> hval list \<Rightarrow> hval \<Rightarrow> (js_error + jstring option) option" where
  "json_value 0 replace H h stack v = None"
| "json_value (Suc d) replace H h stack v =
     (case replace (apply_toJSON H v) of
        HUndef \<Rightarrow> Some (Inr None)
      | HNull \<Rightarrow> Some (Inr (Some (lit ''null'')))
      | HBool b \<Rightarrow> Some (Inr (Some (if b then lit ''true'' else lit ''false'')))
      | HNum (Fin n) \<Rightarrow> Some (Inr (Some (int_string n)))
      | HNum x \<Rightarrow> Some (Inr (Some (lit ''null'')))
      | HStr s \<Rightarrow> Some (Inr (Some (json_string s)))
      | HRef i \<Rightarrow>
          if is_function h (HRef i) then Some (Inr None)
          else if HRef i \<in> set stack then Some (Inl TypeError)
          else (case class_of h (HRef i) of
                  Some (ArrayObj n) \<Rightarrow>
                    map_option (\<lambda>rs. bindE (mapE id rs) (\<lambda>ts. Inr (Some (json_array ts))))
                      (those (map (\<lambda>j. json_value d replace H h (stack @ [HRef i]) (get_own h (HRef i) (nat_digits j))) [0..<n]))
                | _ \<Rightarrow>
                    map_option (\<lambda>rs. bindE (mapE id rs) (\<lambda>ts. Inr (Some (json_object (object_keys h (HRef i)) ts))))
                      (those (map (\<lambda>k. json_value d replace H h (stack @ [HRef i]) (get_own h (HRef i) k))
                         (object_keys h (HRef i))))))"

text \<open>\<open>JSON.stringify(v, replacer)\<close>: the objects of the heap bound the nesting.\<close>

definition json_stringify :: "(hval \<Rightarrow> hval) \<Rightarrow> host \<Rightarrow> heap \<Rightarrow> hval \<Rightarrow> js_error + jstring option" where
  "json_stringify replace H h v =
     (case json_value (Suc (length h)) replace H h [] v of Some r \<Rightarrow> r | None \<Rightarrow> Inl RangeError)"

lemma those_returns: "None \<notin> set ys \<Longrightarrow> those ys \<noteq> None"
proof (induction ys)
  case (Cons y ys)
  then show ?case
    by (cases y) auto
qed simp

lemma those_map_returns: "(\<And>x. x \<in> set xs \<Longrightarrow> f x \<noteq> None) \<Longrightarrow> those (map f xs) \<noteq> None"
  by (rule those_returns) (metis image_iff set_map)

text \<open>Objects met on the way to a value: distinct ones of the heap.\<close>

definition on_path :: "heap \<Rightarrow> hval list \<Rightarrow> bool" where
  "on_path h stack \<longleftrightarrow> distinct stack \<and> set stack \<subseteq> HRef ` {..<length h}"

lemma on_path_Nil [simp]: "on_path h []"
  by (simp add: on_path_def)

lemma on_path_snoc [simp]: "on_path h (stack @ [v]) \<longleftrightarrow> on_path h stack \<and> v \<notin> set stack \<and> v \<in> HRef ` {..<length h}"
  by (auto simp: on_path_def)

lemma on_path_length: "on_path h stack \<Longrightarrow> length stack \<le> length h"
  unfolding on_path_def
  by (metis card_image_le card_lessThan card_mono distinct_card finite_imageI finite_lessThan le_trans)

lemma on_path_room: "\<lbrakk>on_path h stack; i < length h; HRef i \<notin> set stack\<rbrakk> \<Longrightarrow> length stack < length h"
  using on_path_length [of h "stack @ [HRef i]"] by simp

lemma dangling [simp]:
  "\<not> i < length h \<Longrightarrow> class_of h (HRef i) = None"
  "\<not> i < length h \<Longrightarrow> object_keys h (HRef i) = []"
  "\<not> i < length h \<Longrightarrow> own_names h (HRef i) = []"
  by (simp_all add: class_of_def object_keys_def own_names_def props_of_def)

lemma json_value_returns:
  assumes "on_path h stack" "length h - length stack < d"
  shows "json_value d replace H h stack v \<noteq> None"
  using assms
proof (induction d arbitrary: stack v)
  case (Suc d)
  show ?case
  proof (cases "\<exists>i. replace (apply_toJSON H v) = HRef i \<and> i < length h \<and> HRef i \<notin> set stack")
    case True
    then obtain i where i: "replace (apply_toJSON H v) = HRef i" "i < length h" "HRef i \<notin> set stack"
      by blast
    then have "on_path h (stack @ [HRef i])" "length h - length (stack @ [HRef i]) < d"
      using Suc.prems on_path_room [of h stack i] by auto
    then have sub: "json_value d replace H h (stack @ [HRef i]) w \<noteq> None" for w
      by (rule Suc.IH)
    then show ?thesis
      using those_map_returns [of "[0..<_]" "\<lambda>j. json_value d replace H h (stack @ [HRef i]) (get_own h (HRef i) (nat_digits j))"]
        those_map_returns [of "object_keys h (HRef i)" "\<lambda>k. json_value d replace H h (stack @ [HRef i]) (get_own h (HRef i) k)"] i
      by (simp del: not_None_eq split: option.split hclass.split)
  next
    case False
    then show ?thesis
      by (auto split: hval.split xnum.split)
  qed
qed simp

end
