(* ===== verification/Util_Module.thy ===== *)
theory Util_Module
  imports JS_Heap
begin

text \<open>
  The module \<open>util\<close> (\<open>src/site/assets/javascripts/lunr/wordcut.js\<close>, bundled module 28, with \<open>isBuffer\<close> of module 27): the type
  tests, \<open>inspect\<close>, which prints any value, \<open>format\<close>, \<open>deprecate\<close>, \<open>_extend\<close> and \<open>timestamp\<close>. The functions that \<open>inspect\<close> is made
  of take the recursive call as an argument; the number of nested calls is bounded, and \<^term>\<open>None\<close> says that the bound
  was not enough.
\<close>

section \<open>Type tests\<close>

definition util_isArray :: "heap \<Rightarrow> hval \<Rightarrow> bool" where
  "util_isArray h v = (case class_of h v of Some (ArrayObj n) \<Rightarrow> True | _ \<Rightarrow> False)"

definition util_isBoolean :: "hval \<Rightarrow> bool" where
  "util_isBoolean v = (case v of HBool b \<Rightarrow> True | _ \<Rightarrow> False)"

definition util_isNumber :: "hval \<Rightarrow> bool" where
  "util_isNumber v = (case v of HNum n \<Rightarrow> True | _ \<Rightarrow> False)"

definition util_isString :: "hval \<Rightarrow> bool" where
  "util_isString v = is_str v"

definition util_isFunction :: "heap \<Rightarrow> hval \<Rightarrow> bool" where
  "util_isFunction h v = is_function h v"

definition util_isNull :: "hval \<Rightarrow> bool" where
  "util_isNull v \<longleftrightarrow> v = HNull"

definition util_isNullOrUndefined :: "hval \<Rightarrow> bool" where
  "util_isNullOrUndefined v = h_nullish v"

definition util_isUndefined :: "hval \<Rightarrow> bool" where
  "util_isUndefined v \<longleftrightarrow> v = HUndef"

definition util_isObject :: "heap \<Rightarrow> hval \<Rightarrow> bool" where
  "util_isObject h v \<longleftrightarrow> is_ref v \<and> \<not> util_isFunction h v"

definition util_isRegExp :: "heap \<Rightarrow> hval \<Rightarrow> bool" where
  "util_isRegExp h v = (case class_of h v of Some (RegObj s g m i l) \<Rightarrow> True | _ \<Rightarrow> False)"

definition util_isDate :: "heap \<Rightarrow> hval \<Rightarrow> bool" where
  "util_isDate h v = (case class_of h v of Some (DateObj t) \<Rightarrow> True | _ \<Rightarrow> False)"

definition util_isError :: "heap \<Rightarrow> hval \<Rightarrow> bool" where
  "util_isError h v \<longleftrightarrow> class_of h v = Some ErrorObj"

definition util_isPrimitive :: "hval \<Rightarrow> bool" where
  "util_isPrimitive v \<longleftrightarrow> \<not> is_ref v"

text \<open>
  The functions that \<open>isBuffer\<close> looks for: an own property counts before what the class provides, which is all three for a buffer
  and \<open>fill\<close> for an array.
\<close>

definition has_function :: "heap \<Rightarrow> hval \<Rightarrow> jstring \<Rightarrow> bool" where
  "has_function h v k =
     (if k \<in> set (own_names h v) then is_function h (get_own h v k)
      else case class_of h v of
             Some (BufferObj n) \<Rightarrow> True
           | Some (ArrayObj n) \<Rightarrow> k = lit ''fill''
           | _ \<Rightarrow> False)"

definition isBuffer :: "heap \<Rightarrow> hval \<Rightarrow> bool" where
  "isBuffer h v \<longleftrightarrow>
     util_isObject h v \<and> has_function h v (lit ''copy'') \<and> has_function h v (lit ''fill'') \<and> has_function h v (lit ''readUInt8'')"

section \<open>Colours\<close>

definition inspect_colors :: "(jstring \<times> nat \<times> nat) list" where
  "inspect_colors =
     [(lit ''bold'', 1, 22), (lit ''italic'', 3, 23), (lit ''underline'', 4, 24), (lit ''inverse'', 7, 27), (lit ''white'', 37, 39),
      (lit ''grey'', 90, 39), (lit ''black'', 30, 39), (lit ''blue'', 34, 39), (lit ''cyan'', 36, 39), (lit ''green'', 32, 39),
      (lit ''magenta'', 35, 39), (lit ''red'', 31, 39), (lit ''yellow'', 33, 39)]"

definition inspect_styles :: "(jstring \<times> jstring) list" where
  "inspect_styles =
     [(lit ''special'', lit ''cyan''), (lit ''number'', lit ''yellow''), (lit ''boolean'', lit ''yellow''),
      (lit ''undefined'', lit ''grey''), (lit ''null'', lit ''bold''), (lit ''string'', lit ''green''), (lit ''date'', lit ''magenta''),
      (lit ''regexp'', lit ''red'')]"

definition colour_code :: "nat \<Rightarrow> jstring" where
  "colour_code n = [0x1B, 0x5B] @ nat_digits n @ [0x6D]"

definition stylizeWithColor :: "jstring \<Rightarrow> jstring \<Rightarrow> jstring" where
  "stylizeWithColor str styleType =
     (case map_of inspect_styles styleType of
        None \<Rightarrow> str
      | Some style \<Rightarrow>
          (case map_of inspect_colors style of
             None \<Rightarrow> str
           | Some (a, b) \<Rightarrow> colour_code a @ str @ colour_code b))"

definition stylizeNoColor :: "jstring \<Rightarrow> jstring \<Rightarrow> jstring" where
  "stylizeNoColor str styleType = str"

section \<open>The context of \<open>inspect\<close>\<close>

text \<open>A depth of \<^term>\<open>None\<close> is \<open>null\<close>, no bound at all.\<close>

record inspect_ctx =
  cx_seen :: "hval list"
  cx_showHidden :: bool
  cx_depth :: "int option"
  cx_colors :: bool
  cx_customInspect :: bool

text \<open>The options a caller gives; \<^term>\<open>None\<close> is one that is not given.\<close>

record inspect_opts =
  io_showHidden :: "bool option"
  io_depth :: "int option option"
  io_colors :: "bool option"
  io_customInspect :: "bool option"

definition no_opts :: inspect_opts where
  "no_opts = \<lparr>io_showHidden = None, io_depth = None, io_colors = None, io_customInspect = None\<rparr>"

definition given :: "'a option \<Rightarrow> 'a \<Rightarrow> 'a" where
  "given o' d = (case o' of None \<Rightarrow> d | Some x \<Rightarrow> x)"

definition inspect_context :: "inspect_opts \<Rightarrow> inspect_ctx" where
  "inspect_context opts =
     \<lparr>cx_seen = [], cx_showHidden = given (io_showHidden opts) False, cx_depth = given (io_depth opts) (Some 2),
      cx_colors = given (io_colors opts) False, cx_customInspect = given (io_customInspect opts) True\<rparr>"

definition stylize :: "inspect_ctx \<Rightarrow> jstring \<Rightarrow> jstring \<Rightarrow> jstring" where
  "stylize ctx = (if cx_colors ctx then stylizeWithColor else stylizeNoColor)"

section \<open>Primitive values\<close>

text \<open>\<open>.replace(/'/g, "\\'")\<close> and \<open>.replace(/\\"/g, '"')\<close>\<close>

definition escape_apostrophes :: "jstring \<Rightarrow> jstring" where
  "escape_apostrophes s = concat (map (\<lambda>c. if c = 0x27 then [0x5C, 0x27] else [c]) s)"

fun plain_quotes :: "jstring \<Rightarrow> jstring" where
  "plain_quotes (c # d # s) = (if c = 0x5C \<and> d = 0x22 then 0x22 # plain_quotes s else c # plain_quotes (d # s))"
| "plain_quotes s = s"

definition single_quoted :: "jstring \<Rightarrow> jstring" where
  "single_quoted s = [0x27] @ plain_quotes (escape_apostrophes (json_escape s)) @ [0x27]"

fun formatPrimitive :: "inspect_ctx \<Rightarrow> hval \<Rightarrow> jstring option" where
  "formatPrimitive ctx HUndef = Some (stylize ctx (lit ''undefined'') (lit ''undefined''))"
| "formatPrimitive ctx (HStr s) = Some (stylize ctx (single_quoted s) (lit ''string''))"
| "formatPrimitive ctx (HNum n) = Some (stylize ctx (num_string n) (lit ''number''))"
| "formatPrimitive ctx (HBool b) = Some (stylize ctx (if b then lit ''true'' else lit ''false'') (lit ''boolean''))"
| "formatPrimitive ctx HNull = Some (stylize ctx (lit ''null'') (lit ''null''))"
| "formatPrimitive ctx (HRef i) = None"

section \<open>Objects\<close>

definition formatError :: "host \<Rightarrow> nat \<Rightarrow> jstring" where
  "formatError H i = lit ''['' @ ht_builtin H i @ lit '']''"

definition all_digits :: "jstring \<Rightarrow> bool" where
  "all_digits k \<longleftrightarrow> k \<noteq> [] \<and> list_all dec_digit k"

definition word_start :: "code_unit \<Rightarrow> bool" where
  "word_start c \<longleftrightarrow> 0x41 \<le> c \<and> c \<le> 0x5A \<or> 0x61 \<le> c \<and> c \<le> 0x7A \<or> c = 0x5F"

definition plain_identifier :: "jstring \<Rightarrow> bool" where
  "plain_identifier k \<longleftrightarrow> k \<noteq> [] \<and> word_start (hd k) \<and> list_all (\<lambda>c. word_start c \<or> dec_digit c) k"

text \<open>
  The name of a property: bare when its JSON text is that of an identifier. Otherwise the quotation marks of the JSON text are
  still there when \<open>\"\<close> becomes \<open>"\<close>, and only then become single ones.
\<close>

definition property_name :: "inspect_ctx \<Rightarrow> jstring \<Rightarrow> jstring" where
  "property_name ctx key =
     (if plain_identifier (json_escape key) then stylize ctx (json_escape key) (lit ''name'')
      else let t = plain_quotes (escape_apostrophes (json_string key))
           in stylize ctx ([0x27] @ butlast (tl t) @ [0x27]) (lit ''string''))"

abbreviation newline :: code_unit where "newline \<equiv> 0x0A"

definition indent_lines :: "jstring \<Rightarrow> jstring \<Rightarrow> jstring" where
  "indent_lines pad s = join [newline] (map (\<lambda>line. pad @ line) (split1 newline s))"

text \<open>\<open>arrayToHash\<close>: the name \<open>__proto__\<close> does not become a property of the plain object.\<close>

definition arrayToHash :: "jstring list \<Rightarrow> jstring set" where
  "arrayToHash keys = set keys - {lit ''__proto__''}"

type_synonym formatter = "inspect_ctx \<Rightarrow> hval \<Rightarrow> int option \<Rightarrow> jstring option"

definition property_text ::
    "formatter \<Rightarrow> inspect_ctx \<Rightarrow> prop_desc \<Rightarrow> int option \<Rightarrow> bool \<Rightarrow> jstring option" where
  "property_text rec ctx desc recurseTimes array =
     (case desc of
        Accessor (Some x) True \<Rightarrow> Some (stylize ctx (lit ''[Getter/Setter]'') (lit ''special''))
      | Accessor (Some x) False \<Rightarrow> Some (stylize ctx (lit ''[Getter]'') (lit ''special''))
      | Accessor None True \<Rightarrow> Some (stylize ctx (lit ''[Setter]'') (lit ''special''))
      | _ \<Rightarrow>
          (let v = (case desc of Data x \<Rightarrow> x | _ \<Rightarrow> HUndef)
           in if list_ex (\<lambda>s. h_strict s v) (cx_seen ctx) then Some (stylize ctx (lit ''[Circular]'') (lit ''special''))
              else map_option (\<lambda>str.
                     if newline \<in> set str
                     then (if array then drop 2 (indent_lines (lit ''  '') str) else [newline] @ indent_lines (lit ''   '') str)
                     else str)
                   (rec ctx v (map_option (\<lambda>r. r - 1) recurseTimes))))"

definition formatProperty ::
    "formatter \<Rightarrow> heap \<Rightarrow> inspect_ctx \<Rightarrow> hval \<Rightarrow> int option \<Rightarrow> jstring set \<Rightarrow> bool \<Rightarrow> jstring \<Rightarrow> jstring option" where
  "formatProperty rec h ctx value recurseTimes visibleKeys array key =
     map_option (\<lambda>str.
         if key \<notin> visibleKeys then lit ''['' @ key @ lit '']: '' @ str
         else if array \<and> all_digits key then str
         else property_name ctx key @ lit '': '' @ str)
       (property_text rec ctx (case map_of (props_of h value) key of Some p \<Rightarrow> hp_desc p | None \<Rightarrow> Data HUndef) recurseTimes array)"

definition formatArray ::
    "formatter \<Rightarrow> heap \<Rightarrow> inspect_ctx \<Rightarrow> hval \<Rightarrow> int option \<Rightarrow> jstring set \<Rightarrow> jstring list \<Rightarrow> nat \<Rightarrow> jstring list option" where
  "formatArray rec h ctx value recurseTimes visibleKeys keys len =
     those (map (\<lambda>i. if nat_digits i \<in> set (own_names h value)
                     then formatProperty rec h ctx value recurseTimes visibleKeys True (nat_digits i) else Some []) [0..<len] @
            map (formatProperty rec h ctx value recurseTimes visibleKeys True) (filter (\<lambda>k. \<not> all_digits k) keys))"

text \<open>\<open>.replace(/\u001b\[\d\d?m/g, '')\<close>, with the length of the code at the head of a text, zero when there is none.\<close>

definition code_length :: "jstring \<Rightarrow> nat" where
  "code_length s =
     (if take 2 s = [0x1B, 0x5B]
      then let ds = takeWhile dec_digit (drop 2 s)
           in if (length ds = 1 \<or> length ds = 2) \<and> take 1 (drop (2 + length ds) s) = [0x6D] then 3 + length ds else 0
      else 0)"

function strip_codes :: "jstring \<Rightarrow> jstring" where
  "strip_codes [] = []"
| "strip_codes (c # s) = (if code_length (c # s) = 0 then c # strip_codes s else strip_codes (drop (code_length (c # s) - 1) s))"
  by pat_completeness auto
termination by (relation "measure length") auto

definition reduceToSingleString :: "jstring list \<Rightarrow> jstring \<Rightarrow> jstring \<times> jstring \<Rightarrow> jstring" where
  "reduceToSingleString output base braces =
     (if 60 < sum_list (map (\<lambda>cur. length (strip_codes cur) + 1) output)
      then fst braces @ (if base = [] then [] else base @ [newline] @ lit '' '') @ lit '' '' @
           join (lit '','' @ [newline] @ lit ''  '') output @ lit '' '' @ snd braces
      else fst braces @ base @ lit '' '' @ join (lit '', '') output @ lit '' '' @ snd braces)"

definition function_name :: "hclass \<Rightarrow> jstring" where
  "function_name c = (case c of FuncObj n \<Rightarrow> if n = [] then [] else lit '': '' @ n | _ \<Rightarrow> [])"

text \<open>The text in front of the properties.\<close>

definition base_text :: "host \<Rightarrow> nat \<Rightarrow> hclass \<Rightarrow> jstring" where
  "base_text H i c =
     (case c of
        FuncObj n \<Rightarrow> lit '' [Function'' @ function_name c @ lit '']''
      | RegObj s g m ic l \<Rightarrow> lit '' '' @ ht_builtin H i
      | DateObj t \<Rightarrow> lit '' '' @ ht_utc H i
      | ErrorObj \<Rightarrow> lit '' '' @ formatError H i
      | _ \<Rightarrow> [])"

text \<open>The objects without properties that have a text of their own.\<close>

definition bare_text :: "host \<Rightarrow> inspect_ctx \<Rightarrow> nat \<Rightarrow> hclass \<Rightarrow> jstring option" where
  "bare_text H ctx i c =
     (case c of
        FuncObj n \<Rightarrow> Some (stylize ctx (lit ''[Function'' @ function_name c @ lit '']'') (lit ''special''))
      | RegObj s g m ic l \<Rightarrow> Some (stylize ctx (ht_builtin H i) (lit ''regexp''))
      | DateObj t \<Rightarrow> Some (stylize ctx (ht_builtin H i) (lit ''date''))
      | ErrorObj \<Rightarrow> Some (formatError H i)
      | _ \<Rightarrow> None)"

text \<open>\<open>formatValue\<close> for an object that has no \<open>inspect\<close> of its own.\<close>

definition formatObject :: "formatter \<Rightarrow> host \<Rightarrow> heap \<Rightarrow> inspect_ctx \<Rightarrow> nat \<Rightarrow> int option \<Rightarrow> jstring option" where
  "formatObject rec H h ctx i recurseTimes =
     (let value = HRef i;
          c = (case class_of h value of Some k \<Rightarrow> k | None \<Rightarrow> PlainObj);
          enum = object_keys h value;
          visibleKeys = arrayToHash enum;
          keys = (if cx_showHidden ctx then own_names h value else enum);
          braces = (case c of ArrayObj n \<Rightarrow> (lit ''['', lit '']'') | _ \<Rightarrow> (lit ''{'', lit ''}''))
      in if c = ErrorObj \<and> (lit ''message'' \<in> set keys \<or> lit ''description'' \<in> set keys) then Some (formatError H i)
         else if keys = [] \<and> bare_text H ctx i c \<noteq> None then bare_text H ctx i c
         else if keys = [] \<and> (case c of ArrayObj n \<Rightarrow> n = 0 | _ \<Rightarrow> True) then Some (fst braces @ base_text H i c @ snd braces)
         else if (case recurseTimes of Some r \<Rightarrow> r < 0 | None \<Rightarrow> False)
         then Some (case c of RegObj s g m ic l \<Rightarrow> stylize ctx (ht_builtin H i) (lit ''regexp'')
                    | _ \<Rightarrow> stylize ctx (lit ''[Object]'') (lit ''special''))
         else let ctx' = ctx\<lparr>cx_seen := cx_seen ctx @ [value]\<rparr>
              in map_option (\<lambda>output. reduceToSingleString output (base_text H i c) braces)
                   (case c of
                      ArrayObj n \<Rightarrow> formatArray rec h ctx' value recurseTimes visibleKeys keys n
                    | _ \<Rightarrow> those (map (formatProperty rec h ctx' value recurseTimes visibleKeys False) keys)))"

fun formatValue :: "nat \<Rightarrow> host \<Rightarrow> heap \<Rightarrow> formatter" where
  "formatValue 0 H h ctx value recurseTimes = None"
| "formatValue (Suc d) H h ctx value recurseTimes =
     (case formatPrimitive ctx value of
        Some s \<Rightarrow> Some s
      | None \<Rightarrow>
          (case value of
             HRef i \<Rightarrow>
               (case (if cx_customInspect ctx then ht_inspect H i recurseTimes else None) of
                  Some (HStr s) \<Rightarrow> Some s
                | Some ret \<Rightarrow> formatValue d H h ctx ret recurseTimes
                | None \<Rightarrow> formatObject (formatValue d H h) H h ctx i recurseTimes)
           | _ \<Rightarrow> None))"

definition inspect :: "nat \<Rightarrow> host \<Rightarrow> heap \<Rightarrow> inspect_opts \<Rightarrow> hval \<Rightarrow> jstring option" where
  "inspect d H h opts obj = (let ctx = inspect_context opts in formatValue d H h ctx obj (cx_depth ctx))"

section \<open>\<open>format\<close>\<close>

definition percent_text :: "host \<Rightarrow> heap \<Rightarrow> code_unit \<Rightarrow> hval \<Rightarrow> jstring" where
  "percent_text H h x v =
     (if x = 0x73 then h_string H v
      else if x = 0x64 then num_string (h_number H v)
      else case json_stringify id H h v of
             Inr (Some s) \<Rightarrow> s
           | Inr None \<Rightarrow> lit ''undefined''
           | Inl e \<Rightarrow> lit ''[Circular]'')"

text \<open>The replacement of \<open>/%[sdj%]/g\<close>, with the arguments that are left.\<close>

fun format_loop :: "host \<Rightarrow> heap \<Rightarrow> jstring \<Rightarrow> hval list \<Rightarrow> jstring \<times> hval list" where
  "format_loop H h (c # x # s) args =
     (if c = 0x25 \<and> x = 0x25 then (let (t, rest) = format_loop H h s args in (0x25 # t, rest))
      else if c = 0x25 \<and> (x = 0x73 \<or> x = 0x64 \<or> x = 0x6A)
      then (case args of
              [] \<Rightarrow> (let (t, rest) = format_loop H h s [] in (c # x # t, rest))
            | v # args' \<Rightarrow> (let (t, rest) = format_loop H h s args' in (percent_text H h x v @ t, rest)))
      else (let (t, rest) = format_loop H h (x # s) args in (c # t, rest)))"
| "format_loop H h s args = (s, args)"

definition util_format :: "nat \<Rightarrow> host \<Rightarrow> heap \<Rightarrow> hval list \<Rightarrow> jstring option" where
  "util_format d H h args =
     (case args of
        HStr f # vs \<Rightarrow>
          (let (str, rest) = format_loop H h f vs
           in map_option (\<lambda>ts. str @ concat (map (\<lambda>t. lit '' '' @ t) ts))
                (those (map (\<lambda>x. if util_isObject h x then inspect d H h no_opts x else Some (h_string H x)) rest)))
      | _ \<Rightarrow> map_option (join (lit '' '')) (those (map (inspect d H h no_opts) args)))"

section \<open>\<open>deprecate\<close>, \<open>_extend\<close>, \<open>timestamp\<close>\<close>

record deprecation =
  noDeprecation :: bool
  throwDeprecation :: bool
  traceDeprecation :: bool

datatype console_line = Trace jstring | ErrorLine jstring


text \<open>
  What \<open>deprecate\<close> returns: a function that asks \<open>deprecate\<close> again when it is called, where the page has no global \<open>process\<close>;
  the function itself; or the inner function \<open>deprecated\<close> with its \<open>warned\<close>.
\<close>

datatype deprecated_fn = Deferred | Original | Warning bool

definition deprecate :: "bool \<Rightarrow> deprecation \<Rightarrow> deprecated_fn" where
  "deprecate global_process P = (if \<not> global_process then Deferred else if noDeprecation P then Original else Warning False)"

text \<open>A call of it: what it prints before it calls the function, or what it throws, and the function it is afterwards.\<close>

fun call_deprecated ::
    "nat \<Rightarrow> bool \<Rightarrow> deprecation \<Rightarrow> jstring \<Rightarrow> deprecated_fn \<Rightarrow> ((js_error + console_line list) \<times> deprecated_fn) option" where
  "call_deprecated d global_process P msg Original = Some (Inr [], Original)"
| "call_deprecated d global_process P msg (Warning warned) =
     Some (if warned then (Inr [], Warning True)
           else if throwDeprecation P then (Inl (Thrown msg), Warning False)
           else (Inr [if traceDeprecation P then Trace msg else ErrorLine msg], Warning True))"
| "call_deprecated 0 global_process P msg Deferred = None"
| "call_deprecated (Suc d) global_process P msg Deferred =
     map_option (\<lambda>(r, f). (r, Deferred)) (call_deprecated d global_process P msg (deprecate global_process P))"

text \<open>What a number of calls print; an exception ends them.\<close>

fun calls_deprecated ::
    "nat \<Rightarrow> bool \<Rightarrow> deprecation \<Rightarrow> jstring \<Rightarrow> nat \<Rightarrow> deprecated_fn \<Rightarrow> (js_error + console_line list) option" where
  "calls_deprecated d global_process P msg 0 f = Some (Inr [])"
| "calls_deprecated d global_process P msg (Suc n) f =
     (case call_deprecated d global_process P msg f of
        None \<Rightarrow> None
      | Some (Inl e, f') \<Rightarrow> Some (Inl e)
      | Some (Inr out, f') \<Rightarrow>
          map_option (\<lambda>r. bindE r (\<lambda>outs. Inr (out @ outs))) (calls_deprecated d global_process P msg n f'))"

text \<open>\<open>_extend\<close>, from the last key to the first; a new \<open>__proto__\<close> does not become an own property.\<close>

definition set_pair :: "jstring \<times> hval \<Rightarrow> (jstring \<times> hval) list \<Rightarrow> (jstring \<times> hval) list" where
  "set_pair kv ps =
     (if fst kv \<in> fst ` set ps then map (\<lambda>p. if fst p = fst kv then kv else p) ps
      else if fst kv = lit ''__proto__'' then ps
      else ps @ [kv])"

definition util_extend :: "(jstring \<times> hval) list \<Rightarrow> (jstring \<times> hval) list option \<Rightarrow> (jstring \<times> hval) list" where
  "util_extend origin add = (case add of None \<Rightarrow> origin | Some ps \<Rightarrow> fold set_pair (rev ps) origin)"

definition util_pad :: "nat \<Rightarrow> jstring" where
  "util_pad n = (if n < 10 then lit ''0'' @ nat_digits n else nat_digits n)"

definition months :: "jstring list" where
  "months = map lit [''Jan'', ''Feb'', ''Mar'', ''Apr'', ''May'', ''Jun'', ''Jul'', ''Aug'', ''Sep'', ''Oct'', ''Nov'', ''Dec'']"

text \<open>\<open>timestamp()\<close> from the day, the month from zero, the hours, the minutes and the seconds of now.\<close>

definition timestamp :: "nat \<Rightarrow> nat \<Rightarrow> nat \<Rightarrow> nat \<Rightarrow> nat \<Rightarrow> jstring" where
  "timestamp day month hours minutes seconds =
     join (lit '' '') [nat_digits day, months ! month, join (lit '':'') [util_pad hours, util_pad minutes, util_pad seconds]]"


section \<open>Printing ends\<close>

lemma property_text_returns:
  assumes "\<And>v. v \<notin> set (cx_seen ctx) \<Longrightarrow> rec ctx v (map_option (\<lambda>r. r - 1) r) \<noteq> None"
    "set (cx_seen ctx) \<subseteq> range HRef"
  shows "property_text rec ctx desc r array \<noteq> None"
proof -
  have "v \<notin> set (cx_seen ctx)" if "\<not> list_ex (\<lambda>s. h_strict s v) (cx_seen ctx)" for v
    using that assms(2) by (fastforce simp: list_ex_iff)
  then have "rec ctx v (map_option (\<lambda>r. r - 1) r) \<noteq> None" if "\<not> list_ex (\<lambda>s. h_strict s v) (cx_seen ctx)" for v
    using that assms(1) by blast
  then show ?thesis
    by (auto simp: property_text_def Let_def split: prop_desc.splits option.splits bool.splits)
qed

lemma formatObject_returns:
  assumes "\<And>v. v \<notin> insert (HRef i) (set (cx_seen ctx)) \<Longrightarrow> i < length h \<Longrightarrow>
      rec (ctx\<lparr>cx_seen := cx_seen ctx @ [HRef i]\<rparr>) v (map_option (\<lambda>r. r - 1) r) \<noteq> None"
    "set (cx_seen ctx) \<subseteq> range HRef"
  shows "formatObject rec H h ctx i r \<noteq> None"
proof (cases "i < length h")
  case True
  let ?ctx = "ctx\<lparr>cx_seen := cx_seen ctx @ [HRef i]\<rparr>"
  have "property_text rec ?ctx desc r array \<noteq> None" for desc array
    using assms True by (intro property_text_returns) auto
  then have p: "formatProperty rec h ?ctx (HRef i) r vis array k \<noteq> None" for vis array k
    by (simp add: formatProperty_def)
  have "formatArray rec h ?ctx (HRef i) r vis keys n \<noteq> None" for vis keys n
    unfolding formatArray_def by (rule those_returns) (simp add: image_iff p [symmetric])
  moreover have "those (map (formatProperty rec h ?ctx (HRef i) r vis False) keys) \<noteq> None" for vis keys
    by (rule those_map_returns) (rule p)
  ultimately show ?thesis
    by (simp add: formatObject_def Let_def split: hclass.split option.split)
qed (simp add: formatObject_def Let_def)

lemma formatValue_returns:
  assumes "on_path h (cx_seen ctx)" "length h - length (cx_seen ctx) < d" "v \<notin> set (cx_seen ctx)"
    "cx_customInspect ctx \<Longrightarrow> ht_inspect H = (\<lambda>i r. None)"
  shows "formatValue d H h ctx v r \<noteq> None"
  using assms
proof (induction d arbitrary: ctx v r)
  case (Suc d)
  show ?case
  proof (cases v)
    case (HRef i)
    have "formatObject (formatValue d H h) H h ctx i r \<noteq> None"
    proof (rule formatObject_returns)
      show "set (cx_seen ctx) \<subseteq> range HRef"
        using Suc.prems(1) by (auto simp: on_path_def)
    next
      fix w
      assume w: "w \<notin> insert (HRef i) (set (cx_seen ctx))" and i: "i < length h"
      let ?ctx = "ctx\<lparr>cx_seen := cx_seen ctx @ [HRef i]\<rparr>"
      have "length (cx_seen ctx) < length h"
        using Suc.prems HRef i by (auto intro: on_path_room)
      then show "formatValue d H h ?ctx w (map_option (\<lambda>r. r - 1) r) \<noteq> None"
        using Suc.prems HRef i w by (intro Suc.IH) auto
    qed
    then show ?thesis
      using Suc.prems(4) HRef by (auto split: option.split)
  qed auto
qed simp

text \<open>
  C37. \<open>inspect\<close> prints every value, also one that contains itself at any depth of objects and arrays, with every setting of its options,
  the depth without a bound (\<open>null\<close>) included: as many nested calls as the heap has objects are enough. The values have no
  \<open>inspect\<close> of their own, or the options switch it off.
\<close>

theorem inspect_returns:
  assumes "length h < d" "io_customInspect opts = Some False \<or> ht_inspect H = (\<lambda>i r. None)"
  shows "\<exists>s. inspect d H h opts v = Some s"
proof -
  have "formatValue d H h (inspect_context opts) v r \<noteq> None" for r
    using assms by (intro formatValue_returns) (auto simp: inspect_context_def given_def)
  then show ?thesis
    by (auto simp: inspect_def Let_def)
qed

text \<open>An object that is its own property \<open>me\<close>, printed without a bound on the depth.\<close>

definition silent_host :: host where
  "silent_host = \<lparr>ht_string = \<lambda>i. lit ''[object Object]'', ht_number = \<lambda>i. NaN, ht_toJSON = \<lambda>i. None, ht_builtin = \<lambda>i. [],
     ht_utc = \<lambda>i. [], ht_inspect = \<lambda>i r. None, ht_test = \<lambda>i s. False, ht_instanceof = \<lambda>i v. Inr False, ht_call = \<lambda>i v. Inr HUndef\<rparr>"

definition self_heap :: heap where
  "self_heap = [\<lparr>ho_class = PlainObj, ho_props = [(lit ''me'', \<lparr>hp_enum = True, hp_desc = Data (HRef 0)\<rparr>)]\<rparr>]"

lemmas util_eval =
  inspect_def inspect_context_def given_def no_opts_def formatObject_def formatProperty_def property_text_def arrayToHash_def
  base_text_def bare_text_def reduceToSingleString_def code_length_def property_name_def plain_identifier_def word_start_def
  json_char_def stylize_def stylizeNoColor_def class_of_def object_keys_def props_of_def own_names_def lit_def Let_def

theorem inspect_returns_witness:
  "(\<exists>s. inspect 2 silent_host self_heap (no_opts\<lparr>io_depth := Some None\<rparr>) (HRef 0) = Some s) \<and>
   inspect 2 silent_host self_heap (no_opts\<lparr>io_depth := Some None\<rparr>) (HRef 0) = Some (lit ''{ me: [Circular] }'')"
proof
  show "\<exists>s. inspect 2 silent_host self_heap (no_opts\<lparr>io_depth := Some None\<rparr>) (HRef 0) = Some s"
    by (rule inspect_returns) (simp_all add: self_heap_def silent_host_def)
  show "inspect 2 silent_host self_heap (no_opts\<lparr>io_depth := Some None\<rparr>) (HRef 0) = Some (lit ''{ me: [Circular] }'')"
    by (simp add: numeral_2_eq_2 silent_host_def self_heap_def util_eval)
qed

section \<open>Quoted strings\<close>

text \<open>
  A string literal of the language in single quotation marks, read back: \<^term>\<open>None\<close> when the text is not one literal.
\<close>

definition hex_digit_value :: "code_unit \<Rightarrow> nat option" where
  "hex_digit_value c =
     (if dec_digit c then Some (c - 0x30)
      else if 0x61 \<le> c \<and> c \<le> 0x66 then Some (c - 0x57)
      else if 0x41 \<le> c \<and> c \<le> 0x46 then Some (c - 0x37)
      else None)"

definition hex4_value :: "code_unit \<Rightarrow> code_unit \<Rightarrow> code_unit \<Rightarrow> code_unit \<Rightarrow> nat option" where
  "hex4_value p q r s =
     (case (hex_digit_value p, hex_digit_value q, hex_digit_value r, hex_digit_value s) of
        (Some a, Some b, Some c, Some d) \<Rightarrow> Some (4096 * a + 256 * b + 16 * c + d)
      | _ \<Rightarrow> None)"

definition simple_escape :: "code_unit \<Rightarrow> code_unit option" where
  "simple_escape c =
     (if c = 0x62 then Some 0x08 else if c = 0x66 then Some 0x0C else if c = 0x6E then Some 0x0A
      else if c = 0x72 then Some 0x0D else if c = 0x74 then Some 0x09 else if c = 0x76 then Some 0x0B
      else if dec_digit c \<or> c = 0x78 \<or> c = 0x75 \<or> c = 0x0A \<or> c = 0x0D then None
      else Some c)"

fun literal_body :: "jstring \<Rightarrow> jstring option" where
  "literal_body [] = None"
| "literal_body (c # s) =
     (if c = 0x27 then (if s = [] then Some [] else None)
      else if c = 0x0A \<or> c = 0x0D then None
      else if c \<noteq> 0x5C then map_option (Cons c) (literal_body s)
      else case s of
             [] \<Rightarrow> None
           | e # s' \<Rightarrow>
               if e = 0x75
               then (case s' of
                       p # q # r # t # s'' \<Rightarrow>
                         (case hex4_value p q r t of None \<Rightarrow> None | Some v \<Rightarrow> map_option (Cons v) (literal_body s''))
                     | _ \<Rightarrow> None)
               else (case simple_escape e of None \<Rightarrow> None | Some v \<Rightarrow> map_option (Cons v) (literal_body s')))"

definition read_literal :: "jstring \<Rightarrow> jstring option" where
  "read_literal t = (case t of [] \<Rightarrow> None | c # s \<Rightarrow> if c = 0x27 then literal_body s else None)"

lemma hex_digit_value_lower_hex [simp]: "n < 16 \<Longrightarrow> hex_digit_value (lower_hex n) = Some n"
  by (auto simp: hex_digit_value_def lower_hex_def)

lemma lower_hex_range: "n < 16 \<Longrightarrow> 0x30 \<le> lower_hex n \<and> lower_hex n \<le> 0x39 \<or> 0x61 \<le> lower_hex n \<and> lower_hex n \<le> 0x66"
  by (auto simp: lower_hex_def)

lemma lower_hex_plain [simp]:
  assumes "n < 16" shows "lower_hex n \<noteq> 0x5C" "lower_hex n \<noteq> 0x27" "lower_hex n \<noteq> 0x22"
  using lower_hex_range [OF assms] by auto

lemma hex4_shape:
  assumes "c < 65536"
  obtains p q r t where "hex4 c = [p, q, r, t]" "hex4_value p q r t = Some c" "{p, q, r, t} \<inter> {0x5C, 0x27, 0x22} = {}"
proof
  let ?a = "c div 16" and ?b = "c div 16 div 16" and ?d = "c div 16 div 16 div 16"
  have "c = 16 * ?a + c mod 16" "?a = 16 * ?b + ?a mod 16" "?b = 16 * ?d + ?b mod 16"
    by simp_all
  moreover have "?d mod 16 = ?d"
    using assms by simp
  ultimately have "4096 * (?d mod 16) + 256 * (?b mod 16) + 16 * (?a mod 16) + c mod 16 = c"
    by linarith
  then show "hex4_value (lower_hex (?d mod 16)) (lower_hex (?b mod 16)) (lower_hex (?a mod 16)) (lower_hex (c mod 16)) = Some c"
    unfolding hex4_value_def by (simp only: hex_digit_value_lower_hex mod_less_divisor zero_less_numeral prod.case option.case)
  show "hex4 c = [lower_hex (?d mod 16), lower_hex (?b mod 16), lower_hex (?a mod 16), lower_hex (c mod 16)]"
    by (simp only: hex4_def)
  have "lower_hex (n mod 16) \<notin> {0x5C, 0x27, 0x22}" for n
    by simp
  then show "{lower_hex (?d mod 16), lower_hex (?b mod 16), lower_hex (?a mod 16), lower_hex (c mod 16)} \<inter> {0x5C, 0x27, 0x22} = {}"
    by blast
qed

lemma plain_quotes_other [simp]: "c \<noteq> 0x5C \<Longrightarrow> plain_quotes (c # s) = c # plain_quotes s"
  by (cases s) auto

lemma plain_quotes_escape [simp]:
  "x \<noteq> 0x22 \<Longrightarrow> x \<noteq> 0x5C \<Longrightarrow> plain_quotes (0x5C # x # s) = 0x5C # x # plain_quotes s"
  by simp

lemma plain_quotes_backslash [simp]:
  "take 1 s \<noteq> [0x22] \<Longrightarrow> plain_quotes (0x5C # 0x5C # s) = 0x5C # 0x5C # plain_quotes s"
  by (cases s) auto

lemma escape_apostrophes_simps [simp]:
  "escape_apostrophes [] = []"
  "escape_apostrophes (c # s) = (if c = 0x27 then [0x5C, 0x27] else [c]) @ escape_apostrophes s"
  "escape_apostrophes (s @ t) = escape_apostrophes s @ escape_apostrophes t"
  by (simp_all add: escape_apostrophes_def)

text \<open>One code unit on its way through the three replacements and back.\<close>

lemma read_unicode_escape [simp]:
  assumes "c < 65536"
  shows "literal_body (plain_quotes (escape_apostrophes (unicode_escape c) @ rest) @ t) =
         map_option (Cons c) (literal_body (plain_quotes rest @ t))"
  using hex4_shape [OF assms] by (force simp: unicode_escape_def)

lemma read_backslash:
  "take 1 rest \<noteq> [0x22] \<Longrightarrow>
   literal_body (plain_quotes (0x5C # 0x5C # rest) @ t) = map_option (Cons 0x5C) (literal_body (plain_quotes rest @ t))"
  by (simp add: simple_escape_def del: plain_quotes.simps)

lemma read_json_char:
  assumes "c < 65536" "take 1 rest \<noteq> [0x22]"
  shows "literal_body (plain_quotes (escape_apostrophes (json_char c) @ rest) @ t) =
         map_option (Cons c) (literal_body (plain_quotes rest @ t))"
proof (cases "c = 0x5C")
  case True
  then show ?thesis
    using read_backslash [OF assms(2)] by (simp add: json_char_def del: plain_quotes.simps literal_body.simps)
next
  case False
  then show ?thesis
    using assms by (simp add: json_char_def simple_escape_def)
qed

lemma json_char_head: "take 1 (escape_apostrophes (json_char c) @ s) \<noteq> [0x22]"
  by (simp add: json_char_def unicode_escape_def)

lemma json_escape_head: "take 1 (escape_apostrophes (json_escape s)) \<noteq> [0x22]"
  by (cases s rule: json_escape.cases) (auto simp: json_char_def unicode_escape_def)

lemma read_json_escape:
  "list_all (\<lambda>c. c < 65536) s \<Longrightarrow>
   literal_body (plain_quotes (escape_apostrophes (json_escape s)) @ t) = map_option (append s) (literal_body t)"
proof (induction s rule: json_escape.induct)
  case (2 c)
  then show ?case
    using read_json_char [of c "[]" t] read_unicode_escape [of c "[]" t] by simp
next
  case (3 c d s)
  show ?case
  proof (cases "high_surrogate c \<and> low_surrogate d")
    case True
    then have "c \<noteq> 0x5C" "c \<noteq> 0x27" "c \<noteq> 0x0A" "c \<noteq> 0x0D" "d \<noteq> 0x5C" "d \<noteq> 0x27" "d \<noteq> 0x0A" "d \<noteq> 0x0D"
      by auto
    then show ?thesis
      using 3 True by (simp add: option.map_comp o_def)
  next
    case False
    then show ?thesis
      using 3(2) [OF False] 3(3) json_escape_head [of "d # s"] by (auto simp: read_json_char option.map_comp o_def)
  qed
qed (simp add: option.map_ident_strong)

text \<open>
  C38. \<open>inspect\<close> prints a string as a literal of the language, whatever code units it has, control characters, quotation marks of both kinds,
  backslashes and halves of surrogate pairs included: reading the printed text back gives the string.
\<close>

theorem inspect_string_roundtrip:
  assumes "list_all (\<lambda>c. c < 65536) s" "io_colors opts \<noteq> Some True"
  shows "map_option read_literal (inspect (Suc d) H h opts (HStr s)) = Some (Some s)"
  using assms read_json_escape [of s]
  by (auto simp: inspect_def inspect_context_def given_def stylize_def stylizeNoColor_def single_quoted_def read_literal_def Let_def
      split: option.splits)

theorem inspect_string_roundtrip_witness:
  "map_option read_literal (inspect (Suc 0) silent_host [] no_opts (HStr [0x27, 0x5C, 0x22, 0x0A, 0xD800, 0x61])) =
     Some (Some [0x27, 0x5C, 0x22, 0x0A, 0xD800, 0x61])"
  by (rule inspect_string_roundtrip) (simp_all add: no_opts_def)

text \<open>
  The name of a property goes through the same replacements with its quotation marks still there, and a name that ends in a
  backslash loses it: what is printed is not a literal at all.
\<close>

lemma json_escape_backslash: "json_escape (k @ [0x5C]) = json_escape k @ [0x5C, 0x5C]"
  by (induction k rule: json_escape.induct) (auto simp: json_char_def)

lemma plain_quotes_append_backslash: "plain_quotes (s @ 0x5C # u) = plain_quotes s @ plain_quotes (0x5C # u)"
  by (induction s rule: plain_quotes.induct) auto

theorem property_name_backslash:
  assumes "list_all (\<lambda>c. c < 65536) k" "\<not> cx_colors ctx"
  shows "read_literal (property_name ctx (k @ [0x5C])) = None"
proof -
  let ?e = "escape_apostrophes (json_escape k)"
  have "plain_quotes (escape_apostrophes (json_string (k @ [0x5C]))) = 0x22 # plain_quotes ?e @ [0x5C, 0x22]"
    using plain_quotes_append_backslash [of ?e "[0x5C, 0x22]"] by (simp add: json_string_def json_escape_backslash)
  moreover have "\<not> plain_identifier (json_escape (k @ [0x5C]))"
    by (simp add: json_escape_backslash plain_identifier_def word_start_def)
  ultimately have "property_name ctx (k @ [0x5C]) = 0x27 # plain_quotes ?e @ [0x5C, 0x27]"
    using assms(2) by (simp add: property_name_def stylize_def stylizeNoColor_def butlast_append)
  moreover have "literal_body (plain_quotes ?e @ [0x5C, 0x27]) = None"
    using assms(1) by (simp add: read_json_escape simple_escape_def)
  ultimately show ?thesis
    by (simp add: read_literal_def)
qed

section \<open>Formats and warnings\<close>

text \<open>A text with every percent sign doubled is printed as it was.\<close>

lemma format_loop_plain:
  "c \<noteq> 0x25 \<Longrightarrow> format_loop H h (c # s) args = (c # fst (format_loop H h s args), snd (format_loop H h s args))"
  by (cases s) (auto simp: Let_def split: prod.split)

lemma format_loop_doubled:
  "format_loop H h (concat (map (\<lambda>c. if c = 0x25 then [0x25, 0x25] else [c]) s)) args = (s, args)"
  by (induction s) (auto simp: format_loop_plain)

text \<open>An argument is read by a directive, or else printed after the text: as many are left as there are more of them.\<close>

fun directives :: "jstring \<Rightarrow> nat" where
  "directives (c # x # s) =
     (if c = 0x25 \<and> x = 0x25 then directives s
      else if c = 0x25 \<and> (x = 0x73 \<or> x = 0x64 \<or> x = 0x6A) then Suc (directives s)
      else directives (x # s))"
| "directives s = 0"

lemma format_loop_rest: "snd (format_loop H h f args) = drop (directives f) args"
  by (induction H h f args rule: format_loop.induct) (auto simp: Let_def split: prod.splits list.splits)

lemma call_warning_again: "calls_deprecated d g P msg n (Warning True) = Some (Inr [])"
  by (induction n) auto

lemma calls_original: "calls_deprecated d g P msg n Original = Some (Inr [])"
  by (induction n) auto

lemma call_deferred_nowhere: "call_deprecated d False P msg Deferred = None"
  by (induction d) (auto simp: deprecate_def)

lemma calls_deferred_later:
  assumes "\<not> noDeprecation P" "\<not> throwDeprecation P"
  shows "calls_deprecated (Suc d) True P msg n Deferred =
     Some (Inr (replicate n (if traceDeprecation P then Trace msg else ErrorLine msg)))"
  using assms by (induction n) (auto simp: deprecate_def)

lemma calls_warning:
  "calls_deprecated d g P msg (Suc n) (Warning False) =
     Some (if throwDeprecation P then Inl (Thrown msg) else Inr [if traceDeprecation P then Trace msg else ErrorLine msg])"
  by (simp add: call_warning_again)

text \<open>
  A function that was deprecated while there is a global \<open>process\<close> warns once, however often it is called. One that was
  deprecated before there was a global \<open>process\<close> warns at every call instead; and as long as there is none, as in a page that only
  has the bundle's own \<open>process\<close>, a call never returns, whatever the number of nested calls allowed. (The flags of \<open>process\<close> ask neither
  for silence nor for exceptions.)
\<close>

theorem deprecate_warnings:
  fixes msg :: jstring
  assumes "\<not> noDeprecation P" "\<not> throwDeprecation P"
  defines "line \<equiv> if traceDeprecation P then Trace msg else ErrorLine msg"
  shows "calls_deprecated d True P msg (Suc n) (deprecate True P) = Some (Inr [line]) \<and>
    calls_deprecated (Suc d) True P msg n (deprecate False P) = Some (Inr (replicate n line)) \<and>
    call_deprecated d False P msg (deprecate False P) = None"
  using assms calls_warning [of d True P msg n] calls_deferred_later [of P d msg n] call_deferred_nowhere [of d P msg]
  by (simp add: deprecate_def)

theorem deprecate_warnings_witness:
  "calls_deprecated 1 True \<lparr>noDeprecation = False, throwDeprecation = False, traceDeprecation = False\<rparr> (lit ''old'') 3
     (deprecate False \<lparr>noDeprecation = False, throwDeprecation = False, traceDeprecation = False\<rparr>) =
   Some (Inr [ErrorLine (lit ''old''), ErrorLine (lit ''old''), ErrorLine (lit ''old'')])"
  using deprecate_warnings [of "\<lparr>noDeprecation = False, throwDeprecation = False, traceDeprecation = False\<rparr>" 0 "lit ''old''" 3]
  by (simp add: numeral_3_eq_3)

text \<open>\<open>_extend\<close>: every key of the second object has its value afterwards, the others keep theirs.\<close>

lemma map_of_replace:
  "map_of (map (\<lambda>p. if fst p = k then (k, v) else p) ps) x = (if x = k \<and> k \<in> fst ` set ps then Some v else map_of ps x)"
proof (induction ps)
  case (Cons p ps)
  then show ?case
    by (cases p; cases "fst p = k"; cases "x = k") (simp_all del: map_of_eq_None_iff)
qed simp

lemma map_of_set_pair:
  "k \<noteq> lit ''__proto__'' \<Longrightarrow> map_of (set_pair (k, v) ps) = (map_of ps)(k \<mapsto> v)"
  by (auto simp: set_pair_def map_of_replace map_add_def dom_map_of_conv_image_fst [symmetric] fun_eq_iff split: option.split)

lemma map_of_fold_set_pair:
  "lit ''__proto__'' \<notin> fst ` set ps \<Longrightarrow> map_of (fold set_pair (rev ps) origin) = map_of origin ++ map_of ps"
  by (induction ps) (auto simp: map_of_set_pair)

lemma util_extend_overrides:
  assumes "distinct (map fst ps)" "lit ''__proto__'' \<notin> fst ` set ps"
  shows "map_of (util_extend origin (Some ps)) = map_of origin ++ map_of ps"
  using assms by (simp add: util_extend_def map_of_fold_set_pair)

end
