(* ===== verification/Assert_Module.thy ===== *)
theory Assert_Module
  imports Util_Module "HOL-Library.List_Lexorder"
begin

text \<open>
  The module \<open>assert\<close> (\<open>src/site/assets/javascripts/lunr/wordcut.js\<close>, bundled module 9): assertions return normally or throw. The deep
  comparison follows references and has no memory of the objects it has met; the number of its nested calls is bounded, and
  \<^term>\<open>None\<close> says that the bound was not enough.
\<close>

section \<open>Assertion errors\<close>

record assertion_error =
  ae_actual :: hval
  ae_expected :: hval
  ae_operator :: hval
  ae_message :: hval
  ae_generated :: bool

text \<open>What is thrown: an assertion error, an error of the language, or a value that a caller's code threw.\<close>

datatype thrown = AssertionFailed assertion_error | LanguageError js_error | Rethrown hval

definition replacer :: "host \<Rightarrow> heap \<Rightarrow> hval \<Rightarrow> hval" where
  "replacer H h value =
     (if util_isUndefined value then HStr (h_string H value)
      else if value \<in> {HNum NaN, HNum NegInf, HNum PosInf} then HStr (h_string H value)
      else if util_isFunction h value \<or> util_isRegExp h value then HStr (h_string H value)
      else value)"

definition truncate :: "jstring option \<Rightarrow> nat \<Rightarrow> jstring option" where
  "truncate s n = map_option (\<lambda>t. if length t < n then t else take n t) s"

definition or_undefined :: "jstring option \<Rightarrow> jstring" where
  "or_undefined s = (case s of Some t \<Rightarrow> t | None \<Rightarrow> lit ''undefined'')"

definition getMessage :: "host \<Rightarrow> heap \<Rightarrow> hval \<Rightarrow> hval \<Rightarrow> hval \<Rightarrow> js_error + jstring" where
  "getMessage H h actual expected operator =
     bindE (json_stringify (replacer H h) H h actual) (\<lambda>a.
     bindE (json_stringify (replacer H h) H h expected) (\<lambda>e.
       Inr (or_undefined (truncate a 128) @ lit '' '' @ h_string H operator @ lit '' '' @ or_undefined (truncate e 128))))"

definition AssertionError :: "host \<Rightarrow> heap \<Rightarrow> hval \<Rightarrow> hval \<Rightarrow> hval \<Rightarrow> hval \<Rightarrow> js_error + assertion_error" where
  "AssertionError H h actual expected message operator =
     (if h_truthy message
      then Inr \<lparr>ae_actual = actual, ae_expected = expected, ae_operator = operator, ae_message = message, ae_generated = False\<rparr>
      else bindE (getMessage H h actual expected operator) (\<lambda>m.
             Inr \<lparr>ae_actual = actual, ae_expected = expected, ae_operator = operator, ae_message = HStr m, ae_generated = True\<rparr>))"

definition assert_fail :: "host \<Rightarrow> heap \<Rightarrow> hval \<Rightarrow> hval \<Rightarrow> hval \<Rightarrow> hval \<Rightarrow> thrown" where
  "assert_fail H h actual expected message operator =
     (case AssertionError H h actual expected message operator of Inl e \<Rightarrow> LanguageError e | Inr ae \<Rightarrow> AssertionFailed ae)"

section \<open>Simple assertions\<close>

definition assert_ok :: "host \<Rightarrow> heap \<Rightarrow> hval \<Rightarrow> hval \<Rightarrow> thrown + unit" where
  "assert_ok H h value message =
     (if \<not> h_truthy value then Inl (assert_fail H h value (HBool True) message (HStr (lit ''==''))) else Inr ())"

definition assert_equal :: "host \<Rightarrow> heap \<Rightarrow> hval \<Rightarrow> hval \<Rightarrow> hval \<Rightarrow> thrown + unit" where
  "assert_equal H h actual expected message =
     (if \<not> h_loose H actual expected then Inl (assert_fail H h actual expected message (HStr (lit ''==''))) else Inr ())"

definition assert_notEqual :: "host \<Rightarrow> heap \<Rightarrow> hval \<Rightarrow> hval \<Rightarrow> hval \<Rightarrow> thrown + unit" where
  "assert_notEqual H h actual expected message =
     (if h_loose H actual expected then Inl (assert_fail H h actual expected message (HStr (lit ''!=''))) else Inr ())"

definition assert_strictEqual :: "host \<Rightarrow> heap \<Rightarrow> hval \<Rightarrow> hval \<Rightarrow> hval \<Rightarrow> thrown + unit" where
  "assert_strictEqual H h actual expected message =
     (if \<not> h_strict actual expected then Inl (assert_fail H h actual expected message (HStr (lit ''==='')))
      else Inr ())"

definition assert_notStrictEqual :: "host \<Rightarrow> heap \<Rightarrow> hval \<Rightarrow> hval \<Rightarrow> hval \<Rightarrow> thrown + unit" where
  "assert_notStrictEqual H h actual expected message =
     (if h_strict actual expected then Inl (assert_fail H h actual expected message (HStr (lit ''!=='')))
      else Inr ())"

definition ifError :: "hval \<Rightarrow> thrown + unit" where
  "ifError err = (if h_truthy err then Inl (Rethrown err) else Inr ())"

section \<open>Deep comparison\<close>

definition length_value :: "heap \<Rightarrow> hval \<Rightarrow> hval" where
  "length_value h v =
     (case class_of h v of
        Some (ArrayObj n) \<Rightarrow> HNum (Fin (int n))
      | Some (BufferObj n) \<Rightarrow> HNum (Fin (int n))
      | _ \<Rightarrow> get_own h v (lit ''length''))"

text \<open>The indices below a length; a length that is no finite number counts as zero.\<close>

definition indices_below :: "host \<Rightarrow> hval \<Rightarrow> jstring list" where
  "indices_below H len = map nat_digits [0..<(case h_number H len of Fin n \<Rightarrow> nat n | _ \<Rightarrow> 0)]"

definition buffers_equal :: "host \<Rightarrow> heap \<Rightarrow> hval \<Rightarrow> hval \<Rightarrow> bool" where
  "buffers_equal H h a b \<longleftrightarrow>
     h_loose H (length_value h a) (length_value h b) \<and>
     list_all (\<lambda>i. h_strict (get_own h a i) (get_own h b i)) (indices_below H (length_value h a))"

definition dates_equal :: "heap \<Rightarrow> hval \<Rightarrow> hval \<Rightarrow> bool" where
  "dates_equal h a b = (case (class_of h a, class_of h b) of (Some (DateObj s), Some (DateObj t)) \<Rightarrow> num_eq s t | _ \<Rightarrow> False)"

definition regexps_equal :: "heap \<Rightarrow> hval \<Rightarrow> hval \<Rightarrow> bool" where
  "regexps_equal h a b =
     (case (class_of h a, class_of h b) of
        (Some (RegObj s g m i l), Some (RegObj s' g' m' i' l')) \<Rightarrow> s = s' \<and> g = g' \<and> m = m' \<and> l = l' \<and> i = i'
      | _ \<Rightarrow> False)"

definition isArguments :: "heap \<Rightarrow> hval \<Rightarrow> bool" where
  "isArguments h v \<longleftrightarrow> class_of h v = Some ArgsObj"

text \<open>
  The keys that are compared: those of the object, or, for \<open>arguments\<close>, those of the array that \<open>slice\<close> makes of it, with the same
  values.
\<close>

definition compared_keys :: "host \<Rightarrow> heap \<Rightarrow> hval \<Rightarrow> jstring list" where
  "compared_keys H h v =
     (if isArguments h v then filter (\<lambda>k. k \<in> set (own_names h v)) (indices_below H (length_value h v)) else object_keys h v)"

text \<open>The loop over the sorted keys, from the last one.\<close>

fun deep_values :: "(hval \<Rightarrow> hval \<Rightarrow> bool option) \<Rightarrow> heap \<Rightarrow> hval \<Rightarrow> hval \<Rightarrow> jstring list \<Rightarrow> bool option" where
  "deep_values rec h a b [] = Some True"
| "deep_values rec h a b (k # ks) =
     (case rec (get_own h a k) (get_own h b k) of
        None \<Rightarrow> None
      | Some False \<Rightarrow> Some False
      | Some True \<Rightarrow> deep_values rec h a b ks)"

definition objEquiv :: "(hval \<Rightarrow> hval \<Rightarrow> bool option) \<Rightarrow> host \<Rightarrow> heap \<Rightarrow> hval \<Rightarrow> hval \<Rightarrow> bool option" where
  "objEquiv rec H h a b =
     (if util_isNullOrUndefined a \<or> util_isNullOrUndefined b then Some False
      else if \<not> h_strict (get_own h a (lit ''prototype'')) (get_own h b (lit ''prototype'')) then Some False
      else if util_isPrimitive a \<or> util_isPrimitive b then Some (h_strict a b)
      else if isArguments h a \<noteq> isArguments h b then Some False
      else let ka = compared_keys H h a; kb = compared_keys H h b
           in if length ka \<noteq> length kb then Some False
              else if \<not> list_all2 (=) (rev (sort ka)) (rev (sort kb)) then Some False
              else deep_values rec h a b (rev (sort ka)))"

fun deepEqual :: "nat \<Rightarrow> host \<Rightarrow> heap \<Rightarrow> hval \<Rightarrow> hval \<Rightarrow> bool option" where
  "deepEqual 0 H h actual expected = None"
| "deepEqual (Suc d) H h actual expected =
     (if h_strict actual expected then Some True
      else if isBuffer h actual \<and> isBuffer h expected then Some (buffers_equal H h actual expected)
      else if util_isDate h actual \<and> util_isDate h expected then Some (dates_equal h actual expected)
      else if util_isRegExp h actual \<and> util_isRegExp h expected then Some (regexps_equal h actual expected)
      else if \<not> util_isObject h actual \<and> \<not> util_isObject h expected then Some (h_loose H actual expected)
      else objEquiv (deepEqual d H h) H h actual expected)"

definition assert_deepEqual :: "nat \<Rightarrow> host \<Rightarrow> heap \<Rightarrow> hval \<Rightarrow> hval \<Rightarrow> hval \<Rightarrow> (thrown + unit) option" where
  "assert_deepEqual d H h actual expected message =
     map_option (\<lambda>same. if \<not> same then Inl (assert_fail H h actual expected message (HStr (lit ''deepEqual''))) else Inr ())
       (deepEqual d H h actual expected)"

definition assert_notDeepEqual :: "nat \<Rightarrow> host \<Rightarrow> heap \<Rightarrow> hval \<Rightarrow> hval \<Rightarrow> hval \<Rightarrow> (thrown + unit) option" where
  "assert_notDeepEqual d H h actual expected message =
     map_option (\<lambda>same. if same then Inl (assert_fail H h actual expected message (HStr (lit ''notDeepEqual''))) else Inr ())
       (deepEqual d H h actual expected)"

section \<open>Expected exceptions\<close>

definition expectedException :: "host \<Rightarrow> heap \<Rightarrow> hval \<Rightarrow> hval \<Rightarrow> thrown + bool" where
  "expectedException H h actual expected =
     (if \<not> h_truthy actual \<or> \<not> h_truthy expected then Inr False
      else case expected of
             HRef i \<Rightarrow>
               if util_isRegExp h expected then Inr (ht_test H i (h_string H actual))
               else if util_isFunction h expected
               then (case ht_instanceof H i actual of
                       Inl e \<Rightarrow> Inl (LanguageError e)
                     | Inr True \<Rightarrow> Inr True
                     | Inr False \<Rightarrow> (case ht_call H i actual of Inl e \<Rightarrow> Inl (Rethrown e) | Inr r \<Rightarrow> Inr (h_strict r (HBool True))))
               else Inl (LanguageError TypeError)
           | _ \<Rightarrow> Inl (LanguageError TypeError))"

definition name_value :: "heap \<Rightarrow> hval \<Rightarrow> hval" where
  "name_value h v = (case class_of h v of Some (FuncObj n) \<Rightarrow> HStr n | _ \<Rightarrow> get_own h v (lit ''name''))"

text \<open>\<open>_throws\<close>, with what the block threw or that it returned.\<close>

definition throws_message :: "host \<Rightarrow> heap \<Rightarrow> hval \<Rightarrow> hval \<Rightarrow> jstring" where
  "throws_message H h expected message =
     (if h_truthy expected \<and> h_truthy (name_value h expected)
      then lit '' ('' @ h_string H (name_value h expected) @ lit '').'' else lit ''.'') @
     (if h_truthy message then lit '' '' @ h_string H message else lit ''.'')"

definition throws_check :: "host \<Rightarrow> heap \<Rightarrow> bool \<Rightarrow> hval \<Rightarrow> hval \<Rightarrow> hval \<Rightarrow> thrown + unit" where
  "throws_check H h shouldThrow actual expected message =
     (if shouldThrow \<and> \<not> h_truthy actual
      then Inl (assert_fail H h actual expected
             (HStr (lit ''Missing expected exception'' @ throws_message H h expected message)) HUndef)
      else if \<not> shouldThrow
      then bindE (expectedException H h actual expected) (\<lambda>b.
             if b then Inl (assert_fail H h actual expected
                              (HStr (lit ''Got unwanted exception'' @ throws_message H h expected message)) HUndef)
             else if h_truthy actual then Inl (Rethrown actual) else Inr ())
      else if h_truthy expected
      then bindE (expectedException H h actual expected) (\<lambda>b. if \<not> b then Inl (Rethrown actual) else Inr ())
      else Inr ())"

definition throws_common :: "host \<Rightarrow> heap \<Rightarrow> bool \<Rightarrow> hval + unit \<Rightarrow> hval \<Rightarrow> hval \<Rightarrow> thrown + unit" where
  "throws_common H h shouldThrow block expected message =
     (let actual = (case block of Inl e \<Rightarrow> e | Inr _ \<Rightarrow> HUndef)
      in if util_isString expected then throws_check H h shouldThrow actual HNull expected
         else throws_check H h shouldThrow actual expected message)"

definition assert_throws :: "host \<Rightarrow> heap \<Rightarrow> hval + unit \<Rightarrow> hval \<Rightarrow> hval \<Rightarrow> thrown + unit" where
  "assert_throws H h block error message = throws_common H h True block error message"

definition assert_doesNotThrow :: "host \<Rightarrow> heap \<Rightarrow> hval + unit \<Rightarrow> hval \<Rightarrow> hval \<Rightarrow> thrown + unit" where
  "assert_doesNotThrow H h block error message = throws_common H h False block error message"

section \<open>The relation that the deep comparison decides\<close>

text \<open>The pairs for which the members count: no other rule of the comparison applies to them.\<close>

definition by_members :: "heap \<Rightarrow> hval \<Rightarrow> hval \<Rightarrow> bool" where
  "by_members h a b \<longleftrightarrow>
     (util_isObject h a \<or> util_isObject h b) \<and> \<not> (isBuffer h a \<and> isBuffer h b) \<and>
     \<not> (util_isDate h a \<and> util_isDate h b) \<and> \<not> (util_isRegExp h a \<and> util_isRegExp h b)"

text \<open>
  Two values are the same when they can be shown to be, rule by rule; the order of keys does not matter. The rules are the comments 7.1 to 7.5
  of the source, but for one thing: two dates, or two regular expressions, are compared as such only when both are, where the comments 7.2
  and 7.3 ask the other value to be one as well. A date and an object that is none are compared by their keys.
\<close>

inductive deep_same :: "host \<Rightarrow> heap \<Rightarrow> hval \<Rightarrow> hval \<Rightarrow> bool" for H h where
  same_identical: "h_strict a b \<Longrightarrow> deep_same H h a b"
| same_buffers: "\<lbrakk>isBuffer h a; isBuffer h b; buffers_equal H h a b\<rbrakk> \<Longrightarrow> deep_same H h a b"
| same_dates: "\<lbrakk>\<not> (isBuffer h a \<and> isBuffer h b); dates_equal h a b\<rbrakk> \<Longrightarrow> deep_same H h a b"
| same_regexps: "\<lbrakk>\<not> (isBuffer h a \<and> isBuffer h b); regexps_equal h a b\<rbrakk> \<Longrightarrow> deep_same H h a b"
| same_simple: "\<lbrakk>\<not> util_isObject h a; \<not> util_isObject h b; h_loose H a b\<rbrakk> \<Longrightarrow> deep_same H h a b"
| same_members:
    "\<lbrakk>is_ref a; is_ref b; by_members h a b;
      h_strict (get_own h a (lit ''prototype'')) (get_own h b (lit ''prototype'')); isArguments h a = isArguments h b;
      set (compared_keys H h a) = set (compared_keys H h b);
      \<forall>k \<in> set (compared_keys H h a). deep_same H h (get_own h a k) (get_own h b k)\<rbrakk> \<Longrightarrow> deep_same H h a b"

text \<open>No object lists a key twice.\<close>

definition keys_once :: "heap \<Rightarrow> bool" where
  "keys_once h \<longleftrightarrow> list_all (\<lambda>obj. distinct (map fst (ho_props obj))) h"

lemma own_names_distinct: "keys_once h \<Longrightarrow> distinct (own_names h v)"
  by (auto simp: keys_once_def own_names_def props_of_def list_all_length split: hval.split)

lemma object_keys_distinct: "keys_once h \<Longrightarrow> distinct (object_keys h v)"
  using own_names_distinct [of h v] unfolding object_keys_def own_names_def by (rule distinct_map_filter)

lemma inj_nat_digits: "inj nat_digits"
  by (metis digits_value_nat_digits injI of_nat_eq_iff)

lemma compared_keys_distinct: "keys_once h \<Longrightarrow> distinct (compared_keys H h v)"
  by (simp add: compared_keys_def indices_below_def object_keys_distinct distinct_map inj_on_subset [OF inj_nat_digits])

lemma sorted_keys_match:
  assumes "distinct (ka :: jstring list)" "distinct kb"
  shows "length ka = length kb \<and> list_all2 (=) (rev (sort ka)) (rev (sort kb)) \<longleftrightarrow> set ka = set kb"
proof
  assume "length ka = length kb \<and> list_all2 (=) (rev (sort ka)) (rev (sort kb))"
  then have "sort ka = sort kb"
    by (simp add: list.rel_eq)
  then show "set ka = set kb"
    by (metis set_sort)
next
  assume "set ka = set kb"
  then have "sort ka = sort kb"
    using assms by (intro sorted_distinct_set_unique) simp_all
  moreover have "length ka = length kb"
    using assms \<open>set ka = set kb\<close> by (metis distinct_card)
  ultimately show "length ka = length kb \<and> list_all2 (=) (rev (sort ka)) (rev (sort kb))"
    by (simp add: list.rel_eq)
qed

lemma deep_values_decides:
  assumes "deep_values rec h a b ks = Some r"
    "\<And>x y s. rec x y = Some s \<Longrightarrow> s = S x y"
  shows "r \<longleftrightarrow> (\<forall>k \<in> set ks. S (get_own h a k) (get_own h b k))"
  using assms(1)
proof (induction ks)
  case (Cons k ks)
  then show ?case
    using assms(2) [of "get_own h a k" "get_own h b k"] by (auto split: option.splits bool.splits)
qed simp

lemma objEquiv_decides:
  assumes "objEquiv rec H h a b = Some r" "keys_once h" "\<And>x y s. rec x y = Some s \<Longrightarrow> s = S x y" "\<not> h_strict a b"
  shows "r \<longleftrightarrow> is_ref a \<and> is_ref b \<and> h_strict (get_own h a (lit ''prototype'')) (get_own h b (lit ''prototype'')) \<and>
    isArguments h a = isArguments h b \<and> set (compared_keys H h a) = set (compared_keys H h b) \<and>
    (\<forall>k \<in> set (compared_keys H h a). S (get_own h a k) (get_own h b k))"
proof -
  note m = sorted_keys_match [OF compared_keys_distinct compared_keys_distinct, OF assms(2) assms(2), of H a H b]
  have "r \<longleftrightarrow> (\<forall>k \<in> set (compared_keys H h a). S (get_own h a k) (get_own h b k))"
    if "deep_values rec h a b (rev (sort (compared_keys H h a))) = Some r"
    using deep_values_decides [OF that assms(3)] by simp
  then show ?thesis
    using assms(1,4) m
    by (auto simp: objEquiv_def util_isNullOrUndefined_def util_isPrimitive_def h_nullish_def is_ref_def Let_def split: if_splits)
qed

lemma dates_equal_kinds: "dates_equal h a b \<Longrightarrow> util_isDate h a \<and> util_isDate h b"
  by (cases "class_of h a"; cases "the (class_of h a)"; cases "class_of h b"; cases "the (class_of h b)")
    (simp_all add: dates_equal_def util_isDate_def)

lemma regexps_equal_kinds: "regexps_equal h a b \<Longrightarrow> util_isRegExp h a \<and> util_isRegExp h b"
  by (cases "class_of h a"; cases "the (class_of h a)"; cases "class_of h b"; cases "the (class_of h b)")
    (simp_all add: regexps_equal_def util_isRegExp_def)

lemma date_not_regexp: "util_isDate h v \<Longrightarrow> \<not> util_isRegExp h v"
  unfolding util_isDate_def util_isRegExp_def by (simp split: option.splits hclass.splits)

lemma special_isObject: "isBuffer h v \<or> util_isDate h v \<or> util_isRegExp h v \<Longrightarrow> util_isObject h v"
  by (cases v) (auto simp: isBuffer_def util_isDate_def util_isRegExp_def util_isObject_def util_isFunction_def is_function_def
      is_ref_def class_of_def split: hclass.splits if_splits)

text \<open>Each branch of the comparison that does not look at members agrees with the relation.\<close>

lemma deep_same_special:
  "\<lbrakk>\<not> h_strict a b; isBuffer h a; isBuffer h b\<rbrakk> \<Longrightarrow> deep_same H h a b \<longleftrightarrow> buffers_equal H h a b"
  "\<lbrakk>\<not> h_strict a b; \<not> (isBuffer h a \<and> isBuffer h b); util_isDate h a; util_isDate h b\<rbrakk> \<Longrightarrow>
     deep_same H h a b \<longleftrightarrow> dates_equal h a b"
  "\<lbrakk>\<not> h_strict a b; \<not> (isBuffer h a \<and> isBuffer h b); util_isRegExp h a; util_isRegExp h b\<rbrakk> \<Longrightarrow>
     deep_same H h a b \<longleftrightarrow> regexps_equal h a b"
  "\<lbrakk>\<not> h_strict a b; \<not> util_isObject h a; \<not> util_isObject h b\<rbrakk> \<Longrightarrow> deep_same H h a b \<longleftrightarrow> h_loose H a b"
  using special_isObject [of h a] special_isObject [of h b] dates_equal_kinds [of h a b] regexps_equal_kinds [of h a b]
    date_not_regexp [of h a]
  by (subst deep_same.simps, simp add: by_members_def; blast)+

lemma deepEqual_decides:
  assumes "keys_once h" "deepEqual d H h a b = Some r"
  shows "r \<longleftrightarrow> deep_same H h a b"
  using assms(2)
proof (induction d arbitrary: a b r)
  case (Suc d)
  show ?case
  proof (cases "h_strict a b \<or> \<not> by_members h a b")
    case True
    then show ?thesis
      using Suc.prems deep_same_special [of a b h H] same_identical [of a b H h]
      by (simp add: by_members_def split: if_splits; blast)
  next
    case False
    then have "objEquiv (deepEqual d H h) H h a b = Some r"
      using Suc.prems by (simp add: by_members_def split: if_splits)
    then have "r \<longleftrightarrow> is_ref a \<and> is_ref b \<and> h_strict (get_own h a (lit ''prototype'')) (get_own h b (lit ''prototype'')) \<and>
      isArguments h a = isArguments h b \<and> set (compared_keys H h a) = set (compared_keys H h b) \<and>
      (\<forall>k \<in> set (compared_keys H h a). deep_same H h (get_own h a k) (get_own h b k))"
      using False by (intro objEquiv_decides [OF _ assms(1) Suc.IH]) auto
    moreover have "\<not> (isBuffer h a \<and> isBuffer h b)" "\<not> dates_equal h a b" "\<not> regexps_equal h a b"
      "util_isObject h a \<or> util_isObject h b"
      using False dates_equal_kinds [of h a b] regexps_equal_kinds [of h a b] by (auto simp: by_members_def)
    ultimately show ?thesis
      using False by (subst deep_same.simps) blast
  qed
qed simp

section \<open>Values without cycles\<close>

text \<open>
  A heap without cycles: every object has a rank, greater than that of each object in its properties. The rank bounds the depth of a
  value.
\<close>

definition ranked :: "heap \<Rightarrow> (nat \<Rightarrow> nat) \<Rightarrow> bool" where
  "ranked h rank \<longleftrightarrow> (\<forall>i k j. get_own h (HRef i) k = HRef j \<longrightarrow> rank j < rank i)"

definition value_rank :: "(nat \<Rightarrow> nat) \<Rightarrow> hval \<Rightarrow> nat" where
  "value_rank rank v = (case v of HRef i \<Rightarrow> Suc (rank i) | _ \<Rightarrow> 0)"

lemma ranked_get: "ranked h rank \<Longrightarrow> value_rank rank (get_own h (HRef i) k) \<le> rank i"
  unfolding ranked_def value_rank_def by (auto simp: Suc_le_eq split: hval.split)

lemma deep_values_returns:
  "(\<And>k. rec (get_own h a k) (get_own h b k) \<noteq> None) \<Longrightarrow> deep_values rec h a b ks \<noteq> None"
proof (induction ks)
  case (Cons k ks)
  then obtain r where "rec (get_own h a k) (get_own h b k) = Some r"
    by blast
  then show ?case
    using Cons by (cases r) auto
qed simp

lemma objEquiv_returns:
  assumes "\<And>k. is_ref a \<Longrightarrow> rec (get_own h a k) (get_own h b k) \<noteq> None"
  shows "objEquiv rec H h a b \<noteq> None"
  using assms deep_values_returns [of rec h a b] by (auto simp: objEquiv_def util_isPrimitive_def Let_def)

lemma deepEqual_returns:
  assumes "ranked h rank" "value_rank rank a < d"
  shows "deepEqual d H h a b \<noteq> None"
  using assms(2)
proof (induction d arbitrary: a b)
  case (Suc d)
  have "objEquiv (deepEqual d H h) H h a b \<noteq> None"
  proof (rule objEquiv_returns, rule Suc.IH)
    fix k
    assume "is_ref a"
    then obtain i where "a = HRef i"
      by (auto simp: is_ref_def split: hval.splits)
    then show "value_rank rank (get_own h a k) < d"
      using Suc.prems ranked_get [OF assms(1), of i k] by (simp add: value_rank_def)
  qed
  then show ?case
    by auto
qed simp

text \<open>The message of an assertion error can be made of such a value: \<open>JSON.stringify\<close> meets no object twice on its way down.\<close>

lemma mapE_id_Inl: "mapE id rs = Inl e \<Longrightarrow> Inl e \<in> set rs"
proof (induction rs)
  case (Cons r rs)
  then show ?case
    by (cases r; cases "mapE id rs") (auto simp: id_def)
qed simp

lemma those_Some_set: "those xs = Some ys \<Longrightarrow> y \<in> set ys \<Longrightarrow> Some y \<in> set xs"
  by (induction xs arbitrary: ys) (auto split: option.splits)

lemma collected_no_error:
  assumes "those (map f xs) = Some rs" "\<And>x e. f x \<noteq> Some (Inl e)"
  shows "mapE id rs \<noteq> Inl e"
proof
  assume "mapE id rs = Inl e"
  then have "Some (Inl e) \<in> set (map f xs)"
    by (rule those_Some_set [OF assms(1) mapE_id_Inl])
  then show False
    using assms(2) by (metis (no_types, lifting) imageE set_map)
qed

lemma bindE_Inl_iff: "bindE r (\<lambda>x. Inr (g x)) = Inl e \<longleftrightarrow> r = Inl e"
  by (cases r) auto

lemma replacer_ref: "replacer H h v = HRef i \<Longrightarrow> v = HRef i"
  by (auto simp: replacer_def split: if_splits)

text \<open>A \<open>toJSON\<close> that gives a primitive value, as that of a date does.\<close>

definition simple_toJSON :: "host \<Rightarrow> bool" where
  "simple_toJSON H \<longleftrightarrow> (\<forall>i w. ht_toJSON H i = Some w \<longrightarrow> \<not> is_ref w)"

lemma apply_toJSON_ref: "simple_toJSON H \<Longrightarrow> apply_toJSON H v = HRef i \<Longrightarrow> v = HRef i"
  by (cases v) (fastforce simp: apply_toJSON_def simple_toJSON_def is_ref_def split: option.splits)+

lemma json_value_ranked:
  assumes "ranked h rank" "simple_toJSON H" "\<And>j. HRef j \<in> set stack \<Longrightarrow> value_rank rank v \<le> rank j"
  shows "json_value d (replacer H h) H h stack v \<noteq> Some (Inl e)"
  using assms(3)
proof (induction d arbitrary: stack v e)
  case (Suc d)
  show ?case
  proof (cases "replacer H h (apply_toJSON H v)")
    case (HRef i)
    then have vi: "v = HRef i"
      by (rule apply_toJSON_ref [OF assms(2) replacer_ref])
    then have "HRef i \<notin> set stack"
      using Suc.prems [of i] by (auto simp: value_rank_def)
    have sub: "json_value d (replacer H h) H h (stack @ [HRef i]) (get_own h (HRef i) k) \<noteq> Some (Inl e')" for k e'
    proof (rule Suc.IH)
      fix j
      assume "HRef j \<in> set (stack @ [HRef i])"
      then show "value_rank rank (get_own h (HRef i) k) \<le> rank j"
        using Suc.prems [of j] vi ranked_get [OF assms(1), of i k] by (auto simp: value_rank_def)
    qed
    have "mapE id rs \<noteq> Inl e'"
      if "those (map (\<lambda>k. json_value d (replacer H h) H h (stack @ [HRef i]) (get_own h (HRef i) k)) ks) = Some rs" for ks rs e'
      by (rule collected_no_error [OF that sub])
    moreover have "mapE id rs \<noteq> Inl e'"
      if "those (map (\<lambda>j. json_value d (replacer H h) H h (stack @ [HRef i]) (get_own h (HRef i) (nat_digits j))) js) = Some rs"
      for js rs e'
      by (rule collected_no_error [OF that sub])
    ultimately show ?thesis
      using HRef \<open>HRef i \<notin> set stack\<close>
      by (auto simp: bindE_Inl_iff split: option.splits hclass.splits if_splits)
  qed (auto split: xnum.splits)
qed simp

lemma json_stringify_ranked:
  assumes "ranked h rank" "simple_toJSON H"
  shows "\<exists>t. json_stringify (replacer H h) H h v = Inr t"
proof -
  obtain r where "json_value (Suc (length h)) (replacer H h) H h [] v = Some r"
    using json_value_returns [of h "[]" "Suc (length h)" "replacer H h" H v] by auto
  then show ?thesis
    using json_value_ranked [OF assms, of "[]" v "Suc (length h)"] by (cases r) (auto simp: json_stringify_def)
qed

text \<open>An assertion that fails as it should: with an assertion error that carries both values and the operator.\<close>

definition fails_with :: "thrown + unit \<Rightarrow> hval \<Rightarrow> hval \<Rightarrow> string \<Rightarrow> bool" where
  "fails_with r actual expected op \<longleftrightarrow>
     (case r of
        Inl (AssertionFailed ae) \<Rightarrow> ae_actual ae = actual \<and> ae_expected ae = expected \<and> ae_operator ae = HStr (lit op)
      | _ \<Rightarrow> False)"

lemma assert_fail_fails_with:
  assumes "h_truthy message \<or> ranked h rank \<and> simple_toJSON H"
  shows "fails_with (Inl (assert_fail H h actual expected message (HStr (lit op)))) actual expected op"
proof (cases "h_truthy message")
  case False
  then obtain s t where "json_stringify (replacer H h) H h actual = Inr s" "json_stringify (replacer H h) H h expected = Inr t"
    using assms json_stringify_ranked by metis
  then show ?thesis
    using False by (simp add: fails_with_def assert_fail_def AssertionError_def getMessage_def)
qed (simp add: fails_with_def assert_fail_def AssertionError_def)

text \<open>
  C36. On values without cycles the deep comparison ends, and \<open>assert.deepEqual\<close> and \<open>assert.notDeepEqual\<close> decide one relation: the values are
  identical, or two equal buffers, dates or regular expressions, or loosely equal simple values, or otherwise objects with the same
  set of keys, in any order, and the same values under them (so the kind of an object does not count where the other is of another
  kind, unlike what the comments 7.2 and 7.3 ask for). One of the two assertions returns, and the other throws an assertion error with both
  values and its operator.
\<close>

theorem assert_deepEqual_correct:
  assumes "keys_once h" "ranked h rank" "value_rank rank actual < d" "simple_toJSON H"
  shows "\<exists>r s. assert_deepEqual d H h actual expected message = Some r \<and> assert_notDeepEqual d H h actual expected message = Some s \<and>
    (if deep_same H h actual expected then r = Inr () \<and> fails_with s actual expected ''notDeepEqual''
     else s = Inr () \<and> fails_with r actual expected ''deepEqual'')"
proof -
  obtain x where "deepEqual d H h actual expected = Some x"
    using deepEqual_returns [OF assms(2,3), of H expected] by blast
  moreover from this have "x \<longleftrightarrow> deep_same H h actual expected"
    by (rule deepEqual_decides [OF assms(1)])
  ultimately show ?thesis
    using assert_fail_fails_with [of message h rank H] assms(2,4)
    by (auto simp: assert_deepEqual_def assert_notDeepEqual_def)
qed

text \<open>Two objects with the same keys in another order, one level deep.\<close>

definition data_prop :: "hval \<Rightarrow> hprop" where
  "data_prop v = \<lparr>hp_enum = True, hp_desc = Data v\<rparr>"

definition pair_heap :: heap where
  "pair_heap =
     [\<lparr>ho_class = PlainObj, ho_props = [(lit ''a'', data_prop (HNum (Fin 1))), (lit ''b'', data_prop (HStr (lit ''x'')))]\<rparr>,
      \<lparr>ho_class = PlainObj, ho_props = [(lit ''b'', data_prop (HStr (lit ''x''))), (lit ''a'', data_prop (HNum (Fin 1)))]\<rparr>]"

lemma pair_heap_ranked: "ranked pair_heap (\<lambda>i. 0)"
  by (auto simp: ranked_def get_own_def props_of_def pair_heap_def data_prop_def nth_Cons' split: option.splits if_splits)

lemma pair_heap_same: "deepEqual 2 silent_host pair_heap (HRef 0) (HRef 1) = Some True"
  by code_simp

theorem assert_deepEqual_correct_witness:
  "assert_deepEqual 2 silent_host pair_heap (HRef 0) (HRef 1) HUndef = Some (Inr ())"
proof -
  have "keys_once pair_heap"
    by (simp add: keys_once_def pair_heap_def lit_def)
  moreover from this have "deep_same silent_host pair_heap (HRef 0) (HRef 1)"
    using deepEqual_decides pair_heap_same by blast
  ultimately show ?thesis
    using assert_deepEqual_correct [OF _ pair_heap_ranked, of "HRef 0" 2 silent_host "HRef 1" HUndef]
    by (auto simp: value_rank_def simple_toJSON_def silent_host_def)
qed

section \<open>Values with cycles, and values of different kinds\<close>

definition twin_heap :: heap where
  "twin_heap =
     [\<lparr>ho_class = PlainObj, ho_props = [(lit ''me'', data_prop (HRef 0))]\<rparr>,
      \<lparr>ho_class = PlainObj, ho_props = [(lit ''me'', data_prop (HRef 1))]\<rparr>]"

lemma twin_facts:
  "get_own twin_heap (HRef 0) (lit ''me'') = HRef 0" "get_own twin_heap (HRef (Suc 0)) (lit ''me'') = HRef (Suc 0)"
  "object_keys twin_heap (HRef 0) = [lit ''me'']" "object_keys twin_heap (HRef (Suc 0)) = [lit ''me'']"
  "get_own twin_heap (HRef 0) (lit ''prototype'') = HUndef" "get_own twin_heap (HRef (Suc 0)) (lit ''prototype'') = HUndef"
  "class_of twin_heap (HRef 0) = Some PlainObj" "class_of twin_heap (HRef (Suc 0)) = Some PlainObj"
  "\<not> isBuffer twin_heap (HRef 0)" "length twin_heap = 2"
  by code_simp+

lemmas kind_defs = util_isDate_def util_isRegExp_def util_isObject_def util_isFunction_def is_function_def
  util_isPrimitive_def util_isNullOrUndefined_def isArguments_def is_ref_def h_nullish_def

text \<open>
  The deep comparison of two objects that contain themselves never returns, whatever the number of nested calls allowed; and where such
  a value fails any other assertion without a message, the text of the message cannot be made, and what is thrown is the
  \<open>TypeError\<close> of \<open>JSON.stringify\<close>, not an assertion error.
\<close>

theorem cyclic_values:
  "deepEqual d H twin_heap (HRef 0) (HRef 1) = None \<and>
   assert_strictEqual silent_host twin_heap (HRef 0) (HRef 1) HUndef = Inl (LanguageError TypeError)"
proof
  show "deepEqual d H twin_heap (HRef 0) (HRef 1) = None"
    by (induction d) (simp_all add: objEquiv_def compared_keys_def kind_defs twin_facts)
  show "assert_strictEqual silent_host twin_heap (HRef 0) (HRef 1) HUndef = Inl (LanguageError TypeError)"
    by (simp add: assert_strictEqual_def assert_fail_def AssertionError_def getMessage_def json_stringify_def replacer_def kind_defs
        util_isUndefined_def apply_toJSON_def silent_host_def twin_facts numeral_2_eq_2)
qed

text \<open>
  The kinds of two objects are compared only when both are buffers, both dates or both regular expressions: a date, or a regular
  expression, without keys of its own is deeply equal to a plain object without keys, where the comments 7.2 and 7.3 ask for another
  date or regular expression.
\<close>

theorem deepEqual_ignores_kind:
  assumes "a \<noteq> b" "class_of h a = Some PlainObj" "\<not> isBuffer h a" "util_isDate h b \<or> util_isRegExp h b"
    "object_keys h a = []" "object_keys h b = []"
    "get_own h a (lit ''prototype'') = HUndef" "get_own h b (lit ''prototype'') = HUndef"
  shows "deepEqual (Suc d) H h a b = Some True"
proof -
  obtain i j where "a = HRef i" "b = HRef j"
    using assms(2,4) by (cases a; cases b) (auto simp: class_of_def util_isDate_def util_isRegExp_def)
  moreover have "\<not> isArguments h b" "\<not> isArguments h a"
    using assms(2,4) by (auto simp: isArguments_def util_isDate_def util_isRegExp_def)
  moreover have "\<not> util_isDate h a" "\<not> util_isRegExp h a"
    using assms(2) by (simp_all add: util_isDate_def util_isRegExp_def)
  ultimately show ?thesis
    using assms by (simp add: objEquiv_def compared_keys_def util_isObject_def
        util_isFunction_def is_function_def is_ref_def util_isPrimitive_def util_isNullOrUndefined_def h_nullish_def)
qed

definition date_heap :: heap where
  "date_heap = [\<lparr>ho_class = PlainObj, ho_props = []\<rparr>, \<lparr>ho_class = DateObj (Fin 0), ho_props = []\<rparr>]"

theorem deepEqual_ignores_kind_witness: "deepEqual (Suc 0) silent_host date_heap (HRef 0) (HRef 1) = Some True"
  by (rule deepEqual_ignores_kind)
    (simp_all add: date_heap_def class_of_def isBuffer_def has_function_def own_names_def object_keys_def props_of_def get_own_def
      util_isDate_def)

section \<open>Expected exceptions\<close>

lemma expectedException_falsy: "\<not> h_truthy actual \<Longrightarrow> expectedException H h actual expected = Inr False"
  by (simp add: expectedException_def)

text \<open>
  What was thrown is what was asked for: a regular expression finds a match in its text, or it is an instance of the function, or
  the function, called with it, answers \<open>true\<close>.
\<close>

definition asked_for :: "host \<Rightarrow> heap \<Rightarrow> hval \<Rightarrow> hval \<Rightarrow> bool" where
  "asked_for H h error e =
     (case (error, class_of h error) of
        (HRef i, Some (RegObj src g m ic li)) \<Rightarrow> ht_test H i (h_string H e)
      | (HRef i, Some (FuncObj nm)) \<Rightarrow>
          ht_instanceof H i e = Inr True \<or> ht_instanceof H i e = Inr False \<and> ht_call H i e = Inr (HBool True)
      | _ \<Rightarrow> False)"

lemma strict_true: "h_strict r (HBool True) \<longleftrightarrow> r = HBool True"
  by (cases r) auto

lemma expectedException_True: "h_truthy e \<Longrightarrow> expectedException H h e error = Inr True \<longleftrightarrow> asked_for H h error e"
  by (cases error)
    (auto simp: expectedException_def asked_for_def util_isRegExp_def util_isFunction_def is_function_def strict_true
      split: option.splits hclass.splits sum.splits bool.splits)

text \<open>An assertion error with a message of its own.\<close>

definition fails_saying :: "thrown + unit \<Rightarrow> string \<Rightarrow> hval \<Rightarrow> bool" where
  "fails_saying r text actual =
     (case r of
        Inl (AssertionFailed ae) \<Rightarrow>
          ae_actual ae = actual \<and> (case ae_message ae of HStr m \<Rightarrow> prefix (lit text) m | _ \<Rightarrow> False)
      | _ \<Rightarrow> False)"

lemma assert_fail_saying: "lit text \<noteq> [] \<Longrightarrow> fails_saying (Inl (assert_fail H h actual expected (HStr (lit text @ m)) op)) text actual"
  by (simp add: fails_saying_def assert_fail_def AssertionError_def)

text \<open>
  C39. \<open>assert.throws\<close> returns exactly when the block threw a truthy value that is what was asked for, if anything was: an error whose text
  the regular expression matches, an instance of the constructor, or a value for which the function answers \<open>true\<close> (a text in the place of
  the expectation is the message); if the block returned or threw a falsy value, it fails for the missing exception.
  \<open>assert.doesNotThrow\<close> returns exactly when the block returned or threw a falsy value: an exception such as \<open>0\<close>, \<open>''\<close> or \<open>null\<close>
  counts as none; it fails for the unwanted exception if that is what was asked for.
\<close>

theorem throws_assertions:
  "(assert_throws H h block error message = Inr () \<longleftrightarrow>
     (\<exists>e. block = Inl e \<and> h_truthy e \<and> (if h_truthy error \<and> \<not> is_str error then asked_for H h error e else True))) \<and>
   (assert_doesNotThrow H h block error message = Inr () \<longleftrightarrow> (case block of Inl e \<Rightarrow> \<not> h_truthy e | Inr u \<Rightarrow> True)) \<and>
   (case block of
      Inl e \<Rightarrow>
        if \<not> h_truthy e then fails_saying (assert_throws H h block error message) ''Missing expected exception'' e
        else if asked_for H h error e then fails_saying (assert_doesNotThrow H h block error message) ''Got unwanted exception'' e
        else True
    | Inr u \<Rightarrow> fails_saying (assert_throws H h block error message) ''Missing expected exception'' HUndef)"
proof (intro conjI)
  note defs = throws_common_def throws_check_def util_isString_def Let_def
  have bind: "bindE r (\<lambda>b. if \<not> b then Inl x else Inr ()) = Inr () \<longleftrightarrow> r = Inr True" for r and x :: thrown
    by (cases r) auto
  show "assert_throws H h block error message = Inr () \<longleftrightarrow>
     (\<exists>e. block = Inl e \<and> h_truthy e \<and> (if h_truthy error \<and> \<not> is_str error then asked_for H h error e else True))"
    by (cases block) (auto simp: assert_throws_def defs bind expectedException_True)
  have bind': "bindE r (\<lambda>b. if b then Inl x else Inl y) \<noteq> Inr ()" for r and x y :: thrown
    by (cases r) auto
  show "assert_doesNotThrow H h block error message = Inr () \<longleftrightarrow> (case block of Inl e \<Rightarrow> \<not> h_truthy e | Inr u \<Rightarrow> True)"
    by (cases block) (auto simp: assert_doesNotThrow_def defs bind' expectedException_falsy split: if_splits)
  have ne: "lit ''Missing expected exception'' \<noteq> []" "lit ''Got unwanted exception'' \<noteq> []" by (simp_all add: lit_def)
  have "fails_saying (assert_throws H h block error message) ''Missing expected exception'' (case block of Inl e \<Rightarrow> e | Inr u \<Rightarrow> HUndef)"
    if "\<not> h_truthy (case block of Inl e \<Rightarrow> e | Inr u \<Rightarrow> HUndef)"
    using that assert_fail_saying [OF ne(1)] by (simp add: assert_throws_def defs)
  moreover have "fails_saying (assert_doesNotThrow H h (Inl e) error message) ''Got unwanted exception'' e"
    if e: "h_truthy e" "asked_for H h error e" for e
  proof -
    have "\<not> is_str error" using e(2) by (auto simp: asked_for_def is_str_def split: hval.splits)
    moreover have "expectedException H h e error = Inr True" using e expectedException_True by blast
    ultimately show ?thesis using assert_fail_saying [OF ne(2)] by (simp add: assert_doesNotThrow_def defs)
  qed
  ultimately show "case block of
      Inl e \<Rightarrow>
        if \<not> h_truthy e then fails_saying (assert_throws H h block error message) ''Missing expected exception'' e
        else if asked_for H h error e then fails_saying (assert_doesNotThrow H h block error message) ''Got unwanted exception'' e
        else True
    | Inr u \<Rightarrow> fails_saying (assert_throws H h block error message) ''Missing expected exception'' HUndef"
    by (cases block) simp_all
qed

text \<open>The other assertions return exactly when their condition holds, and otherwise throw what \<open>fail\<close> makes of it.\<close>

lemma simple_assertions:
  assumes "h_truthy message \<or> ranked h rank \<and> simple_toJSON H"
  shows "if h_truthy v then assert_ok H h v message = Inr () else fails_with (assert_ok H h v message) v (HBool True) ''==''"
    "if h_loose H a b
     then assert_equal H h a b message = Inr () \<and> fails_with (assert_notEqual H h a b message) a b ''!=''
     else assert_notEqual H h a b message = Inr () \<and> fails_with (assert_equal H h a b message) a b ''==''"
    "if h_strict a b
     then assert_strictEqual H h a b message = Inr () \<and> fails_with (assert_notStrictEqual H h a b message) a b ''!==''
     else assert_notStrictEqual H h a b message = Inr () \<and> fails_with (assert_strictEqual H h a b message) a b ''===''"
  using assert_fail_fails_with [OF assms]
  by (simp_all add: assert_ok_def assert_equal_def assert_notEqual_def assert_strictEqual_def assert_notStrictEqual_def)

end
