(* ===== verification/Spec2Isabelle.thy ===== *)
theory Spec2Isabelle
  imports Shell Theme Schema_Loader Dev_Server Locale_Bundles Wordcut_Core Process_Queue Process_Timers Once_Inflight
    Minimatch_Defaults Underscore_Functions Underscore_Objects Underscore_Equal Glob_Async_Results Event_Emitter Assert_Module
begin

text \<open>
  A verification library for the JavaScript of the AWO ERP front end.

  The program. The browser loads one script, \<open>src/awo/web.old/src/main.js\<close>, a thin client for pages
  that the back end describes as JSON. It keeps an application shell (sidebar, breadcrumb, content
  area), asks \<open>/api/v1/ui/nav\<close> for the menu, turns every browser path \<open>/ui/...\<close> into an endpoint
  \<open>/api/v1/ui/...\<close>, fetches the page and hands it to the AMIS SDK, and gives AMIS a request function
  that translates between the two worlds. Beside it stand a schema loader
  (\<open>src/web/utils/schema-loader.js\<close>), a plugin of the development server
  (\<open>src/awo/web.old/vite.config.js\<close>), the English message bundles (\<open>src/web/utils/locale-en.js\<close>,
  \<open>src/awo/public/locales/en.js\<close> and their copies), and the script of the documentation search
  (\<open>src/site/assets/javascripts/lunr/wordcut.js\<close>): the Thai word segmentation and the packages bundled
  with it, which call each other (glob walks with minimatch, minimatch expands braces, the shared requests of
  \<open>inflight\<close> run on the tick queue, the functions of underscore build on its collections).

  How the code is modelled. Strings are lists of UTF-16 code units. A struct is a record, a tagged
  object a datatype, an exception the left summand of a result. Page state is passed explicitly;
  an asynchronous function is cut at every \<open>await\<close> and continued by a later step, so that answers may
  arrive in any order; objects whose sharing matters live in a heap. What the browser, the network,
  the SDK or the clock does is a parameter. Numbers are exact integers, as JavaScript numbers are below
  \<open>2 ^ 53\<close>; where rounding decides, in \<open>_.random\<close>, they are doubles. Loops are total recursions, with these exceptions. \<open>navigate\<close> and the event emitter take the
  depth of the call stack, and running out of it is the \<open>RangeError\<close> of the language: two levels are enough
  for every menu the back end sends (\<open>navigate_total\<close>), and no depth is enough for a menu whose first entry
  has no endpoint (\<open>navigate_diverges\<close>). Brace expansion is a partial function that has the value
  \<^term>\<open>None\<close> where the code does not return (\<open>expand_zero_step_diverges\<close>). Emptying an emitter takes a bound on its
  rounds, since a listener may keep adding listeners.

  The theories.
  \<^item> \<open>JS_Prelude\<close>: strings, \<open>split\<close>, \<open>join\<close> and \<open>indexOf\<close>, exceptions, and two interfaces as locales,
    \<open>invariant_system\<close> (a step relation and its invariant; interpreted by the theme switch, the debug
    panel, the schema loader, the shell, the tick queue, the shared requests, throttling, debouncing and the event
    emitter) and \<open>codec\<close> (a printer and its reader; interpreted by the two escapings, the markup and the
    numerals).
  \<^item> \<open>JS_Value\<close>, \<open>JS_URI\<close>: parsed JSON values, \<open>parseInt\<close>, \<open>String\<close>, and the two URI functions, with
    decoding undoing encoding.
  \<^item> \<open>Routing\<close>: \<open>parseRoute\<close>. The endpoint mirrors the path, and the route can be read back from it.
  \<^item> \<open>Fetcher\<close>: \<open>amisEnv.fetcher\<close>. Pagination, the CSRF header, the reply envelope and every error path.
  \<^item> \<open>Markup\<close>, \<open>Navigation\<close>: \<open>esc\<close>, the menu markup and its tokens, the active entry, the breadcrumb,
    the accordion and the search.
  \<^item> \<open>Debug_Panel\<close>, \<open>Theme\<close>: the two small state machines of the page.
  \<^item> \<open>Shell\<close>: the SDK bootstrap, \<open>loadNav\<close>, \<open>navigate\<close> and its continuations, the listeners and the
    sidebar, as one transition system. The locale \<open>shell_property\<close> shows once that what the primitive changes keep every
    operation keeps; it is interpreted for the invariant and for what the shell remembers of the page it shows. The properties say what a visit does, that
    navigation ends, and what happens with late answers, double clicks and an empty menu.
  \<^item> \<open>Schema_Loader\<close>: the cache, with copies in a heap.
  \<^item> \<open>Path_Module\<close>, \<open>Dev_Server\<close>: path normalisation against its forward reading, and the two file
    middlewares.
  \<^item> \<open>Locale_Tables\<close>, \<open>Locale_Bundles\<close>: the message bundles and how far they agree.
  \<^item> \<open>Wordcut_Dict\<close>, \<open>Wordcut_Rules\<close>, \<open>Wordcut_Core\<close>: the dictionary as a sorted array with binary
    search, the acceptors, the path through the text. Segmentation always returns and loses nothing.
  \<^item> \<open>Process_Queue\<close>, \<open>Process_Timers\<close>, \<open>Once_Inflight\<close>: the \<open>nextTick\<close> queue with its recovery after an exception, against
    a plain queue, how the shim finds its timer functions, and the sharing of running requests.
  \<^item> \<open>Underscore_Values\<close>, \<open>Underscore_Arrays\<close>: the values underscore looks into and its functions on collections and
    arrays: folds, searches from both ends and by bisection, sorting, grouping, shuffling, set operations, flattening,
    zipping. The properties relate each to the operation it is named after.
  \<^item> \<open>Underscore_Functions\<close>: partial application, composition, memoizing, and throttling and debouncing as transition
    systems over a clock, with what they never do and what they eventually do.
  \<^item> \<open>Underscore_Objects\<close>: copying, picking, matching and HTML escaping.
  \<^item> \<open>Underscore_Equal\<close>: the deep comparison \<open>_.isEqual\<close> on values with identity, against the two values looking alike
    (a relation that is kept all the way down). It takes a bound on its nested calls, for which one more than the number of objects is enough.
  \<^item> \<open>Brace_Expansion\<close>: balanced braces, comma lists, sequences and their expansion.
  \<^item> \<open>JS_RegExp\<close>, \<open>Minimatch\<close>, \<open>Minimatch_Defaults\<close>: the regular expressions of the language, from text to match, and the glob
    patterns that are translated to them. For simple patterns the answer is the plain reading of the glob; the search
    for \<open>**\<close> is complete; partial matching and negation mean what they say. Defaults for the options
    win over the options (\<open>defaults_win\<close>).
  \<^item> \<open>Event_Emitter\<close>: listeners as a function or an array, against one list per event, with listeners that call back into the
    emitter.

  \<^item> \<open>Glob_Sync\<close>, \<open>Glob_Caches\<close>, \<open>Glob_Walk\<close>, \<open>Glob_Results\<close>: the options of \<open>glob\<close>, its ignore patterns and caches, and the
    synchronous walk over a file system that is a parameter. On file systems that answer consistently and without links
    (\<open>tidy_fs\<close>) the caches tell the truth, the walk returns once its fuel exceeds a bound given by the patterns and the depth of the
    tree (\<open>need\<close>), its results are the paths the rows describe, and on files they are those that minimatch accepts.
  \<^item> \<open>Glob_Async\<close>, with \<open>Glob_Async_Books\<close>, \<open>Glob_Async_Inv\<close>, \<open>Glob_Async_Steps\<close>, \<open>Glob_Async_Run\<close>, \<open>Glob_Async_Results\<close>: the
    asynchronous walk as a step relation: a stack of calls that are still to be made, requests to the file system that are
    answered in any order, callbacks as values, the requests that \<open>inflight\<close> shares, the tick queue, and the events. An
    invariant says what every call, waiting callback and answer still owes to the rows; the books say that every shared request
    has exactly one answer to come, that the counter \<open>_processing\<close> is the number of calls that will call \<open>done\<close>, and when \<open>end\<close> is
    due; every step goes down in a multiset order, so that the locale \<open>ending_steps\<close> gives the end of all runs. Hence, with
    nothing cached at the start, every run ends, \<open>end\<close> comes once, and its results are those of the synchronous walk. With an
    ignored first directory or a pause this fails (\<open>end_before_other_rows\<close>, \<open>pause_loses_match\<close>).
  \<^item> \<open>JS_Heap\<close>, \<open>Util_Module\<close>, \<open>Assert_Module\<close>: values with identity in a heap of objects, \<open>JSON.stringify\<close>, the printer and the
    formats of \<open>util\<close>, and the assertions with their deep comparison. The printer bounds its nested calls by the size of the heap
    (\<open>inspect_returns\<close>); the comparison of \<open>assert\<close> has no such bound (\<open>cyclic_values\<close>), and on values without cycles needs as many calls
    as their rank.

  Not modelled: the minified SDK and search bundles, configuration data, console output, inline styles that no operation changes;
  of the packages bundled with the segmentation \<open>debuglog\<close> and what concerns prototypes, and of underscore the templates, which
  compile code, and the chaining; and the Go back end, which appears through the replies it sends. The properties of the
  asynchronous walk are about walks from a start without cached answers, without symbolic links and without the options \<open>mark\<close>,
  \<open>nodir\<close> and \<open>realpath\<close>; the model has all of them.
\<close>

section \<open>The endpoint of a page\<close>

text \<open>
  The page the shell requests is the one the router names: a navigation to the path of an entity
  leaves exactly one new request, for the endpoint that mirrors the path.
\<close>

lemma navigate_requests_mirror:
  assumes "navModules s = Some mods" "a \<noteq> []" "slash \<notin> set a" "b \<noteq> []" "slash \<notin> set b"
  shows "pending (fst (navigate pl (Suc d) (ui_path [a, b]) s)) =
    pending s @ [(next_id s, PageFetch (ui_path [a, b]) (lit ''/api/v1'' @ ui_path [a, b]))]"
proof -
  have "segments (strip_ui (ui_path [a, b])) = [a, b]"
    using assms(2-5) by (intro ui_path_segments) auto
  then have "apiUrl (parseRoute (ui_path [a, b])) = Some (lit ''/api/v1'' @ ui_path [a, b])"
    by (simp add: parseRoute_def Let_def api_base_def ui_path_def api_prefix_split)
  moreover have "ui_path [a, b] \<noteq> []" by (simp add: ui_path_def)
  ultimately show ?thesis
    using navigate_page [OF assms(1), of "ui_path [a, b]" _ pl d] by simp
qed

end
